(* ===== verification/Idfs_Prelude.thy ===== *)
theory Idfs_Prelude
  imports Main "HOL-Library.Word" "HOL-Library.Multiset"
begin

text \<open>
  The prelude of the development. It names the model's basic types (bytes, texts), gives the
  memory operations that the C++ code performs on flat buffers (\<open>memcpy\<close> into the middle of a
  buffer, reading a little-endian integer through a cast pointer), the number printers behind
  the \<open>printf\<close> conversions the program uses, and the generic facts on lists and words that the
  component theories share.  Facts that several components rewrite with are collected in
  \<open>layout_simps\<close> (lengths and positions inside buffers) and \<open>print_inj\<close> (injectivity of
  printers).
\<close>

named_theorems layout_simps
named_theorems print_inj

unbundle bit_operations_syntax


section \<open>Bytes and texts\<close>

type_synonym byte = "8 word"
type_synonym bytes = "byte list"

text \<open>
  A \<open>char\<close> of the program is one byte.  Texts (paths, XML, configuration lines) are
  \<^typ>\<open>string\<close>s, binary buffers are \<^typ>\<open>bytes\<close>; the two conversions below are the identity of C.
\<close>

definition byte_of :: "char \<Rightarrow> byte" where
  "byte_of c = of_char c"

definition char_of_byte :: "byte \<Rightarrow> char" where
  "char_of_byte b = char_of (unat b)"

definition bytes_of :: "string \<Rightarrow> bytes" where
  "bytes_of s = map byte_of s"

definition text_of :: "bytes \<Rightarrow> string" where
  "text_of bs = map char_of_byte bs"

lemma unat_byte_of: "unat (byte_of c) = of_char c"
proof -
  have "byte_of c = of_nat (of_char c)" by (simp add: byte_of_def of_nat_of_char)
  moreover have "(of_char c :: nat) mod 256 = of_char c" by (rule of_char_mod_256)
  ultimately show ?thesis by (simp add: unat_of_nat)
qed

lemma char_of_byte_of [simp]: "char_of_byte (byte_of c) = c"
  by (simp add: char_of_byte_def unat_byte_of)

lemma byte_of_char_of_byte [simp]: "byte_of (char_of_byte b) = b"
proof -
  have "unat b < 256" using unsigned_less [of b] by simp
  then have "unat (byte_of (char_of_byte b)) = unat b"
    by (simp add: unat_byte_of char_of_byte_def)
  then show ?thesis by (rule unsigned_word_eqI)
qed

lemma text_of_bytes_of [simp]: "text_of (bytes_of s) = s"
  by (simp add: text_of_def bytes_of_def comp_def)

lemma bytes_of_text_of [simp]: "bytes_of (text_of bs) = bs"
  by (simp add: text_of_def bytes_of_def comp_def)

lemma length_bytes_of [simp, layout_simps]: "length (bytes_of s) = length s"
  by (simp add: bytes_of_def)

lemma length_text_of [simp, layout_simps]: "length (text_of bs) = length bs"
  by (simp add: text_of_def)

lemma bytes_of_append [simp]: "bytes_of (s @ t) = bytes_of s @ bytes_of t"
  by (simp add: bytes_of_def)

lemma bytes_of_inject [simp]: "bytes_of s = bytes_of t \<longleftrightarrow> s = t"
  by (metis text_of_bytes_of)


section \<open>Flat buffers\<close>

text \<open>
  \<open>overwrite off src buf\<close> is \<open>memcpy(buf + off, src, length src)\<close> for a source that fits;
  \<open>sub_buf off n buf\<close> is the \<open>n\<close> bytes at \<open>buf + off\<close>.
\<close>

definition overwrite :: "nat \<Rightarrow> 'a list \<Rightarrow> 'a list \<Rightarrow> 'a list" where
  "overwrite off src buf = take off buf @ src @ drop (off + length src) buf"

definition sub_buf :: "nat \<Rightarrow> nat \<Rightarrow> 'a list \<Rightarrow> 'a list" where
  "sub_buf off n buf = take n (drop off buf)"

lemma length_overwrite [simp, layout_simps]:
  "off + length src \<le> length buf \<Longrightarrow> length (overwrite off src buf) = length buf"
  by (simp add: overwrite_def)

lemma overwrite_Nil [simp]: "overwrite off [] buf = buf"
  by (simp add: overwrite_def)

lemma length_sub_buf [simp, layout_simps]: "length (sub_buf off n buf) = min n (length buf - off)"
  by (simp add: sub_buf_def)

lemma sub_buf_append_left: "off + n \<le> length xs \<Longrightarrow> sub_buf off n (xs @ ys) = sub_buf off n xs"
  by (simp add: sub_buf_def)

lemma sub_buf_append_right:
  "length xs \<le> off \<Longrightarrow> sub_buf off n (xs @ ys) = sub_buf (off - length xs) n ys"
  by (simp add: sub_buf_def)

lemma sub_buf_all [simp]: "length xs \<le> n \<Longrightarrow> sub_buf 0 n xs = xs"
  by (simp add: sub_buf_def)

lemma take_overwrite_0: "take (length src) (overwrite 0 src buf) = src"
  by (simp add: overwrite_def)

lemma sub_buf_overwrite_same:
  "off + length src \<le> length buf \<Longrightarrow> sub_buf off (length src) (overwrite off src buf) = src"
  by (simp add: overwrite_def sub_buf_def)

lemma sub_buf_overwrite_before:
  assumes "i + n \<le> off" and "off \<le> length buf"
  shows "sub_buf i n (overwrite off src buf) = sub_buf i n buf"
proof -
  have "drop i (take off buf @ xs) = drop i (take off buf) @ xs" for xs
    using assms by simp
  with assms show ?thesis
    by (simp add: overwrite_def sub_buf_def take_drop min_def add.commute)
qed

lemma sub_buf_overwrite_after:
  assumes "off + length src \<le> i" and "off \<le> length buf"
  shows "sub_buf i n (overwrite off src buf) = sub_buf i n buf"
proof -
  have "drop i (overwrite off src buf) = drop i buf"
    using assms by (simp add: overwrite_def)
  then show ?thesis by (simp add: sub_buf_def)
qed


section \<open>Little-endian integers in buffers\<close>

text \<open>
  \<open>*(uint16_t*)p\<close>, \<open>*(int32_t*)p\<close> and \<open>*(uint64_t*)p\<close> on the x86-64 target: the byte at the
  lowest address is the least significant one.
\<close>

definition word_bytes :: "nat \<Rightarrow> 'a::len word \<Rightarrow> bytes" where
  "word_bytes n w = map (\<lambda>i. ucast (drop_bit (8 * i) w)) [0..<n]"

fun bytes_word :: "bytes \<Rightarrow> 'a::len word" where
  "bytes_word [] = 0"
| "bytes_word (b # bs) = ucast b OR push_bit 8 (bytes_word bs)"

lemma length_word_bytes [simp, layout_simps]: "length (word_bytes n w) = n"
  by (simp add: word_bytes_def)

lemma bit_bytes_word:
  "bit (bytes_word bs :: 'a::len word) i \<longleftrightarrow>
     i < LENGTH('a) \<and> i div 8 < length bs \<and> bit (bs ! (i div 8)) (i mod 8)"
proof (induction bs arbitrary: i)
  case Nil
  then show ?case by simp
next
  case (Cons b bs)
  show ?case
  proof (cases "i < 8")
    case True
    then show ?thesis
      by (auto simp: bit_or_iff bit_push_bit_iff bit_unsigned_iff)
  next
    case False
    then have "\<not> bit b i" by (auto dest: bit_imp_le_length)
    moreover have "(i - 8) div 8 = i div 8 - 1" "(i - 8) mod 8 = i mod 8" "0 < i div 8"
      using False by (simp_all add: div_greater_zero_iff le_div_geq le_mod_geq)
    ultimately show ?thesis
      using False Cons.IH [of "i - 8"]
      by (cases "i div 8") (auto simp: bit_or_iff bit_push_bit_iff bit_unsigned_iff)
  qed
qed

lemma bit_word_bytes:
  "j < n \<Longrightarrow> bit (word_bytes n (w :: 'a::len word) ! j) k \<longleftrightarrow> k < 8 \<and> bit w (8 * j + k)"
  by (auto simp: word_bytes_def bit_unsigned_iff bit_drop_bit_eq bit_imp_le_length)

lemma bytes_word_bytes [simp]:
  fixes w :: "'a::len word"
  assumes "LENGTH('a) = 8 * n"
  shows "bytes_word (word_bytes n w) = w"
proof (rule bit_word_eqI)
  fix i
  assume "i < LENGTH('a)"
  with assms have "i div 8 < n" by (simp add: less_mult_imp_div_less mult.commute)
  then show "bit (bytes_word (word_bytes n w) :: 'a word) i = bit w i"
    using \<open>i < LENGTH('a)\<close> by (simp add: bit_bytes_word bit_word_bytes)
qed

lemma word_bytes_word:
  fixes bs :: bytes
  assumes "LENGTH('a::len) = 8 * n" and "length bs = n"
  shows "word_bytes n (bytes_word bs :: 'a word) = bs"
proof (rule nth_equalityI)
  show "length (word_bytes n (bytes_word bs :: 'a word)) = length bs"
    using assms by simp
next
  fix j
  assume "j < length (word_bytes n (bytes_word bs :: 'a word))"
  then have j: "j < n" by simp
  show "word_bytes n (bytes_word bs :: 'a word) ! j = bs ! j"
  proof (rule bit_word_eqI)
    fix k
    assume "k < LENGTH(8)"
    then have k: "k < 8" by simp
    then have "8 * j + k < LENGTH('a)" using j assms(1) by simp
    with j k assms(2) show "bit (word_bytes n (bytes_word bs :: 'a word) ! j) k = bit (bs ! j) k"
      by (simp add: bit_word_bytes bit_bytes_word)
  qed
qed

lemma word_bytes_inject:
  fixes v w :: "'a::len word"
  assumes "LENGTH('a) = 8 * n"
  shows "word_bytes n v = word_bytes n w \<longleftrightarrow> v = w"
  using bytes_word_bytes [OF assms] by metis

abbreviation le16 :: "16 word \<Rightarrow> bytes" where "le16 \<equiv> word_bytes 2"
abbreviation le32 :: "32 word \<Rightarrow> bytes" where "le32 \<equiv> word_bytes 4"
abbreviation le64 :: "64 word \<Rightarrow> bytes" where "le64 \<equiv> word_bytes 8"

definition rd16 :: "bytes \<Rightarrow> nat \<Rightarrow> 16 word" where
  "rd16 buf off = bytes_word (sub_buf off 2 buf)"

definition rd32 :: "bytes \<Rightarrow> nat \<Rightarrow> 32 word" where
  "rd32 buf off = bytes_word (sub_buf off 4 buf)"

definition rd64 :: "bytes \<Rightarrow> nat \<Rightarrow> 64 word" where
  "rd64 buf off = bytes_word (sub_buf off 8 buf)"

text \<open>An \<open>int32_t\<close> value and the word that represents it.\<close>

definition int32 :: "int \<Rightarrow> 32 word" where
  "int32 i = word_of_int i"

definition is_int32 :: "int \<Rightarrow> bool" where
  "is_int32 i \<longleftrightarrow> - (2 ^ 31) \<le> i \<and> i < 2 ^ 31"

lemma sint_int32: "is_int32 i \<Longrightarrow> sint (int32 i) = i"
  by (simp add: is_int32_def int32_def sint_sbintrunc' signed_take_bit_int_eq_self)


section \<open>Number printers\<close>

text \<open>
  The \<open>printf\<close> conversions of the program: \<open>%d\<close>, \<open>%lu\<close>, \<open>%lx\<close>, \<open>%03d\<close>, \<open>%02x\<close>, \<open>%02X\<close>,
  most significant digit first.
\<close>

function to_base :: "nat \<Rightarrow> nat \<Rightarrow> nat list" where
  "to_base b n = (if b \<le> 1 \<or> n < b then [n] else to_base b (n div b) @ [n mod b])"
  by pat_completeness auto
termination
  by (relation "measure snd") (auto simp: div_less_dividend)

declare to_base.simps [simp del]

definition from_base :: "nat \<Rightarrow> nat list \<Rightarrow> nat" where
  "from_base b ds = foldl (\<lambda>acc d. acc * b + d) 0 ds"

definition digit_char :: "nat \<Rightarrow> char" where
  "digit_char d = (if d < 10 then char_of (48 + d) else char_of (87 + d))"

definition dec_nat :: "nat \<Rightarrow> string" where
  "dec_nat n = map digit_char (to_base 10 n)"

definition hex_nat :: "nat \<Rightarrow> string" where
  "hex_nat n = map digit_char (to_base 16 n)"

definition dec_int :: "int \<Rightarrow> string" where
  "dec_int i = (if i < 0 then CHR ''-'' # dec_nat (nat (- i)) else dec_nat (nat i))"

definition pad0 :: "nat \<Rightarrow> string \<Rightarrow> string" where
  "pad0 w s = replicate (w - length s) CHR ''0'' @ s"

lemma from_base_to_base: "from_base b (to_base b n) = n"
proof (induction b n rule: to_base.induct)
  case (1 b n)
  show ?case
  proof (cases "b \<le> 1 \<or> n < b")
    case True
    then show ?thesis by (simp add: to_base.simps [of b n] from_base_def)
  next
    case False
    with 1 have "from_base b (to_base b (n div b)) = n div b" by blast
    with False show ?thesis
      by (simp add: to_base.simps [of b n] from_base_def)
  qed
qed

lemma to_base_inject [print_inj]: "to_base b m = to_base b n \<longleftrightarrow> m = n"
  by (metis from_base_to_base)

lemma to_base_digits: "1 < b \<Longrightarrow> d \<in> set (to_base b n) \<Longrightarrow> d < b"
proof (induction b n rule: to_base.induct)
  case (1 b n)
  then show ?case
    by (subst (asm) to_base.simps) (auto split: if_splits)
qed

lemma to_base_not_Nil [simp]: "to_base b n \<noteq> []"
  by (subst to_base.simps) simp

lemma digit_char_inject: "d < 36 \<Longrightarrow> e < 36 \<Longrightarrow> digit_char d = digit_char e \<longleftrightarrow> d = e"
  by (auto simp: digit_char_def char_of_eq_iff take_bit_eq_mod split: if_splits)

lemma map_digit_char_inject:
  assumes "\<forall>d \<in> set xs. d < 36" and "\<forall>d \<in> set ys. d < 36"
  shows "map digit_char xs = map digit_char ys \<longleftrightarrow> xs = ys"
  using assms by (induction xs ys rule: list_induct2') (auto simp: digit_char_inject)

lemma dec_nat_inject [simp, print_inj]: "dec_nat m = dec_nat n \<longleftrightarrow> m = n"
  unfolding dec_nat_def
  by (subst map_digit_char_inject) (auto dest: to_base_digits [rotated] simp: to_base_inject)

lemma hex_nat_inject [simp, print_inj]: "hex_nat m = hex_nat n \<longleftrightarrow> m = n"
  unfolding hex_nat_def
  by (subst map_digit_char_inject) (auto dest: to_base_digits [rotated] simp: to_base_inject)

lemma dec_nat_not_Nil [simp]: "dec_nat n \<noteq> []"
  by (simp add: dec_nat_def)

lemma dec_nat_digit: "c \<in> set (dec_nat n) \<Longrightarrow> \<exists>d < 10. c = char_of (48 + d :: nat)"
  by (auto simp: dec_nat_def digit_char_def dest: to_base_digits [rotated])

lemma hex_nat_digit:
  "c \<in> set (hex_nat n) \<Longrightarrow>
     (\<exists>d < 10. c = char_of (48 + d :: nat)) \<or> (\<exists>d < 16. c = char_of (87 + d :: nat))"
  by (auto simp: hex_nat_def digit_char_def dest: to_base_digits [rotated])

lemma length_to_base:
  assumes "1 < b"
  shows "n < b ^ Suc k \<Longrightarrow> length (to_base b n) \<le> Suc k"
proof (induction k arbitrary: n)
  case 0
  then show ?case by (subst to_base.simps) simp
next
  case (Suc k)
  then have "n div b < b ^ Suc k"
    by (simp add: less_mult_imp_div_less mult.commute)
  then have "length (to_base b (n div b)) \<le> Suc k" by (rule Suc.IH)
  then show ?case by (subst to_base.simps) simp
qed

lemma length_dec_nat: "n < 10 ^ Suc k \<Longrightarrow> length (dec_nat n) \<le> Suc k"
  by (simp add: dec_nat_def length_to_base)

lemma length_hex_nat: "n < 16 ^ Suc k \<Longrightarrow> length (hex_nat n) \<le> Suc k"
  by (simp add: hex_nat_def length_to_base)

lemma length_pad0 [simp, layout_simps]: "length (pad0 w s) = max w (length s)"
  by (simp add: pad0_def)

end
