(* ===== verification/Ring_Queue.thy ===== *)
theory Ring_Queue
  imports Idfs_Prelude
begin

text \<open>
  The queues of \<open>qqueue.h\<close>.  \<open>qqueue\<close> is the thread-safe circular queue \<open>QQueue\<close> that hands
  client records between the threads of the TCP server; every operation runs under the queue's
  mutex, so it is one atomic function here, and a blocking operation that would spin (the queue
  is full for \<open>push\<close>, empty for \<open>pop\<close>) has the value \<open>None\<close>.  The locale \<open>bounded_fifo\<close> is the
  contract the server relies on; \<open>QQueue\<close> is shown to implement it with one slot less than the
  allocated array.  \<open>pqueue\<close> is the array priority queue \<open>QPriorityQueue\<close>.
\<close>

section \<open>The circular queue\<close>

record 'a qqueue =
  qarr :: "'a list"
  qmax :: nat
  qfront :: nat
  qrear :: nat

text \<open>The constructor; \<open>queue_\<close> is \<open>NULL\<close>.\<close>

definition qq_new :: "'a qqueue" where
  "qq_new = \<lparr>qarr = [], qmax = 0, qfront = 0, qrear = 0\<rparr>"

text \<open>
  \<open>init(n)\<close>: the second argument is what \<open>q_new_array\<close> returned, \<open>None\<close> for \<open>NULL\<close> and
  otherwise the (uninitialised) memory block.
\<close>

definition qq_init :: "int \<Rightarrow> 'a list option \<Rightarrow> 'a qqueue \<Rightarrow> int \<times> 'a qqueue" where
  "qq_init n mem q =
     (if n \<le> 0 then (-1, q)
      else case mem of
        None \<Rightarrow> (-2, q\<lparr>qmax := nat n, qarr := []\<rparr>)
      | Some block \<Rightarrow> (0, q\<lparr>qmax := nat n, qarr := block, qfront := 0, qrear := 0\<rparr>))"

definition qq_clear :: "'a qqueue \<Rightarrow> 'a qqueue" where
  "qq_clear q = q\<lparr>qfront := 0, qrear := 0\<rparr>"

text \<open>
  \<open>(rear_ - front_ + max_size_) % max_size_\<close>; the dividend is positive because
  \<open>front_ < max_size_\<close>, so truncating and flooring division agree and no intermediate value
  wraps.
\<close>

definition qq_size :: "'a qqueue \<Rightarrow> nat" where
  "qq_size q = (qrear q + qmax q - qfront q) mod qmax q"

definition qq_full :: "'a qqueue \<Rightarrow> bool" where
  "qq_full q \<longleftrightarrow> (qrear q + 1) mod qmax q = qfront q"

definition qq_empty :: "'a qqueue \<Rightarrow> bool" where
  "qq_empty q \<longleftrightarrow> qfront q = qrear q"

definition qq_push :: "'a \<Rightarrow> 'a qqueue \<Rightarrow> 'a qqueue option" where
  "qq_push item q =
     (if qq_full q then None
      else Some (q\<lparr>qarr := (qarr q)[qrear q := item],
                   qrear := (qrear q + 1) mod qmax q\<rparr>))"

definition qq_pop :: "'a qqueue \<Rightarrow> ('a \<times> 'a qqueue) option" where
  "qq_pop q =
     (if qq_empty q then None
      else Some (qarr q ! qfront q, q\<lparr>qfront := (qfront q + 1) mod qmax q\<rparr>))"

definition qq_push_non_blocking :: "'a \<Rightarrow> 'a qqueue \<Rightarrow> int \<times> 'a qqueue" where
  "qq_push_non_blocking item q =
     (if qq_full q then (-1, q)
      else (0, q\<lparr>qarr := (qarr q)[qrear q := item],
                 qrear := (qrear q + 1) mod qmax q\<rparr>))"

text \<open>The item is an out parameter: it is left as it was when the queue is empty.\<close>

definition qq_pop_non_blocking :: "'a \<Rightarrow> 'a qqueue \<Rightarrow> int \<times> 'a \<times> 'a qqueue" where
  "qq_pop_non_blocking item q =
     (if qq_empty q then (-1, item, q)
      else (0, qarr q ! qfront q, q\<lparr>qfront := (qfront q + 1) mod qmax q\<rparr>))"


subsection \<open>Well-formedness and contents\<close>

definition qq_wf :: "'a qqueue \<Rightarrow> bool" where
  "qq_wf q \<longleftrightarrow> length (qarr q) = qmax q \<and> qfront q < qmax q \<and> qrear q < qmax q"

definition qq_list :: "'a qqueue \<Rightarrow> 'a list" where
  "qq_list q = map (\<lambda>i. qarr q ! ((qfront q + i) mod qmax q)) [0..<qq_size q]"

lemma ring_index:
  "f < m \<Longrightarrow> i < m \<Longrightarrow> (f + i) mod m = (if f + i < m then f + i else f + i - (m::nat))"
  by (simp add: mod_if)

lemma ring_index_inject:
  "f < m \<Longrightarrow> i < m \<Longrightarrow> j < m \<Longrightarrow> (f + i) mod m = (f + j) mod m \<longleftrightarrow> i = (j::nat)"
  by (auto simp: ring_index split: if_splits)

lemma qq_size_eq:
  "qq_wf q \<Longrightarrow> qq_size q = (if qfront q \<le> qrear q then qrear q - qfront q
                              else qrear q + qmax q - qfront q)"
  by (auto simp: qq_wf_def qq_size_def mod_if)

lemma qq_size_less: "qq_wf q \<Longrightarrow> qq_size q < qmax q"
  by (auto simp: qq_wf_def qq_size_def)

lemma qq_rear_eq: "qq_wf q \<Longrightarrow> qrear q = (qfront q + qq_size q) mod qmax q"
  by (auto simp: qq_size_eq qq_wf_def mod_if)

lemma qq_full_iff: "qq_wf q \<Longrightarrow> qq_full q \<longleftrightarrow> qq_size q = qmax q - 1"
  by (auto simp: qq_size_eq qq_wf_def qq_full_def mod_if)

lemma qq_empty_iff: "qq_wf q \<Longrightarrow> qq_empty q \<longleftrightarrow> qq_size q = 0"
  by (auto simp: qq_size_eq qq_wf_def qq_empty_def)

lemma length_qq_list [simp]: "length (qq_list q) = qq_size q"
  by (simp add: qq_list_def)

lemma qq_empty_list: "qq_wf q \<Longrightarrow> qq_empty q \<longleftrightarrow> qq_list q = []"
  by (metis length_0_conv length_qq_list qq_empty_iff)

lemma qq_push_wf: "qq_wf q \<Longrightarrow> qq_push x q = Some q' \<Longrightarrow> qq_wf q' \<and> qmax q' = qmax q"
  by (auto simp: qq_push_def qq_wf_def split: if_splits)

lemma qq_push_size:
  assumes "qq_wf q" and "qq_push x q = Some q'"
  shows "qq_size q' = qq_size q + 1"
proof -
  from assms have nf: "\<not> qq_full q"
    and q': "q' = q\<lparr>qarr := (qarr q)[qrear q := x], qrear := (qrear q + 1) mod qmax q\<rparr>"
    by (auto simp: qq_push_def split: if_splits)
  from nf assms(1) show ?thesis
    unfolding q' by (auto simp: qq_full_def qq_size_def qq_wf_def mod_if split: if_splits)
qed

lemma qq_push_list:
  assumes wf: "qq_wf q" and push: "qq_push x q = Some q'"
  shows "qq_list q' = qq_list q @ [x]"
proof -
  from push have
    q': "q' = q\<lparr>qarr := (qarr q)[qrear q := x], qrear := (qrear q + 1) mod qmax q\<rparr>"
    by (auto simp: qq_push_def split: if_splits)
  have sz: "qq_size q < qmax q" and f: "qfront q < qmax q"
    using wf by (simp_all add: qq_size_less qq_wf_def)
  have old: "qarr q' ! ((qfront q + i) mod qmax q) =
             qarr q ! ((qfront q + i) mod qmax q)" if "i < qq_size q" for i
  proof -
    have "(qfront q + i) mod qmax q \<noteq> qrear q"
      using that sz f by (subst qq_rear_eq [OF wf]) (simp add: ring_index_inject)
    then show ?thesis by (simp add: q')
  qed
  have new: "qarr q' ! ((qfront q + qq_size q) mod qmax q) = x"
    using wf by (simp add: q' qq_rear_eq [OF wf, symmetric] qq_wf_def)
  show ?thesis
    unfolding qq_list_def qq_push_size [OF wf push]
    using old new by (simp add: q')
qed

lemma qq_pop_wf: "qq_wf q \<Longrightarrow> qq_pop q = Some (x, q') \<Longrightarrow> qq_wf q' \<and> qmax q' = qmax q"
  by (auto simp: qq_pop_def qq_wf_def split: if_splits)

lemma qq_pop_list:
  assumes wf: "qq_wf q" and pop: "qq_pop q = Some (x, q')"
  shows "qq_list q = x # qq_list q'"
proof -
  from pop have ne: "\<not> qq_empty q" and x: "x = qarr q ! qfront q"
    and q': "q' = q\<lparr>qfront := (qfront q + 1) mod qmax q\<rparr>"
    by (auto simp: qq_pop_def split: if_splits)
  have f: "qfront q < qmax q" using wf by (simp add: qq_wf_def)
  have sz: "qq_size q = Suc (qq_size q')"
    using ne wf unfolding q'
    by (auto simp: qq_empty_def qq_size_def qq_wf_def mod_if split: if_splits)
  have shift: "(qfront q' + i) mod qmax q = (qfront q + Suc i) mod qmax q" for i
    by (simp add: q' mod_simps)
  have "qq_list q = map (\<lambda>i. qarr q ! ((qfront q + i) mod qmax q)) (0 # map Suc [0..<qq_size q'])"
    by (simp only: qq_list_def sz upt_conv_Cons [of 0 "Suc (qq_size q')"] map_Suc_upt zero_less_Suc)
  also have "\<dots> = x # map (\<lambda>i. qarr q ! ((qfront q' + i) mod qmax q)) [0..<qq_size q']"
    using f by (simp add: x shift comp_def)
  finally show ?thesis by (simp add: qq_list_def q')
qed

lemma qq_push_defined: "qq_wf q \<Longrightarrow> qq_size q < qmax q - 1 \<Longrightarrow> \<exists>q'. qq_push x q = Some q'"
  by (simp add: qq_push_def qq_full_iff)

lemma qq_pop_defined: "qq_wf q \<Longrightarrow> qq_list q \<noteq> [] \<Longrightarrow> \<exists>x q'. qq_pop q = Some (x, q')"
  by (simp add: qq_pop_def qq_empty_list)


subsection \<open>The contract of a bounded queue\<close>

locale bounded_fifo =
  fixes wf :: "'q \<Rightarrow> bool"
    and contents :: "'q \<Rightarrow> 'a list"
    and cap :: "'q \<Rightarrow> nat"
    and push :: "'a \<Rightarrow> 'q \<Rightarrow> 'q option"
    and pop :: "'q \<Rightarrow> ('a \<times> 'q) option"
  assumes push_room: "wf q \<Longrightarrow> length (contents q) < cap q \<Longrightarrow>
      \<exists>q'. push x q = Some q' \<and> wf q' \<and> contents q' = contents q @ [x] \<and> cap q' = cap q"
    and push_full: "wf q \<Longrightarrow> cap q \<le> length (contents q) \<Longrightarrow> push x q = None"
    and pop_Cons: "wf q \<Longrightarrow> contents q = y # ys \<Longrightarrow>
      \<exists>q'. pop q = Some (y, q') \<and> wf q' \<and> contents q' = ys \<and> cap q' = cap q"
    and pop_Nil: "wf q \<Longrightarrow> contents q = [] \<Longrightarrow> pop q = None"
begin

lemma push_SomeD:
  assumes "wf q" and "push x q = Some q'"
  shows "wf q' \<and> contents q' = contents q @ [x] \<and> cap q' = cap q \<and> length (contents q) < cap q"
proof (cases "length (contents q) < cap q")
  case True
  with assms push_room [of q x] show ?thesis by auto
next
  case False
  with assms push_full [of q x] show ?thesis by simp
qed

lemma pop_SomeD:
  assumes "wf q" and "pop q = Some (y, q')"
  shows "wf q' \<and> contents q = y # contents q' \<and> cap q' = cap q"
proof (cases "contents q")
  case Nil
  with assms pop_Nil [of q] show ?thesis by simp
next
  case (Cons z zs)
  with assms pop_Cons [of q z zs] show ?thesis by auto
qed

lemma within_cap_push:
  "wf q \<Longrightarrow> push x q = Some q' \<Longrightarrow> length (contents q') \<le> cap q'"
  using push_SomeD [of q x q'] by auto

end

text \<open>
  The fill loop of \<open>QTcpServer::init\<close> pushes freshly allocated records one by one; it does not
  block as long as the queue was made large enough.
\<close>

fun push_all :: "('a \<Rightarrow> 'q \<Rightarrow> 'q option) \<Rightarrow> 'a list \<Rightarrow> 'q \<Rightarrow> 'q option" where
  "push_all push [] q = Some q"
| "push_all push (x # xs) q = (case push x q of None \<Rightarrow> None | Some q' \<Rightarrow> push_all push xs q')"

context bounded_fifo
begin

lemma push_all_room:
  "wf q \<Longrightarrow> length (contents q) + length xs \<le> cap q \<Longrightarrow>
     \<exists>q'. push_all push xs q = Some q' \<and> wf q' \<and> contents q' = contents q @ xs \<and> cap q' = cap q"
proof (induction xs arbitrary: q)
  case Nil
  then show ?case by simp
next
  case (Cons x xs)
  from Cons.prems obtain q1 where q1: "push x q = Some q1" "wf q1"
    "contents q1 = contents q @ [x]" "cap q1 = cap q"
    using push_room [of q x] by auto
  with Cons.prems have "length (contents q1) + length xs \<le> cap q1" by simp
  with Cons.IH [OF \<open>wf q1\<close>] q1 show ?case by auto
qed

lemma push_all_too_many:
  "wf q \<Longrightarrow> length (contents q) \<le> cap q \<Longrightarrow> cap q < length (contents q) + length xs \<Longrightarrow>
     push_all push xs q = None"
proof (induction xs arbitrary: q)
  case Nil
  then show ?case by simp
next
  case (Cons x xs)
  show ?case
  proof (cases "push x q")
    case None
    then show ?thesis by simp
  next
    case (Some q1)
    from push_SomeD [OF Cons.prems(1) Some] Cons.prems
    have "wf q1" "length (contents q1) \<le> cap q1" "cap q1 < length (contents q1) + length xs"
      by auto
    then have "push_all push xs q1 = None" by (rule Cons.IH)
    with Some show ?thesis by simp
  qed
qed

end

interpretation qq: bounded_fifo qq_wf qq_list "\<lambda>q. qmax q - 1" qq_push qq_pop
proof (unfold_locales, goal_cases)
  case (1 q x)
  then obtain q' where q': "qq_push x q = Some q'" using qq_push_defined [of q x] by auto
  from qq_push_wf [OF 1(1) q'] qq_push_list [OF 1(1) q'] q' show ?case by simp
next
  case (2 q x)
  then show ?case using qq_size_less [of q] by (auto simp: qq_push_def qq_full_iff)
next
  case (3 q y ys)
  then obtain x q' where q': "qq_pop q = Some (x, q')" using qq_pop_defined [of q] by auto
  from qq_pop_wf [OF 3(1) q'] qq_pop_list [OF 3(1) q'] q' 3(2) show ?case by simp
next
  case (4 q)
  then show ?case by (simp add: qq_pop_def qq_empty_list)
qed

lemma qq_init_ok:
  assumes "0 < n" and "length block = nat n"
  shows "fst (qq_init n (Some block) q) = 0"
    and "qq_wf (snd (qq_init n (Some block) q))"
    and "qq_list (snd (qq_init n (Some block) q)) = []"
    and "qmax (snd (qq_init n (Some block) q)) = nat n"
  using assms by (simp_all add: qq_init_def qq_wf_def qq_list_def qq_size_def)

lemma qq_clear_ok: "qq_wf q \<Longrightarrow> qq_wf (qq_clear q) \<and> qq_list (qq_clear q) = [] \<and> qmax (qq_clear q) = qmax q"
  by (auto simp: qq_clear_def qq_wf_def qq_list_def qq_size_def)

lemma qq_push_non_blocking_eq:
  "qq_push_non_blocking x q = (case qq_push x q of None \<Rightarrow> (-1, q) | Some q' \<Rightarrow> (0, q'))"
  by (simp add: qq_push_non_blocking_def qq_push_def)

lemma qq_pop_non_blocking_eq:
  "qq_pop_non_blocking d q = (case qq_pop q of None \<Rightarrow> (-1, d, q) | Some (x, q') \<Rightarrow> (0, x, q'))"
  by (simp add: qq_pop_non_blocking_def qq_pop_def)


subsection \<open>Runs of operations against the abstract queue\<close>

datatype 'a qop = QPush 'a | QPop | QClear

datatype 'a qres = QRet int | QItem int 'a | QDone

fun qq_step :: "'a \<Rightarrow> 'a qop \<Rightarrow> 'a qqueue \<Rightarrow> 'a qres \<times> 'a qqueue" where
  "qq_step d (QPush x) q = (let (r, q') = qq_push_non_blocking x q in (QRet r, q'))"
| "qq_step d QPop q = (let (r, x, q') = qq_pop_non_blocking d q in (QItem r x, q'))"
| "qq_step d QClear q = (QDone, qq_clear q)"

text \<open>The specification: a list that never holds more than \<open>c\<close> items.\<close>

fun fifo_step :: "nat \<Rightarrow> 'a \<Rightarrow> 'a qop \<Rightarrow> 'a list \<Rightarrow> 'a qres \<times> 'a list" where
  "fifo_step c d (QPush x) xs = (if length xs < c then (QRet 0, xs @ [x]) else (QRet (-1), xs))"
| "fifo_step c d QPop xs = (case xs of [] \<Rightarrow> (QItem (-1) d, []) | y # ys \<Rightarrow> (QItem 0 y, ys))"
| "fifo_step c d QClear xs = (QDone, [])"

fun run_ops :: "('o \<Rightarrow> 's \<Rightarrow> 'r \<times> 's) \<Rightarrow> 'o list \<Rightarrow> 's \<Rightarrow> 'r list \<times> 's" where
  "run_ops step [] s = ([], s)"
| "run_ops step (x # xs) s =
     (let (r, s') = step x s; (rs, s'') = run_ops step xs s' in (r # rs, s''))"

lemma run_ops_simulation:
  assumes step: "\<And>x s. I s \<Longrightarrow> I (snd (cstep x s)) \<and> astep x (\<alpha> s) = (fst (cstep x s), \<alpha> (snd (cstep x s)))"
  shows "I s \<Longrightarrow> I (snd (run_ops cstep xs s)) \<and>
           run_ops astep xs (\<alpha> s) = (fst (run_ops cstep xs s), \<alpha> (snd (run_ops cstep xs s)))"
proof (induction xs arbitrary: s)
  case Nil
  then show ?case by simp
next
  case (Cons x xs)
  from step [OF Cons.prems, of x] have "I (snd (cstep x s))"
    and a: "astep x (\<alpha> s) = (fst (cstep x s), \<alpha> (snd (cstep x s)))" by auto
  from Cons.IH [OF this(1)] a show ?case by (simp add: split_def Let_def)
qed

lemma qq_step_simulates:
  assumes "qq_wf q \<and> qmax q = Suc c"
  shows "(qq_wf (snd (qq_step d x q)) \<and> qmax (snd (qq_step d x q)) = Suc c) \<and>
    fifo_step c d x (qq_list q) = (fst (qq_step d x q), qq_list (snd (qq_step d x q)))"
proof (cases x)
  case (QPush y)
  show ?thesis
  proof (cases "qq_push y q")
    case None
    with assms have "\<not> length (qq_list q) < c"
      using qq.push_room [of q y] by auto
    with None assms QPush show ?thesis by (simp add: qq_push_non_blocking_eq)
  next
    case (Some q')
    from assms qq.push_SomeD [OF _ Some] qq_push_wf [OF _ Some] Some QPush show ?thesis
      by (simp add: qq_push_non_blocking_eq)
  qed
next
  case QPop
  show ?thesis
  proof (cases "qq_pop q")
    case None
    with assms have "qq_list q = []" using qq_pop_defined [of q] by auto
    with None assms QPop show ?thesis by (simp add: qq_pop_non_blocking_eq)
  next
    case (Some p)
    obtain y q' where q': "qq_pop q = Some (y, q')" using Some by (cases p) auto
    from assms qq.pop_SomeD [OF _ q'] qq_pop_wf [OF _ q'] q' QPop show ?thesis
      by (simp add: qq_pop_non_blocking_eq)
  qed
next
  case QClear
  with assms qq_clear_ok [of q] show ?thesis by simp
qed


section \<open>The array priority queue\<close>

text \<open>
  \<open>QPriorityQueue\<close> keeps its items in the first \<open>size_\<close> slots of an array, largest first;
  \<open>T_TYPE\<close> is any type with a total order.
\<close>

record 'a pqueue =
  parr :: "'a list"
  pmax :: nat
  psize :: nat

definition pq_init :: "int \<Rightarrow> 'a list option \<Rightarrow> 'a pqueue \<Rightarrow> int \<times> 'a pqueue" where
  "pq_init n mem q =
     (if n \<le> 0 then (-1, q)
      else case mem of
        None \<Rightarrow> (-2, q\<lparr>pmax := nat n, parr := []\<rparr>)
      | Some block \<Rightarrow> (0, q\<lparr>pmax := nat n, parr := block, psize := 0\<rparr>))"

text \<open>
  The loop of \<open>adjust()\<close>: the first argument is \<open>j + 1\<close>, the position of the hole that the
  last item leaves while larger slots move up.
\<close>

fun adjust_loop :: "nat \<Rightarrow> 'a::linorder \<Rightarrow> 'a list \<Rightarrow> 'a list" where
  "adjust_loop 0 temp a = a[0 := temp]"
| "adjust_loop (Suc j) temp a =
     (if temp \<le> a ! j then a[Suc j := temp] else adjust_loop j temp (a[Suc j := a ! j]))"

definition pq_adjust :: "'a::linorder pqueue \<Rightarrow> 'a pqueue" where
  "pq_adjust q = q\<lparr>parr := adjust_loop (psize q - 1) (parr q ! (psize q - 1)) (parr q)\<rparr>"

definition pq_full :: "'a pqueue \<Rightarrow> bool" where
  "pq_full q \<longleftrightarrow> psize q = pmax q"

definition pq_empty :: "'a pqueue \<Rightarrow> bool" where
  "pq_empty q \<longleftrightarrow> psize q = 0"

definition pq_push :: "'a::linorder \<Rightarrow> 'a pqueue \<Rightarrow> 'a pqueue option" where
  "pq_push item q =
     (if pq_full q then None
      else Some (pq_adjust (q\<lparr>parr := (parr q)[psize q := item], psize := psize q + 1\<rparr>)))"

definition pq_push_non_blocking :: "'a::linorder \<Rightarrow> 'a pqueue \<Rightarrow> int \<times> 'a pqueue" where
  "pq_push_non_blocking item q =
     (if psize q = pmax q then (-1, q)
      else (0, pq_adjust (q\<lparr>parr := (parr q)[psize q := item], psize := psize q + 1\<rparr>)))"

text \<open>\<open>for(i = 1; i < size_; ++i) queue_[i-1] = queue_[i];\<close>\<close>

definition shift_loop :: "nat \<Rightarrow> 'a list \<Rightarrow> 'a list" where
  "shift_loop n a = foldl (\<lambda>b i. b[i - 1 := b ! i]) a [1..<n]"

definition pq_pop :: "'a pqueue \<Rightarrow> ('a \<times> 'a pqueue) option" where
  "pq_pop q =
     (if pq_empty q then None
      else Some (parr q ! 0, q\<lparr>parr := shift_loop (psize q) (parr q), psize := psize q - 1\<rparr>))"

definition pq_pop_non_blocking :: "'a \<Rightarrow> 'a pqueue \<Rightarrow> int \<times> 'a \<times> 'a pqueue" where
  "pq_pop_non_blocking item q =
     (if pq_empty q then (-1, item, q)
      else (0, parr q ! 0, q\<lparr>parr := shift_loop (psize q) (parr q), psize := psize q - 1\<rparr>))"

definition pq_clear :: "'a pqueue \<Rightarrow> 'a pqueue" where
  "pq_clear q = q\<lparr>psize := 0\<rparr>"

definition pq_list :: "'a pqueue \<Rightarrow> 'a list" where
  "pq_list q = take (psize q) (parr q)"

definition pq_wf :: "'a::linorder pqueue \<Rightarrow> bool" where
  "pq_wf q \<longleftrightarrow> length (parr q) = pmax q \<and> psize q \<le> pmax q \<and> sorted_wrt (\<ge>) (pq_list q)"

text \<open>Insertion behind every item that is at least as large.\<close>

definition insert_desc :: "'a::linorder \<Rightarrow> 'a list \<Rightarrow> 'a list" where
  "insert_desc x xs = takeWhile (\<lambda>y. x \<le> y) xs @ x # dropWhile (\<lambda>y. x \<le> y) xs"

lemma length_adjust_loop [simp]: "length (adjust_loop k x a) = length a"
  by (induction k x a rule: adjust_loop.induct) auto

lemma adjust_loop_eq:
  "k < length a \<Longrightarrow> sorted_wrt (\<ge>) (take k a) \<Longrightarrow>
     adjust_loop k x a = insert_desc x (take k a) @ drop (Suc k) a"
proof (induction k x a rule: adjust_loop.induct)
  case (1 x a)
  then show ?case by (cases a) (auto simp: insert_desc_def)
next
  case (2 j x a)
  then have tk: "take (Suc j) a = take j a @ [a ! j]"
    by (simp add: take_Suc_conv_app_nth)
  show ?case
  proof (cases "x \<le> a ! j")
    case True
    from 2(3) tk have "\<forall>y \<in> set (take (Suc j) a). a ! j \<le> y"
      by (auto simp: sorted_wrt_append)
    with True have "\<forall>y \<in> set (take (Suc j) a). x \<le> y" by (metis order_trans)
    then have "insert_desc x (take (Suc j) a) = take (Suc j) a @ [x]"
      by (simp add: insert_desc_def takeWhile_eq_all_conv [THEN iffD2]
          dropWhile_eq_Nil_conv [THEN iffD2])
    with True 2(2) show ?thesis by (simp add: upd_conv_take_nth_drop)
  next
    case False
    let ?a = "a[Suc j := a ! j]"
    have "take j ?a = take j a" by simp
    moreover have "drop (Suc j) ?a = a ! j # drop (Suc (Suc j)) a"
      using 2(2) by (simp add: Cons_nth_drop_Suc [symmetric] drop_update_cancel)
    moreover have "sorted_wrt (\<ge>) (take j a)"
      using 2(3) tk by (simp add: sorted_wrt_append)
    ultimately have "adjust_loop j x ?a = insert_desc x (take j a) @ a ! j # drop (Suc (Suc j)) a"
      using 2(1) [OF False] 2(2) by simp
    moreover have "insert_desc x (take (Suc j) a) = insert_desc x (take j a) @ [a ! j]"
      using False by (simp add: insert_desc_def tk takeWhile_tail dropWhile_append3)
    ultimately show ?thesis using False by simp
  qed
qed

lemma mset_insert_desc [simp]: "mset (insert_desc x xs) = add_mset x (mset xs)"
proof -
  have "mset (takeWhile (\<lambda>y. x \<le> y) xs) + mset (dropWhile (\<lambda>y. x \<le> y) xs) = mset xs"
    by (metis mset_append takeWhile_dropWhile_id)
  then show ?thesis by (simp add: insert_desc_def)
qed

lemma length_insert_desc [simp]: "length (insert_desc x xs) = Suc (length xs)"
  by (metis mset_insert_desc size_add_mset size_mset)

lemma sorted_insert_desc: "sorted_wrt (\<ge>) xs \<Longrightarrow> sorted_wrt (\<ge>) (insert_desc x xs)"
  by (induction xs) (auto simp: insert_desc_def dest: set_takeWhileD set_dropWhileD)

lemma pq_push_list:
  assumes wf: "pq_wf q" and push: "pq_push x q = Some q'"
  shows "pq_list q' = insert_desc x (pq_list q)" and "pq_wf q'" and "pmax q' = pmax q"
proof -
  let ?a = "(parr q)[psize q := x]"
  from push wf have lt: "psize q < length (parr q)"
    by (auto simp: pq_push_def pq_full_def pq_wf_def split: if_splits)
  from push have q': "q' = q\<lparr>parr := adjust_loop (psize q) x ?a, psize := psize q + 1\<rparr>"
    using lt by (auto simp: pq_push_def pq_adjust_def split: if_splits)
  have "adjust_loop (psize q) x ?a = insert_desc x (pq_list q) @ drop (Suc (psize q)) (parr q)"
    using lt wf by (subst adjust_loop_eq) (simp_all add: pq_wf_def pq_list_def)
  then show list: "pq_list q' = insert_desc x (pq_list q)"
    using lt by (simp add: q' pq_list_def)
  show "pq_wf q'"
    unfolding pq_wf_def list using wf lt sorted_insert_desc by (auto simp: pq_wf_def q')
  show "pmax q' = pmax q" by (simp add: q')
qed

lemma shift_loop_take:
  "1 \<le> n \<Longrightarrow> n \<le> length a \<Longrightarrow> take (n - 1) (shift_loop n a) = tl (take n a) \<and>
     length (shift_loop n a) = length a \<and> (\<forall>i. n - 1 \<le> i \<longrightarrow> i < length a \<longrightarrow> shift_loop n a ! i = a ! i)"
proof (induction n)
  case 0
  then show ?case by simp
next
  case (Suc n)
  show ?case
  proof (cases "n = 0")
    case True
    then show ?thesis using Suc.prems by (cases a) (auto simp: shift_loop_def)
  next
    case False
    then have IH: "take (n - 1) (shift_loop n a) = tl (take n a)" "length (shift_loop n a) = length a"
      "\<forall>i. n - 1 \<le> i \<longrightarrow> i < length a \<longrightarrow> shift_loop n a ! i = a ! i"
      using Suc by auto
    have step: "shift_loop (Suc n) a = (shift_loop n a)[n - 1 := a ! n]"
      using False IH(3) Suc.prems by (simp add: shift_loop_def)
    have "take n (shift_loop (Suc n) a) = take (n - 1) (shift_loop n a) @ [a ! n]"
      using False Suc.prems IH(2) unfolding step
      by (cases n) (simp_all add: take_Suc_conv_app_nth)
    also have "\<dots> = tl (take (Suc n) a)"
      using False IH(1) Suc.prems by (cases a; cases n) (auto simp: take_Suc_conv_app_nth)
    finally show ?thesis using IH step False by (simp add: nth_list_update)
  qed
qed

lemma pq_pop_list:
  assumes wf: "pq_wf q" and pop: "pq_pop q = Some (x, q')"
  shows "pq_list q = x # pq_list q'" and "pq_wf q'" and "pmax q' = pmax q"
proof -
  from pop have ne: "psize q \<noteq> 0" and x: "x = parr q ! 0"
    and q': "q' = q\<lparr>parr := shift_loop (psize q) (parr q), psize := psize q - 1\<rparr>"
    by (auto simp: pq_pop_def pq_empty_def split: if_splits)
  have sh: "take (psize q - 1) (shift_loop (psize q) (parr q)) = tl (pq_list q)"
    "length (shift_loop (psize q) (parr q)) = length (parr q)"
    using shift_loop_take [of "psize q" "parr q"] ne wf by (auto simp: pq_wf_def pq_list_def)
  then have l': "pq_list q' = tl (pq_list q)" by (simp add: q' pq_list_def)
  have "pq_list q \<noteq> []" "hd (pq_list q) = x"
    using ne wf by (cases "parr q"; auto simp: pq_list_def pq_wf_def x)+
  with l' show list: "pq_list q = x # pq_list q'" by (metis list.collapse)
  with wf sh(2) show "pq_wf q'" unfolding pq_wf_def by (auto simp: q')
  show "pmax q' = pmax q" by (simp add: q')
qed


section \<open>The linked queue\<close>

text \<open>
  \<open>QListQueue\<close> links its nodes through pointers.  The heap maps the address of every live node
  to its data and its link; \<open>new(std::nothrow)\<close> is the argument \<open>alloc\<close>, the address it returned
  or \<open>None\<close> for a null pointer.  \<open>mt\<close> tells whether \<open>__multi_thread\<close> is defined, because the
  update of \<open>rear_\<close> in \<open>push\<close> is compiled only then.
\<close>

record 'a lqueue =
  lheap :: "nat \<Rightarrow> ('a \<times> nat option) option"
  lfront :: "nat option"
  lrear :: "nat option"
  lsize :: nat
  lmax :: nat

definition lq_new :: "nat \<Rightarrow> 'a lqueue" where
  "lq_new n = \<lparr>lheap = Map.empty, lfront = None, lrear = None, lsize = 0, lmax = n\<rparr>"

definition lq_full :: "'a lqueue \<Rightarrow> bool" where
  "lq_full q \<longleftrightarrow> lsize q = lmax q"

definition lq_empty :: "'a lqueue \<Rightarrow> bool" where
  "lq_empty q \<longleftrightarrow> lsize q = 0"

text \<open>\<open>rear_->link = p\<close>.\<close>

definition set_link :: "nat option \<Rightarrow> nat option \<Rightarrow> (nat \<Rightarrow> ('a \<times> nat option) option) \<Rightarrow>
    (nat \<Rightarrow> ('a \<times> nat option) option)" where
  "set_link r p h =
     (case r of None \<Rightarrow> h
      | Some a \<Rightarrow> (case h a of None \<Rightarrow> h | Some (x, _) \<Rightarrow> h(a := Some (x, p))))"

definition lq_push :: "bool \<Rightarrow> nat option \<Rightarrow> 'a \<Rightarrow> 'a lqueue \<Rightarrow> (int \<times> 'a lqueue) option" where
  "lq_push mt alloc item q =
     (if lq_full q then None
      else if lfront q = None then
        (case alloc of
           None \<Rightarrow> Some (-1, q\<lparr>lfront := None, lrear := None\<rparr>)
         | Some a \<Rightarrow> Some (0, q\<lparr>lheap := (lheap q)(a := Some (item, None)),
                                 lfront := Some a, lrear := Some a, lsize := lsize q + 1\<rparr>))
      else
        (case alloc of
           None \<Rightarrow> Some (-2, q\<lparr>lheap := set_link (lrear q) None (lheap q)\<rparr>)
         | Some a \<Rightarrow> Some (0, q\<lparr>lheap := set_link (lrear q) (Some a) ((lheap q)(a := Some (item, None))),
                                 lrear := (if mt then Some a else lrear q), lsize := lsize q + 1\<rparr>)))"

text \<open>
  \<open>push_urgent\<close> puts the item at the head.  On a non-empty queue it tests the old head instead of
  the new node, so a failed allocation is not noticed.
\<close>

definition lq_push_urgent :: "nat option \<Rightarrow> 'a \<Rightarrow> 'a lqueue \<Rightarrow> (int \<times> 'a lqueue) option" where
  "lq_push_urgent alloc item q =
     (if lq_full q then None
      else if lfront q = None then
        (case alloc of
           None \<Rightarrow> Some (-1, q\<lparr>lfront := None, lrear := None\<rparr>)
         | Some a \<Rightarrow> Some (0, q\<lparr>lheap := (lheap q)(a := Some (item, None)),
                                 lfront := Some a, lrear := Some a, lsize := lsize q + 1\<rparr>))
      else
        (case alloc of
           None \<Rightarrow> Some (0, q\<lparr>lfront := None, lsize := lsize q + 1\<rparr>)
         | Some a \<Rightarrow> Some (0, q\<lparr>lheap := (lheap q)(a := Some (item, lfront q)),
                                 lfront := Some a, lsize := lsize q + 1\<rparr>)))"

text \<open>
  \<open>pop\<close> blocks on an empty queue; a queue whose counter is positive while \<open>front_\<close> is null
  dereferences the null pointer (\<open>Inl ()\<close>).
\<close>

definition lq_pop :: "'a lqueue \<Rightarrow> (unit + 'a \<times> 'a lqueue) option" where
  "lq_pop q =
     (if lq_empty q then None
      else case lfront q of
        None \<Rightarrow> Some (Inl ())
      | Some a \<Rightarrow> (case lheap q a of
          None \<Rightarrow> Some (Inl ())
        | Some (x, nxt) \<Rightarrow> Some (Inr (x, q\<lparr>lfront := nxt, lheap := (lheap q)(a := None),
                                           lsize := lsize q - 1\<rparr>))))"

text \<open>The nodes reached from a pointer, in order.\<close>

fun lq_chain :: "(nat \<Rightarrow> ('a \<times> nat option) option) \<Rightarrow> nat option \<Rightarrow> (nat \<times> 'a) list \<Rightarrow> bool" where
  "lq_chain h p [] \<longleftrightarrow> p = None"
| "lq_chain h p ((a, x) # ns) \<longleftrightarrow> p = Some a \<and> (\<exists>n. h a = Some (x, n) \<and> lq_chain h n ns)"

definition lq_rep :: "'a lqueue \<Rightarrow> (nat \<times> 'a) list \<Rightarrow> bool" where
  "lq_rep q ns \<longleftrightarrow> lq_chain (lheap q) (lfront q) ns \<and> distinct (map fst ns) \<and> lsize q = length ns \<and>
     (ns \<noteq> [] \<longrightarrow> lrear q = Some (fst (last ns)))"

lemma lq_chain_upd: "a \<notin> fst ` set ns \<Longrightarrow> lq_chain (h(a := v)) p ns = lq_chain h p ns"
  by (induction ns arbitrary: p) auto

lemma lq_chain_in_dom: "lq_chain h p ns \<Longrightarrow> (a, x) \<in> set ns \<Longrightarrow> \<exists>n. h a = Some (x, n)"
  by (induction ns arbitrary: p) auto

lemma lq_chain_None: "lq_chain h p ns \<Longrightarrow> p = None \<longleftrightarrow> ns = []"
  by (cases ns) auto

lemma lq_chain_snoc:
  "lq_chain h p (ns @ [(b, y)]) \<Longrightarrow> distinct (map fst ns @ [b]) \<Longrightarrow> a \<notin> insert b (fst ` set ns) \<Longrightarrow>
     lq_chain (h(a := Some (x, None), b := Some (y, Some a))) p (ns @ [(b, y), (a, x)])"
proof (induction ns arbitrary: p)
  case Nil
  then show ?case by auto
next
  case (Cons n ns)
  obtain c z where n: "n = (c, z)" by (cases n)
  with Cons.prems obtain m where m: "p = Some c" "h c = Some (z, m)" "lq_chain h m (ns @ [(b, y)])"
    by auto
  from Cons.IH [OF m(3)] Cons.prems n m(1,2) show ?case by auto
qed

lemma lq_push_rep:
  assumes rep: "lq_rep q ns" and fresh: "lheap q a = None" and room: "lsize q \<noteq> lmax q"
  shows "\<exists>q'. lq_push True (Some a) x q = Some (0, q') \<and> lq_rep q' (ns @ [(a, x)])"
proof (cases ns rule: rev_cases)
  case Nil
  with rep room show ?thesis by (auto simp: lq_rep_def lq_push_def lq_full_def)
next
  case (snoc ms m)
  obtain b y where m: "m = (b, y)" by (cases m)
  from rep snoc m have ch: "lq_chain (lheap q) (lfront q) (ms @ [(b, y)])"
    and d: "distinct (map fst ms @ [b])" and r: "lrear q = Some b" and f: "lfront q \<noteq> None"
    by (auto simp: lq_rep_def lq_chain_None)
  have notin: "a \<notin> insert b (fst ` set ms)"
    using lq_chain_in_dom [OF ch] fresh by fastforce
  obtain n where hb: "lheap q b = Some (y, n)"
    using lq_chain_in_dom [OF ch, of b y] by auto
  let ?h = "(lheap q)(a := Some (x, None), b := Some (y, Some a))"
  have "set_link (lrear q) (Some a) ((lheap q)(a := Some (x, None))) = ?h"
    using notin hb by (auto simp: set_link_def r)
  with f room have "lq_push True (Some a) x q =
      Some (0, q\<lparr>lheap := ?h, lrear := Some a, lsize := lsize q + 1\<rparr>)"
    by (auto simp: lq_push_def lq_full_def)
  moreover have "lq_rep (q\<lparr>lheap := ?h, lrear := Some a, lsize := lsize q + 1\<rparr>) (ns @ [(a, x)])"
    using lq_chain_snoc [OF ch d notin, of x] d notin rep snoc m
    by (auto simp: lq_rep_def)
  ultimately show ?thesis by blast
qed

lemma lq_push_urgent_rep:
  assumes "lq_rep q ns" and "lheap q a = None" and "lsize q \<noteq> lmax q"
  shows "\<exists>q'. lq_push_urgent (Some a) x q = Some (0, q') \<and> lq_rep q' ((a, x) # ns)"
proof -
  have "a \<notin> fst ` set ns"
    using assms(1,2) lq_chain_in_dom by (fastforce simp: lq_rep_def)
  with assms show ?thesis
    using lq_chain_None [of "lheap q" "lfront q" ns]
    by (auto simp: lq_rep_def lq_push_urgent_def lq_full_def lq_chain_upd)
qed

lemma lq_pop_rep:
  assumes "lq_rep q ((a, x) # ns)"
  shows "\<exists>q'. lq_pop q = Some (Inr (x, q')) \<and> lq_rep q' ns"
  using assms by (auto simp: lq_rep_def lq_pop_def lq_empty_def lq_chain_upd)


text \<open>
  \<open>clear\<close> frees the nodes one by one.  The loop follows the links until a null pointer, so it is
  given fuel; \<open>lq_clear_rep\<close> shows that one unit more than the number of nodes is enough.
\<close>

fun lq_clear :: "nat \<Rightarrow> 'a lqueue \<Rightarrow> 'a lqueue option" where
  "lq_clear 0 q = None"
| "lq_clear (Suc fuel) q =
     (case lfront q of
        None \<Rightarrow> Some q
      | Some a \<Rightarrow> (case lheap q a of
          None \<Rightarrow> None
        | Some (x, nxt) \<Rightarrow> lq_clear fuel (q\<lparr>lfront := nxt, lheap := (lheap q)(a := None),
                                            lsize := lsize q - 1\<rparr>)))"

lemma lq_clear_rep:
  "lq_rep q ns \<Longrightarrow> \<exists>q'. lq_clear (Suc (length ns)) q = Some q' \<and> lq_rep q' []
     \<and> (\<forall>a. lheap q' a = (if a \<in> fst ` set ns then None else lheap q a)) \<and> lmax q' = lmax q"
proof (induction ns arbitrary: q)
  case Nil
  then show ?case by (auto simp: lq_rep_def)
next
  case (Cons n ns)
  obtain a x where n: "n = (a, x)" by (cases n)
  with Cons.prems obtain m where m: "lfront q = Some a" "lheap q a = Some (x, m)" by (auto simp: lq_rep_def)
  let ?q = "q\<lparr>lfront := m, lheap := (lheap q)(a := None), lsize := lsize q - 1\<rparr>"
  have "lq_rep ?q ns"
    using Cons.prems n m by (auto simp: lq_rep_def lq_chain_upd)
  from Cons.IH [OF this] n m show ?case by auto
qed


section \<open>The contract of a priority queue\<close>

locale priority_store =
  fixes wf :: "'q \<Rightarrow> bool"
    and items :: "'q \<Rightarrow> 'a::linorder multiset"
    and cap :: "'q \<Rightarrow> nat"
    and push :: "'a \<Rightarrow> 'q \<Rightarrow> 'q option"
    and pop :: "'q \<Rightarrow> ('a \<times> 'q) option"
  assumes push_room: "wf q \<Longrightarrow> size (items q) < cap q \<Longrightarrow>
      \<exists>q'. push x q = Some q' \<and> wf q' \<and> items q' = add_mset x (items q) \<and> cap q' = cap q"
    and pop_max: "wf q \<Longrightarrow> items q \<noteq> {#} \<Longrightarrow>
      \<exists>x q'. pop q = Some (x, q') \<and> wf q' \<and> items q = add_mset x (items q') \<and> (\<forall>y \<in># items q'. y \<le> x)"
    and pop_none: "wf q \<Longrightarrow> items q = {#} \<Longrightarrow> pop q = None"

text \<open>Popping \<open>n\<close> times; \<open>None\<close> when a pop would block.\<close>

fun pop_many :: "('q \<Rightarrow> ('a \<times> 'q) option) \<Rightarrow> nat \<Rightarrow> 'q \<Rightarrow> ('a list \<times> 'q) option" where
  "pop_many pop 0 q = Some ([], q)"
| "pop_many pop (Suc n) q =
     (case pop q of None \<Rightarrow> None
      | Some (x, q') \<Rightarrow> (case pop_many pop n q' of None \<Rightarrow> None | Some (xs, q'') \<Rightarrow> Some (x # xs, q'')))"

context priority_store
begin

lemma push_all_items:
  "wf q \<Longrightarrow> size (items q) + length xs \<le> cap q \<Longrightarrow>
     \<exists>q'. push_all push xs q = Some q' \<and> wf q' \<and> items q' = items q + mset xs"
proof (induction xs arbitrary: q)
  case (Cons x xs)
  then obtain q1 where "push x q = Some q1" "wf q1" "items q1 = add_mset x (items q)" "cap q1 = cap q"
    using push_room [of q x] by auto
  with Cons.IH [of q1] Cons.prems show ?case by auto
qed simp

lemma pop_many_sorts:
  "wf q \<Longrightarrow> \<exists>xs q'. pop_many pop (size (items q)) q = Some (xs, q') \<and> mset xs = items q
     \<and> sorted_wrt (\<ge>) xs \<and> wf q' \<and> items q' = {#}"
proof (induction "size (items q)" arbitrary: q)
  case (Suc n)
  from Suc.hyps(2) have "items q \<noteq> {#}" by auto
  with Suc.prems obtain x q1 where q1: "pop q = Some (x, q1)" "wf q1"
      "items q = add_mset x (items q1)" "\<forall>y \<in># items q1. y \<le> x"
    using pop_max [of q] by auto
  with Suc.hyps obtain xs q' where "pop_many pop n q1 = Some (xs, q')" "mset xs = items q1"
      "sorted_wrt (\<ge>) xs" "wf q'" "items q' = {#}"
    by (metis size_add_mset add_left_cancel plus_1_eq_Suc)
  moreover have "\<forall>y \<in> set xs. y \<le> x" using q1(4) calculation(2) by (metis set_mset_mset)
  ultimately show ?case using q1 Suc.hyps(2) by (auto simp flip: Suc.hyps(2))
qed simp

end

interpretation pq: priority_store pq_wf "\<lambda>q. mset (pq_list q)" pmax pq_push pq_pop
proof (unfold_locales, goal_cases)
  case (1 q x)
  then obtain q' where q': "pq_push x q = Some q'"
    by (auto simp: pq_push_def pq_full_def pq_wf_def pq_list_def)
  from pq_push_list [OF 1(1) q'] q' show ?case by simp
next
  case (2 q)
  then obtain x q' where q': "pq_pop q = Some (x, q')"
    by (auto simp: pq_pop_def pq_empty_def pq_list_def)
  from pq_pop_list [OF 2(1) q'] 2(1) q' show ?case by (auto simp: pq_wf_def)
next
  case (3 q)
  then show ?case by (auto simp: pq_pop_def pq_empty_def pq_wf_def pq_list_def)
qed

lemma pq_init_ok:
  assumes "0 < n" and "length block = nat n"
  shows "fst (pq_init n (Some block) q) = 0" and "pq_wf (snd (pq_init n (Some block) q))"
    and "pq_list (snd (pq_init n (Some block) q)) = []" and "pmax (snd (pq_init n (Some block) q)) = nat n"
  using assms by (simp_all add: pq_init_def pq_wf_def pq_list_def)

lemma sorted_desc_unique: "sorted_wrt (\<ge>) xs \<Longrightarrow> mset xs = mset ys \<Longrightarrow> xs = rev (sort ys)"
  by (metis mset_rev properties_for_sort rev_rev_ident sorted_wrt_rev)


section \<open>Runs of the linked queue\<close>

datatype 'a lop = LPush 'a | LUrgent 'a | LPop

text \<open>
  The state pairs the queue with the next address the allocator hands out.  \<open>None\<close> as the result
  of an operation is a call that blocks; it leaves the queue unchanged.
\<close>

fun lq_step :: "'a lop \<Rightarrow> nat \<times> 'a lqueue \<Rightarrow> 'a qres option \<times> nat \<times> 'a lqueue" where
  "lq_step (LPush x) (k, q) =
     (case lq_push True (Some k) x q of None \<Rightarrow> (None, k, q) | Some (r, q') \<Rightarrow> (Some (QRet r), Suc k, q'))"
| "lq_step (LUrgent x) (k, q) =
     (case lq_push_urgent (Some k) x q of None \<Rightarrow> (None, k, q) | Some (r, q') \<Rightarrow> (Some (QRet r), Suc k, q'))"
| "lq_step LPop (k, q) =
     (case lq_pop q of None \<Rightarrow> (None, k, q) | Some (Inl _) \<Rightarrow> (Some QDone, k, q)
      | Some (Inr (x, q')) \<Rightarrow> (Some (QItem 0 x), k, q'))"

fun deque_step :: "nat \<Rightarrow> 'a lop \<Rightarrow> 'a list \<Rightarrow> 'a qres option \<times> 'a list" where
  "deque_step c (LPush x) xs = (if length xs = c then (None, xs) else (Some (QRet 0), xs @ [x]))"
| "deque_step c (LUrgent x) xs = (if length xs = c then (None, xs) else (Some (QRet 0), x # xs))"
| "deque_step c LPop xs = (case xs of [] \<Rightarrow> (None, []) | y # ys \<Rightarrow> (Some (QItem 0 y), ys))"

definition lq_sim :: "nat \<Rightarrow> nat \<times> 'a lqueue \<Rightarrow> 'a list \<Rightarrow> bool" where
  "lq_sim c s xs \<longleftrightarrow> (\<exists>ns. lq_rep (snd s) ns \<and> map snd ns = xs) \<and> lmax (snd s) = c
     \<and> (\<forall>a \<ge> fst s. lheap (snd s) a = None)"

lemma lq_simI:
  "lq_rep q ns \<Longrightarrow> map snd ns = xs \<Longrightarrow> lmax q = c \<and> (\<forall>a \<ge> k. lheap q a = None) \<Longrightarrow> lq_sim c (k, q) xs"
  by (auto simp: lq_sim_def)

lemma lq_push_frame:
  assumes "lq_push mt (Some k) x q = Some (r, q')" and "\<forall>a \<ge> k. lheap q a = None"
  shows "lmax q' = lmax q \<and> (\<forall>a \<ge> Suc k. lheap q' a = None)"
  using assms by (auto simp: lq_push_def set_link_def split: if_splits option.splits)

lemma lq_urgent_frame:
  assumes "lq_push_urgent (Some k) x q = Some (r, q')" and "\<forall>a \<ge> k. lheap q a = None"
  shows "lmax q' = lmax q \<and> (\<forall>a \<ge> Suc k. lheap q' a = None)"
  using assms by (auto simp: lq_push_urgent_def split: if_splits option.splits)

lemma lq_pop_frame:
  assumes "lq_pop q = Some (Inr (x, q'))" and "\<forall>a \<ge> k. lheap q a = None"
  shows "lmax q' = lmax q \<and> (\<forall>a \<ge> k. lheap q' a = None)"
  using assms by (auto simp: lq_pop_def split: if_splits option.splits)

lemma lq_rep_size: "lq_rep q ns \<Longrightarrow> lsize q = length ns"
  by (simp add: lq_rep_def)

lemma lq_step_simulates:
  assumes "lq_sim c (k, q) xs"
  shows "fst (lq_step x (k, q)) = fst (deque_step c x xs) \<and>
    lq_sim c (snd (lq_step x (k, q))) (snd (deque_step c x xs))"
proof -
  from assms obtain ns where rep: "lq_rep q ns" and xs: "xs = map snd ns" and c: "lmax q = c"
    and fr: "\<forall>a \<ge> k. lheap q a = None" by (auto simp: lq_sim_def)
  have fk: "lheap q k = None" using fr by simp
  show ?thesis
  proof (cases x)
    case (LPush y)
    show ?thesis
    proof (cases "lsize q = lmax q")
      case True
      then have "lq_push True (Some k) y q = None" "length xs = c"
        using xs c lq_rep_size [OF rep] by (simp_all add: lq_push_def lq_full_def)
      with LPush assms show ?thesis by simp
    next
      case False
      from lq_push_rep [OF rep fk False, of y] obtain q' where
        q': "lq_push True (Some k) y q = Some (0, q')" "lq_rep q' (ns @ [(k, y)])" by auto
      have "length xs \<noteq> c" using False xs c lq_rep_size [OF rep] by simp
      moreover have "lq_sim c (Suc k, q') (xs @ [y])"
        by (rule lq_simI [OF q'(2)]) (use xs c lq_push_frame [OF q'(1) fr] in simp_all)
      ultimately show ?thesis using LPush q'(1) by simp
    qed
  next
    case (LUrgent y)
    show ?thesis
    proof (cases "lsize q = lmax q")
      case True
      then have "lq_push_urgent (Some k) y q = None" "length xs = c"
        using xs c lq_rep_size [OF rep] by (simp_all add: lq_push_urgent_def lq_full_def)
      with LUrgent assms show ?thesis by simp
    next
      case False
      from lq_push_urgent_rep [OF rep fk False, of y] obtain q' where
        q': "lq_push_urgent (Some k) y q = Some (0, q')" "lq_rep q' ((k, y) # ns)" by auto
      have "length xs \<noteq> c" using False xs c lq_rep_size [OF rep] by simp
      moreover have "lq_sim c (Suc k, q') (y # xs)"
        by (rule lq_simI [OF q'(2)]) (use xs c lq_urgent_frame [OF q'(1) fr] in simp_all)
      ultimately show ?thesis using LUrgent q'(1) by simp
    qed
  next
    case LPop
    show ?thesis
    proof (cases ns)
      case Nil
      then have "lq_pop q = None" using lq_rep_size [OF rep] by (simp add: lq_pop_def lq_empty_def)
      with Nil LPop assms xs show ?thesis by simp
    next
      case (Cons n ms)
      obtain a y where n: "n = (a, y)" by (cases n)
      from lq_pop_rep [of q a y ms] rep Cons n obtain q' where q': "lq_pop q = Some (Inr (y, q'))"
        "lq_rep q' ms" by auto
      with lq_pop_frame [OF q'(1) fr] LPop Cons n xs c show ?thesis by (auto simp: lq_sim_def)
    qed
  qed
qed

lemma lq_run_simulates:
  "lq_sim c s xs \<Longrightarrow> fst (run_ops lq_step ops s) = fst (run_ops (deque_step c) ops xs)"
proof (induction ops arbitrary: s xs)
  case (Cons x ops)
  obtain k q where s: "s = (k, q)" by (cases s)
  from lq_step_simulates [OF Cons.prems [unfolded s], of x] Cons.IH s show ?case
    by (auto simp: split_def Let_def)
qed simp


section \<open>Properties\<close>

text \<open>C18: a freshly initialised \<open>QQueue\<close> of size \<open>n\<close> behaves, under every sequence of non-blocking
  pushes, non-blocking pops and clears, exactly as a first-in first-out list that refuses a push
  at \<open>n - 1\<close> items: the same return codes, the same items, the same final contents.\<close>

theorem qq_runs_as_fifo:
  assumes "0 < n" and "length block = nat n"
  shows "let q0 = snd (qq_init n (Some block) q); (rs, q') = run_ops (qq_step d) ops q0
    in run_ops (fifo_step (nat n - 1) d) ops [] = (rs, qq_list q') \<and> qq_wf q'
      \<and> qq_size q' \<le> nat n - 1"
proof -
  let ?q0 = "snd (qq_init n (Some block) q)"
  have "qq_wf ?q0 \<and> qmax ?q0 = Suc (nat n - 1)" and e: "qq_list ?q0 = []"
    using qq_init_ok [OF assms, of q] assms(1) by simp_all
  with run_ops_simulation [where I = "\<lambda>q. qq_wf q \<and> qmax q = Suc (nat n - 1)" and \<alpha> = qq_list
      and cstep = "qq_step d" and astep = "fifo_step (nat n - 1) d" and s = ?q0 and xs = ops]
    qq_step_simulates [of _ "nat n - 1" d]
  show ?thesis
    using qq_size_less [of "snd (run_ops (qq_step d) ops ?q0)"] by (auto simp: split_def Let_def)
qed

theorem qq_runs_as_fifo_witness:
  "fst (run_ops (qq_step (0::int)) [QPush 5, QPush 6, QPush 7, QPop, QPush 8, QPop, QPop, QPop]
       (snd (qq_init 3 (Some [9, 9, 9]) qq_new))) =
    [QRet 0, QRet 0, QRet (-1), QItem 0 5, QRet 0, QItem 0 6, QItem 0 8, QItem (-1) 0]"
proof -
  have "run_ops (fifo_step (nat 3 - 1) (0::int))
      [QPush 5, QPush 6, QPush 7, QPop, QPush 8, QPop, QPop, QPop] [] =
    ([QRet 0, QRet 0, QRet (-1), QItem 0 5, QRet 0, QItem 0 6, QItem 0 8, QItem (-1) 0], [])"
    by simp
  then show ?thesis
    using qq_runs_as_fifo [of 3 "[9, 9, 9::int]" qq_new 0
      "[QPush 5, QPush 6, QPush 7, QPop, QPush 8, QPop, QPop, QPop]"]
    unfolding Let_def split_def by (metis fst_conv length_Cons list.size(3) nat_numeral numeral_3_eq_3 zero_less_numeral)
qed

text \<open>C21: pushing any items into an initialised \<open>QPriorityQueue\<close> with room for them and popping as
  many times returns them in descending order, without blocking.\<close>

theorem pq_drains_sorted:
  assumes "0 < n" and "length block = nat n" and "length xs \<le> nat n"
  shows "\<exists>q1 q2. push_all pq_push xs (snd (pq_init n (Some block) q)) = Some q1
    \<and> pop_many pq_pop (length xs) q1 = Some (rev (sort xs), q2) \<and> pq_empty q2"
proof -
  from pq.push_all_items [of "snd (pq_init n (Some block) q)" xs] pq_init_ok [OF assms(1,2), of q] assms(3)
  obtain q1 where q1: "push_all pq_push xs (snd (pq_init n (Some block) q)) = Some q1" "pq_wf q1"
    "mset (pq_list q1) = mset xs" by auto
  from pq.pop_many_sorts [OF q1(2)] q1(3) obtain ys q2 where
    "pop_many pq_pop (length xs) q1 = Some (ys, q2)" "mset ys = mset xs" "sorted_wrt (\<ge>) ys"
    "pq_wf q2" "pq_list q2 = []" by (metis size_mset mset_zero_iff)
  moreover from this have "pq_empty q2" by (auto simp: pq_empty_def pq_list_def pq_wf_def)
  ultimately show ?thesis using q1(1) sorted_desc_unique by blast
qed

theorem pq_drains_sorted_witness:
  "\<exists>q1 q2. push_all pq_push [3, 1, 4, 1, 5] (snd (pq_init 5 (Some [0, 0, 0, 0, 0 :: int])
      \<lparr>parr = [], pmax = 0, psize = 0\<rparr>)) = Some q1
    \<and> pop_many pq_pop 5 q1 = Some ([5, 4, 3, 1, 1], q2) \<and> pq_empty q2"
proof -
  have "rev (sort [3, 1, 4, 1, 5 :: int]) = [5, 4, 3, 1, 1]" "length [3, 1, 4, 1, 5 :: int] = 5"
    "length [0, 0, 0, 0, 0 :: int] = nat 5" by simp_all
  with pq_drains_sorted [of 5 "[0, 0, 0, 0, 0 :: int]" "[3, 1, 4, 1, 5]"
      "\<lparr>parr = [], pmax = 0, psize = 0\<rparr>"]
  show ?thesis by (metis order_refl zero_less_numeral nat_numeral)
qed

text \<open>a \<open>QListQueue\<close> built with \<open>__multi_thread\<close> behaves under every sequence of \<open>push\<close>,
  \<open>push_urgent\<close> and \<open>pop\<close>, as long as memory is available, exactly as a list of at most \<open>n\<close> items
  with insertion at both ends; in particular no call follows a null or dangling pointer.\<close>

theorem lq_runs_as_deque:
  "fst (run_ops lq_step ops (0, lq_new n)) = fst (run_ops (deque_step n) ops [])"
  by (rule lq_run_simulates) (simp add: lq_sim_def lq_rep_def lq_new_def)

text \<open>when \<open>new(std::nothrow)\<close> fails inside \<open>push_urgent\<close> on a non-empty queue, the call still
  returns 0 and counts the item, every queued node is lost, and the next \<open>pop\<close> dereferences a
  null pointer.\<close>

theorem lq_push_urgent_null:
  assumes "lq_rep q ns" and "ns \<noteq> []" and "lsize q \<noteq> lmax q"
  shows "\<exists>q'. lq_push_urgent None x q = Some (0, q') \<and> lsize q' = lsize q + 1 \<and> lfront q' = None
    \<and> lq_pop q' = Some (Inl ())"
proof -
  have "lfront q \<noteq> None" using assms lq_chain_None by (auto simp: lq_rep_def)
  then show ?thesis
    using assms(3) by (auto simp: lq_push_urgent_def lq_full_def lq_pop_def lq_empty_def)
qed

theorem lq_push_urgent_null_witness:
  "\<exists>q'. lq_push_urgent None 2 \<lparr>lheap = [0 \<mapsto> (1::int, None)], lfront = Some 0, lrear = Some 0,
     lsize = 1, lmax = 8\<rparr> = Some (0, q') \<and> lq_pop q' = Some (Inl ())"
  using lq_push_urgent_null [of "\<lparr>lheap = [0 \<mapsto> (1::int, None)], lfront = Some 0, lrear = Some 0,
     lsize = 1, lmax = 8\<rparr>" "[(0, 1)]" 2]
  by (auto simp: lq_rep_def)

end
