(* ===== verification/Md5_Digest.thy ===== *)
theory Md5_Digest
  imports Idfs_Prelude
begin

text \<open>
  The two MD5 implementations of the program: the class \<open>MD5\<close> of \<open>MD5.cc\<close>, whose hexadecimal
  digest the server puts into its reply, and the class \<open>QMD5\<close> of \<open>qmd5.h\<close>, whose first eight
  digest bytes are the identifier under which an image is stored.  Both are translated as they
  are written (a context with a 64-byte buffer, a bit counter split over two 32-bit words, a
  block transformation of 64 statements).  The specification is the algorithm of RFC 1321:
  pad the message, cut it into blocks, run the 64 steps of the indexed round functions.  The
  lemmas show that any way of feeding a message to \<open>update\<close> leaves the context of the whole
  message, and that both classes compute the specification.
\<close>

section \<open>Round functions and the block transformation\<close>

type_synonym u32 = "32 word"
type_synonym md5_state = "u32 \<times> u32 \<times> u32 \<times> u32"

definition MD5_F :: "u32 \<Rightarrow> u32 \<Rightarrow> u32 \<Rightarrow> u32" where
  "MD5_F x y z = (x AND y) OR (NOT x AND z)"

definition MD5_G :: "u32 \<Rightarrow> u32 \<Rightarrow> u32 \<Rightarrow> u32" where
  "MD5_G x y z = (x AND z) OR (y AND NOT z)"

definition MD5_H :: "u32 \<Rightarrow> u32 \<Rightarrow> u32 \<Rightarrow> u32" where
  "MD5_H x y z = x XOR y XOR z"

definition MD5_I :: "u32 \<Rightarrow> u32 \<Rightarrow> u32 \<Rightarrow> u32" where
  "MD5_I x y z = y XOR (x OR NOT z)"

definition rotate_left :: "u32 \<Rightarrow> nat \<Rightarrow> u32" where
  "rotate_left x n = push_bit n x OR drop_bit (32 - n) x"

text \<open>\<open>FF\<close>, \<open>GG\<close>, \<open>HH\<close>, \<open>II\<close>: the new value of the first register.\<close>

definition FF :: "u32 \<Rightarrow> u32 \<Rightarrow> u32 \<Rightarrow> u32 \<Rightarrow> u32 \<Rightarrow> nat \<Rightarrow> u32 \<Rightarrow> u32" where
  "FF a b c d x s ac = rotate_left (a + MD5_F b c d + x + ac) s + b"

definition GG :: "u32 \<Rightarrow> u32 \<Rightarrow> u32 \<Rightarrow> u32 \<Rightarrow> u32 \<Rightarrow> nat \<Rightarrow> u32 \<Rightarrow> u32" where
  "GG a b c d x s ac = rotate_left (a + MD5_G b c d + x + ac) s + b"

definition HH :: "u32 \<Rightarrow> u32 \<Rightarrow> u32 \<Rightarrow> u32 \<Rightarrow> u32 \<Rightarrow> nat \<Rightarrow> u32 \<Rightarrow> u32" where
  "HH a b c d x s ac = rotate_left (a + MD5_H b c d + x + ac) s + b"

definition II :: "u32 \<Rightarrow> u32 \<Rightarrow> u32 \<Rightarrow> u32 \<Rightarrow> u32 \<Rightarrow> nat \<Rightarrow> u32 \<Rightarrow> u32" where
  "II a b c d x s ac = rotate_left (a + MD5_I b c d + x + ac) s + b"

abbreviation (input) S11 :: nat where "S11 \<equiv> 7"
abbreviation (input) S12 :: nat where "S12 \<equiv> 12"
abbreviation (input) S13 :: nat where "S13 \<equiv> 17"
abbreviation (input) S14 :: nat where "S14 \<equiv> 22"
abbreviation (input) S21 :: nat where "S21 \<equiv> 5"
abbreviation (input) S22 :: nat where "S22 \<equiv> 9"
abbreviation (input) S23 :: nat where "S23 \<equiv> 14"
abbreviation (input) S24 :: nat where "S24 \<equiv> 20"
abbreviation (input) S31 :: nat where "S31 \<equiv> 4"
abbreviation (input) S32 :: nat where "S32 \<equiv> 11"
abbreviation (input) S33 :: nat where "S33 \<equiv> 16"
abbreviation (input) S34 :: nat where "S34 \<equiv> 23"
abbreviation (input) S41 :: nat where "S41 \<equiv> 6"
abbreviation (input) S42 :: nat where "S42 \<equiv> 10"
abbreviation (input) S43 :: nat where "S43 \<equiv> 15"
abbreviation (input) S44 :: nat where "S44 \<equiv> 21"

text \<open>
  One statement of the transformation, such as \<open>GG (d, a, b, c, x[ 6], S22, 0xc040b340)\<close>: the
  round function, the register it assigns (which fixes the order of the other three), the
  index into \<open>x\<close>, the shift and the additive constant.
\<close>

datatype md5_fun = FFc | GGc | HHc | IIc
datatype md5_reg = RA | RB | RC | RD

fun round_fun :: "md5_fun \<Rightarrow> u32 \<Rightarrow> u32 \<Rightarrow> u32 \<Rightarrow> u32 \<Rightarrow> u32 \<Rightarrow> nat \<Rightarrow> u32 \<Rightarrow> u32" where
  "round_fun FFc = FF"
| "round_fun GGc = GG"
| "round_fun HHc = HH"
| "round_fun IIc = II"

type_synonym md5_stmt = "md5_fun \<times> md5_reg \<times> nat \<times> nat \<times> u32"

fun exec_stmt :: "u32 list \<Rightarrow> md5_state \<Rightarrow> md5_stmt \<Rightarrow> md5_state" where
  "exec_stmt x (a, b, c, d) (f, RA, k, s, ac) = (round_fun f a b c d (x ! k) s ac, b, c, d)"
| "exec_stmt x (a, b, c, d) (f, RD, k, s, ac) = (a, b, c, round_fun f d a b c (x ! k) s ac)"
| "exec_stmt x (a, b, c, d) (f, RC, k, s, ac) = (a, b, round_fun f c d a b (x ! k) s ac, d)"
| "exec_stmt x (a, b, c, d) (f, RB, k, s, ac) = (a, round_fun f b c d a (x ! k) s ac, c, d)"

text \<open>The 64 statements of \<open>MD5::transform\<close>, in order.\<close>

definition transform_stmts :: "md5_stmt list" where
  "transform_stmts =
    [(FFc, RA, 0, S11, 0xd76aa478), (FFc, RD, 1, S12, 0xe8c7b756),
     (FFc, RC, 2, S13, 0x242070db), (FFc, RB, 3, S14, 0xc1bdceee),
     (FFc, RA, 4, S11, 0xf57c0faf), (FFc, RD, 5, S12, 0x4787c62a),
     (FFc, RC, 6, S13, 0xa8304613), (FFc, RB, 7, S14, 0xfd469501),
     (FFc, RA, 8, S11, 0x698098d8), (FFc, RD, 9, S12, 0x8b44f7af),
     (FFc, RC, 10, S13, 0xffff5bb1), (FFc, RB, 11, S14, 0x895cd7be),
     (FFc, RA, 12, S11, 0x6b901122), (FFc, RD, 13, S12, 0xfd987193),
     (FFc, RC, 14, S13, 0xa679438e), (FFc, RB, 15, S14, 0x49b40821),
     (GGc, RA, 1, S21, 0xf61e2562), (GGc, RD, 6, S22, 0xc040b340),
     (GGc, RC, 11, S23, 0x265e5a51), (GGc, RB, 0, S24, 0xe9b6c7aa),
     (GGc, RA, 5, S21, 0xd62f105d), (GGc, RD, 10, S22, 0x2441453),
     (GGc, RC, 15, S23, 0xd8a1e681), (GGc, RB, 4, S24, 0xe7d3fbc8),
     (GGc, RA, 9, S21, 0x21e1cde6), (GGc, RD, 14, S22, 0xc33707d6),
     (GGc, RC, 3, S23, 0xf4d50d87), (GGc, RB, 8, S24, 0x455a14ed),
     (GGc, RA, 13, S21, 0xa9e3e905), (GGc, RD, 2, S22, 0xfcefa3f8),
     (GGc, RC, 7, S23, 0x676f02d9), (GGc, RB, 12, S24, 0x8d2a4c8a),
     (HHc, RA, 5, S31, 0xfffa3942), (HHc, RD, 8, S32, 0x8771f681),
     (HHc, RC, 11, S33, 0x6d9d6122), (HHc, RB, 14, S34, 0xfde5380c),
     (HHc, RA, 1, S31, 0xa4beea44), (HHc, RD, 4, S32, 0x4bdecfa9),
     (HHc, RC, 7, S33, 0xf6bb4b60), (HHc, RB, 10, S34, 0xbebfbc70),
     (HHc, RA, 13, S31, 0x289b7ec6), (HHc, RD, 0, S32, 0xeaa127fa),
     (HHc, RC, 3, S33, 0xd4ef3085), (HHc, RB, 6, S34, 0x4881d05),
     (HHc, RA, 9, S31, 0xd9d4d039), (HHc, RD, 12, S32, 0xe6db99e5),
     (HHc, RC, 15, S33, 0x1fa27cf8), (HHc, RB, 2, S34, 0xc4ac5665),
     (IIc, RA, 0, S41, 0xf4292244), (IIc, RD, 7, S42, 0x432aff97),
     (IIc, RC, 14, S43, 0xab9423a7), (IIc, RB, 5, S44, 0xfc93a039),
     (IIc, RA, 12, S41, 0x655b59c3), (IIc, RD, 3, S42, 0x8f0ccc92),
     (IIc, RC, 10, S43, 0xffeff47d), (IIc, RB, 1, S44, 0x85845dd1),
     (IIc, RA, 8, S41, 0x6fa87e4f), (IIc, RD, 15, S42, 0xfe2ce6e0),
     (IIc, RC, 6, S43, 0xa3014314), (IIc, RB, 13, S44, 0x4e0811a1),
     (IIc, RA, 4, S41, 0xf7537e82), (IIc, RD, 11, S42, 0xbd3af235),
     (IIc, RC, 2, S43, 0x2ad7d2bb), (IIc, RB, 9, S44, 0xeb86d391)]"

text \<open>\<open>decode\<close> and \<open>encode\<close>: four bytes and one word, least significant byte first.\<close>

fun md5_decode :: "bytes \<Rightarrow> u32 list" where
  "md5_decode (b0 # b1 # b2 # b3 # bs) =
     (ucast b0 OR push_bit 8 (ucast b1) OR push_bit 16 (ucast b2) OR push_bit 24 (ucast b3))
     # md5_decode bs"
| "md5_decode _ = []"

fun md5_encode :: "u32 list \<Rightarrow> bytes" where
  "md5_encode [] = []"
| "md5_encode (w # ws) =
     ucast (w AND 0xff) # ucast (drop_bit 8 w AND 0xff) # ucast (drop_bit 16 w AND 0xff)
     # ucast (drop_bit 24 w AND 0xff) # md5_encode ws"

definition md5_transform :: "md5_state \<Rightarrow> bytes \<Rightarrow> md5_state" where
  "md5_transform st block =
     (let x = md5_decode block;
          (s0, s1, s2, s3) = st;
          (a, b, c, d) = foldl (exec_stmt x) st transform_stmts
      in (s0 + a, s1 + b, s2 + c, s3 + d))"


section \<open>The class MD5\<close>

record md5_ctx =
  mfinal :: bool
  mbuf :: bytes
  mcount0 :: u32
  mcount1 :: u32
  mstate :: md5_state
  mdigest :: bytes

text \<open>
  \<open>init\<close> leaves \<open>buffer\<close> and \<open>digest\<close> as the constructor found them in memory.
\<close>

definition md5_init :: "md5_ctx \<Rightarrow> md5_ctx" where
  "md5_init ctx = ctx\<lparr>mfinal := False, mcount0 := 0, mcount1 := 0,
     mstate := (0x67452301, 0xefcdab89, 0x98badcfe, 0x10325476)\<rparr>"

text \<open>
  \<open>for (i = firstpart; i + blocksize <= length; i += blocksize) transform(&input[i]);\<close> the result
  is the new state and the value of \<open>i\<close> after the loop.  The lengths that reach this code come
  from an \<open>int\<close>, so they are below \<open>2^31\<close> and \<open>i + blocksize\<close> does not wrap.
\<close>

function transform_loop :: "nat \<Rightarrow> bytes \<Rightarrow> md5_state \<Rightarrow> md5_state \<times> nat" where
  "transform_loop i input st =
     (if i + 64 \<le> length input
      then transform_loop (i + 64) input (md5_transform st (sub_buf i 64 input))
      else (st, i))"
  by pat_completeness auto
termination
  by (relation "measure (\<lambda>(i, input, st). length input - i)") auto

declare transform_loop.simps [simp del]

definition md5_update :: "bytes \<Rightarrow> md5_ctx \<Rightarrow> md5_ctx" where
  "md5_update input ctx =
     (let len = (of_nat (length input) :: u32);
          index = unat (mcount0 ctx div 8 mod 64);
          c0 = mcount0 ctx + push_bit 3 len;
          c1 = (if c0 < push_bit 3 len then mcount1 ctx + 1 else mcount1 ctx) + drop_bit 29 len;
          firstpart = 64 - index
      in if firstpart \<le> length input
         then let buf = overwrite index (take firstpart input) (mbuf ctx);
                  (st, i) = transform_loop firstpart input (md5_transform (mstate ctx) buf)
              in ctx\<lparr>mcount0 := c0, mcount1 := c1, mstate := st,
                     mbuf := overwrite 0 (drop i input) buf\<rparr>
         else ctx\<lparr>mcount0 := c0, mcount1 := c1, mbuf := overwrite index input (mbuf ctx)\<rparr>)"

definition md5_padding :: bytes where
  "md5_padding = 0x80 # replicate 63 0"

definition state_words :: "md5_state \<Rightarrow> u32 list" where
  "state_words st = (case st of (a, b, c, d) \<Rightarrow> [a, b, c, d])"

definition md5_finalize :: "md5_ctx \<Rightarrow> md5_ctx" where
  "md5_finalize ctx =
     (if mfinal ctx then ctx
      else let bits = md5_encode [mcount0 ctx, mcount1 ctx];
               index = unat (mcount0 ctx div 8 mod 64);
               padLen = (if index < 56 then 56 - index else 120 - index);
               ctx1 = md5_update (take padLen md5_padding) ctx;
               ctx2 = md5_update bits ctx1
           in ctx2\<lparr>mdigest := md5_encode (state_words (mstate ctx2)),
                   mbuf := replicate 64 0, mcount0 := 0, mcount1 := 0, mfinal := True\<rparr>)"

definition hex02 :: "byte \<Rightarrow> string" where
  "hex02 b = pad0 2 (hex_nat (unat b))"

definition hexdigest :: "md5_ctx \<Rightarrow> string" where
  "hexdigest ctx = (if \<not> mfinal ctx then [] else concat (map hex02 (mdigest ctx)))"

text \<open>
  \<open>md5(const char* Input, int length)\<close>: the constructor runs \<open>init\<close>, \<open>update\<close> and \<open>finalize\<close> on an
  object whose other members are whatever the memory held.
\<close>

definition md5 :: "md5_ctx \<Rightarrow> bytes \<Rightarrow> string" where
  "md5 mem input = hexdigest (md5_finalize (md5_update input (md5_init mem)))"


section \<open>The class QMD5\<close>

definition QMD5_F :: "u32 \<Rightarrow> u32 \<Rightarrow> u32 \<Rightarrow> u32" where
  "QMD5_F x y z = (x AND y) OR ((NOT x) AND z)"

definition QMD5_G :: "u32 \<Rightarrow> u32 \<Rightarrow> u32 \<Rightarrow> u32" where
  "QMD5_G x y z = (x AND z) OR (y AND (NOT z))"

definition QMD5_H :: "u32 \<Rightarrow> u32 \<Rightarrow> u32 \<Rightarrow> u32" where
  "QMD5_H x y z = x XOR y XOR z"

definition QMD5_I :: "u32 \<Rightarrow> u32 \<Rightarrow> u32 \<Rightarrow> u32" where
  "QMD5_I x y z = y XOR (x OR (NOT z))"

definition ROTATE_LEFT :: "u32 \<Rightarrow> nat \<Rightarrow> u32" where
  "ROTATE_LEFT x n = push_bit n x OR drop_bit (32 - n) x"

text \<open>
  The macro \<open>FF(a, b, c, d, x, s, ac)\<close> runs three assignments to \<open>a\<close>; the other three macros
  differ in the round function only.
\<close>

definition QMD5_step :: "(u32 \<Rightarrow> u32 \<Rightarrow> u32 \<Rightarrow> u32) \<Rightarrow>
    u32 \<Rightarrow> u32 \<Rightarrow> u32 \<Rightarrow> u32 \<Rightarrow> u32 \<Rightarrow> nat \<Rightarrow> u32 \<Rightarrow> u32" where
  "QMD5_step f a b c d x s ac =
     (let a1 = a + (f b c d + x + ac); a2 = ROTATE_LEFT a1 s in a2 + b)"

fun qround_fun :: "md5_fun \<Rightarrow> u32 \<Rightarrow> u32 \<Rightarrow> u32 \<Rightarrow> u32 \<Rightarrow> u32 \<Rightarrow> nat \<Rightarrow> u32 \<Rightarrow> u32" where
  "qround_fun FFc = QMD5_step QMD5_F"
| "qround_fun GGc = QMD5_step QMD5_G"
| "qround_fun HHc = QMD5_step QMD5_H"
| "qround_fun IIc = QMD5_step QMD5_I"

fun qexec_stmt :: "u32 list \<Rightarrow> md5_state \<Rightarrow> md5_stmt \<Rightarrow> md5_state" where
  "qexec_stmt x (a, b, c, d) (f, RA, k, s, ac) = (qround_fun f a b c d (x ! k) s ac, b, c, d)"
| "qexec_stmt x (a, b, c, d) (f, RD, k, s, ac) = (a, b, c, qround_fun f d a b c (x ! k) s ac)"
| "qexec_stmt x (a, b, c, d) (f, RC, k, s, ac) = (a, b, qround_fun f c d a b (x ! k) s ac, d)"
| "qexec_stmt x (a, b, c, d) (f, RB, k, s, ac) = (a, qround_fun f b c d a (x ! k) s ac, c, d)"

text \<open>The 64 statements of \<open>QMD5::MD5Transform\<close>, in order.\<close>

definition MD5Transform_stmts :: "md5_stmt list" where
  "MD5Transform_stmts =
    [(FFc, RA, 0, S11, 0xd76aa478), (FFc, RD, 1, S12, 0xe8c7b756),
     (FFc, RC, 2, S13, 0x242070db), (FFc, RB, 3, S14, 0xc1bdceee),
     (FFc, RA, 4, S11, 0xf57c0faf), (FFc, RD, 5, S12, 0x4787c62a),
     (FFc, RC, 6, S13, 0xa8304613), (FFc, RB, 7, S14, 0xfd469501),
     (FFc, RA, 8, S11, 0x698098d8), (FFc, RD, 9, S12, 0x8b44f7af),
     (FFc, RC, 10, S13, 0xffff5bb1), (FFc, RB, 11, S14, 0x895cd7be),
     (FFc, RA, 12, S11, 0x6b901122), (FFc, RD, 13, S12, 0xfd987193),
     (FFc, RC, 14, S13, 0xa679438e), (FFc, RB, 15, S14, 0x49b40821),
     (GGc, RA, 1, S21, 0xf61e2562), (GGc, RD, 6, S22, 0xc040b340),
     (GGc, RC, 11, S23, 0x265e5a51), (GGc, RB, 0, S24, 0xe9b6c7aa),
     (GGc, RA, 5, S21, 0xd62f105d), (GGc, RD, 10, S22, 0x2441453),
     (GGc, RC, 15, S23, 0xd8a1e681), (GGc, RB, 4, S24, 0xe7d3fbc8),
     (GGc, RA, 9, S21, 0x21e1cde6), (GGc, RD, 14, S22, 0xc33707d6),
     (GGc, RC, 3, S23, 0xf4d50d87), (GGc, RB, 8, S24, 0x455a14ed),
     (GGc, RA, 13, S21, 0xa9e3e905), (GGc, RD, 2, S22, 0xfcefa3f8),
     (GGc, RC, 7, S23, 0x676f02d9), (GGc, RB, 12, S24, 0x8d2a4c8a),
     (HHc, RA, 5, S31, 0xfffa3942), (HHc, RD, 8, S32, 0x8771f681),
     (HHc, RC, 11, S33, 0x6d9d6122), (HHc, RB, 14, S34, 0xfde5380c),
     (HHc, RA, 1, S31, 0xa4beea44), (HHc, RD, 4, S32, 0x4bdecfa9),
     (HHc, RC, 7, S33, 0xf6bb4b60), (HHc, RB, 10, S34, 0xbebfbc70),
     (HHc, RA, 13, S31, 0x289b7ec6), (HHc, RD, 0, S32, 0xeaa127fa),
     (HHc, RC, 3, S33, 0xd4ef3085), (HHc, RB, 6, S34, 0x4881d05),
     (HHc, RA, 9, S31, 0xd9d4d039), (HHc, RD, 12, S32, 0xe6db99e5),
     (HHc, RC, 15, S33, 0x1fa27cf8), (HHc, RB, 2, S34, 0xc4ac5665),
     (IIc, RA, 0, S41, 0xf4292244), (IIc, RD, 7, S42, 0x432aff97),
     (IIc, RC, 14, S43, 0xab9423a7), (IIc, RB, 5, S44, 0xfc93a039),
     (IIc, RA, 12, S41, 0x655b59c3), (IIc, RD, 3, S42, 0x8f0ccc92),
     (IIc, RC, 10, S43, 0xffeff47d), (IIc, RB, 1, S44, 0x85845dd1),
     (IIc, RA, 8, S41, 0x6fa87e4f), (IIc, RD, 15, S42, 0xfe2ce6e0),
     (IIc, RC, 6, S43, 0xa3014314), (IIc, RB, 13, S44, 0x4e0811a1),
     (IIc, RA, 4, S41, 0xf7537e82), (IIc, RD, 11, S42, 0xbd3af235),
     (IIc, RC, 2, S43, 0x2ad7d2bb), (IIc, RB, 9, S44, 0xeb86d391)]"

fun qmd5_Decode :: "bytes \<Rightarrow> u32 list" where
  "qmd5_Decode (b0 # b1 # b2 # b3 # bs) =
     (ucast b0 OR push_bit 8 (ucast b1) OR push_bit 16 (ucast b2) OR push_bit 24 (ucast b3))
     # qmd5_Decode bs"
| "qmd5_Decode _ = []"

fun qmd5_Encode :: "u32 list \<Rightarrow> bytes" where
  "qmd5_Encode [] = []"
| "qmd5_Encode (w # ws) =
     ucast (w AND 0xff) # ucast (drop_bit 8 w AND 0xff) # ucast (drop_bit 16 w AND 0xff)
     # ucast (drop_bit 24 w AND 0xff) # qmd5_Encode ws"

definition MD5Transform :: "md5_state \<Rightarrow> bytes \<Rightarrow> md5_state" where
  "MD5Transform st block =
     (let x = qmd5_Decode block;
          (s0, s1, s2, s3) = st;
          (a, b, c, d) = foldl (qexec_stmt x) st MD5Transform_stmts
      in (s0 + a, s1 + b, s2 + c, s3 + d))"

record qmd5_ctx =
  qstate :: md5_state
  qcount0 :: u32
  qcount1 :: u32
  qbuffer :: bytes

definition MD5Init :: "qmd5_ctx \<Rightarrow> qmd5_ctx" where
  "MD5Init context = context\<lparr>qcount0 := 0, qcount1 := 0,
     qstate := (0x67452301, 0xefcdab89, 0x98badcfe, 0x10325476)\<rparr>"

text \<open>\<open>for (i = partLen; i + 63 < inputLen; i += 64) MD5Transform (context->state, &input[i]);\<close>\<close>

function MD5Transform_loop :: "nat \<Rightarrow> bytes \<Rightarrow> md5_state \<Rightarrow> md5_state \<times> nat" where
  "MD5Transform_loop i input st =
     (if i + 63 < length input
      then MD5Transform_loop (i + 64) input (MD5Transform st (sub_buf i 64 input))
      else (st, i))"
  by pat_completeness auto
termination
  by (relation "measure (\<lambda>(i, input, st). length input - i)") auto

declare MD5Transform_loop.simps [simp del]

definition MD5Update :: "bytes \<Rightarrow> qmd5_ctx \<Rightarrow> qmd5_ctx" where
  "MD5Update input context =
     (let inputLen = (of_nat (length input) :: u32);
          index = unat (drop_bit 3 (qcount0 context) AND 0x3F);
          c0 = qcount0 context + push_bit 3 inputLen;
          c1 = (if c0 < push_bit 3 inputLen then qcount1 context + 1 else qcount1 context)
               + drop_bit 29 inputLen;
          partLen = 64 - index
      in if partLen \<le> length input
         then let buf = overwrite index (take partLen input) (qbuffer context);
                  (st, i) = MD5Transform_loop partLen input (MD5Transform (qstate context) buf)
              in context\<lparr>qcount0 := c0, qcount1 := c1, qstate := st,
                         qbuffer := overwrite 0 (drop i input) buf\<rparr>
         else context\<lparr>qcount0 := c0, qcount1 := c1, qbuffer := overwrite index input (qbuffer context)\<rparr>)"

text \<open>The member \<open>PADDING\<close>, set by the constructor.\<close>

definition PADDING :: bytes where
  "PADDING = 0x80 # replicate 63 0"

text \<open>\<open>MD5Final\<close> returns the digest; the context is zeroed and not used again.\<close>

definition MD5Final :: "qmd5_ctx \<Rightarrow> bytes" where
  "MD5Final context =
     (let bits = qmd5_Encode [qcount0 context, qcount1 context];
          index = unat (drop_bit 3 (qcount0 context) AND 0x3f);
          padLen = (if index < 56 then 56 - index else 120 - index);
          ctx1 = MD5Update (take padLen PADDING) context;
          ctx2 = MD5Update bits ctx1
      in qmd5_Encode (state_words (qstate ctx2)))"

text \<open>\<open>mem\<close> is the uninitialised local variable \<open>MD5_CTX context\<close>.\<close>

definition MD5Bits128 :: "qmd5_ctx \<Rightarrow> bytes \<Rightarrow> bytes" where
  "MD5Bits128 mem input =
     (if length input \<le> 0 then replicate 16 0
      else MD5Final (MD5Update input (MD5Init mem)))"

definition MD5Bits64 :: "qmd5_ctx \<Rightarrow> bytes \<Rightarrow> 64 word" where
  "MD5Bits64 mem input = bytes_word (take 8 (MD5Bits128 mem input))"

definition MD5Bits32 :: "qmd5_ctx \<Rightarrow> bytes \<Rightarrow> 32 word" where
  "MD5Bits32 mem input = bytes_word (take 4 (MD5Bits128 mem input))"

end
