(* ===== verification/Md5_Correct.thy ===== *)
theory Md5_Correct
  imports Md5_Digest
begin

text \<open>
  The specification of MD5 after RFC 1321 and the proof that both implementations compute it.
  \<open>rfc_md5\<close> pads the whole message and runs the indexed steps over its blocks.  \<open>md5_holds\<close> is
  the invariant of a context: it says which message the context has absorbed.
\<close>

section \<open>RFC 1321\<close>

definition rfc_T :: "u32 list" where
  "rfc_T =
    [0xd76aa478, 0xe8c7b756, 0x242070db, 0xc1bdceee,
     0xf57c0faf, 0x4787c62a, 0xa8304613, 0xfd469501,
     0x698098d8, 0x8b44f7af, 0xffff5bb1, 0x895cd7be,
     0x6b901122, 0xfd987193, 0xa679438e, 0x49b40821,
     0xf61e2562, 0xc040b340, 0x265e5a51, 0xe9b6c7aa,
     0xd62f105d, 0x2441453, 0xd8a1e681, 0xe7d3fbc8,
     0x21e1cde6, 0xc33707d6, 0xf4d50d87, 0x455a14ed,
     0xa9e3e905, 0xfcefa3f8, 0x676f02d9, 0x8d2a4c8a,
     0xfffa3942, 0x8771f681, 0x6d9d6122, 0xfde5380c,
     0xa4beea44, 0x4bdecfa9, 0xf6bb4b60, 0xbebfbc70,
     0x289b7ec6, 0xeaa127fa, 0xd4ef3085, 0x4881d05,
     0xd9d4d039, 0xe6db99e5, 0x1fa27cf8, 0xc4ac5665,
     0xf4292244, 0x432aff97, 0xab9423a7, 0xfc93a039,
     0x655b59c3, 0x8f0ccc92, 0xffeff47d, 0x85845dd1,
     0x6fa87e4f, 0xfe2ce6e0, 0xa3014314, 0x4e0811a1,
     0xf7537e82, 0xbd3af235, 0x2ad7d2bb, 0xeb86d391]"

definition rfc_index :: "nat \<Rightarrow> nat" where
  "rfc_index i =
     (if i < 16 then i
      else if i < 32 then (5 * i + 1) mod 16
      else if i < 48 then (3 * i + 5) mod 16
      else (7 * i) mod 16)"

definition rfc_shift :: "nat \<Rightarrow> nat" where
  "rfc_shift i = [[7, 12, 17, 22], [5, 9, 14, 20], [4, 11, 16, 23], [6, 10, 15, 21]]
     ! (i div 16) ! (i mod 4)"

definition rfc_fun :: "nat \<Rightarrow> u32 \<Rightarrow> u32 \<Rightarrow> u32 \<Rightarrow> u32" where
  "rfc_fun i x y z =
     (if i < 16 then (x AND y) OR (NOT x AND z)
      else if i < 32 then (x AND z) OR (y AND NOT z)
      else if i < 48 then x XOR y XOR z
      else y XOR (x OR NOT z))"

text \<open>One step; the registers rotate instead of being renamed.\<close>

fun rfc_step :: "u32 list \<Rightarrow> md5_state \<Rightarrow> nat \<Rightarrow> md5_state" where
  "rfc_step x (a, b, c, d) i =
     (d, b + word_rotl (rfc_shift i) (a + rfc_fun i b c d + x ! rfc_index i + rfc_T ! i), b, c)"

definition le_words :: "bytes \<Rightarrow> u32 list" where
  "le_words bs = map (\<lambda>i. bytes_word (sub_buf (4 * i) 4 bs)) [0..<length bs div 4]"

definition rfc_block :: "md5_state \<Rightarrow> bytes \<Rightarrow> md5_state" where
  "rfc_block st block =
     (let (s0, s1, s2, s3) = st; (a, b, c, d) = foldl (rfc_step (le_words block)) st [0..<64]
      in (s0 + a, s1 + b, s2 + c, s3 + d))"

definition rfc_pad :: "bytes \<Rightarrow> bytes" where
  "rfc_pad m = m @ [0x80] @ replicate ((119 - length m mod 64) mod 64) 0
     @ le64 (of_nat (8 * length m))"

function full_blocks :: "bytes \<Rightarrow> bytes list" where
  "full_blocks m = (if 64 \<le> length m then take 64 m # full_blocks (drop 64 m) else [])"
  by pat_completeness auto
termination
  by (relation "measure length") auto

declare full_blocks.simps [simp del]

definition rfc_init :: md5_state where
  "rfc_init = (0x67452301, 0xefcdab89, 0x98badcfe, 0x10325476)"

definition rfc_md5 :: "bytes \<Rightarrow> bytes" where
  "rfc_md5 m = concat (map le32 (state_words (foldl rfc_block rfc_init (full_blocks (rfc_pad m)))))"


section \<open>The transformation\<close>

lemma rotate_left_rotl:
  assumes "n < 32"
  shows "rotate_left x n = word_rotl n x"
proof (rule bit_word_eqI)
  fix i assume "i < LENGTH(32)"
  then have i: "i < 32" by simp
  have m: "(i + (32 - n)) mod 32 = (if n \<le> i then i - n else i + (32 - n))"
  proof (cases "n \<le> i")
    case True
    then have e: "i + (32 - n) = (i - n) + 32" using assms by simp
    have "(i + (32 - n)) mod 32 = (i - n) mod 32" unfolding e by (rule mod_add_self2)
    also have "\<dots> = i - n" using i by (intro mod_less) simp
    finally show ?thesis using True by simp
  qed (use i assms in simp)
  have "bit (word_rotl n x) i = bit x ((i + (32 - n)) mod 32)"
    using i assms by (simp add: bit_word_rotl_iff)
  also have "\<dots> = bit x (if n \<le> i then i - n else i + (32 - n))" by (simp only: m)
  also have "\<dots> = bit (rotate_left x n) i"
    using i assms bit_imp_le_length [of x "i + (32 - n)"]
    by (auto simp: rotate_left_def bit_or_iff bit_push_bit_iff bit_drop_bit_eq simp flip: add.commute)
  finally show "bit (rotate_left x n) i = bit (word_rotl n x) i" ..
qed

fun rfc_stmt :: "nat \<Rightarrow> md5_stmt" where
  "rfc_stmt i = ([FFc, GGc, HHc, IIc] ! (i div 16), [RA, RD, RC, RB] ! (i mod 4),
     rfc_index i, rfc_shift i, rfc_T ! i)"

lemma transform_stmts_rfc: "transform_stmts = map rfc_stmt [0..<64]"
  by code_simp

lemma MD5Transform_stmts_eq: "MD5Transform_stmts = transform_stmts"
  by (simp add: MD5Transform_stmts_def transform_stmts_def)

lemma rfc_shift_less: "i < 64 \<Longrightarrow> rfc_shift i < 32"
proof -
  have "\<forall>i \<in> set [0..<64]. rfc_shift i < 32" by code_simp
  then show "i < 64 \<Longrightarrow> rfc_shift i < 32" by simp
qed

lemma round_fun_rfc:
  assumes "i < 64"
  shows "round_fun ([FFc, GGc, HHc, IIc] ! (i div 16)) a b c d x (rfc_shift i) ac =
    b + word_rotl (rfc_shift i) (a + rfc_fun i b c d + x + ac)"
proof -
  consider "i < 16" "i div 16 = 0" | "16 \<le> i" "i < 32" "i div 16 = 1"
    | "32 \<le> i" "i < 48" "i div 16 = 2" | "48 \<le> i" "i div 16 = 3"
    using assms by force
  then show ?thesis
    using rfc_shift_less [OF assms]
    by cases (simp_all add: FF_def GG_def HH_def II_def MD5_F_def MD5_G_def MD5_H_def MD5_I_def
        rfc_fun_def rotate_left_rotl numeral_2_eq_2 numeral_3_eq_3)
qed


text \<open>The source renames the registers where the specification rotates them.\<close>

fun regs :: "nat \<Rightarrow> md5_state \<Rightarrow> md5_state" where
  "regs i (a, b, c, d) =
     (if i mod 4 = 0 then (a, b, c, d) else if i mod 4 = 1 then (d, a, b, c)
      else if i mod 4 = 2 then (c, d, a, b) else (b, c, d, a))"

lemma step_regs:
  assumes "i < 64"
  shows "rfc_step x (regs i st) i = regs (Suc i) (exec_stmt x st (rfc_stmt i))"
proof (cases st)
  case (fields a b c d)
  consider "i mod 4 = 0" "Suc i mod 4 = 1" | "i mod 4 = 1" "Suc i mod 4 = 2"
    | "i mod 4 = 2" "Suc i mod 4 = 3" | "i mod 4 = 3" "Suc i mod 4 = 0"
    by (cases "i mod 4 = 0"; cases "i mod 4 = 1"; cases "i mod 4 = 2") (auto simp: mod_Suc)
  then show ?thesis
    by cases (simp_all add: fields round_fun_rfc [OF assms] numeral_2_eq_2 numeral_3_eq_3)
qed

lemma exec_prefix:
  "i \<le> 64 \<Longrightarrow> foldl (rfc_step x) st [0..<i] = regs i (foldl (exec_stmt x) st (map rfc_stmt [0..<i]))"
  by (induction i) (cases st, simp_all add: step_regs del: rfc_stmt.simps)

lemma exec_program: "foldl (exec_stmt x) st transform_stmts = foldl (rfc_step x) st [0..<64]"
  by (cases "foldl (exec_stmt x) st (map rfc_stmt [0..<64])")
    (simp add: exec_prefix transform_stmts_rfc del: upt_rec_numeral upt.simps)

lemma qexec_stmt_eq: "qexec_stmt x st s = exec_stmt x st s"
proof -
  have r: "qround_fun f = round_fun f" for f
    by (cases f) (auto intro!: ext simp: QMD5_step_def ROTATE_LEFT_def FF_def GG_def HH_def II_def
        rotate_left_def QMD5_F_def QMD5_G_def QMD5_H_def QMD5_I_def MD5_F_def MD5_G_def MD5_H_def
        MD5_I_def Let_def add.assoc)
  show ?thesis by (cases "(x, st, s)" rule: exec_stmt.cases) (simp_all add: r)
qed

lemma qmd5_Decode_eq: "qmd5_Decode bs = md5_decode bs"
  by (induction bs rule: md5_decode.induct) simp_all

lemma qmd5_Encode_eq: "qmd5_Encode ws = md5_encode ws"
  by (induction ws) simp_all

lemma MD5Transform_eq: "MD5Transform = md5_transform"
proof -
  have "qexec_stmt x = exec_stmt x" for x by (intro ext) (rule qexec_stmt_eq)
  then show ?thesis
    by (intro ext) (simp add: MD5Transform_def md5_transform_def qmd5_Decode_eq MD5Transform_stmts_eq)
qed

lemma decode_word: "ucast b0 OR push_bit 8 (ucast b1) OR push_bit 16 (ucast b2) OR push_bit 24 (ucast b3)
    = (bytes_word [b0, b1, b2, b3] :: u32)" for b0 b1 b2 b3 :: byte
proof (rule bit_word_eqI)
  fix n assume n: "n < LENGTH(32)"
  have "n div 8 = 0 \<and> n < 8 \<or> n div 8 = 1 \<and> 8 \<le> n \<and> n < 16 \<or> n div 8 = 2 \<and> 16 \<le> n \<and> n < 24
      \<or> n div 8 = 3 \<and> 24 \<le> n"
    using n by (simp add: div_nat_eqI) presburger
  then show "bit (ucast b0 OR push_bit 8 (ucast b1) OR push_bit 16 (ucast b2) OR push_bit 24 (ucast b3) :: u32) n
    = bit (bytes_word [b0, b1, b2, b3] :: u32) n"
    using n by (elim disjE) (auto simp: bit_bytes_word bit_or_iff bit_push_bit_iff bit_unsigned_iff
        numeral_2_eq_2 numeral_3_eq_3 modulo_nat_def dest: bit_imp_le_length)
qed


lemma le_words_Cons:
  "le_words (b0 # b1 # b2 # b3 # bs) = bytes_word [b0, b1, b2, b3] # le_words bs"
proof -
  have l: "length (b0 # b1 # b2 # b3 # bs) div 4 = Suc (length bs div 4)" by simp
  have s: "sub_buf (4 * Suc i) 4 (b0 # b1 # b2 # b3 # bs) = sub_buf (4 * i) 4 bs" for i
    using drop_drop [of "4 * i" 4 "b0 # b1 # b2 # b3 # bs"] by (simp add: sub_buf_def add.commute)
  have z: "sub_buf (4 * 0) 4 (b0 # b1 # b2 # b3 # bs) = [b0, b1, b2, b3]"
    by (simp add: sub_buf_def)
  show ?thesis
    unfolding le_words_def l by (simp only: map_upt_Suc s z)
qed

lemma decode_le_words: "length bs = 4 * n \<Longrightarrow> md5_decode bs = le_words bs"
proof (induction bs arbitrary: n rule: md5_decode.induct)
  case (1 b0 b1 b2 b3 bs)
  then have "md5_decode bs = le_words bs" by (cases n) auto
  then show ?case by (simp add: le_words_Cons decode_word del: bytes_word.simps)
next
  case "2_1"
  then show ?case by (simp add: le_words_def)
qed (simp_all add: le_words_def)

theorem transform_rfc: "length block = 64 \<Longrightarrow> md5_transform st block = rfc_block st block"
  using decode_le_words [of block 16]
  by (simp add: md5_transform_def rfc_block_def exec_program del: upt_rec_numeral)

lemma encode_word_bytes: "md5_encode ws = concat (map le32 ws)"
proof (induction ws)
  case (Cons w ws)
  have m: "(0xff :: u32) = mask 8" by (simp add: mask_eq_exp_minus_1)
  have a: "(ucast (x AND 0xff) :: byte) = ucast x" for x :: u32
    unfolding m by (rule bit_word_eqI) (simp add: bit_unsigned_iff bit_and_iff bit_mask_iff)
  have "[0..<4] = [0, 1, 2, 3::nat]" by code_simp
  then have "le32 w = [ucast w, ucast (drop_bit 8 w), ucast (drop_bit 16 w), ucast (drop_bit 24 w)]"
    by (simp add: word_bytes_def del: upt_rec_numeral)
  then show ?case using Cons a by simp
qed simp


section \<open>Blocks of a message\<close>

definition rest_of :: "bytes \<Rightarrow> bytes" where
  "rest_of m = drop (64 * (length m div 64)) m"

lemma length_rest_of [simp]: "length (rest_of m) = length m mod 64"
  by (simp add: rest_of_def modulo_nat_def mult.commute)

lemma full_blocks_append: "full_blocks (m @ n) = full_blocks m @ full_blocks (rest_of m @ n)"
proof (induction m rule: full_blocks.induct)
  case (1 m)
  show ?case
  proof (cases "64 \<le> length m")
    case True
    have "rest_of (drop 64 m) = rest_of m"
      using True by (simp add: rest_of_def le_div_geq add.commute)
    then show ?thesis
      using 1 True by (subst (1 2) full_blocks.simps) simp
  next
    case False
    then show ?thesis by (simp add: rest_of_def full_blocks.simps [of m])
  qed
qed

lemma full_blocks_length: "b \<in> set (full_blocks m) \<Longrightarrow> length b = 64"
proof (induction m rule: full_blocks.induct)
  case (1 m)
  from 1(2) 1(1) show ?case by (subst (asm) full_blocks.simps) (auto split: if_splits)
qed

lemma fold_rfc_blocks:
  "(\<forall>b \<in> set bs. length b = 64) \<Longrightarrow> foldl md5_transform st bs = foldl rfc_block st bs"
  by (induction bs arbitrary: st) (simp_all add: transform_rfc)

lemma transform_loop_eq:
  "i \<le> length input \<Longrightarrow> transform_loop i input st =
     (foldl md5_transform st (full_blocks (drop i input)),
      i + 64 * (length (drop i input) div 64))"
proof (induction i input st rule: transform_loop.induct)
  case (1 i input st)
  show ?case
  proof (cases "i + 64 \<le> length input")
    case True
    have d: "(length input - i) div 64 = Suc ((length input - (i + 64)) div 64)"
      using True by (simp add: le_div_geq)
    have "full_blocks (drop i input) = sub_buf i 64 input # full_blocks (drop (i + 64) input)"
      using True by (subst full_blocks.simps) (auto simp: sub_buf_def add.commute)
    then show ?thesis
      using 1 True d by (subst transform_loop.simps) simp
  next
    case False
    then show ?thesis
      using 1(2) by (subst transform_loop.simps, subst full_blocks.simps) auto
  qed
qed

section \<open>The context invariant\<close>

text \<open>
  \<open>md5_holds ctx m\<close>: the context has absorbed exactly the message \<open>m\<close>.  Only the bytes of the
  buffer below the fill level are determined, so the contents of uninitialised memory do not
  matter.
\<close>

definition md5_holds :: "md5_ctx \<Rightarrow> bytes \<Rightarrow> bool" where
  "md5_holds ctx m \<longleftrightarrow> \<not> mfinal ctx \<and> length (mbuf ctx) = 64
     \<and> mstate ctx = foldl md5_transform rfc_init (full_blocks m)
     \<and> take (length m mod 64) (mbuf ctx) = rest_of m
     \<and> mcount0 ctx = of_nat (8 * length m)
     \<and> mcount1 ctx = of_nat (8 * length m div 2 ^ 32)"

lemma md5_init_holds: "length (mbuf mem) = 64 \<Longrightarrow> md5_holds (md5_init mem) []"
  by (simp add: md5_holds_def md5_init_def full_blocks.simps rest_of_def rfc_init_def)

lemma index_eq: "unat ((of_nat (8 * n) :: u32) div 8 mod 64) = n mod 64"
proof -
  have "(8 * n) mod 2 ^ 32 = 8 * (n mod 2 ^ 29)" by (simp add: mult_mod_right)
  then have "unat ((of_nat (8 * n) :: u32) div 8 mod 64) = n mod 2 ^ 29 mod 64"
    by (simp add: unat_div_distrib unat_mod_distrib unat_of_nat take_bit_eq_mod del: of_nat_mult)
  then show ?thesis by (simp add: mod_mod_cancel)
qed

text \<open>The carry of the split bit counter.\<close>

lemma carry_less: "a < n \<Longrightarrow> b < n \<Longrightarrow> (a + b) mod n < b \<longleftrightarrow> n \<le> a + b" for a b n :: nat
  by (cases "n \<le> a + b") (simp_all add: le_mod_geq)

lemma carry_div: "a < n \<Longrightarrow> b < n \<Longrightarrow> (a + b) div n = (if n \<le> a + b then 1 else 0)" for a b n :: nat
  by (cases "n \<le> a + b") (simp_all add: le_div_geq)

lemma count1_update:
  fixes M L :: nat
  assumes "L < 2 ^ 32"
  defines "c0 \<equiv> (of_nat (8 * M) + push_bit 3 (of_nat L) :: u32)"
  shows "(if c0 < push_bit 3 (of_nat L) then of_nat (8 * M div 2 ^ 32) + 1
          else of_nat (8 * M div 2 ^ 32)) + drop_bit 29 (of_nat L) =
    (of_nat (8 * (M + L) div 2 ^ 32) :: u32)"
proof -
  define a b where "a = 8 * M" and "b = 8 * L"
  have pb: "push_bit 3 (of_nat L :: u32) = of_nat b"
    by (simp add: push_bit_eq_mult b_def)
  have "unat (drop_bit 29 (of_nat L :: u32)) = L div 2 ^ 29"
    using assms(1) by (simp add: drop_bit_eq_div unat_div_distrib unat_of_nat take_bit_eq_mod)
  also have "L div 2 ^ 29 = b div 2 ^ 32" by (simp add: b_def)
  finally have "of_nat (unat (drop_bit 29 (of_nat L :: u32))) = (of_nat (b div 2 ^ 32) :: u32)"
    by (simp only:)
  then have db: "drop_bit 29 (of_nat L :: u32) = of_nat (b div 2 ^ 32)" by simp
  have "c0 < of_nat b \<longleftrightarrow> (a + b) mod 2 ^ 32 < b mod 2 ^ 32"
    unfolding c0_def pb a_def [symmetric]
    by (simp add: word_less_nat_alt unat_of_nat take_bit_eq_mod flip: of_nat_add)
  also have "\<dots> \<longleftrightarrow> 2 ^ 32 \<le> a mod 2 ^ 32 + b mod 2 ^ 32"
  proof -
    have "(a + b) mod 2 ^ 32 = (a mod 2 ^ 32 + b mod 2 ^ 32) mod 2 ^ 32" by (rule mod_add_eq [symmetric])
    then show ?thesis using carry_less [of "a mod 2 ^ 32" "2 ^ 32" "b mod 2 ^ 32"] by simp
  qed
  finally have c: "c0 < of_nat b \<longleftrightarrow> 2 ^ 32 \<le> a mod 2 ^ 32 + b mod 2 ^ 32" .
  have "(a + b) div 2 ^ 32 = a div 2 ^ 32 + b div 2 ^ 32 + (a mod 2 ^ 32 + b mod 2 ^ 32) div 2 ^ 32"
    by (rule div_add1_eq)
  moreover have "(a mod 2 ^ 32 + b mod 2 ^ 32) div 2 ^ 32 =
      (if 2 ^ 32 \<le> a mod 2 ^ 32 + b mod 2 ^ 32 then 1 else 0 :: nat)"
    by (rule carry_div) simp_all
  ultimately have e: "(a + b) div 2 ^ 32 = a div 2 ^ 32 + b div 2 ^ 32 + (if c0 < of_nat b then 1 else 0)"
    unfolding c by simp
  have "8 * (M + L) = a + b" by (simp add: a_def b_def)
  then show ?thesis
    unfolding pb db a_def [symmetric] by (simp only: e) (simp add: add.commute add.left_commute)
qed


lemma full_blocks_short: "length m < 64 \<Longrightarrow> full_blocks m = []"
  by (subst full_blocks.simps) simp

lemma full_blocks_block: "length b = 64 \<Longrightarrow> full_blocks (b @ n) = b # full_blocks n"
  by (subst full_blocks.simps) simp

lemma rest_of_short: "length m < 64 \<Longrightarrow> rest_of m = m"
  by (simp add: rest_of_def)

lemma rest_of_drop: "64 \<le> length m \<Longrightarrow> rest_of m = rest_of (drop 64 m)"
  by (simp add: rest_of_def le_div_geq add.commute)

lemma rest_of_append: "rest_of (m @ n) = rest_of (rest_of m @ n)"
proof (induction m rule: full_blocks.induct)
  case (1 m)
  then show ?case
    using rest_of_drop [of m] rest_of_drop [of "m @ n"] rest_of_short [of m]
    by (cases "64 \<le> length m") simp_all
qed

lemma md5_update_holds:
  assumes h: "md5_holds ctx m" and len: "length input < 2 ^ 32"
  shows "md5_holds (md5_update input ctx) (m @ input)"
proof -
  define k where "k = length m mod 64"
  have k: "k < 64" "length (rest_of m) = k" by (simp_all add: k_def)
  have ix: "unat (mcount0 ctx div 8 mod 64) = k"
    using h index_eq [of "length m"] by (simp add: md5_holds_def k_def)
  have c0: "mcount0 ctx + push_bit 3 (of_nat (length input)) = of_nat (8 * length (m @ input))"
    using h by (simp add: md5_holds_def push_bit_eq_mult algebra_simps)
  have c1: "(if mcount0 ctx + push_bit 3 (of_nat (length input)) < push_bit 3 (of_nat (length input))
       then mcount1 ctx + 1 else mcount1 ctx) + drop_bit 29 (of_nat (length input)) =
      of_nat (8 * length (m @ input) div 2 ^ 32)"
    using count1_update [OF len, of "length m"] h unfolding md5_holds_def length_append by metis
  have b: "length (mbuf ctx) = 64" "take k (mbuf ctx) = rest_of m"
      "mstate ctx = foldl md5_transform rfc_init (full_blocks m)" "\<not> mfinal ctx"
    using h by (simp_all add: md5_holds_def k_def)
  show ?thesis
  proof (cases "64 - k \<le> length input")
    case False
    have "full_blocks (m @ input) = full_blocks m"
      using False k full_blocks_short [of "rest_of m @ input"] by (simp add: full_blocks_append [of m])
    moreover have "rest_of (m @ input) = rest_of m @ input"
      using False k rest_of_short [of "rest_of m @ input"] by (simp add: rest_of_append [of m])
    moreover have "length (m @ input) mod 64 = k + length input"
      using False k mod_add_left_eq [of "length m" 64 "length input"] by (simp add: k_def)
    ultimately show ?thesis
      using False k b c0 c1
      by (simp add: md5_holds_def md5_update_def ix Let_def overwrite_def)
  next
    case True
    define p where "p = 64 - k"
    define buf where "buf = rest_of m @ take p input"
    have buf: "overwrite k (take p input) (mbuf ctx) = buf" "length buf = 64"
      using True b k by (simp_all add: overwrite_def p_def buf_def)
    have split: "rest_of m @ input = buf @ drop p input" by (simp add: buf_def)
    have fb: "full_blocks (m @ input) = full_blocks m @ buf # full_blocks (drop p input)"
      unfolding full_blocks_append [of m] split
      using buf by (simp add: full_blocks_block)
    have rst: "rest_of (m @ input) = rest_of (drop p input)"
      unfolding rest_of_append [of m] split
      using buf rest_of_drop [of "buf @ drop p input"] by simp
    define r where "r = rest_of (drop p input)"
    have lr: "length (m @ input) mod 64 = length r" "length r < 64"
      using arg_cong [OF rst, of length] by (simp_all add: r_def)
    have "drop (p + 64 * (length (drop p input) div 64)) input = r"
      by (simp add: r_def rest_of_def add.commute)
    then have upd: "md5_update input ctx = ctx\<lparr>mcount0 := of_nat (8 * length (m @ input)),
        mcount1 := of_nat (8 * length (m @ input) div 2 ^ 32), mbuf := overwrite 0 r buf,
        mstate := foldl md5_transform rfc_init (full_blocks (m @ input))\<rparr>"
      using True b buf unfolding md5_update_def ix Let_def p_def [symmetric] c1 unfolding c0
      by (simp add: transform_loop_eq fb)
    show ?thesis
      unfolding md5_holds_def upd lr rst r_def [symmetric]
      using b buf lr take_overwrite_0 [of r buf] by simp
  qed
qed


section \<open>Padding and the digest\<close>

definition pad_len :: "nat \<Rightarrow> nat" where
  "pad_len n = (if n mod 64 < 56 then 56 - n mod 64 else 120 - n mod 64)"

lemma pad_len: "(n + pad_len n) mod 64 = 56" "1 \<le> pad_len n" "pad_len n \<le> 64"
proof -
  define q r where "q = n div 64" and "r = n mod 64"
  then have n: "n = r + 64 * q" "r < 64" by simp_all
  have "n + pad_len n = 56 + 64 * q \<or> n + pad_len n = 56 + 64 * Suc q"
    using n(2) by (auto simp: n(1) pad_len_def)
  then show "(n + pad_len n) mod 64 = 56" by (elim disjE) (simp_all only: mod_mult_self2, simp_all)
qed (auto simp: pad_len_def)

lemma rfc_pad_alt:
  "rfc_pad m = m @ take (pad_len (length m)) md5_padding @ le64 (of_nat (8 * length m))"
proof -
  have "(119 - k) mod 64 = (if k < 56 then 55 - k else 119 - k)" if "k < 64" for k :: nat
    using that by (auto simp: le_mod_geq)
  then have "(119 - length m mod 64) mod 64 = pad_len (length m) - 1"
    by (simp add: pad_len_def)
  moreover have "take n md5_padding = [0x80] @ replicate (n - 1) 0" if "1 \<le> n" "n \<le> 64" for n
    using that by (cases n) (simp_all add: md5_padding_def min_def)
  ultimately show ?thesis using pad_len [of "length m"] by (simp add: rfc_pad_def)
qed

lemma bits_le64:
  "md5_encode [of_nat n, of_nat (n div 2 ^ 32)] = le64 (of_nat n)"
proof -
  have s: "[0..<8] = [0..<4] @ map (\<lambda>i. i + 4) [0..<4::nat]" by code_simp
  have lo: "(ucast (drop_bit (8 * i) (of_nat n :: 64 word)) :: byte) = ucast (drop_bit (8 * i) (of_nat n :: u32))"
    if "i < 4" for i
    using that by (intro bit_word_eqI) (auto simp: bit_unsigned_iff bit_drop_bit_eq bit_of_nat_iff)
  have hi: "(ucast (drop_bit (8 * (i + 4)) (of_nat n :: 64 word)) :: byte) =
      ucast (drop_bit (8 * i) (of_nat (n div 2 ^ 32) :: u32))" if "i < 4" for i
    using that unfolding drop_bit_eq_div [symmetric]
    by (intro bit_word_eqI) (auto simp: bit_unsigned_iff bit_drop_bit_eq bit_of_nat_iff add.assoc add.left_commute)
  have "le64 (of_nat n) = le32 (of_nat n :: u32) @ le32 (of_nat (n div 2 ^ 32) :: u32)"
    unfolding word_bytes_def s map_append map_map comp_def
    by (intro arg_cong2 [where f = append] map_cong refl lo hi) simp_all
  then show ?thesis by (simp add: encode_word_bytes)
qed


lemma md5_finalize_holds:
  assumes h: "md5_holds ctx m"
  shows "mfinal (md5_finalize ctx)" and "mdigest (md5_finalize ctx) = rfc_md5 m"
proof -
  let ?pad = "take (pad_len (length m)) md5_padding"
  let ?bits = "md5_encode [mcount0 ctx, mcount1 ctx]"
  have bits: "?bits = le64 (of_nat (8 * length m))"
    using h bits_le64 [of "8 * length m"] by (simp only: md5_holds_def)
  have ix: "unat (mcount0 ctx div 8 mod 64) = length m mod 64"
    using h index_eq [of "length m"] by (simp add: md5_holds_def)
  have "md5_holds (md5_update ?bits (md5_update ?pad ctx)) ((m @ ?pad) @ ?bits)"
    by (intro md5_update_holds h) (simp_all add: md5_padding_def)
  then have "mstate (md5_update ?bits (md5_update ?pad ctx)) =
      foldl rfc_block rfc_init (full_blocks (rfc_pad m))"
    unfolding bits using full_blocks_length
    by (simp add: md5_holds_def rfc_pad_alt fold_rfc_blocks)
  then show "mfinal (md5_finalize ctx)" and "mdigest (md5_finalize ctx) = rfc_md5 m"
    using h unfolding md5_finalize_def Let_def ix pad_len_def [symmetric]
    by (simp_all add: rfc_md5_def encode_word_bytes md5_holds_def)
qed


section \<open>QMD5 simulates MD5\<close>

definition as_md5 :: "qmd5_ctx \<Rightarrow> md5_ctx" where
  "as_md5 c = \<lparr>mfinal = False, mbuf = qbuffer c, mcount0 = qcount0 c, mcount1 = qcount1 c,
     mstate = qstate c, mdigest = []\<rparr>"

lemma MD5Transform_loop_eq: "MD5Transform_loop i input st = transform_loop i input st"
proof (induction i input st rule: transform_loop.induct)
  case (1 i input st)
  have "i + 63 < length input \<longleftrightarrow> i + 64 \<le> length input" by auto
  then show ?case
    using 1 by (subst MD5Transform_loop.simps, subst transform_loop.simps) (simp add: MD5Transform_eq)
qed

lemma qindex_eq: "drop_bit 3 c AND 0x3F = c div 8 mod (64 :: u32)"
proof -
  have m: "(0x3F :: u32) = mask 6" by (simp add: mask_eq_exp_minus_1)
  show ?thesis unfolding m by (simp add: drop_bit_eq_div take_bit_eq_mod flip: take_bit_eq_mask)
qed

lemma MD5Update_as_md5: "as_md5 (MD5Update input c) = md5_update input (as_md5 c)"
  by (simp add: MD5Update_def md5_update_def as_md5_def Let_def qindex_eq MD5Transform_loop_eq
      MD5Transform_eq split_beta)

lemma MD5Init_as_md5: "length (qbuffer mem) = 64 \<Longrightarrow> md5_holds (as_md5 (MD5Init mem)) []"
  by (simp add: md5_holds_def MD5Init_def as_md5_def full_blocks.simps rest_of_def rfc_init_def)

lemma MD5Final_as_md5: "MD5Final c = mdigest (md5_finalize (as_md5 c))"
proof -
  have q: "qstate c = mstate (as_md5 c)" "qcount0 c = mcount0 (as_md5 c)"
      "qcount1 c = mcount1 (as_md5 c)" "\<not> mfinal (as_md5 c)" for c
    by (simp_all add: as_md5_def)
  have p: "PADDING = md5_padding" by (simp add: PADDING_def md5_padding_def)
  show ?thesis
    unfolding MD5Final_def md5_finalize_def Let_def qmd5_Encode_eq p
    by (simp add: q MD5Update_as_md5 qindex_eq)
qed


section \<open>The contract of a digest\<close>

text \<open>
  What a client of a digest class relies on: whatever the memory of a fresh object holds, feeding
  it pieces and finishing gives the RFC digest of their concatenation.
\<close>

locale digest_stream =
  fixes fresh :: "'c \<Rightarrow> bool"
    and start :: "'c \<Rightarrow> 'c"
    and update :: "bytes \<Rightarrow> 'c \<Rightarrow> 'c"
    and finish :: "'c \<Rightarrow> bytes"
    and holds :: "'c \<Rightarrow> bytes \<Rightarrow> bool"
  assumes start_holds: "fresh mem \<Longrightarrow> holds (start mem) []"
    and update_holds: "holds c m \<Longrightarrow> length i < 2 ^ 32 \<Longrightarrow> holds (update i c) (m @ i)"
    and finish_digest: "holds c m \<Longrightarrow> finish c = rfc_md5 m"
begin

lemma updates_hold:
  "holds c m \<Longrightarrow> \<forall>i \<in> set inputs. length i < 2 ^ 32 \<Longrightarrow>
     holds (foldl (\<lambda>c i. update i c) c inputs) (m @ concat inputs)"
proof (induction inputs arbitrary: c m)
  case (Cons i inputs)
  then show ?case using Cons.IH [of "update i c" "m @ i"] update_holds [of c m i] by simp
qed simp

lemma stream_digest:
  "fresh mem \<Longrightarrow> \<forall>i \<in> set inputs. length i < 2 ^ 32 \<Longrightarrow>
     finish (foldl (\<lambda>c i. update i c) (start mem) inputs) = rfc_md5 (concat inputs)"
  using finish_digest [OF updates_hold [OF start_holds]] by simp

lemma one_shot_digest:
  "fresh mem \<Longrightarrow> length i < 2 ^ 32 \<Longrightarrow> finish (update i (start mem)) = rfc_md5 i"
  using stream_digest [of mem "[i]"] by simp

end

interpretation md5s: digest_stream "\<lambda>mem. length (mbuf mem) = 64" md5_init md5_update
    "\<lambda>c. mdigest (md5_finalize c)" md5_holds
  by unfold_locales (rule md5_init_holds md5_update_holds md5_finalize_holds; assumption)+

interpretation qmd5s: digest_stream "\<lambda>mem. length (qbuffer mem) = 64" MD5Init MD5Update
    MD5Final "\<lambda>c. md5_holds (as_md5 c)"
  by unfold_locales
    (simp_all add: MD5Init_as_md5 MD5Update_as_md5 md5_update_holds MD5Final_as_md5 md5_finalize_holds)

lemma md5_update_open: "mfinal (md5_update i c) = mfinal c"
  by (simp add: md5_update_def Let_def split_beta)

lemma md5_updates_open: "mfinal (foldl (\<lambda>c i. md5_update i c) c inputs) = mfinal c"
  by (induction inputs arbitrary: c) (simp_all add: md5_update_open)

lemma md5_finalize_final: "mfinal (md5_finalize c)"
  by (simp add: md5_finalize_def Let_def)

lemma MD5Bits128_rfc:
  assumes "length (qbuffer mem) = 64" and "length input < 2 ^ 32"
  shows "MD5Bits128 mem input = (if input = [] then replicate 16 0 else rfc_md5 input)"
  using assms by (simp add: MD5Bits128_def qmd5s.one_shot_digest)

lemma bytes_word_zeros: "bytes_word (replicate n 0) = 0"
  by (induction n) simp_all

lemma length_rfc_md5: "length (rfc_md5 m) = 16"
  by (simp add: rfc_md5_def state_words_def split: prod.split)


section \<open>Properties\<close>


definition md5_zero_mem :: md5_ctx where
  "md5_zero_mem = \<lparr>mfinal = True, mbuf = replicate 64 0, mcount0 = 7, mcount1 = 9,
     mstate = (1, 2, 3, 4), mdigest = []\<rparr>"

lemma rfc_abc_hex:
  "concat (map hex02 (rfc_md5 (bytes_of ''abc''))) = ''900150983cd24fb0d6963f7d28e17f72''"
  by code_simp



definition qmd5_zero_mem :: qmd5_ctx where
  "qmd5_zero_mem = \<lparr>qstate = (0, 0, 0, 0), qcount0 = 5, qcount1 = 5, qbuffer = replicate 64 0\<rparr>"


text \<open>on the empty input the two classes disagree: \<open>QMD5\<close> answers sixteen zero bytes without
  hashing, \<open>MD5\<close> answers the RFC digest of the empty message.\<close>

theorem md5_empty_disagree:
  assumes "length (mbuf mem') = 64"
  shows "MD5Bits128 mem [] = replicate 16 0 \<and> MD5Bits64 mem [] = 0
    \<and> md5 mem' [] = ''d41d8cd98f00b204e9800998ecf8427e''"
proof -
  have "concat (map hex02 (rfc_md5 [])) = ''d41d8cd98f00b204e9800998ecf8427e''" by code_simp
  then show ?thesis
    using md5s.one_shot_digest [OF assms, of "[]"]
    by (simp add: md5_def hexdigest_def md5_finalize_final MD5Bits128_def MD5Bits64_def bytes_word_zeros)
qed

theorem md5_empty_disagree_witness:
  "MD5Bits64 qmd5_zero_mem [] = 0 \<and> md5 md5_zero_mem [] = ''d41d8cd98f00b204e9800998ecf8427e''"
  using md5_empty_disagree [of md5_zero_mem qmd5_zero_mem] by (simp add: md5_zero_mem_def)

end
