(* ===== verification/Net_Socket.thy ===== *)
theory Net_Socket
  imports Idfs_Prelude
begin

text \<open>
  The socket helpers of \<open>qglobal.h\<close>.  A connected socket is the sequence of events that \<open>recv\<close> will
  see, the sequence of decisions \<open>send\<close> will take, and the bytes handed to the peer so far.  The
  main lemmas say that \<open>q_recvbuf\<close> depends only on the byte stream and not on how the network cut
  it into segments, and that \<open>q_sendbuf\<close> delivers the whole buffer or fails.
\<close>

section \<open>Sockets\<close>

text \<open>
  \<open>RxData\<close> is a segment that has arrived, \<open>RxEof\<close> an orderly shutdown by the peer, \<open>RxErr b\<close> a
  failing call, \<open>b\<close> telling whether \<open>errno\<close> is \<open>EAGAIN\<close> or \<open>EWOULDBLOCK\<close>.  When the list is
  exhausted nothing arrives before the receive timeout, and \<open>recv\<close> fails with \<open>EAGAIN\<close>.
  \<open>TxAccept k\<close> lets \<open>send\<close> take up to \<open>k + 1\<close> bytes; an exhausted list takes everything.
\<close>

datatype rx_event = RxData bytes | RxEof | RxErr bool
datatype tx_event = TxAccept nat | TxErr bool

record sock =
  srx :: "rx_event list"
  stx :: "tx_event list"
  sout :: bytes
  sopen :: bool

text \<open>The result of \<open>recv\<close>: return value, whether \<open>errno\<close> asks for a retry, the bytes stored.\<close>

fun recv_rx :: "nat \<Rightarrow> rx_event list \<Rightarrow> int \<times> bool \<times> bytes \<times> rx_event list" where
  "recv_rx n [] = (-1, True, [], [])"
| "recv_rx n (RxErr b # r) = (-1, b, [], r)"
| "recv_rx n (RxEof # r) = (0, False, [], RxEof # r)"
| "recv_rx n (RxData bs # r) =
     (if bs = [] then recv_rx n r
      else if n < length bs then (int n, False, take n bs, RxData (drop n bs) # r)
      else (int (length bs), False, bs, r))"

definition send_tx :: "nat \<Rightarrow> tx_event list \<Rightarrow> int \<times> bool \<times> tx_event list" where
  "send_tx n tx =
     (case tx of
        [] \<Rightarrow> (int n, False, [])
      | TxErr b # r \<Rightarrow> (-1, b, r)
      | TxAccept k # r \<Rightarrow> (int (min n (Suc k)), False, r))"

definition q_close_socket :: "sock \<Rightarrow> sock" where
  "q_close_socket s = s\<lparr>sopen := False\<rparr>"

lemma recv_rx_data:
  "recv_rx n rx = (r, again, bs, rx') \<Longrightarrow> int (length bs) = max r 0 \<and> length bs \<le> n"
  by (induction n rx rule: recv_rx.induct) (auto split: if_splits)

section \<open>Receiving and sending whole buffers\<close>

text \<open>
  The body of \<open>q_recvbuf\<close> from the point where \<open>finlen\<close> bytes are in.  The \<open>continue\<close> after
  \<open>EAGAIN\<close> jumps to the loop condition, which is false because \<open>retval\<close> is negative, so it does
  not retry.  The result is the return code, the buffer and the socket's remaining events.
\<close>

function q_recvbuf_loop :: "nat \<Rightarrow> bytes \<Rightarrow> nat \<Rightarrow> rx_event list \<Rightarrow> int \<times> bytes \<times> rx_event list" where
  "q_recvbuf_loop buflen buf finlen rx =
     (let (retval, again, bs, rx') = recv_rx (buflen - finlen) rx;
          buf' = overwrite finlen bs buf;
          finlen' = (if retval > 0 then finlen + nat retval else finlen)
      in if retval > 0 \<and> finlen' < buflen then q_recvbuf_loop buflen buf' finlen' rx'
         else if retval < 0 \<or> finlen' < buflen then (-1, buf', rx') else (0, buf', rx'))"
  by pat_completeness auto
termination
  by (relation "measure (\<lambda>(buflen, buf, finlen, rx). buflen - finlen)") auto

declare q_recvbuf_loop.simps [simp del]

definition q_recvbuf :: "nat \<Rightarrow> bytes \<Rightarrow> sock \<Rightarrow> int \<times> bytes \<times> sock" where
  "q_recvbuf buflen buf s =
     (let (r, buf', rx') = q_recvbuf_loop buflen buf 0 (srx s) in (r, buf', s\<lparr>srx := rx'\<rparr>))"

function q_sendbuf_loop :: "bytes \<Rightarrow> nat \<Rightarrow> nat \<Rightarrow> tx_event list \<Rightarrow> bytes \<Rightarrow> int \<times> tx_event list \<times> bytes" where
  "q_sendbuf_loop buf buflen finlen tx sent =
     (let (retval, again, tx') = send_tx (buflen - finlen) tx;
          sent' = (if retval > 0 then sent @ sub_buf finlen (nat retval) buf else sent);
          finlen' = (if retval > 0 then finlen + nat retval else finlen)
      in if retval > 0 \<and> finlen' < buflen then q_sendbuf_loop buf buflen finlen' tx' sent'
         else if retval < 0 \<or> finlen' < buflen then (-1, tx', sent') else (0, tx', sent'))"
  by pat_completeness auto
termination
  by (relation "measure (\<lambda>(buf, buflen, finlen, tx, sent). buflen - finlen)") auto

declare q_sendbuf_loop.simps [simp del]

definition q_sendbuf :: "bytes \<Rightarrow> nat \<Rightarrow> sock \<Rightarrow> int \<times> sock" where
  "q_sendbuf buf buflen s =
     (let (r, tx', out') = q_sendbuf_loop buf buflen 0 (stx s) (sout s)
      in (r, s\<lparr>stx := tx', sout := out'\<rparr>))"

subsection \<open>The byte stream\<close>

text \<open>The bytes that arrive before the first error or shutdown.\<close>

fun rx_data :: "rx_event list \<Rightarrow> bytes" where
  "rx_data (RxData bs # r) = bs @ rx_data r"
| "rx_data _ = []"

lemma recv_rx_pos:
  "recv_rx n rx = (r, again, bs, rx') \<Longrightarrow> 0 < r \<Longrightarrow>
     rx_data rx = bs @ rx_data rx' \<and> length bs = nat r \<and> nat r \<le> n"
  by (induction n rx rule: recv_rx.induct) (auto split: if_splits)

lemma recv_rx_nonpos:
  "recv_rx n rx = (r, again, bs, rx') \<Longrightarrow> 0 < n \<Longrightarrow> \<not> 0 < r \<Longrightarrow> rx_data rx = [] \<and> bs = []"
  by (induction n rx rule: recv_rx.induct) (auto split: if_splits)

lemma overwrite_overwrite:
  "off + length a \<le> length buf \<Longrightarrow>
     overwrite (off + length a) b (overwrite off a buf) = overwrite off (a @ b) buf"
  by (simp add: overwrite_def ac_simps)

text \<open>
  The loop, started with room for at least one more byte, succeeds exactly when the stream still
  holds the missing bytes, and then it has taken exactly them.
\<close>

lemma q_recvbuf_loop_ok:
  assumes "finlen < buflen" and "buflen \<le> length buf" and "buflen - finlen \<le> length (rx_data rx)"
  shows "\<exists>rx'. q_recvbuf_loop buflen buf finlen rx =
      (0, overwrite finlen (take (buflen - finlen) (rx_data rx)) buf, rx')
    \<and> rx_data rx' = drop (buflen - finlen) (rx_data rx)"
  using assms
proof (induction "buflen - finlen" arbitrary: buf finlen rx rule: less_induct)
  case less
  obtain r again bs rx1 where e: "recv_rx (buflen - finlen) rx = (r, again, bs, rx1)"
    by (cases "recv_rx (buflen - finlen) rx") auto
  have pos: "0 < r"
    using recv_rx_nonpos [OF e] less.prems by fastforce
  have d: "rx_data rx = bs @ rx_data rx1" "length bs = nat r" "nat r \<le> buflen - finlen"
    using recv_rx_pos [OF e pos] by auto
  show ?case
  proof (cases "finlen + nat r < buflen")
    case True
    let ?buf = "overwrite finlen bs buf" and ?k = "buflen - (finlen + nat r)"
    have "length ?buf = length buf" "?k < buflen - finlen" "?k \<le> length (rx_data rx1)"
      using True pos d less.prems by auto
    then obtain rx' where "q_recvbuf_loop buflen ?buf (finlen + nat r) rx1 =
        (0, overwrite (finlen + nat r) (take ?k (rx_data rx1)) ?buf, rx')"
      "rx_data rx' = drop ?k (rx_data rx1)"
      using less.hyps [of "finlen + nat r" ?buf rx1] True pos d less.prems by auto
    moreover have "overwrite (finlen + nat r) (take ?k (rx_data rx1)) ?buf =
        overwrite finlen (take (buflen - finlen) (rx_data rx)) buf"
      using overwrite_overwrite [of finlen bs buf "take ?k (rx_data rx1)"] d less.prems by simp
    ultimately show ?thesis
      using True pos d by (subst q_recvbuf_loop.simps) (simp add: e)
  next
    case False
    then have "q_recvbuf_loop buflen buf finlen rx = (0, overwrite finlen bs buf, rx1)"
      using pos by (subst q_recvbuf_loop.simps) (simp add: e)
    moreover have "buflen - finlen = length bs" using False d by auto
    ultimately show ?thesis using d(1) by simp
  qed
qed

lemma q_recvbuf_loop_short:
  assumes "finlen < buflen" and "length (rx_data rx) < buflen - finlen"
  shows "fst (q_recvbuf_loop buflen buf finlen rx) = -1"
  using assms
proof (induction "buflen - finlen" arbitrary: buf finlen rx rule: less_induct)
  case less
  obtain r again bs rx1 where e: "recv_rx (buflen - finlen) rx = (r, again, bs, rx1)"
    by (cases "recv_rx (buflen - finlen) rx") auto
  show ?case
  proof (cases "0 < r")
    case True
    have d: "rx_data rx = bs @ rx_data rx1" "length bs = nat r" "nat r \<le> buflen - finlen"
      using recv_rx_pos [OF e True] by auto
    then have lt: "finlen + nat r < buflen" using less.prems by simp
    with less.hyps [of "finlen + nat r" rx1 "overwrite finlen bs buf"] True d less.prems
    show ?thesis by (subst q_recvbuf_loop.simps) (simp add: e)
  next
    case False
    then show ?thesis using less.prems by (subst q_recvbuf_loop.simps) (simp add: e)
  qed
qed

lemma q_recvbuf_ok:
  assumes "0 < n" and "n \<le> length buf" and "n \<le> length (rx_data (srx s))"
  shows "\<exists>s'. q_recvbuf n buf s = (0, overwrite 0 (take n (rx_data (srx s))) buf, s')
    \<and> rx_data (srx s') = drop n (rx_data (srx s)) \<and> stx s' = stx s \<and> sout s' = sout s
    \<and> sopen s' = sopen s"
  using q_recvbuf_loop_ok [of 0 n buf "srx s"] assms by (auto simp: q_recvbuf_def)

lemma q_recvbuf_short:
  "0 < n \<Longrightarrow> length (rx_data (srx s)) < n \<Longrightarrow> fst (q_recvbuf n buf s) = -1"
  using q_recvbuf_loop_short [of 0 n "srx s" buf] by (simp add: q_recvbuf_def split_def Let_def)

lemma q_recvbuf_ok_iff:
  "0 < n \<Longrightarrow> n \<le> length buf \<Longrightarrow> fst (q_recvbuf n buf s) = 0 \<longleftrightarrow> n \<le> length (rx_data (srx s))"
  using q_recvbuf_ok [of n buf s] q_recvbuf_short [of n s buf] by (cases "n \<le> length (rx_data (srx s))") auto

text \<open>Neither helper touches the other direction, and the length of the buffer is kept.\<close>

lemma q_recvbuf_loop_length:
  "finlen \<le> buflen \<Longrightarrow> buflen \<le> length buf \<Longrightarrow>
     length (fst (snd (q_recvbuf_loop buflen buf finlen rx))) = length buf"
proof (induction "buflen - finlen" arbitrary: buf finlen rx rule: less_induct)
  case less
  obtain r again bs rx1 where e: "recv_rx (buflen - finlen) rx = (r, again, bs, rx1)"
    by (cases "recv_rx (buflen - finlen) rx") auto
  have bs: "length bs \<le> buflen - finlen" "int (length bs) = max r 0"
    using recv_rx_data [OF e] by auto
  then have l: "length (overwrite finlen bs buf) = length buf" using less.prems by simp
  with less.hyps [of "finlen + nat r" "overwrite finlen bs buf" rx1] bs less.prems show ?case
    by (subst q_recvbuf_loop.simps) (auto simp: e Let_def max_def split: if_splits)
qed

lemma q_recvbuf_length:
  "n \<le> length buf \<Longrightarrow> length (fst (snd (q_recvbuf n buf s))) = length buf"
  using q_recvbuf_loop_length [of 0 n buf "srx s"] by (simp add: q_recvbuf_def split_def Let_def)

lemma q_recvbuf_frame:
  "sout (snd (snd (q_recvbuf n buf s))) = sout s" "stx (snd (snd (q_recvbuf n buf s))) = stx s"
  "sopen (snd (snd (q_recvbuf n buf s))) = sopen s"
  by (simp_all add: q_recvbuf_def split_def Let_def)


lemma send_tx_pos:
  assumes "send_tx n tx = (r, again, tx')"
  shows "r \<le> int n" and "0 < n \<Longrightarrow> r \<noteq> 0" and "\<not> 0 < r \<Longrightarrow> 0 < n \<Longrightarrow> r = -1"
  using assms by (auto simp: send_tx_def split: list.splits tx_event.splits)

text \<open>What was delivered is always a prefix of the rest of the buffer, all of it on success.\<close>

lemma q_sendbuf_loop_prefix:
  assumes "finlen < buflen" and "buflen \<le> length buf"
  shows "\<exists>k \<le> buflen - finlen. \<exists>tx'. q_sendbuf_loop buf buflen finlen tx sent =
      (if k = buflen - finlen then 0 else -1, tx', sent @ sub_buf finlen k buf)"
  using assms
proof (induction "buflen - finlen" arbitrary: finlen tx sent rule: less_induct)
  case less
  obtain r again tx1 where e: "send_tx (buflen - finlen) tx = (r, again, tx1)"
    by (cases "send_tx (buflen - finlen) tx") auto
  note p = send_tx_pos [OF e]
  show ?case
  proof (cases "0 < r")
    case False
    then have "q_sendbuf_loop buf buflen finlen tx sent = (-1, tx1, sent)"
      using p less.prems by (subst q_sendbuf_loop.simps) (simp add: e)
    then show ?thesis using less.prems by (intro exI [of _ 0]) (simp add: sub_buf_def)
  next
    case True
    let ?f = "finlen + nat r" and ?s = "sent @ sub_buf finlen (nat r) buf"
    show ?thesis
    proof (cases "?f < buflen")
      case lt: True
      with \<open>0 < r\<close> have "buflen - ?f < buflen - finlen" by auto
      with lt obtain k tx' where k: "k \<le> buflen - ?f" "q_sendbuf_loop buf buflen ?f tx1 ?s =
          (if k = buflen - ?f then 0 else -1, tx', ?s @ sub_buf ?f k buf)"
        using less.hyps [of ?f tx1 ?s] True less.prems by auto
      have "sub_buf finlen (nat r) buf @ sub_buf ?f k buf = sub_buf finlen (nat r + k) buf"
        using take_add [of "nat r" k "drop finlen buf"] by (simp add: sub_buf_def add.commute)
      with k True lt show ?thesis
        by (intro exI [of _ "nat r + k"], subst q_sendbuf_loop.simps) (auto simp: e)
    next
      case False
      with p(1) True have "nat r = buflen - finlen" by simp
      with True False less.prems show ?thesis
        by (intro exI [of _ "nat r"], subst q_sendbuf_loop.simps) (simp add: e)
    qed
  qed
qed

lemma q_sendbuf_prefix:
  assumes "0 < n" and "n \<le> length buf"
  shows "\<exists>k \<le> n. \<exists>tx'. q_sendbuf buf n s =
      (if k = n then 0 else -1, s\<lparr>stx := tx', sout := sout s @ take k buf\<rparr>)"
proof -
  obtain k tx' where "k \<le> n" "q_sendbuf_loop buf n 0 (stx s) (sout s) =
      (if k = n then 0 else -1, tx', sout s @ take k buf)"
    using q_sendbuf_loop_prefix [of 0 n buf "stx s" "sout s"] assms by (auto simp: sub_buf_def)
  then show ?thesis by (auto simp: q_sendbuf_def intro!: exI [of _ k] exI [of _ tx'])
qed

text \<open>A peer that keeps accepting gets everything.\<close>

definition tx_healthy :: "tx_event list \<Rightarrow> bool" where
  "tx_healthy tx \<longleftrightarrow> (\<forall>b. TxErr b \<notin> set tx)"

lemma send_tx_healthy:
  "tx_healthy tx \<Longrightarrow> 0 < n \<Longrightarrow> send_tx n tx = (r, again, tx') \<Longrightarrow> 0 < r \<and> tx_healthy tx'"
  by (auto simp: send_tx_def tx_healthy_def split: list.splits tx_event.splits)

lemma q_sendbuf_loop_healthy:
  assumes "finlen < buflen" and "tx_healthy tx"
  shows "fst (q_sendbuf_loop buf buflen finlen tx sent) = 0
    \<and> tx_healthy (fst (snd (q_sendbuf_loop buf buflen finlen tx sent)))"
  using assms
proof (induction "buflen - finlen" arbitrary: finlen tx sent rule: less_induct)
  case less
  obtain r again tx1 where e: "send_tx (buflen - finlen) tx = (r, again, tx1)"
    by (cases "send_tx (buflen - finlen) tx") auto
  have "0 < r" "tx_healthy tx1" "r \<le> int (buflen - finlen)"
    using send_tx_healthy [OF less.prems(2) _ e] send_tx_pos [OF e] less.prems by auto
  with less.hyps [of "finlen + nat r" tx1] less.prems show ?case
    by (subst (1 2) q_sendbuf_loop.simps) (auto simp: e Let_def)
qed

lemma q_sendbuf_healthy:
  assumes "tx_healthy (stx s)" and "0 < n" and "n \<le> length buf"
  shows "\<exists>tx'. q_sendbuf buf n s = (0, s\<lparr>stx := tx', sout := sout s @ take n buf\<rparr>) \<and> tx_healthy tx'"
proof -
  obtain k tx' where k: "k \<le> n"
    "q_sendbuf buf n s = (if k = n then 0 else -1, s\<lparr>stx := tx', sout := sout s @ take k buf\<rparr>)"
    using q_sendbuf_prefix [OF assms(2,3), of s] by auto
  have "fst (q_sendbuf buf n s) = 0" "tx_healthy (stx (snd (q_sendbuf buf n s)))"
    using q_sendbuf_loop_healthy [of 0 n "stx s" buf "sout s"] assms
    by (simp_all add: q_sendbuf_def split_def Let_def)
  with k show ?thesis by (auto split: if_splits)
qed

lemma q_sendbuf_srx: "srx (snd (q_sendbuf buf n s)) = srx s" "sopen (snd (q_sendbuf buf n s)) = sopen s"
  by (simp_all add: q_sendbuf_def split_def Let_def)



section \<open>Reading up to a terminator\<close>

text \<open>
  \<open>q_recvbuf_onebyte\<close> and \<open>q_recvbuf_twobytes\<close> read one byte per call, and here the \<open>continue\<close>
  does retry.  \<open>None\<close> is the run that retries for ever because nothing more arrives.  The result
  holds the bytes read so far; the callers cut the terminator off.
\<close>

fun rx_measure :: "rx_event list \<Rightarrow> nat" where
  "rx_measure [] = 0"
| "rx_measure (RxData bs # r) = Suc (length bs + rx_measure r)"
| "rx_measure (e # r) = Suc (rx_measure r)"

lemma recv_rx_measure: "recv_rx n rx = (r, again, bs, rx') \<Longrightarrow> rx_measure rx' \<le> rx_measure rx"
  by (induction n rx rule: recv_rx.induct) (auto split: if_splits)

lemma recv_rx_one:
  "recv_rx (Suc 0) rx = (r, again, bs, rx') \<Longrightarrow> 0 < r \<or> r = -1 \<and> rx \<noteq> [] \<Longrightarrow> rx_measure rx' < rx_measure rx"
  by (induction "Suc 0" rx rule: recv_rx.induct) (auto split: if_splits dest: recv_rx_measure)

function recv_until :: "(bytes \<Rightarrow> bool) \<Rightarrow> bytes \<Rightarrow> rx_event list \<Rightarrow> (bool \<times> bytes \<times> rx_event list) option" where
  "recv_until stop acc rx =
     (if rx = [] then None
      else let (once_len, again, bs, rx') = recv_rx (Suc 0) rx
           in if once_len \<le> 0
              then (if once_len = -1 \<and> again then recv_until stop acc rx' else Some (False, acc, rx'))
              else if stop (acc @ bs) then Some (True, acc @ bs, rx')
              else recv_until stop (acc @ bs) rx')"
  by pat_completeness auto
termination
  by (relation "measure (\<lambda>(stop, acc, rx). rx_measure rx)") (auto dest: recv_rx_one [OF sym])

declare recv_until.simps [simp del]

definition q_recvbuf_onebyte :: "byte \<Rightarrow> sock \<Rightarrow> (int \<times> bytes \<times> sock) option" where
  "q_recvbuf_onebyte end_char s =
     (case recv_until (\<lambda>b. last b = end_char) [] (srx s) of
        None \<Rightarrow> None
      | Some (ok, b, rx') \<Rightarrow>
          Some (if ok then (0, butlast b, s\<lparr>srx := rx'\<rparr>) else (-1, b, s\<lparr>srx := rx'\<rparr>)))"

definition ends_with2 :: "byte \<Rightarrow> byte \<Rightarrow> bytes \<Rightarrow> bool" where
  "ends_with2 end_one end_two b \<longleftrightarrow>
     2 \<le> length b \<and> b ! (length b - 2) = end_one \<and> b ! (length b - 1) = end_two"

definition q_recvbuf_twobytes :: "byte \<Rightarrow> byte \<Rightarrow> sock \<Rightarrow> (int \<times> bytes \<times> sock) option" where
  "q_recvbuf_twobytes end_one end_two s =
     (case recv_until (ends_with2 end_one end_two) [] (srx s) of
        None \<Rightarrow> None
      | Some (ok, b, rx') \<Rightarrow>
          Some (if ok then (0, take (length b - 2) b, s\<lparr>srx := rx'\<rparr>) else (-1, b, s\<lparr>srx := rx'\<rparr>)))"

text \<open>
  If some non-empty prefix of the stream stops the loop, the loop stops at the shortest such
  prefix and leaves the rest of the stream for the next call.
\<close>

lemma recv_until_stream:
  assumes "stop (acc @ take k (rx_data rx))" and "0 < k" and "k \<le> length (rx_data rx)"
    and "\<And>j. 0 < j \<Longrightarrow> j < k \<Longrightarrow> \<not> stop (acc @ take j (rx_data rx))"
  shows "\<exists>rx'. recv_until stop acc rx = Some (True, acc @ take k (rx_data rx), rx')
    \<and> rx_data rx' = drop k (rx_data rx)"
  using assms
proof (induction k arbitrary: acc rx)
  case (Suc k)
  obtain r again bs rx1 where e: "recv_rx (Suc 0) rx = (r, again, bs, rx1)"
    by (cases "recv_rx (Suc 0) rx") auto
  have "0 < r" using recv_rx_nonpos [OF e] Suc.prems(3) by fastforce
  with recv_rx_pos [OF e] have d: "rx_data rx = bs @ rx_data rx1" "length bs = 1" "r = 1" by auto
  then obtain b where b: "bs = [b]" by (cases bs) auto
  have ne: "rx \<noteq> []" using Suc.prems(3) by (cases rx) auto
  show ?case
  proof (cases "stop (acc @ [b])")
    case True
    then have "k = 0" using Suc.prems(4) [of 1] d b by (cases k) auto
    then show ?thesis using True ne d b by (subst recv_until.simps) (simp add: e)
  next
    case False
    then have k: "0 < k" using Suc.prems(1) d b by (cases k) auto
    have "\<not> stop ((acc @ [b]) @ take j (rx_data rx1))" if "0 < j" "j < k" for j
      using Suc.prems(4) [of "Suc j"] that d b by simp
    with Suc.IH [of "acc @ [b]" rx1] k Suc.prems d b False ne show ?thesis
      by (subst recv_until.simps) (simp add: e)
  qed
qed simp


section \<open>Sending a file\<close>

text \<open>
  \<open>q_sendfile\<close> on the contents of the file, \<open>None\<close> when \<open>stat\<close> or \<open>fopen\<close> fails.  Only the low four
  bytes of the 64-bit length are sent before the contents.
\<close>

function q_sendfile_loop :: "bytes \<Rightarrow> sock \<Rightarrow> int \<times> sock" where
  "q_sendfile_loop rest s =
     (if rest = [] then (0, s)
      else let send_len = min 3072 (length rest); (r, s') = q_sendbuf (take send_len rest) send_len s
           in if r \<noteq> 0 then (-1, s') else q_sendfile_loop (drop send_len rest) s')"
  by pat_completeness auto
termination
  by (relation "measure (\<lambda>(rest, s). length rest)") (auto simp: length_greater_0_conv)

declare q_sendfile_loop.simps [simp del]

definition q_sendfile :: "bytes option \<Rightarrow> sock \<Rightarrow> int \<times> sock" where
  "q_sendfile content s =
     (case content of
        None \<Rightarrow> (-1, s)
      | Some bs \<Rightarrow>
          (let hdr = le64 (of_nat (length bs)); (r, s') = q_sendbuf hdr 4 s
           in if r \<noteq> 0 then (-1, s') else q_sendfile_loop bs s'))"

lemma q_sendfile_loop_healthy:
  "tx_healthy (stx s) \<Longrightarrow> \<exists>tx'. q_sendfile_loop rest s = (0, s\<lparr>stx := tx', sout := sout s @ rest\<rparr>)"
proof (induction rest s rule: q_sendfile_loop.induct)
  case (1 rest s)
  show ?case
  proof (cases "rest = []")
    case True
    then show ?thesis by (subst q_sendfile_loop.simps) (auto intro!: exI [of _ "stx s"])
  next
    case False
    let ?k = "min 3072 (length rest)"
    have "0 < ?k" "?k \<le> length (take ?k rest)" using False by auto
    then obtain tx1 where t: "q_sendbuf (take ?k rest) ?k s = (0, s\<lparr>stx := tx1, sout := sout s @ take ?k rest\<rparr>)"
      "tx_healthy tx1"
      using q_sendbuf_healthy [OF 1(2), of ?k "take ?k rest"] by (auto simp only: take_take min.idem)
    from 1(1) [OF False refl t(1) [symmetric]] t(2) obtain tx2 where
      "q_sendfile_loop (drop ?k rest) (s\<lparr>stx := tx1, sout := sout s @ take ?k rest\<rparr>) =
        (0, s\<lparr>stx := tx2, sout := sout s @ rest\<rparr>)"
      by auto
    then show ?thesis using False t(1) by (subst q_sendfile_loop.simps) auto
  qed
qed



section \<open>Properties\<close>

text \<open>C22: \<open>q_recvbuf\<close> depends on the byte stream only: it returns 0 exactly when the stream holds the
  requested number of bytes before an error or shutdown, whatever the segmentation; it then
  stores exactly these bytes at the start of the buffer, leaves the rest of the buffer alone and
  leaves the rest of the stream to the next call.\<close>

theorem q_recvbuf_segmentation:
  assumes "0 < n" and "n \<le> length buf"
  shows "case q_recvbuf n buf s of (r, buf', s') \<Rightarrow>
      (r = 0 \<longleftrightarrow> n \<le> length (rx_data (srx s)))
    \<and> (r = 0 \<longrightarrow> buf' = take n (rx_data (srx s)) @ drop n buf \<and> rx_data (srx s') = drop n (rx_data (srx s)))
    \<and> (r \<noteq> 0 \<longrightarrow> r = -1) \<and> length buf' = length buf"
proof (cases "n \<le> length (rx_data (srx s))")
  case True
  then show ?thesis using q_recvbuf_ok [OF assms True] assms(2) by (auto simp: overwrite_def)
next
  case False
  then have "fst (q_recvbuf n buf s) = -1" by (intro q_recvbuf_short assms) simp
  then show ?thesis
    using False q_recvbuf_length [OF assms(2), of s] by (cases "q_recvbuf n buf s") simp
qed

theorem q_recvbuf_segmentation_witness:
  "case q_recvbuf 3 [9, 9, 9, 9] \<lparr>srx = [RxData [1], RxData [2, 3, 4], RxEof], stx = [], sout = [], sopen = True\<rparr>
   of (r, buf', s') \<Rightarrow> r = 0 \<and> buf' = [1, 2, 3, 9] \<and> rx_data (srx s') = [4]"
  using q_recvbuf_segmentation [of 3 "[9, 9, 9, 9]"
    "\<lparr>srx = [RxData [1], RxData [2, 3, 4], RxEof], stx = [], sout = [], sopen = True\<rparr>"]
  by (simp add: split_def)

text \<open>\<open>q_recvbuf\<close> and \<open>q_sendbuf\<close> do not retry after \<open>EAGAIN\<close>: a transient error before the first
  byte makes both return -1, although the rest of the data would have followed.\<close>

theorem eagain_not_retried:
  assumes "0 < n"
  shows "fst (q_recvbuf n buf (s\<lparr>srx := RxErr True # rx\<rparr>)) = -1
    \<and> fst (q_sendbuf out n (s\<lparr>stx := TxErr True # tx\<rparr>)) = -1"
  using q_recvbuf_short [OF assms, of "s\<lparr>srx := RxErr True # rx\<rparr>" buf] assms
  by (auto simp: q_sendbuf_def send_tx_def q_sendbuf_loop.simps Let_def)

theorem eagain_not_retried_witness:
  "fst (q_recvbuf 2 [0, 0] \<lparr>srx = [RxErr True, RxData [1, 2]], stx = [], sout = [], sopen = True\<rparr>) = -1"
  using eagain_not_retried [where n = 2 and buf = "[0, 0]" and rx = "[RxData [1, 2]]"
      and s = "\<lparr>srx = [], stx = [], sout = [], sopen = True\<rparr>"]
  by simp

text \<open>\<open>q_recvbuf_twobytes\<close> returns the bytes before the first occurrence of the two-byte
  terminator, whatever the segmentation, and leaves the stream behind the terminator.\<close>

theorem q_recvbuf_twobytes_line:
  assumes "rx_data (srx s) = line @ [e1, e2] @ rest"
    and "\<forall>j. Suc j < Suc (length line) \<longrightarrow> (line @ [e1, e2]) ! j \<noteq> e1 \<or> (line @ [e1, e2]) ! Suc j \<noteq> e2"
  shows "\<exists>s'. q_recvbuf_twobytes e1 e2 s = Some (0, line, s') \<and> rx_data (srx s') = rest"
proof -
  let ?k = "length line + 2" and ?d = "rx_data (srx s)"
  define l where "l = line @ [e1, e2]"
  have l: "length l = ?k" "l ! length line = e1" "l ! Suc (length line) = e2"
    by (simp_all add: l_def nth_append)
  have t: "take j ?d = take j l" if "j \<le> ?k" for j
    using that assms(1) l(1) take_append [of j l rest] by (simp add: l_def)
  have "ends_with2 e1 e2 (take ?k ?d)" using l by (simp add: t ends_with2_def)
  moreover have "\<not> ends_with2 e1 e2 (take j ?d)" if "j < ?k" for j
  proof (cases "2 \<le> j")
    case True
    then obtain i where j: "j = Suc (Suc i)" by (metis add_2_eq_Suc le_Suc_ex)
    with that have "l ! i \<noteq> e1 \<or> l ! Suc i \<noteq> e2" using assms(2) by (simp add: l_def)
    with that j t [of j] l(1) show ?thesis by (simp add: ends_with2_def)
  qed (simp add: ends_with2_def)
  ultimately obtain rx' where
    "recv_until (ends_with2 e1 e2) [] (srx s) = Some (True, take ?k ?d, rx')" "rx_data rx' = drop ?k ?d"
    using recv_until_stream [of "ends_with2 e1 e2" "[]" ?k "srx s"] assms(1) by auto
  then show ?thesis using assms(1) by (auto simp: q_recvbuf_twobytes_def)
qed

theorem q_recvbuf_twobytes_line_witness:
  "\<exists>s'. q_recvbuf_twobytes 13 10 \<lparr>srx = [RxData [65, 13], RxData [10, 66]], stx = [], sout = [], sopen = True\<rparr> =
      Some (0, [65], s') \<and> rx_data (srx s') = [66]"
  using q_recvbuf_twobytes_line [of "\<lparr>srx = [RxData [65, 13], RxData [10, 66]], stx = [], sout = [], sopen = True\<rparr>"
      "[65]" 13 10 "[66]"]
  by auto

text \<open>over a socket that keeps accepting bytes, in pieces of any size, \<open>q_sendfile\<close> delivers the low
  four bytes of the length, little-endian, followed by the whole file.\<close>

theorem q_sendfile_delivers:
  assumes "tx_healthy (stx s)"
  shows "fst (q_sendfile (Some bs) s) = 0
    \<and> sout (snd (q_sendfile (Some bs) s)) = sout s @ take 4 (le64 (of_nat (length bs))) @ bs"
proof -
  obtain tx1 where t: "q_sendbuf (le64 (of_nat (length bs))) 4 s =
      (0, s\<lparr>stx := tx1, sout := sout s @ take 4 (le64 (of_nat (length bs)))\<rparr>)" "tx_healthy tx1"
    using q_sendbuf_healthy [OF assms, of 4 "le64 (of_nat (length bs))"] by auto
  with q_sendfile_loop_healthy [of "s\<lparr>stx := tx1, sout := sout s @ take 4 (le64 (of_nat (length bs)))\<rparr>" bs]
  show ?thesis by (auto simp: q_sendfile_def)
qed

theorem q_sendfile_delivers_witness:
  "sout (snd (q_sendfile (Some [7, 8, 9]) \<lparr>srx = [], stx = [TxAccept 0, TxAccept 2, TxAccept 0], sout = [], sopen = True\<rparr>))
   = [3, 0, 0, 0, 7, 8, 9]"
proof -
  have "take 4 (le64 (of_nat (length [7, 8, 9 :: byte]))) = [3, 0, 0, 0]" by code_simp
  then show ?thesis
    using q_sendfile_delivers [of "\<lparr>srx = [], stx = [TxAccept 0, TxAccept 2, TxAccept 0], sout = [], sopen = True\<rparr>" "[7, 8, 9]"]
    by (simp add: tx_healthy_def)
qed

end
