(* ===== verification/File_System.thy ===== *)
theory File_System
  imports Idfs_Prelude "HOL-Library.AList"
begin

text \<open>
  The file system as the program uses it, and the helpers built on it: \<open>QDir::mkdir\<close>, the path and
  file operations of \<open>QFile\<close>, and the file functions of \<open>qglobal.h\<close> (\<open>q_repair_file\<close> and the
  recovery trio).  A file system has directories, regular files and a number of free bytes; a
  write beyond the free space is cut short, as \<open>fwrite\<close> reports it.
\<close>

section \<open>Paths\<close>

text \<open>
  A path is absolute or relative to the working directory and consists of its components; empty
  components and \<open>.\<close> are skipped, as the kernel does.  \<open>..\<close> is an ordinary directory name here.
\<close>

type_synonym path = "bool \<times> string list"

fun split_slash :: "string \<Rightarrow> string list" where
  "split_slash [] = [[]]"
| "split_slash (c # cs) =
     (if c = CHR ''/'' then [] # split_slash cs
      else case split_slash cs of w # ws \<Rightarrow> (c # w) # ws | [] \<Rightarrow> [[c]])"

definition path_of :: "string \<Rightarrow> path" where
  "path_of s = (s \<noteq> [] \<and> hd s = CHR ''/'', filter (\<lambda>c. c \<noteq> [] \<and> c \<noteq> ''.'') (split_slash s))"

definition parent :: "path \<Rightarrow> path" where
  "parent p = (fst p, butlast (snd p))"

lemma split_slash_not_Nil [simp]: "split_slash s \<noteq> []"
  by (induction s) (auto split: list.splits)

lemma split_slash_append:
  "split_slash (s @ CHR ''/'' # t) = split_slash s @ split_slash t"
  by (induction s) (auto split: list.splits)

lemma split_slash_plain: "CHR ''/'' \<notin> set s \<Longrightarrow> split_slash s = [s]"
  by (induction s) (auto split: list.splits)

lemma path_of_append:
  "s \<noteq> [] \<Longrightarrow> path_of (s @ CHR ''/'' # t) =
     (fst (path_of s), snd (path_of s) @ snd (path_of t))"
  by (simp add: path_of_def split_slash_append)

lemma path_of_name:
  "s \<noteq> [] \<Longrightarrow> CHR ''/'' \<notin> set t \<Longrightarrow> t \<noteq> [] \<Longrightarrow> t \<noteq> ''.'' \<Longrightarrow>
     path_of (s @ CHR ''/'' # t) = (fst (path_of s), snd (path_of s) @ [t])"
  by (subst path_of_append) (simp_all add: path_of_def split_slash_plain)


section \<open>File systems\<close>

record fs =
  fdirs :: "path list"
  ffiles :: "(path \<times> bytes) list"
  froom :: nat

definition fget :: "fs \<Rightarrow> path \<Rightarrow> bytes option" where
  "fget d p = map_of (ffiles d) p"

definition is_dir :: "fs \<Rightarrow> path \<Rightarrow> bool" where
  "is_dir d p \<longleftrightarrow> p \<in> set (fdirs d)"

definition fs_exists :: "fs \<Rightarrow> path \<Rightarrow> bool" where
  "fs_exists d p \<longleftrightarrow> is_dir d p \<or> fget d p \<noteq> None"

definition flen :: "fs \<Rightarrow> path \<Rightarrow> nat" where
  "flen d p = (case fget d p of None \<Rightarrow> 0 | Some c \<Rightarrow> length c)"

text \<open>Replace the contents of a file; the caller has checked that they fit.\<close>

definition fset :: "path \<Rightarrow> bytes \<Rightarrow> fs \<Rightarrow> fs" where
  "fset p c d = d\<lparr>ffiles := AList.update p c (ffiles d), froom := froom d + flen d p - length c\<rparr>"

definition fdel :: "path \<Rightarrow> fs \<Rightarrow> fs" where
  "fdel p d = d\<lparr>ffiles := AList.delete p (ffiles d), froom := froom d + flen d p\<rparr>"

lemma fget_fset [simp]: "fget (fset p c d) q = (if q = p then Some c else fget d q)"
  by (simp add: fget_def fset_def update_conv')

lemma fget_fdel [simp]: "fget (fdel p d) q = (if q = p then None else fget d q)"
  by (simp add: fget_def fdel_def delete_conv')

lemma is_dir_fset [simp]: "is_dir (fset p c d) q = is_dir d q"
  by (simp add: is_dir_def fset_def)

lemma is_dir_fdel [simp]: "is_dir (fdel p d) q = is_dir d q"
  by (simp add: is_dir_def fdel_def)

lemma fs_exists_fset [simp]: "fs_exists (fset p c d) q \<longleftrightarrow> q = p \<or> fs_exists d q"
  by (auto simp: fs_exists_def)

text \<open>
  Well-formed: the root and the working directory exist, every parent is a directory, and no path
  is both a directory and a file.
\<close>

definition fs_wf :: "fs \<Rightarrow> bool" where
  "fs_wf d \<longleftrightarrow> is_dir d (True, []) \<and> is_dir d (False, [])
     \<and> (\<forall>p. fs_exists d p \<longrightarrow> is_dir d (parent p))
     \<and> (\<forall>p. is_dir d p \<longrightarrow> fget d p = None)"

lemma fs_wf_fset: "fs_wf d \<Longrightarrow> is_dir d (parent p) \<Longrightarrow> \<not> is_dir d p \<Longrightarrow> fs_wf (fset p c d)"
  by (auto simp: fs_wf_def)


section \<open>System calls\<close>

definition ENOENT :: int where "ENOENT = 2"
definition EEXIST :: int where "EEXIST = 17"

text \<open>Return value, \<open>errno\<close> when it is -1, and the file system.\<close>

definition sys_access :: "string \<Rightarrow> fs \<Rightarrow> int" where
  "sys_access s d = (if s \<noteq> [] \<and> fs_exists d (path_of s) then 0 else -1)"

definition sys_mkdir :: "string \<Rightarrow> fs \<Rightarrow> int \<times> int \<times> fs" where
  "sys_mkdir s d =
     (if s = [] then (-1, ENOENT, d)
      else if fs_exists d (path_of s) then (-1, EEXIST, d)
      else if \<not> is_dir d (parent (path_of s)) then (-1, ENOENT, d)
      else (0, 0, d\<lparr>fdirs := path_of s # fdirs d\<rparr>))"

definition has_children :: "fs \<Rightarrow> path \<Rightarrow> bool" where
  "has_children d p \<longleftrightarrow>
     list_ex (\<lambda>q. snd q \<noteq> [] \<and> parent q = p) (fdirs d) \<or> list_ex (\<lambda>(q, c). parent q = p) (ffiles d)"

definition sys_remove :: "string \<Rightarrow> fs \<Rightarrow> int \<times> fs" where
  "sys_remove s d =
     (let p = path_of s
      in if s = [] \<or> \<not> fs_exists d p then (-1, d)
         else if is_dir d p
         then (if has_children d p \<or> snd p = [] then (-1, d)
               else (0, d\<lparr>fdirs := filter (\<lambda>q. q \<noteq> p) (fdirs d)\<rparr>))
         else (0, fdel p d))"

text \<open>\<open>rename\<close> of a regular file.\<close>

definition sys_rename :: "string \<Rightarrow> string \<Rightarrow> fs \<Rightarrow> int \<times> fs" where
  "sys_rename s t d =
     (let p = path_of s; q = path_of t
      in if s = [] \<or> t = [] \<or> is_dir d q \<or> \<not> is_dir d (parent q) then (-1, d)
         else case fget d p of
           None \<Rightarrow> (-1, d)
         | Some c \<Rightarrow> (0, if p = q then d else fset q c (fdel p d)))"

definition sys_stat_size :: "string \<Rightarrow> fs \<Rightarrow> nat option" where
  "sys_stat_size s d =
     (if s = [] \<or> \<not> fs_exists d (path_of s) then None else Some (flen d (path_of s)))"

text \<open>\<open>fopen\<close> for reading, for writing (\<open>w\<close>) and for appending (\<open>a\<close>); \<open>None\<close> is a null pointer.\<close>

definition fopen_r :: "string \<Rightarrow> fs \<Rightarrow> bytes option" where
  "fopen_r s d = (if s = [] then None else fget d (path_of s))"

definition can_create :: "string \<Rightarrow> fs \<Rightarrow> bool" where
  "can_create s d \<longleftrightarrow> s \<noteq> [] \<and> is_dir d (parent (path_of s)) \<and> \<not> is_dir d (path_of s)"

definition fopen_w :: "string \<Rightarrow> fs \<Rightarrow> fs option" where
  "fopen_w s d = (if can_create s d then Some (fset (path_of s) [] d) else None)"

definition fopen_a :: "string \<Rightarrow> fs \<Rightarrow> (nat \<times> fs) option" where
  "fopen_a s d =
     (if can_create s d
      then Some (flen d (path_of s), case fget d (path_of s) of None \<Rightarrow> fset (path_of s) [] d | Some _ \<Rightarrow> d)
      else None)"

text \<open>
  \<open>fwrite(data, length data, 1, fp)\<close> at the position \<open>pos\<close> of an open file: whether it returned 1,
  how many bytes went out, and the file system.  Writing no bytes returns 0.
\<close>

definition fwrite_at :: "path \<Rightarrow> nat \<Rightarrow> bytes \<Rightarrow> fs \<Rightarrow> bool \<times> nat \<times> fs" where
  "fwrite_at p pos data d =
     (case fget d p of
        None \<Rightarrow> (False, 0, d)
      | Some c \<Rightarrow>
          (let avail = length c - pos + froom d; k = min (length data) avail
           in (data \<noteq> [] \<and> k = length data, k, fset p (overwrite pos (take k data) c) d)))"

lemma fwrite_at_end:
  "fget d p = Some c \<Longrightarrow> data \<noteq> [] \<Longrightarrow> length data \<le> froom d \<Longrightarrow>
     fwrite_at p (length c) data d = (True, length data, fset p (c @ data) d)"
  by (simp add: fwrite_at_def overwrite_def)

lemma fwrite_at_full:
  "fget d p = Some c \<Longrightarrow> froom d < length data \<Longrightarrow>
     fwrite_at p (length c) data d = (False, froom d, fset p (c @ take (froom d) data) d)"
  by (simp add: fwrite_at_def overwrite_def min_def Let_def)

lemma sys_mkdir_wf: "fs_wf d \<Longrightarrow> fs_wf (snd (snd (sys_mkdir s d)))"
  by (auto simp: sys_mkdir_def fs_wf_def fs_exists_def is_dir_def fget_def)



section \<open>QDir::mkdir\<close>

definition is_sep :: "char \<Rightarrow> bool" where
  "is_sep c \<longleftrightarrow> c = CHR 0x5C \<or> c = CHR ''/''"

lemma tl_dropWhile_less: "dropWhile P xs \<noteq> [] \<Longrightarrow> length (tl (dropWhile P xs)) < length xs"
  using length_dropWhile_le [of P xs] by (cases "dropWhile P xs") auto

text \<open>
  The loop of \<open>QDir::mkdir\<close>: \<open>acc\<close> is what has been copied to \<open>dir_name\<close>, \<open>rest\<close> what \<open>ptr\<close> still
  points to.
\<close>

function mkdir_loop :: "string \<Rightarrow> string \<Rightarrow> fs \<Rightarrow> bool \<times> fs" where
  "mkdir_loop acc rest d =
     (let dir_name = acc @ takeWhile (\<lambda>c. \<not> is_sep c) rest;
          ptr = dropWhile (\<lambda>c. \<not> is_sep c) rest;
          (r, errno, d') = sys_mkdir dir_name d
      in if r \<noteq> 0 \<and> errno \<noteq> EEXIST then (False, d')
         else if ptr = [] \<or> tl ptr = [] then (True, d')
         else mkdir_loop (dir_name @ [hd ptr]) (tl ptr) d')"
  by pat_completeness auto
termination
proof (relation "measure (\<lambda>(acc, rest, d). length rest)", simp, goal_cases)
  case (1 acc rest d dir_name ptr)
  then show ?case using tl_dropWhile_less [of "\<lambda>c. \<not> is_sep c" rest] by auto
qed

declare mkdir_loop.simps [simp del]

definition dir_mkdir :: "string \<Rightarrow> fs \<Rightarrow> bool \<times> fs" where
  "dir_mkdir dirpath d =
     (if dirpath = [] \<or> 256 \<le> length dirpath then (False, d)
      else let acc = (if is_sep (hd dirpath) then [hd dirpath] else []);
               rest = (if is_sep (hd dirpath) then tl dirpath else dirpath)
           in if rest = [] then (False, d) else mkdir_loop acc rest d)"

lemma path_of_snoc:
  assumes "acc = [] \<or> last acc = CHR ''/''" and "CHR ''/'' \<notin> set t"
  shows "path_of (acc @ t) =
    (fst (path_of acc), snd (path_of acc) @ (if t = [] \<or> t = ''.'' then [] else [t]))"
proof (cases acc rule: rev_cases)
  case Nil
  with assms(2) show ?thesis by (cases t) (auto simp: path_of_def split_slash_plain)
next
  case (snoc a c)
  with assms(1) have a: "acc = a @ CHR ''/'' # []" by simp
  have "split_slash (acc @ t) = split_slash a @ [t]"
    using split_slash_append [of a t] split_slash_plain [OF assms(2)] by (simp add: a)
  moreover have "split_slash acc = split_slash a @ [[]]"
    using split_slash_append [of a "[]"] by (simp add: a)
  moreover have "hd (acc @ t) = hd acc" by (simp add: a hd_append)
  ultimately show ?thesis by (auto simp: path_of_def a)
qed

lemma path_of_slash: "acc \<noteq> [] \<Longrightarrow> path_of (acc @ [CHR ''/'']) = path_of acc"
  using path_of_append [of acc "[]"] by (simp add: path_of_def prod_eq_iff)

definition path_free :: "fs \<Rightarrow> path \<Rightarrow> bool" where
  "path_free d p \<longleftrightarrow> (\<forall>k. fget d (fst p, take k (snd p)) = None)"

lemma path_free_prefix: "path_free d (a, xs @ ys) \<Longrightarrow> path_free d (a, xs)"
  unfolding path_free_def fst_conv snd_conv
  by (metis (no_types, lifting) append_Nil2 diff_is_0_eq' le_cases take0 take_all take_append)

lemma path_free_self: "path_free d p \<Longrightarrow> fget d p = None"
  unfolding path_free_def by (metis order_refl prod.collapse take_all)

lemma sys_mkdir_step:
  assumes "fs_wf d" and "s \<noteq> []" and "is_dir d (path_of s) \<or> is_dir d (parent (path_of s))"
    and "fget d (path_of s) = None"
  shows "\<exists>r e d'. sys_mkdir s d = (r, e, d') \<and> (r = 0 \<or> e = EEXIST) \<and> fs_wf d' \<and> is_dir d' (path_of s)
    \<and> ffiles d' = ffiles d \<and> set (fdirs d) \<subseteq> set (fdirs d')"
  using assms sys_mkdir_wf [OF assms(1), of s]
  by (auto simp: sys_mkdir_def fs_exists_def is_dir_def)

lemma fget_ffiles: "ffiles d' = ffiles d \<Longrightarrow> fget d' = fget d"
  by (auto simp: fget_def)

lemma hd_dropWhile_sep:
  "CHR 0x5C \<notin> set rest \<Longrightarrow> dropWhile (\<lambda>c. \<not> is_sep c) rest = [] \<or>
     hd (dropWhile (\<lambda>c. \<not> is_sep c) rest) = CHR ''/''"
  by (induction rest) (auto simp: is_sep_def)

lemma mkdir_loop_ok:
  assumes "fs_wf d" and "rest \<noteq> []" and "CHR 0x5C \<notin> set rest"
    and "acc = [] \<or> last acc = CHR ''/''" and "acc = [] \<longrightarrow> hd rest \<noteq> CHR ''/''"
    and "is_dir d (path_of acc)" and "path_free d (path_of (acc @ rest))"
  shows "\<exists>d'. mkdir_loop acc rest d = (True, d') \<and> fs_wf d' \<and> is_dir d' (path_of (acc @ rest))
    \<and> ffiles d' = ffiles d \<and> set (fdirs d) \<subseteq> set (fdirs d')"
  using assms
proof (induction acc rest d rule: mkdir_loop.induct)
  case (1 acc rest d)
  define comp where "comp = takeWhile (\<lambda>c. \<not> is_sep c) rest"
  define ptr where "ptr = dropWhile (\<lambda>c. \<not> is_sep c) rest"
  define name where "name = acc @ comp"
  have split: "rest = comp @ ptr" by (simp add: comp_def ptr_def)
  have comp: "CHR ''/'' \<notin> set comp" by (auto dest: set_takeWhileD simp: comp_def is_sep_def)
  have ptr: "ptr = [] \<or> hd ptr = CHR ''/''"
    using hd_dropWhile_sep [OF 1(4)] by (simp add: ptr_def)
  have ne: "name \<noteq> []"
    using 1(3,6) split ptr by (auto simp: name_def)
  have pn: "path_of name =
      (fst (path_of acc), snd (path_of acc) @ (if comp = [] \<or> comp = ''.'' then [] else [comp]))"
    unfolding name_def by (rule path_of_snoc [OF 1(5) comp])
  have full: "ptr \<noteq> [] \<Longrightarrow> path_of (acc @ rest) = (fst (path_of name), snd (path_of name) @ snd (path_of (tl ptr)))"
    using path_of_append [OF ne, of "tl ptr"] ptr split by (cases ptr) (auto simp: name_def)
  have nil: "ptr = [] \<Longrightarrow> acc @ rest = name" using split by (simp add: name_def)
  have free: "path_free d (path_of name)"
    using 1(8) full nil path_free_prefix by (cases "ptr = []") (metis prod.collapse)+
  have "is_dir d (path_of name) \<or> is_dir d (parent (path_of name))"
    using 1(7) by (auto simp: pn parent_def)
  from sys_mkdir_step [OF 1(2) ne this path_free_self [OF free]]
  obtain r e d1 where m: "sys_mkdir name d = (r, e, d1)" "r = 0 \<or> e = EEXIST" "fs_wf d1"
    "is_dir d1 (path_of name)" "ffiles d1 = ffiles d" "set (fdirs d) \<subseteq> set (fdirs d1)" by auto
  have unf: "mkdir_loop acc rest d =
      (if ptr = [] \<or> tl ptr = [] then (True, d1) else mkdir_loop (name @ [hd ptr]) (tl ptr) d1)"
    using m(1,2) by (subst mkdir_loop.simps) (auto simp: Let_def name_def comp_def ptr_def)
  show ?case
  proof (cases "ptr = [] \<or> tl ptr = []")
    case True
    then have "path_of (acc @ rest) = path_of name"
      using full nil by (cases "ptr = []") (auto simp: path_of_def)
    with True m show ?thesis by (simp add: unf)
  next
    case False
    then have p: "hd ptr = CHR ''/''" "tl ptr \<noteq> []" "ptr \<noteq> []" using ptr by auto
    have j: "(name @ [hd ptr]) @ tl ptr = acc @ rest" using p(3) split by (simp add: name_def)
    have "\<exists>d'. mkdir_loop (name @ [hd ptr]) (tl ptr) d1 = (True, d') \<and> fs_wf d'
      \<and> is_dir d' (path_of ((name @ [hd ptr]) @ tl ptr)) \<and> ffiles d' = ffiles d1
      \<and> set (fdirs d1) \<subseteq> set (fdirs d')"
    proof (rule 1(1) [OF name_def [unfolded comp_def] ptr_def m(1) [symmetric] refl])
      show "\<not> (r \<noteq> 0 \<and> e \<noteq> EEXIST)" using m(2) by auto
      show "\<not> (ptr = [] \<or> tl ptr = [])" using False .
      show "CHR 0x5C \<notin> set (tl ptr)" using 1(4) p(3) split by (auto dest: list.set_sel(2))
      show "is_dir d1 (path_of (name @ [hd ptr]))" using m(4) p(1) path_of_slash [OF ne] by simp
      show "path_free d1 (path_of ((name @ [hd ptr]) @ tl ptr))"
        unfolding j using 1(8) fget_ffiles [OF m(5)] by (simp add: path_free_def)
    qed (use p m in auto)
    with m False show ?thesis unfolding j by (auto simp: unf)
  qed
qed

lemma dir_mkdir_ok:
  assumes "fs_wf d" and "length s < 256" and "s \<noteq> []" and "s \<noteq> ''/''" and "CHR 0x5C \<notin> set s"
    and "path_free d (path_of s)"
  shows "\<exists>d'. dir_mkdir s d = (True, d') \<and> fs_wf d' \<and> is_dir d' (path_of s) \<and> ffiles d' = ffiles d
    \<and> set (fdirs d) \<subseteq> set (fdirs d')"
proof (cases "hd s = CHR ''/''")
  case True
  then obtain t where t: "s = CHR ''/'' # t" "t \<noteq> []" using assms(3,4) by (cases s) auto
  have "is_dir d (path_of ''/'')" using assms(1) by (simp add: fs_wf_def path_of_def)
  with mkdir_loop_ok [of d t "''/''"] assms t show ?thesis
    by (simp add: dir_mkdir_def is_sep_def)
next
  case False
  moreover have "\<not> is_sep (hd s)" using False assms(3,5) by (cases s) (auto simp: is_sep_def)
  moreover have "is_dir d (path_of [])" using assms(1) by (simp add: fs_wf_def path_of_def)
  ultimately show ?thesis
    using mkdir_loop_ok [of d s "[]"] assms by (simp add: dir_mkdir_def)
qed



section \<open>QFile\<close>

text \<open>\<open>std::string::find_last_of\<close> of one character; \<open>None\<close> is \<open>npos\<close>.\<close>

fun find_last_of :: "char \<Rightarrow> string \<Rightarrow> nat option" where
  "find_last_of c [] = None"
| "find_last_of c (x # xs) =
     (case find_last_of c xs of Some i \<Rightarrow> Some (Suc i) | None \<Rightarrow> if x = c then Some 0 else None)"

definition last_pos :: "string \<Rightarrow> nat" where
  "last_pos s = (case find_last_of CHR ''/'' s of Some i \<Rightarrow> i + 1 | None \<Rightarrow> 0)"

definition file_name :: "string \<Rightarrow> string" where
  "file_name s = drop (last_pos s) s"

definition file_path :: "string \<Rightarrow> string" where
  "file_path s = take (last_pos s) s"

text \<open>
  A dot in a directory part makes the count \<open>pos2 - pos1 + 1\<close> negative; as a \<open>size_t\<close> it is huge
  and \<open>substr\<close> returns the rest of the string.
\<close>

definition baseName :: "string \<Rightarrow> string" where
  "baseName s =
     (let pos1 = last_pos s;
          pos2 = (case find_last_of CHR ''.'' s of Some i \<Rightarrow> int i - 1 | None \<Rightarrow> int (length s));
          count = pos2 - int pos1 + 1
      in if count < 0 then drop pos1 s else take (nat count) (drop pos1 s))"

definition suffix :: "string \<Rightarrow> string" where
  "suffix s = (case find_last_of CHR ''.'' s of Some i \<Rightarrow> drop (i + 1) s | None \<Rightarrow> [])"

definition qfile_exists :: "string \<Rightarrow> fs \<Rightarrow> bool" where
  "qfile_exists s d \<longleftrightarrow> sys_access s d = 0"

text \<open>
  \<open>QFile::remove\<close> retries a failing \<open>remove\<close> for ever.  The file system does not change meanwhile,
  so one failure means that the call does not return: \<open>None\<close>.
\<close>

definition qfile_remove :: "string \<Rightarrow> fs \<Rightarrow> fs option" where
  "qfile_remove s d =
     (if qfile_exists s d
      then (case sys_remove s d of (r, d') \<Rightarrow> if r \<noteq> 0 then None else Some d')
      else Some d)"

definition qfile_rename :: "string \<Rightarrow> string \<Rightarrow> fs \<Rightarrow> (bool \<times> fs) option" where
  "qfile_rename old new d =
     (if \<not> qfile_exists old d then Some (False, d)
      else case qfile_remove new d of
        None \<Rightarrow> None
      | Some d1 \<Rightarrow>
          if qfile_exists old d1 \<and> \<not> qfile_exists new d1
          then (case sys_rename old new d1 of (r, d2) \<Rightarrow> if r \<noteq> 0 then None else Some (True, d2))
          else Some (True, d1))"

definition qfile_size :: "string \<Rightarrow> fs \<Rightarrow> int" where
  "qfile_size s d =
     (if \<not> qfile_exists s d then -1
      else case sys_stat_size s d of None \<Rightarrow> 0 | Some n \<Rightarrow> int n)"

text \<open>
  The loop of \<open>QFile::copy\<close>: blocks of 1024 bytes until \<open>iNowLen\<close> reaches \<open>iFileSize\<close>, an \<open>int32_t\<close>
  into which the 64-bit size was cut.
\<close>

function copy_loop :: "path \<Rightarrow> path \<Rightarrow> int \<Rightarrow> nat \<Rightarrow> fs \<Rightarrow> bool \<times> fs" where
  "copy_loop p q iFileSize iNowLen d =
     (if int iNowLen < iFileSize
      then let buffer = sub_buf iNowLen 1024 (case fget d p of None \<Rightarrow> [] | Some c \<Rightarrow> c)
           in if buffer = [] then (False, d)
              else case fwrite_at q iNowLen buffer d of (ok, k, d') \<Rightarrow>
                if \<not> ok then (False, d') else copy_loop p q iFileSize (iNowLen + length buffer) d'
      else (True, d))"
  by pat_completeness auto
termination
  by (relation "measure (\<lambda>(p, q, n, k, d). nat (n - int k))") (auto simp: sub_buf_def)

declare copy_loop.simps [simp del]

definition qfile_copy :: "string \<Rightarrow> string \<Rightarrow> fs \<Rightarrow> bool \<times> fs" where
  "qfile_copy s t d =
     (case fopen_r s d of
        None \<Rightarrow> (False, d)
      | Some _ \<Rightarrow>
          (case fopen_w t d of
             None \<Rightarrow> (False, d)
           | Some d1 \<Rightarrow>
               copy_loop (path_of s) (path_of t) (sint (word_of_int (qfile_size s d1) :: 32 word)) 0 d1))"

definition starts_with :: "string \<Rightarrow> string \<Rightarrow> bool" where
  "starts_with s pre \<longleftrightarrow> take (length pre) s = pre"

definition hasdir :: "string \<Rightarrow> bool" where
  "hasdir s \<longleftrightarrow> starts_with s ''/'' \<or> starts_with s ''./'' \<or> starts_with s ''../''"

text \<open>\<open>readAll()\<close>: \<open>s = data\<close> stops at the first zero byte; reading an empty file fails.\<close>

definition qfile_readAll :: "string \<Rightarrow> fs \<Rightarrow> bytes" where
  "qfile_readAll s d =
     (case fopen_r s d of
        None \<Rightarrow> []
      | Some c \<Rightarrow> if c = [] then [] else takeWhile (\<lambda>b. b \<noteq> 0) c)"

lemma find_last_of_le: "find_last_of c s = Some i \<Longrightarrow> i < length s"
  by (induction s arbitrary: i) (auto split: option.splits if_splits)

lemma last_pos_le: "last_pos s \<le> length s"
  by (auto simp: last_pos_def dest: find_last_of_le split: option.splits)

lemma find_last_of_None: "find_last_of c s = None \<longleftrightarrow> c \<notin> set s"
  by (induction s) (auto split: option.splits)

lemma find_last_of_append:
  "c \<notin> set t \<Longrightarrow> find_last_of c (s @ c # t) = Some (length s)"
  by (induction s) (auto simp: find_last_of_None [THEN iffD2])

lemma fget_after_w: "fopen_w t d = Some d1 \<Longrightarrow> fget d1 q = (if q = path_of t then Some [] else fget d q)"
  by (auto simp: fopen_w_def split: if_splits)

lemma copy_loop_ok:
  assumes "p \<noteq> q" and "fget d p = Some c" and "fget d q = Some (take k c)" and "k \<le> length c"
    and "length c - k \<le> froom d" and "n = int (length c)"
  shows "\<exists>d'. copy_loop p q n k d = (True, d') \<and> fget d' q = Some c
    \<and> (\<forall>r. r \<noteq> q \<longrightarrow> fget d' r = fget d r)"
  using assms
proof (induction "length c - k" arbitrary: k d rule: less_induct)
  case less
  show ?case
  proof (cases "k < length c")
    case False
    then have "k = length c" using less.prems by simp
    then show ?thesis using less.prems by (subst copy_loop.simps) auto
  next
    case True
    define b where "b = sub_buf k 1024 c"
    have b: "b \<noteq> []" "length b \<le> length c - k" "take k c @ b = take (k + length b) c"
    proof -
      have "length b = min 1024 (length c - k)" by (simp add: b_def)
      then show "b \<noteq> []" "length b \<le> length c - k" using True by (auto simp: min_def split: if_splits)
      show "take k c @ b = take (k + length b) c"
        using \<open>length b = min 1024 (length c - k)\<close> by (simp add: b_def sub_buf_def take_add min_def)
    qed
    let ?d = "fset q (take (k + length b) c) d"
    have w: "fwrite_at q k b d = (True, length b, ?d)"
      using fwrite_at_end [OF less.prems(3) b(1)] b(2,3) less.prems(4,5) True by simp
    have "\<exists>d'. copy_loop p q n (k + length b) ?d = (True, d') \<and> fget d' q = Some c
        \<and> (\<forall>r. r \<noteq> q \<longrightarrow> fget d' r = fget ?d r)"
    proof (rule less.hyps)
      show "length c - (k + length b) < length c - k" using b(1,2) True by (cases b) auto
      show "length c - (k + length b) \<le> froom ?d"
        using less.prems b(2) True by (simp add: fset_def flen_def)
    qed (use less.prems b(2) True in auto)
    with w b(1) True less.prems show ?thesis
      by (subst copy_loop.simps) (auto simp: b_def)
  qed
qed



section \<open>Repair of a spool file\<close>

text \<open>
  The inner loop of \<open>q_repair_file\<close>: compare the mark at the positions \<open>base\<close>, \<open>base - 1\<close>, \<open>\<dots>\<close>;
  the result is how often \<open>cur_pos\<close> was decremented before the mark was found, or \<open>None\<close> after
  \<open>loop_num\<close> failures.
\<close>

fun find_back :: "bytes \<Rightarrow> bytes \<Rightarrow> nat \<Rightarrow> nat \<Rightarrow> nat option" where
  "find_back buf flag 0 i = None"
| "find_back buf flag (Suc left) i =
     (if sub_buf left (length flag) buf = flag then Some i else find_back buf flag left (Suc i))"

text \<open>
  The outer loop reads blocks of \<open>1 << 20\<close> bytes from the end; \<open>file_len\<close> is the start of the part
  already searched.  The result is the length the file is cut to.
\<close>

function repair_loop :: "bytes \<Rightarrow> bytes \<Rightarrow> nat \<Rightarrow> nat" where
  "repair_loop content flag file_len =
     (let read_len = min 1048576 file_len; file_len' = file_len - read_len;
          read_buf = sub_buf file_len' read_len content
      in if read_len < length flag then 0
         else case find_back read_buf flag (read_len - length flag + 1) 0 of
           Some i \<Rightarrow> file_len' + read_len - i
         | None \<Rightarrow> if file_len' \<le> 0 then 0 else repair_loop content flag file_len')"
  by pat_completeness auto
termination
  by (relation "measure (\<lambda>(content, flag, file_len). file_len)") auto

declare repair_loop.simps [simp del]

definition q_repair_file :: "string \<Rightarrow> bytes \<Rightarrow> fs \<Rightarrow> int \<times> fs" where
  "q_repair_file file end_flag d =
     (if sys_access file d \<noteq> 0 then (-1, d)
      else case sys_stat_size file d of
        None \<Rightarrow> (-1, d)
      | Some file_len \<Rightarrow>
          if file_len = 0 then (0, d)
          else case fopen_r file d of
            None \<Rightarrow> (-1, d)
          | Some content \<Rightarrow>
              (0, fset (path_of file) (take (repair_loop content end_flag file_len) content) d))"

text \<open>The end of the last complete mark, 0 when there is none.\<close>

definition last_mark :: "bytes \<Rightarrow> bytes \<Rightarrow> nat" where
  "last_mark flag content =
     Max (insert 0 {e. length flag \<le> e \<and> e \<le> length content \<and> sub_buf (e - length flag) (length flag) content = flag})"

lemma find_back_SomeD:
  "find_back buf flag n i = Some k \<Longrightarrow>
     i \<le> k \<and> k - i < n \<and> sub_buf (n - 1 - (k - i)) (length flag) buf = flag
     \<and> (\<forall>j. n - 1 - (k - i) < j \<longrightarrow> j < n \<longrightarrow> sub_buf j (length flag) buf \<noteq> flag)"
proof (induction n arbitrary: i)
  case (Suc n)
  show ?case
  proof (cases "sub_buf n (length flag) buf = flag")
    case False
    with Suc.prems have "find_back buf flag n (Suc i) = Some k" by simp
    note IH = Suc.IH [OF this]
    then have "n - 1 - (k - Suc i) = Suc n - 1 - (k - i)" by auto
    with IH False show ?thesis by (auto simp: less_Suc_eq)
  qed (use Suc in auto)
qed simp

lemma find_back_None:
  "find_back buf flag n i = None \<Longrightarrow> j < n \<Longrightarrow> sub_buf j (length flag) buf \<noteq> flag"
  by (induction n arbitrary: i) (auto split: if_splits simp: less_Suc_eq)

lemma sub_buf_sub_buf: "a + k \<le> n \<Longrightarrow> sub_buf a k (sub_buf off n xs) = sub_buf (off + a) k xs"
  by (simp add: sub_buf_def drop_take min_def add.commute)

lemma last_mark_eqI:
  assumes "length flag \<le> e" "e \<le> length content" "sub_buf (e - length flag) (length flag) content = flag"
    and "\<And>f. e < f \<Longrightarrow> f \<le> length content \<Longrightarrow> sub_buf (f - length flag) (length flag) content \<noteq> flag"
  shows "last_mark flag content = e"
  unfolding last_mark_def
proof (rule Max_eqI)
  show "finite (insert 0 {e. length flag \<le> e \<and> e \<le> length content
      \<and> sub_buf (e - length flag) (length flag) content = flag})"
    by (rule finite_subset [of _ "{..length content}"]) auto
qed (use assms in \<open>auto simp: not_le [symmetric]\<close>)

lemma last_mark_0I:
  assumes "\<And>f. length flag \<le> f \<Longrightarrow> f \<le> length content \<Longrightarrow> sub_buf (f - length flag) (length flag) content \<noteq> flag"
  shows "last_mark flag content = 0"
proof -
  have "{e. length flag \<le> e \<and> e \<le> length content
      \<and> sub_buf (e - length flag) (length flag) content = flag} = {}" using assms by auto
  then show ?thesis unfolding last_mark_def by (metis Max_singleton)
qed

text \<open>In a file of at most one block the search is exhaustive.\<close>

lemma repair_loop_small:
  assumes "0 < length flag" and "content \<noteq> []" and "length content \<le> 1048576"
  shows "repair_loop content flag (length content) = last_mark flag content"
proof -
  let ?n = "length content" and ?k = "length flag"
  have buf: "sub_buf 0 ?n content = content" by simp
  have u: "repair_loop content flag ?n = (if ?n < ?k then 0 else
      case find_back content flag (?n - ?k + 1) 0 of Some i \<Rightarrow> ?n - i | None \<Rightarrow> 0)"
    using assms by (subst repair_loop.simps) (simp add: Let_def min_def buf split: option.split)
  show ?thesis
  proof (cases "?n < ?k")
    case True
    then show ?thesis unfolding u by (subst last_mark_0I) auto
  next
    case False
    show ?thesis
    proof (cases "find_back content flag (?n - ?k + 1) 0")
      case None
      then have "sub_buf (f - ?k) ?k content \<noteq> flag" if "?k \<le> f" "f \<le> ?n" for f
        using find_back_None [OF None, of "f - ?k"] that by simp
      then show ?thesis unfolding u using False None by (subst last_mark_0I) auto
    next
      case (Some i)
      from find_back_SomeD [OF Some] have i: "i \<le> ?n - ?k" "sub_buf (?n - ?k - i) ?k content = flag"
        "\<forall>j. ?n - ?k - i < j \<longrightarrow> j \<le> ?n - ?k \<longrightarrow> sub_buf j ?k content \<noteq> flag" by auto
      have "last_mark flag content = ?n - i"
      proof (rule last_mark_eqI)
        fix f assume "?n - i < f" "f \<le> ?n"
        then show "sub_buf (f - ?k) ?k content \<noteq> flag" using i(1) i(3) [rule_format, of "f - ?k"] False by simp
      qed (use i False in \<open>auto simp: diff_diff_left add.commute\<close>)
      then show ?thesis unfolding u using False Some by simp
    qed
  qed
qed


lemma repair_loop_two_blocks:
  assumes len: "length content = 1048576 + k" and k: "0 < k" "k < length flag" "length flag \<le> 1048576"
    and no: "\<And>j. k \<le> j \<Longrightarrow> j + length flag \<le> length content \<Longrightarrow> sub_buf j (length flag) content \<noteq> flag"
  shows "repair_loop content flag (length content) = 0"
proof -
  let ?b = "sub_buf k 1048576 content" and ?n = "1048576 - length flag + 1"
  have "find_back ?b flag ?n 0 = None"
  proof (rule ccontr)
    assume "find_back ?b flag ?n 0 \<noteq> None"
    then obtain i where Some: "find_back ?b flag ?n 0 = Some i" by blast
    from find_back_SomeD [OF Some] have i: "i \<le> 1048576 - length flag"
      "sub_buf (1048576 - length flag - i) (length flag) ?b = flag" by auto
    then have "sub_buf (k + (1048576 - length flag - i)) (length flag) content = flag"
      using k(3) by (subst (asm) sub_buf_sub_buf) auto
    moreover have "k + (1048576 - length flag - i) + length flag \<le> length content"
      using len k(3) i(1) by linarith
    ultimately show False using no [of "k + (1048576 - length flag - i)"] by simp
  qed
  moreover have "repair_loop content flag k = 0" using k(2) by (subst repair_loop.simps) (simp add: Let_def min.strict_coboundedI2)
  ultimately show ?thesis
    using len k by (subst repair_loop.simps) (simp add: Let_def min_def del: find_back.simps)
qed


section \<open>Replacing a file\<close>

text \<open>
  \<open>q_swap_file\<close>, \<open>q_recovery_file\<close> and \<open>q_clear_file\<close>.  The retry loops of \<open>q_swap_file\<close> do not end
  once a call has failed (\<open>None\<close>); \<open>bak_file\<close> is the name with \<open>.recovery\<close> appended.
\<close>

definition bak_file :: "string \<Rightarrow> string" where
  "bak_file org = org @ ''.recovery''"

definition wait_remove :: "string \<Rightarrow> fs \<Rightarrow> fs option" where
  "wait_remove f d =
     (if sys_access f d = 0
      then (case sys_remove f d of (r, d') \<Rightarrow> if r \<noteq> 0 then None else Some d') else Some d)"

definition wait_rename :: "string \<Rightarrow> string \<Rightarrow> fs \<Rightarrow> fs option" where
  "wait_rename f g d =
     (if sys_access f d = 0
      then (case sys_rename f g d of (r, d') \<Rightarrow> if r \<noteq> 0 then None else Some d') else Some d)"

text \<open>The three steps of \<open>q_swap_file\<close>, and the state after the first \<open>k\<close> of them.\<close>

definition swap_steps :: "string \<Rightarrow> string \<Rightarrow> (fs \<Rightarrow> fs option) list" where
  "swap_steps new org = [wait_remove (bak_file org), wait_rename org (bak_file org), wait_rename new org]"

fun run_steps :: "(fs \<Rightarrow> fs option) list \<Rightarrow> fs \<Rightarrow> fs option" where
  "run_steps [] d = Some d"
| "run_steps (f # fs) d = (case f d of None \<Rightarrow> None | Some d' \<Rightarrow> run_steps fs d')"

definition q_swap_file :: "string \<Rightarrow> string \<Rightarrow> fs \<Rightarrow> (int \<times> fs) option" where
  "q_swap_file new org d = map_option (\<lambda>d'. (0, d')) (run_steps (swap_steps new org) d)"

definition q_recovery_file :: "string \<Rightarrow> fs \<Rightarrow> int \<times> fs" where
  "q_recovery_file org d =
     (if sys_access org d = 0 then (0, d)
      else if sys_access (bak_file org) d \<noteq> 0 then (0, d)
      else case sys_rename (bak_file org) org d of (r, d') \<Rightarrow> if r \<noteq> 0 then (-1, d') else (0, d'))"

definition q_clear_file :: "string \<Rightarrow> fs \<Rightarrow> int \<times> fs" where
  "q_clear_file org d =
     (let (r, d1) = (if sys_access (bak_file org) d = 0 then sys_remove (bak_file org) d else (0, d))
      in if r \<noteq> 0 then (-1, d1)
         else let (r', d2) = (if sys_access org d1 = 0 then sys_remove org d1 else (0, d1))
              in if r' \<noteq> 0 then (-1, d2) else (0, d2))"

text \<open>
  The situation in which a swap is started: three distinct names in existing directories, none of
  them a directory, the old and the new file present.
\<close>

definition swap_ready :: "string \<Rightarrow> string \<Rightarrow> bytes \<Rightarrow> bytes \<Rightarrow> fs \<Rightarrow> bool" where
  "swap_ready new org n c d \<longleftrightarrow>
     distinct [path_of new, path_of org, path_of (bak_file org)]
     \<and> list_all (\<lambda>s. s \<noteq> [] \<and> can_create s d) [new, org, bak_file org]
     \<and> fget d (path_of new) = Some n \<and> fget d (path_of org) = Some c"

lemma sys_access_file: "s \<noteq> [] \<Longrightarrow> \<not> is_dir d (path_of s) \<Longrightarrow> sys_access s d = (if fget d (path_of s) = None then -1 else 0)"
  by (simp add: sys_access_def fs_exists_def)

lemma fget_fset_upd: "fget (fset p c d) = (fget d)(p := Some c)"
  by (rule ext) simp

lemma fget_fdel_upd: "fget (fdel p d) = (fget d)(p := None)"
  by (rule ext) simp

lemma fdirs_fset [simp]: "fdirs (fset p c d) = fdirs d" and fdirs_fdel [simp]: "fdirs (fdel p d) = fdirs d"
  by (simp_all add: fset_def fdel_def)

lemma wait_remove_file:
  "s \<noteq> [] \<Longrightarrow> \<not> is_dir d (path_of s) \<Longrightarrow> \<exists>d'. wait_remove s d = Some d' \<and> fdirs d' = fdirs d
     \<and> fget d' = (fget d)(path_of s := None)"
  by (auto simp: wait_remove_def sys_access_file sys_remove_def fs_exists_def Let_def fget_fdel_upd)

lemma rename_file:
  assumes "s \<noteq> []" "can_create t d" "fget d (path_of s) = Some c" "path_of s \<noteq> path_of t"
  shows "\<exists>d'. sys_rename s t d = (0, d') \<and> fdirs d' = fdirs d
    \<and> fget d' = (fget d)(path_of s := None, path_of t := Some c)"
  using assms by (auto simp: sys_rename_def can_create_def Let_def fget_fset_upd fget_fdel_upd)

lemma wait_rename_file:
  assumes "s \<noteq> []" "\<not> is_dir d (path_of s)" "can_create t d" "fget d (path_of s) = Some c" "path_of s \<noteq> path_of t"
  shows "\<exists>d'. wait_rename s t d = Some d' \<and> fdirs d' = fdirs d
    \<and> fget d' = (fget d)(path_of s := None, path_of t := Some c)"
  using rename_file [OF assms(1,3,4,5)] assms by (auto simp: wait_rename_def sys_access_file)

lemma can_create_dirs: "fdirs d' = fdirs d \<Longrightarrow> can_create s d' = can_create s d"
  by (simp add: can_create_def is_dir_def)

lemma is_dir_dirs: "fdirs d' = fdirs d \<Longrightarrow> is_dir d' p = is_dir d p"
  by (simp add: is_dir_def)

lemma swap_states:
  assumes "swap_ready new org n c d"
  shows "\<exists>d1 d2 d3. run_steps (take 1 (swap_steps new org)) d = Some d1
    \<and> run_steps (take 2 (swap_steps new org)) d = Some d2
    \<and> run_steps (swap_steps new org) d = Some d3
    \<and> fdirs d1 = fdirs d \<and> fdirs d2 = fdirs d \<and> fdirs d3 = fdirs d
    \<and> fget d1 (path_of org) = Some c
    \<and> fget d2 (path_of org) = None \<and> fget d2 (path_of (bak_file org)) = Some c
    \<and> fget d3 (path_of org) = Some n \<and> fget d3 (path_of (bak_file org)) = Some c
    \<and> fget d3 (path_of new) = None"
proof -
  let ?b = "bak_file org"
  note r = assms [unfolded swap_ready_def]
  have ne: "new \<noteq> []" "org \<noteq> []" "?b \<noteq> []" "\<not> is_dir d (path_of new)" "\<not> is_dir d (path_of org)"
    "\<not> is_dir d (path_of ?b)" "can_create ?b d" "can_create org d"
    using r by (auto simp: can_create_def)
  obtain d1 where d1: "wait_remove ?b d = Some d1" "fdirs d1 = fdirs d"
    "fget d1 = (fget d)(path_of ?b := None)"
    using wait_remove_file [OF ne(3,6)] by auto
  obtain d2 where d2: "wait_rename org ?b d1 = Some d2" "fdirs d2 = fdirs d1"
    "fget d2 = (fget d1)(path_of org := None, path_of ?b := Some c)"
  proof -
    have "can_create ?b d1" "\<not> is_dir d1 (path_of org)" "fget d1 (path_of org) = Some c" "path_of org \<noteq> path_of ?b"
      using ne r d1(3) can_create_dirs [OF d1(2)] is_dir_dirs [OF d1(2)] by simp_all
    then show thesis using wait_rename_file [of org d1 ?b c] ne(2) that by blast
  qed
  obtain d3 where d3: "wait_rename new org d2 = Some d3" "fdirs d3 = fdirs d2"
    "fget d3 = (fget d2)(path_of new := None, path_of org := Some n)"
  proof -
    have "can_create org d2" "\<not> is_dir d2 (path_of new)" "fget d2 (path_of new) = Some n" "path_of new \<noteq> path_of org"
      using ne r d1(2,3) d2(2,3) can_create_dirs [of d2 d] is_dir_dirs [of d2 d] by simp_all
    then show thesis using wait_rename_file [of new d2 org n] ne(1) that by blast
  qed
  show ?thesis
    by (rule exI [of _ d1], rule exI [of _ d2], rule exI [of _ d3])
      (use d1 d2 d3 r in \<open>simp add: swap_steps_def numeral_2_eq_2, metis\<close>)
qed


lemma recovery_present: "s \<noteq> [] \<Longrightarrow> fget d (path_of s) \<noteq> None \<Longrightarrow> q_recovery_file s d = (0, d)"
  by (simp add: q_recovery_file_def sys_access_def fs_exists_def)

lemma recovery_from_bak:
  assumes "can_create s d" and "fget d (path_of s) = None" and "bak_file s \<noteq> []"
    and "fget d (path_of (bak_file s)) = Some c" and "path_of (bak_file s) \<noteq> path_of s"
  shows "\<exists>d'. q_recovery_file s d = (0, d') \<and> fget d' (path_of s) = Some c"
proof -
  have "sys_access s d = -1" "sys_access (bak_file s) d = 0"
    using assms by (auto simp: sys_access_def fs_exists_def can_create_def)
  with rename_file [OF assms(3,1,4,5)] show ?thesis by (auto simp: q_recovery_file_def)
qed


section \<open>Properties\<close>


definition empty_fs :: "nat \<Rightarrow> fs" where
  "empty_fs room = \<lparr>fdirs = [(True, []), (False, [])], ffiles = [], froom = room\<rparr>"

lemma empty_fs_wf: "fs_wf (empty_fs room)"
  by (auto simp: fs_wf_def empty_fs_def is_dir_def fs_exists_def fget_def parent_def)


text \<open>\<open>QFile::copy\<close> to another path copies the file byte for byte, in blocks of 1024 bytes, when
  the target can be created, the disk has room and the file is shorter than 2 GB; every other
  file keeps its contents.\<close>

theorem qfile_copy_exact:
  assumes "fopen_r s d = Some c" and "can_create t d" and "path_of s \<noteq> path_of t"
    and "length c < 2 ^ 31" and "length c \<le> froom d"
  shows "\<exists>d'. qfile_copy s t d = (True, d') \<and> fopen_r t d' = Some c
    \<and> (\<forall>q. q \<noteq> path_of t \<longrightarrow> fget d' q = fget d q)"
proof -
  let ?d1 = "fset (path_of t) [] d"
  have g: "s \<noteq> []" "fget d (path_of s) = Some c" using assms(1) by (auto simp: fopen_r_def split: if_splits)
  have "qfile_size s ?d1 = int (length c)"
    using g assms(3) by (simp add: qfile_size_def qfile_exists_def sys_access_def fs_exists_def
        sys_stat_size_def flen_def)
  moreover have "sint (word_of_int (int (length c)) :: 32 word) = int (length c)"
    using sint_int32 [of "int (length c)"] assms(4) by (simp add: is_int32_def int32_def)
  moreover have "\<exists>d'. copy_loop (path_of s) (path_of t) (int (length c)) 0 ?d1 = (True, d')
      \<and> fget d' (path_of t) = Some c \<and> (\<forall>r. r \<noteq> path_of t \<longrightarrow> fget d' r = fget ?d1 r)"
    using assms(3,5) g by (intro copy_loop_ok) (auto simp: fset_def fget_def update_conv')
  ultimately show ?thesis
    using assms(1,2) by (auto simp: qfile_copy_def fopen_w_def fopen_r_def can_create_def)
qed

theorem qfile_copy_exact_witness:
  "\<exists>d'. qfile_copy ''a'' ''b'' (fset (False, [''a'']) [1, 2, 3] (empty_fs 10)) = (True, d')
    \<and> fopen_r ''b'' d' = Some [1, 2, 3]"
proof -
  have p: "path_of ''a'' = (False, [''a''])" "path_of ''b'' = (False, [''b''])" by code_simp+
  show ?thesis
    using qfile_copy_exact [of "''a''" "fset (False, [''a'']) [1, 2, 3] (empty_fs 10)" "[1, 2, 3]" "''b''"]
    by (auto simp: p fopen_r_def can_create_def parent_def is_dir_def empty_fs_def fset_def flen_def fget_def)
qed

text \<open>on a file of at most \<open>1 << 20\<close> bytes \<open>q_repair_file\<close> cuts everything behind the last
  complete mark, and cuts the file to nothing when it holds no mark.\<close>

theorem q_repair_file_small:
  assumes "fopen_r file d = Some content" and "0 < length flag" and "length content \<le> 1048576"
  shows "\<exists>d'. q_repair_file file flag d = (0, d')
    \<and> fopen_r file d' = Some (take (last_mark flag content) content)"
proof -
  have g: "file \<noteq> []" "fget d (path_of file) = Some content"
    using assms(1) by (auto simp: fopen_r_def split: if_splits)
  then have a: "sys_access file d = 0" "sys_stat_size file d = Some (length content)"
    by (auto simp: sys_access_def fs_exists_def sys_stat_size_def flen_def)
  show ?thesis
  proof (cases "content = []")
    case True
    then show ?thesis using a assms(1) by (simp add: q_repair_file_def)
  next
    case False
    then show ?thesis
      using a g assms(1) repair_loop_small [OF assms(2) False assms(3)]
      by (auto simp: q_repair_file_def fopen_r_def)
  qed
qed

theorem q_repair_file_small_witness:
  "\<exists>d'. q_repair_file ''f'' [64, 35] (fset (False, [''f'']) [1, 64, 35, 2, 64, 35, 7, 64] (empty_fs 10)) = (0, d')
    \<and> fopen_r ''f'' d' = Some [1, 64, 35, 2, 64, 35]"
proof -
  have p: "path_of ''f'' = (False, [''f''])" by code_simp
  have "last_mark [64, 35] [1, 64, 35, 2, 64, 35, 7, 64 :: byte] = 6"
  proof (rule last_mark_eqI)
    fix f assume "6 < f" "f \<le> length [1, 64, 35, 2, 64, 35, 7, 64 :: byte]"
    then have "f = 7 \<or> f = 8" by auto
    then show "sub_buf (f - length [64, 35 :: byte]) (length [64, 35 :: byte])
        [1, 64, 35, 2, 64, 35, 7, 64 :: byte] \<noteq> [64, 35]"
      by (auto simp: sub_buf_def)
  qed (simp_all add: sub_buf_def)
  then show ?thesis
    using q_repair_file_small [of "''f''" "fset (False, [''f'']) [1, 64, 35, 2, 64, 35, 7, 64] (empty_fs 10)"
        "[1, 64, 35, 2, 64, 35, 7, 64]" "[64, 35]"]
    by (simp add: p fopen_r_def)
qed


text \<open>a mark that straddles a block boundary is missed: when the only complete mark of a file
  starts at its first byte and the file is longer than one block by fewer bytes than the mark has,
  \<open>q_repair_file\<close> empties the file although the record in front of the mark was complete.\<close>

theorem q_repair_file_straddle:
  assumes "fopen_r file d = Some content" and "length content = 1048576 + k" and "0 < k" and "k < length flag"
    and "length flag \<le> 1048576" and "take (length flag) content = flag"
    and "\<forall>j. k \<le> j \<and> j + length flag \<le> length content \<longrightarrow> sub_buf j (length flag) content \<noteq> flag"
  shows "\<exists>d'. q_repair_file file flag d = (0, d') \<and> fopen_r file d' = Some []
    \<and> length flag \<le> last_mark flag content"
proof -
  have g: "file \<noteq> []" "fget d (path_of file) = Some content"
    using assms(1) by (auto simp: fopen_r_def split: if_splits)
  then have a: "sys_access file d = 0" "sys_stat_size file d = Some (length content)"
    by (auto simp: sys_access_def fs_exists_def sys_stat_size_def flen_def)
  have "repair_loop content flag (length content) = 0"
    using assms by (intro repair_loop_two_blocks) auto
  moreover have "length flag \<le> last_mark flag content"
    unfolding last_mark_def
  proof (rule Max_ge)
    show "finite (insert 0 {e. length flag \<le> e \<and> e \<le> length content
        \<and> sub_buf (e - length flag) (length flag) content = flag})"
      by (rule finite_subset [of _ "{..length content}"]) auto
  qed (use assms(2,5,6) in \<open>simp add: sub_buf_def\<close>)
  ultimately show ?thesis using a g assms(1,2) by (auto simp: q_repair_file_def fopen_r_def)
qed

theorem q_repair_file_straddle_witness:
  "\<exists>d'. q_repair_file ''f'' [64, 35] (fset (False, [''f'']) ([64, 35] @ replicate 1048575 0) (empty_fs 10)) = (0, d')
    \<and> fopen_r ''f'' d' = Some []"
proof -
  have p: "path_of ''f'' = (False, [''f''])" by code_simp
  have "sub_buf j (length [64, 35 :: byte]) ([64, 35] @ replicate n (0 :: byte)) \<noteq> [64, 35]" if pos: "1 \<le> j" for j n
  proof
    assume a: "sub_buf j (length [64, 35 :: byte]) ([64, 35] @ replicate n (0 :: byte)) = [64, 35]"
    obtain i where j: "j = Suc i" using pos by (cases j) auto
    have "hd (sub_buf j (length [64, 35 :: byte]) ([64, 35] @ replicate n (0 :: byte))) = 64" by (simp only: a list.sel)
    moreover have "i < Suc n" using arg_cong [OF a, of length] by (auto simp: j)
    ultimately have "([35] @ replicate n (0 :: byte)) ! i = 64"
      by (simp add: sub_buf_def j hd_drop_conv_nth)
    moreover have "([35] @ replicate n (0 :: byte)) ! i \<in> {35, 0}"
      using nth_mem [of i "[35] @ replicate n (0 :: byte)"] \<open>i < Suc n\<close> by (auto split: if_splits)
    ultimately show False by auto
  qed
  then show ?thesis
    using q_repair_file_straddle [of "''f''" "fset (False, [''f'']) ([64, 35] @ replicate 1048575 0) (empty_fs 10)"
        "[64, 35] @ replicate 1048575 0" 1 "[64, 35]"]
    by (auto simp: p fopen_r_def)
qed



end
