(* ===== verification/Text_Util.thy ===== *)
theory Text_Util
  imports Idfs_Prelude
begin

text \<open>
  The text functions of \<open>qfunc.h\<close> that the server itself calls: C strings, formatting into a buffer, \<open>q_format\<close>,
  \<open>q_to_string\<close>, \<open>std::string::find\<close> and \<open>q_substr\<close>.  \<open>std::string\<close> and sized \<open>char\<close> buffers
  are char lists; \<open>npos\<close> is \<open>None\<close>.
\<close>

section \<open>C strings and formatting\<close>

text \<open>The text that \<open>%s\<close> prints for a \<open>std::string\<close> given through \<open>c_str()\<close>.\<close>

definition cstr :: "string \<Rightarrow> string" where
  "cstr s = takeWhile (\<lambda>c. c \<noteq> CHR 0x00) s"

lemma cstr_id: "CHR 0x00 \<notin> set s \<Longrightarrow> cstr s = s"
  by (auto simp: cstr_def takeWhile_eq_all_conv)

lemma cstr_append: "CHR 0x00 \<notin> set s \<Longrightarrow> cstr (s @ t) = s @ cstr t"
  by (simp add: cstr_def takeWhile_append)

text \<open>
  \<open>snprintf\<close> of a text at the position \<open>pos\<close> of a buffer, with the rest of the buffer as its size:
  as much as fits and a terminating zero byte.
\<close>

definition snprintf_at :: "nat \<Rightarrow> string \<Rightarrow> bytes \<Rightarrow> bytes" where
  "snprintf_at pos t buf =
     (if length buf \<le> pos then buf
      else overwrite pos (take (length buf - pos - 1) (bytes_of t) @ [0]) buf)"

lemma length_snprintf_at [simp]: "length (snprintf_at pos t buf) = length buf"
  by (simp add: snprintf_at_def)

lemma snprintf_at_fits:
  "pos + length t < length buf \<Longrightarrow>
     take (pos + length t) (snprintf_at pos t buf) = take pos buf @ bytes_of t"
  by (simp add: snprintf_at_def overwrite_def)

text \<open>\<open>q_to_string(uint64_t)\<close>.\<close>

definition q_to_string :: "64 word \<Rightarrow> string" where
  "q_to_string n = dec_nat (unat n)"

text \<open>
  \<open>q_format\<close>, given the text that the format and its arguments produce.  When it does not fit into
  the 1024-byte buffer, the second \<open>vsnprintf\<close> writes into fresh memory but is again limited to
  \<open>sizeof(buf)\<close>: the result has the right length, its first 1023 characters, a zero byte, and then
  whatever the fresh memory \<open>heap\<close> held.
\<close>

definition q_format :: "(nat \<Rightarrow> char) \<Rightarrow> string \<Rightarrow> string" where
  "q_format heap t =
     (if length t < 1024 then t
      else take 1023 t @ CHR 0x00 # map heap [1024..<length t])"

lemma q_format_short: "length t < 1024 \<Longrightarrow> q_format heap t = t"
  by (simp add: q_format_def)

lemma length_q_format: "length (q_format heap t) = length t"
  by (auto simp: q_format_def)


section \<open>Searching\<close>

text \<open>\<open>std::string::find\<close> from the start of the string.\<close>

fun str_find :: "string \<Rightarrow> string \<Rightarrow> nat option" where
  "str_find pat [] = (if pat = [] then Some 0 else None)"
| "str_find pat (c # cs) =
     (if take (length pat) (c # cs) = pat then Some 0 else map_option Suc (str_find pat cs))"

lemma str_find_SomeD:
  "str_find pat s = Some i \<Longrightarrow> i + length pat \<le> length s \<and> take (length pat) (drop i s) = pat
     \<and> (\<forall>j < i. take (length pat) (drop j s) \<noteq> pat)"
proof (induction s arbitrary: i)
  case (Cons c cs)
  show ?case
  proof (cases "take (length pat) (c # cs) = pat")
    case True
    with Cons.prems have "i = 0" by simp
    moreover have "length pat \<le> length (c # cs)"
      using arg_cong [OF True, of length] by (simp add: min_def split: if_splits)
    ultimately show ?thesis using True by simp
  next
    case False
    with Cons obtain k where k: "i = Suc k" "str_find pat cs = Some k" by auto
    from Cons.IH [OF k(2)] False k(1) show ?thesis by (auto simp: less_Suc_eq_0_disj)
  qed
qed (auto split: if_splits)

lemma str_find_None:
  "str_find pat s = None \<Longrightarrow> i \<le> length s \<Longrightarrow> take (length pat) (drop i s) \<noteq> pat"
proof (induction s arbitrary: i)
  case (Cons c cs)
  then show ?case by (cases i) (auto split: if_splits)
qed (auto split: if_splits)

lemma str_find_unique:
  assumes "i \<le> length s" and "take (length pat) (drop i s) = pat"
    and "\<And>j. j < i \<Longrightarrow> take (length pat) (drop j s) \<noteq> pat"
  shows "str_find pat s = Some i"
proof (cases "str_find pat s")
  case None
  with str_find_None [OF None assms(1)] assms(2) show ?thesis by simp
next
  case (Some k)
  with str_find_SomeD [OF Some] assms show ?thesis by (metis linorder_neqE_nat)
qed

text \<open>
  \<open>q_substr(ss, s1, s2)\<close>: both marks are searched from the start, so the second may lie in front of
  the first; the count then wraps around and \<open>substr\<close> takes the rest of the string.
\<close>

definition q_substr :: "string \<Rightarrow> string \<Rightarrow> string \<Rightarrow> string" where
  "q_substr ss s1 s2 =
     (case str_find s1 ss of
        None \<Rightarrow> []
      | Some pos1 \<Rightarrow>
          (case str_find s2 ss of
             None \<Rightarrow> []
           | Some pos2 \<Rightarrow>
               let count = int pos2 - int pos1 - int (length s1)
               in if count < 0 then drop (pos1 + length s1) ss
                  else take (nat count) (drop (pos1 + length s1) ss)))"

lemma q_substr_between:
  assumes "str_find s1 (pre @ s1 @ mid @ s2 @ post) = Some (length pre)"
    and "str_find s2 (pre @ s1 @ mid @ s2 @ post) = Some (length pre + length s1 + length mid)"
  shows "q_substr (pre @ s1 @ mid @ s2 @ post) s1 s2 = mid"
  by (simp add: q_substr_def assms)

end
