(* ===== verification/Mongo_Client.thy ===== *)
theory Mongo_Client
  imports Text_Util
begin

text \<open>
  \<open>QMongoClient\<close>.  The MongoDB driver is not part of the program: it is a record of functions on a
  database state of any type, and \<open>None\<close> as the result of a call is a \<open>DBException\<close>.
  \<open>mongo_sound\<close> states what its documentation promises; \<open>mem_driver\<close> is a driver that keeps the
  promise, used to show that the statements about the server are not empty.
\<close>

section \<open>The driver\<close>

datatype bson = BStr string | BDate "64 word"

type_synonym document = "(string \<times> bson) list"

text \<open>A query for the documents of a collection in which a field has a given text value.\<close>

record 'd mongo_driver =
  drv_query :: "string \<Rightarrow> string \<Rightarrow> string \<Rightarrow> 'd \<Rightarrow> document list option \<times> 'd"
  drv_find_one :: "string \<Rightarrow> string \<Rightarrow> string \<Rightarrow> 'd \<Rightarrow> document option option \<times> 'd"
  drv_insert :: "string \<Rightarrow> document \<Rightarrow> 'd \<Rightarrow> unit option \<times> 'd"
  drv_upsert :: "string \<Rightarrow> string \<Rightarrow> string \<Rightarrow> document \<Rightarrow> 'd \<Rightarrow> unit option \<times> 'd"
  drv_remove :: "string \<Rightarrow> string \<Rightarrow> string \<Rightarrow> 'd \<Rightarrow> unit option \<times> 'd"

definition MONGO_OK :: int where "MONGO_OK = 0"
definition MONGO_ERR :: int where "MONGO_ERR = -1"

text \<open>\<open>getStringField\<close>: the empty string when the field is missing or no string.\<close>

definition getStringField :: "document \<Rightarrow> string \<Rightarrow> string" where
  "getStringField doc name = (case map_of doc name of Some (BStr s) \<Rightarrow> s | _ \<Rightarrow> [])"

definition matches :: "string \<Rightarrow> string \<Rightarrow> document \<Rightarrow> bool" where
  "matches k v doc \<longleftrightarrow> map_of doc k = Some (BStr v)"


section \<open>The client\<close>

text \<open>
  \<open>now\<close> is the current time in milliseconds, as \<open>dt\<close> computes it.  Pointer arguments that the code
  tests against \<open>NULL\<close> are options.
\<close>

definition mongo_insert :: "'d mongo_driver \<Rightarrow> string \<Rightarrow> 64 word \<Rightarrow> string option \<Rightarrow> string option \<Rightarrow>
    string option \<Rightarrow> string option \<Rightarrow> 'd \<Rightarrow> int \<times> 'd" where
  "mongo_insert drv collection now ident idValue columnName columnValue db =
     (case (ident, idValue, columnName, columnValue) of
        (Some i, Some iv, Some c, Some cv) \<Rightarrow>
          (case drv_insert drv collection [(i, BStr iv), (c, BStr cv), (''createdAt'', BDate now)] db of
             (None, db') \<Rightarrow> (MONGO_ERR, db')
           | (Some _, db') \<Rightarrow> (MONGO_OK, db'))
      | _ \<Rightarrow> (MONGO_ERR, db))"

definition mongo_insert2 :: "'d mongo_driver \<Rightarrow> string \<Rightarrow> 64 word \<Rightarrow> string option \<Rightarrow> string option \<Rightarrow>
    string option \<Rightarrow> string option \<Rightarrow> string option \<Rightarrow> string option \<Rightarrow> 'd \<Rightarrow> int \<times> 'd" where
  "mongo_insert2 drv collection now ident idValue columnName1 columnValue1 columnName2 columnValue2 db =
     (case (ident, idValue, columnName1, columnValue1, columnName2, columnValue2) of
        (Some i, Some iv, Some c1, Some v1, Some c2, Some v2) \<Rightarrow>
          (case drv_insert drv collection
              [(i, BStr iv), (c1, BStr v1), (c2, BStr v2), (''createdAt'', BDate now)] db of
             (None, db') \<Rightarrow> (MONGO_ERR, db')
           | (Some _, db') \<Rightarrow> (MONGO_OK, db'))
      | _ \<Rightarrow> (MONGO_ERR, db))"

text \<open>\<open>select\<close> returns a \<open>bool\<close>; the column values are out parameters and keep their old value on
  every failing path.\<close>

definition mongo_select :: "'d mongo_driver \<Rightarrow> string \<Rightarrow> string option \<Rightarrow> string option \<Rightarrow>
    string option \<Rightarrow> string \<Rightarrow> 'd \<Rightarrow> bool \<times> string \<times> 'd" where
  "mongo_select drv collection ident idValue columnName columnValue db =
     (case (ident, idValue, columnName) of
        (Some i, Some iv, Some c) \<Rightarrow>
          (case drv_find_one drv collection i iv db of
             (Some (Some res), db') \<Rightarrow> (True, getStringField res c, db')
           | (_, db') \<Rightarrow> (False, columnValue, db'))
      | _ \<Rightarrow> (False, columnValue, db))"

definition mongo_select2 :: "'d mongo_driver \<Rightarrow> string \<Rightarrow> string option \<Rightarrow> string option \<Rightarrow>
    string option \<Rightarrow> string \<Rightarrow> string option \<Rightarrow> string \<Rightarrow> 'd \<Rightarrow> bool \<times> string \<times> string \<times> 'd" where
  "mongo_select2 drv collection ident idValue columnName1 columnValue1 columnName2 columnValue2 db =
     (case (ident, idValue, columnName1, columnName2) of
        (Some i, Some iv, Some c1, Some c2) \<Rightarrow>
          (case drv_find_one drv collection i iv db of
             (Some (Some res), db') \<Rightarrow> (True, getStringField res c1, getStringField res c2, db')
           | (_, db') \<Rightarrow> (False, columnValue1, columnValue2, db'))
      | _ \<Rightarrow> (False, columnValue1, columnValue2, db))"

definition mongo_update :: "'d mongo_driver \<Rightarrow> string \<Rightarrow> 64 word \<Rightarrow> string option \<Rightarrow> string option \<Rightarrow>
    string option \<Rightarrow> string option \<Rightarrow> 'd \<Rightarrow> int \<times> 'd" where
  "mongo_update drv collection now ident idValue columnName columnValue db =
     (case (ident, idValue, columnName, columnValue) of
        (Some i, Some iv, Some c, Some cv) \<Rightarrow>
          (case drv_upsert drv collection i iv [(i, BStr iv), (c, BStr cv), (''createdAt'', BDate now)] db of
             (None, db') \<Rightarrow> (MONGO_ERR, db')
           | (Some _, db') \<Rightarrow> (MONGO_OK, db'))
      | _ \<Rightarrow> (MONGO_ERR, db))"

definition mongo_remove :: "'d mongo_driver \<Rightarrow> string \<Rightarrow> string \<Rightarrow> string \<Rightarrow> 'd \<Rightarrow> int \<times> 'd" where
  "mongo_remove drv collection ident idValue db =
     (case drv_remove drv collection ident idValue db of
        (None, db') \<Rightarrow> (MONGO_ERR, db')
      | (Some _, db') \<Rightarrow> (MONGO_OK, db'))"

definition mongo_exists :: "'d mongo_driver \<Rightarrow> string \<Rightarrow> string \<Rightarrow> string \<Rightarrow> 'd \<Rightarrow> bool \<times> 'd" where
  "mongo_exists drv collection ident idValue db =
     (case drv_query drv collection ident idValue db of
        (None, db') \<Rightarrow> (False, db')
      | (Some docs, db') \<Rightarrow> (docs \<noteq> [], db'))"


section \<open>What the driver promises\<close>

text \<open>
  \<open>docs db c\<close> is the contents of the collection \<open>c\<close>.  Reading changes nothing and, unless it throws,
  returns exactly the matching documents (the first one for \<open>findOne\<close>).  An insert that does not
  throw appends the document; one that throws has appended it or not.
\<close>

definition mongo_sound :: "'d mongo_driver \<Rightarrow> ('d \<Rightarrow> string \<Rightarrow> document list) \<Rightarrow> bool" where
  "mongo_sound drv docs \<longleftrightarrow>
     (\<forall>c k v db. docs (snd (drv_query drv c k v db)) = docs db
        \<and> fst (drv_query drv c k v db) \<in> {None, Some (filter (matches k v) (docs db c))})
   \<and> (\<forall>c k v db. docs (snd (drv_find_one drv c k v db)) = docs db
        \<and> fst (drv_find_one drv c k v db) \<in> {None, Some (find (matches k v) (docs db c))})
   \<and> (\<forall>c doc db. (fst (drv_insert drv c doc db) = Some () \<longrightarrow>
          docs (snd (drv_insert drv c doc db)) = (docs db)(c := docs db c @ [doc]))
        \<and> (fst (drv_insert drv c doc db) = None \<longrightarrow>
          docs (snd (drv_insert drv c doc db)) \<in> {docs db, (docs db)(c := docs db c @ [doc])}))"

text \<open>A driver on a list of documents tagged with their collection; it never throws.\<close>

type_synonym mem_db = "(string \<times> document) list"

definition mem_docs :: "mem_db \<Rightarrow> string \<Rightarrow> document list" where
  "mem_docs db c = map snd (filter (\<lambda>(c', d). c' = c) db)"

definition mem_driver :: "mem_db mongo_driver" where
  "mem_driver = \<lparr>
     drv_query = (\<lambda>c k v db. (Some (filter (matches k v) (mem_docs db c)), db)),
     drv_find_one = (\<lambda>c k v db. (Some (find (matches k v) (mem_docs db c)), db)),
     drv_insert = (\<lambda>c doc db. (Some (), db @ [(c, doc)])),
     drv_upsert = (\<lambda>c k v doc db.
       (Some (), filter (\<lambda>(c', d). \<not> (c' = c \<and> matches k v d)) db @ [(c, doc)])),
     drv_remove = (\<lambda>c k v db. (Some (), filter (\<lambda>(c', d). \<not> (c' = c \<and> matches k v d)) db))\<rparr>"

lemma mem_driver_sound: "mongo_sound mem_driver mem_docs"
  by (auto simp: mongo_sound_def mem_driver_def mem_docs_def fun_eq_iff)

lemma sound_query:
  assumes "mongo_sound drv docs" and "drv_query drv c k v db = (r, db')"
  shows "docs db' = docs db" and "r = None \<or> r = Some (filter (matches k v) (docs db c))"
proof -
  from assms(1) have "docs (snd (drv_query drv c k v db)) = docs db
    \<and> fst (drv_query drv c k v db) \<in> {None, Some (filter (matches k v) (docs db c))}"
    unfolding mongo_sound_def by blast
  then show "docs db' = docs db" and "r = None \<or> r = Some (filter (matches k v) (docs db c))"
    by (simp_all add: assms(2))
qed

lemma sound_find_one:
  assumes "mongo_sound drv docs" and "drv_find_one drv c k v db = (r, db')"
  shows "docs db' = docs db" and "r = None \<or> r = Some (find (matches k v) (docs db c))"
proof -
  from assms(1) have "docs (snd (drv_find_one drv c k v db)) = docs db
    \<and> fst (drv_find_one drv c k v db) \<in> {None, Some (find (matches k v) (docs db c))}"
    unfolding mongo_sound_def by blast
  then show "docs db' = docs db" and "r = None \<or> r = Some (find (matches k v) (docs db c))"
    by (simp_all add: assms(2))
qed

lemma sound_insert:
  assumes "mongo_sound drv docs" and "drv_insert drv c doc db = (Some u, db')"
  shows "docs db' = (docs db)(c := docs db c @ [doc])"
proof -
  from assms(1) have "fst (drv_insert drv c doc db) = Some () \<longrightarrow>
      docs (snd (drv_insert drv c doc db)) = (docs db)(c := docs db c @ [doc])"
    unfolding mongo_sound_def by blast
  then show ?thesis by (simp add: assms(2))
qed

lemma mongo_exists_docs:
  assumes "mongo_sound drv docs" and "mongo_exists drv c k v db = (r, db')"
  shows "docs db' = docs db" and "r \<Longrightarrow> \<exists>d \<in> set (docs db c). matches k v d"
proof -
  obtain q db1 where q: "drv_query drv c k v db = (q, db1)" by (cases "drv_query drv c k v db")
  note f = sound_query [OF assms(1) q]
  have e: "db' = db1" "r \<longleftrightarrow> (\<exists>l. q = Some l \<and> l \<noteq> [])"
    using assms(2) by (auto simp: mongo_exists_def q split: option.splits)
  show "docs db' = docs db" using e f by simp
  show "\<exists>d \<in> set (docs db c). matches k v d" if r
    using that e(2) f(2) by (auto simp: filter_empty_conv)
qed

lemma mongo_insert2_docs:
  assumes "mongo_sound drv docs"
    and "mongo_insert2 drv c now (Some i) (Some iv) (Some n1) (Some v1) (Some n2) (Some v2) db = (r, db')"
  shows "r = MONGO_OK \<Longrightarrow> docs db' = (docs db)(c := docs db c @
      [[(i, BStr iv), (n1, BStr v1), (n2, BStr v2), (''createdAt'', BDate now)]])"
    and "r = MONGO_OK \<or> r = MONGO_ERR"
proof -
  let ?doc = "[(i, BStr iv), (n1, BStr v1), (n2, BStr v2), (''createdAt'', BDate now)]"
  obtain q db1 where q: "drv_insert drv c ?doc db = (q, db1)" by (cases "drv_insert drv c ?doc db")
  then have e: "db' = db1" "r = (if q = None then MONGO_ERR else MONGO_OK)"
    using assms(2) by (auto simp: mongo_insert2_def split: option.splits)
  then show "r = MONGO_OK \<or> r = MONGO_ERR" by simp
  assume "r = MONGO_OK"
  then obtain u where "q = Some u" using e by (auto simp: MONGO_OK_def MONGO_ERR_def split: if_splits)
  with sound_insert [OF assms(1), of c ?doc db u] q e(1)
  show "docs db' = (docs db)(c := docs db c @ [?doc])" by simp
qed

text \<open>Whatever it returns, \<open>insert\<close> has added the record or nothing.\<close>

lemma mongo_insert2_any:
  assumes "mongo_sound drv docs"
    and "mongo_insert2 drv c now (Some i) (Some iv) (Some n1) (Some v1) (Some n2) (Some v2) db = (r, db')"
  shows "docs db' = docs db \<or> docs db' = (docs db)(c := docs db c @
      [[(i, BStr iv), (n1, BStr v1), (n2, BStr v2), (''createdAt'', BDate now)]])"
proof -
  let ?doc = "[(i, BStr iv), (n1, BStr v1), (n2, BStr v2), (''createdAt'', BDate now)]"
  obtain q db1 where q: "drv_insert drv c ?doc db = (q, db1)" by (cases "drv_insert drv c ?doc db")
  have "db' = db1" using assms(2) q by (auto simp: mongo_insert2_def split: option.splits)
  moreover from assms(1) have "(fst (drv_insert drv c ?doc db) = Some () \<longrightarrow>
          docs (snd (drv_insert drv c ?doc db)) = (docs db)(c := docs db c @ [?doc]))
        \<and> (fst (drv_insert drv c ?doc db) = None \<longrightarrow>
          docs (snd (drv_insert drv c ?doc db)) \<in> {docs db, (docs db)(c := docs db c @ [?doc])})"
    unfolding mongo_sound_def by blast
  ultimately show ?thesis using q by (cases q) auto
qed

lemma mongo_select2_docs:
  assumes "mongo_sound drv docs"
    and "mongo_select2 drv c (Some i) (Some iv) (Some n1) x1 (Some n2) x2 db = (r, y1, y2, db')"
  shows "docs db' = docs db" and "r \<Longrightarrow> \<exists>d. find (matches i iv) (docs db c) = Some d
      \<and> y1 = getStringField d n1 \<and> y2 = getStringField d n2"
    and "\<not> r \<Longrightarrow> y1 = x1 \<and> y2 = x2"
proof -
  obtain q db1 where q: "drv_find_one drv c i iv db = (q, db1)" by (cases "drv_find_one drv c i iv db")
  note f = sound_find_one [OF assms(1) q]
  show "docs db' = docs db"
    using assms(2) f(1) by (auto simp: mongo_select2_def q split: option.splits)
  show "\<exists>d. find (matches i iv) (docs db c) = Some d \<and> y1 = getStringField d n1 \<and> y2 = getStringField d n2" if r
    using assms(2) that f(2) by (auto simp: mongo_select2_def q split: option.splits)
  show "y1 = x1 \<and> y2 = x2" if "\<not> r"
    using assms(2) that by (auto simp: mongo_select2_def q split: option.splits)
qed

end
