(* ===== verification/Http_Client.thy ===== *)
theory Http_Client
  imports Text_Util File_System
begin

text \<open>
  \<open>QNetworkAccessManager\<close>, the wrapper around libcurl with which the server fetches images.  libcurl
  is a record of functions on a handle of any type: setting an option, performing a transfer
  (which offers the body in pieces to the write callback, each with the time elapsed so far, and
  says whether the transport itself succeeded) and reading the response code.
\<close>

section \<open>libcurl\<close>

datatype curl_opt =
    OptUrl string | OptHttpGet | OptPost | OptPostFields string | OptHeader | OptNoBody
  | OptTimeoutMs int | OptWriteFunction | OptDownloadFunction | OptWriteData | OptSslVerifyPeer
  | OptSslVerifyHost | OptNoSignal | OptVerbose | OptReferer string | OptAutoReferer
  | OptUserAgent string | OptProxy string | OptCookie string | OptCookieJar string
  | OptCookieFile string | OptFollowLocation | OptMaxRedirs int | OptInterface string

record 'c curl =
  curl_init :: "'c option"
  curl_setopt :: "curl_opt \<Rightarrow> 'c \<Rightarrow> bool \<times> 'c"
  curl_transfer :: "'c \<Rightarrow> (int \<times> bytes) list \<times> bool \<times> 'c"
  curl_code :: "'c \<Rightarrow> int option"
  curl_type :: "'c \<Rightarrow> string option"
  curl_reset :: "'c \<Rightarrow> 'c"

definition NET_OK :: int where "NET_OK = 0"
definition NET_ERR :: int where "NET_ERR = -1"
definition NET_ERR_SET_URL :: int where "NET_ERR_SET_URL = -2"
definition NET_ERR_SET_HTTPGET :: int where "NET_ERR_SET_HTTPGET = -3"
definition NET_ERR_SET_POST :: int where "NET_ERR_SET_POST = -4"
definition NET_ERR_SET_POSTFIELDS :: int where "NET_ERR_SET_POSTFIELDS = -5"
definition NET_ERR_SET_HEADER :: int where "NET_ERR_SET_HEADER = -6"
definition NET_ERR_SET_NOBODY :: int where "NET_ERR_SET_NOBODY = -7"
definition NET_ERR_SET_TIMEOUT_MS :: int where "NET_ERR_SET_TIMEOUT_MS = -8"
definition NET_ERR_SET_WRITEFUNCTION :: int where "NET_ERR_SET_WRITEFUNCTION = -9"
definition NET_ERR_SET_WRITEDATA :: int where "NET_ERR_SET_WRITEDATA = -10"
definition NET_ERR_SSL_VERIFYPEER :: int where "NET_ERR_SSL_VERIFYPEER = -11"
definition NET_ERR_SSL_VERIFYHOST :: int where "NET_ERR_SSL_VERIFYHOST = -12"
definition NET_ERR_SET_NOSIGNAL :: int where "NET_ERR_SET_NOSIGNAL = -13"
definition NET_ERR_SET_VERBOSE :: int where "NET_ERR_SET_VERBOSE = -14"
definition NET_ERR_PERFORM :: int where "NET_ERR_PERFORM = -15"
definition NET_ERR_FILE_OPEN :: int where "NET_ERR_FILE_OPEN = -16"
definition NET_ERR_TIMEOUT :: int where "NET_ERR_TIMEOUT = -17"
definition NET_ERR_PAGE_TOO_LARGE :: int where "NET_ERR_PAGE_TOO_LARGE = -18"

lemmas net_codes = NET_OK_def NET_ERR_def NET_ERR_SET_URL_def NET_ERR_SET_HTTPGET_def
  NET_ERR_SET_POST_def NET_ERR_SET_POSTFIELDS_def NET_ERR_SET_HEADER_def NET_ERR_SET_NOBODY_def
  NET_ERR_SET_TIMEOUT_MS_def NET_ERR_SET_WRITEFUNCTION_def NET_ERR_SET_WRITEDATA_def
  NET_ERR_SSL_VERIFYPEER_def NET_ERR_SSL_VERIFYHOST_def NET_ERR_SET_NOSIGNAL_def
  NET_ERR_SET_VERBOSE_def NET_ERR_PERFORM_def NET_ERR_FILE_OPEN_def NET_ERR_TIMEOUT_def
  NET_ERR_PAGE_TOO_LARGE_def

section \<open>The manager\<close>

record 'c netman =
  curl_handle :: 'c
  ptr_page :: bytes
  max_page_size :: int
  page_len :: nat
  net_timeout :: int

text \<open>\<open>init\<close>.  \<open>timeout_\<close> is left as it is; every request sets it before the callback reads it.\<close>

definition net_init :: "'c curl \<Rightarrow> (int \<times> 'c netman option)" where
  "net_init cu =
     (case curl_init cu of
        None \<Rightarrow> (NET_ERR, None)
      | Some h \<Rightarrow> (NET_OK, Some \<lparr>curl_handle = h, ptr_page = [], max_page_size = 0, page_len = 0,
                                net_timeout = 0\<rparr>))"

definition net_setopt :: "'c curl \<Rightarrow> curl_opt \<Rightarrow> 'c netman \<Rightarrow> bool \<times> 'c netman" where
  "net_setopt cu opt m =
     (case curl_setopt cu opt (curl_handle m) of (ok, h) \<Rightarrow> (ok, m\<lparr>curl_handle := h\<rparr>))"

definition setReferer :: "'c curl \<Rightarrow> string option \<Rightarrow> 'c netman \<Rightarrow> bool \<times> 'c netman" where
  "setReferer cu referer m =
     net_setopt cu (case referer of None \<Rightarrow> OptAutoReferer | Some r \<Rightarrow> OptReferer r) m"

definition NET_DEFAULT_USERAGENT :: string where
  "NET_DEFAULT_USERAGENT = ''Mozilla/5.0 (compatible; MISE 9.0; Windows NT 6.1); Trident/5.0''"

definition setUserAgent :: "'c curl \<Rightarrow> string option \<Rightarrow> 'c netman \<Rightarrow> bool \<times> 'c netman" where
  "setUserAgent cu user_agent m =
     net_setopt cu (OptUserAgent (case user_agent of None \<Rightarrow> NET_DEFAULT_USERAGENT | Some a \<Rightarrow> a)) m"

definition setProxy :: "'c curl \<Rightarrow> string \<Rightarrow> 'c netman \<Rightarrow> bool \<times> 'c netman" where
  "setProxy cu proxy m = net_setopt cu (OptProxy proxy) m"

definition setProxy_port :: "'c curl \<Rightarrow> string \<Rightarrow> int \<Rightarrow> 'c netman \<Rightarrow> bool \<times> 'c netman" where
  "setProxy_port cu ip port m = net_setopt cu (OptProxy (take 31 (ip @ '':'' @ dec_int port))) m"

definition setCookie :: "'c curl \<Rightarrow> string \<Rightarrow> 'c netman \<Rightarrow> bool \<times> 'c netman" where
  "setCookie cu cookie m = net_setopt cu (OptCookie cookie) m"

definition setCookieEnabled :: "'c curl \<Rightarrow> 'c netman \<Rightarrow> bool \<times> 'c netman" where
  "setCookieEnabled cu m =
     (case net_setopt cu (OptCookieJar ''cookie.txt'') m of
        (False, m1) \<Rightarrow> (False, m1)
      | (True, m1) \<Rightarrow> net_setopt cu (OptCookieFile ''cookie.txt'') m1)"

definition setRedirectionEnabled :: "'c curl \<Rightarrow> int \<Rightarrow> 'c netman \<Rightarrow> bool \<times> 'c netman" where
  "setRedirectionEnabled cu max_redirs m =
     (case net_setopt cu OptFollowLocation m of
        (False, m1) \<Rightarrow> (False, m1)
      | (True, m1) \<Rightarrow> net_setopt cu (OptMaxRedirs max_redirs) m1)"

definition setInterface :: "'c curl \<Rightarrow> string \<Rightarrow> 'c netman \<Rightarrow> bool \<times> 'c netman" where
  "setInterface cu iface m = net_setopt cu (OptInterface iface) m"

definition resetOption :: "'c curl \<Rightarrow> 'c netman \<Rightarrow> 'c netman" where
  "resetOption cu m =
     m\<lparr>curl_handle := curl_reset cu (curl_handle m), ptr_page := [], max_page_size := 0, page_len := 0\<rparr>"

text \<open>
  \<open>processFunc\<close> on one piece: the value returned to libcurl, and the manager.  A value other than
  the size of the piece makes libcurl abort the transfer.
\<close>

definition processFunc :: "int \<Rightarrow> bytes \<Rightarrow> 'c netman \<Rightarrow> int \<times> 'c netman" where
  "processFunc elapsed piece m =
     (let iSize = int (length piece)
      in if elapsed \<ge> net_timeout m then (NET_ERR_TIMEOUT, m)
         else if int (page_len m) + iSize \<ge> max_page_size m then (NET_ERR_PAGE_TOO_LARGE, m)
         else (iSize, m\<lparr>ptr_page := overwrite (page_len m) piece (ptr_page m),
                       page_len := page_len m + length piece\<rparr>))"

fun deliver :: "(int \<times> bytes) list \<Rightarrow> 'c netman \<Rightarrow> bool \<times> 'c netman" where
  "deliver [] m = (True, m)"
| "deliver ((t, piece) # rest) m =
     (case processFunc t piece m of (r, m') \<Rightarrow>
        if r \<noteq> int (length piece) then (False, m') else deliver rest m')"

definition net_perform :: "'c curl \<Rightarrow> 'c netman \<Rightarrow> bool \<times> 'c netman" where
  "net_perform cu m =
     (case curl_transfer cu (curl_handle m) of (pieces, ok, h) \<Rightarrow>
        (case deliver pieces (m\<lparr>curl_handle := h\<rparr>) of (ok', m') \<Rightarrow> (ok \<and> ok', m')))"

text \<open>The chains of \<open>curl_easy_setopt\<close> calls, each with the code returned when it fails.\<close>

fun set_options :: "'c curl \<Rightarrow> (curl_opt \<times> int) list \<Rightarrow> 'c netman \<Rightarrow> int option \<times> 'c netman" where
  "set_options cu [] m = (None, m)"
| "set_options cu ((opt, err) # rest) m =
     (case net_setopt cu opt m of
        (False, m') \<Rightarrow> (Some err, m')
      | (True, m') \<Rightarrow> set_options cu rest m')"

definition common_options :: "(curl_opt \<times> int) list" where
  "common_options =
     [(OptWriteFunction, NET_ERR_SET_WRITEFUNCTION), (OptWriteData, NET_ERR_SET_WRITEDATA),
      (OptSslVerifyPeer, NET_ERR_SSL_VERIFYPEER), (OptSslVerifyHost, NET_ERR_SSL_VERIFYHOST),
      (OptNoSignal, NET_ERR_SET_NOSIGNAL), (OptVerbose, NET_ERR_SET_VERBOSE)]"

text \<open>The common tail: perform the transfer and read the response code.  \<open>code\<close> stays 0 when
  \<open>curl_easy_getinfo\<close> fails, and \<open>- code\<close> is cut to 32 bits.\<close>

definition finish_request :: "'c curl \<Rightarrow> 'c netman \<Rightarrow> int \<times> 'c netman" where
  "finish_request cu m =
     (case net_perform cu m of
        (False, m') \<Rightarrow> (NET_ERR_PERFORM, m')
      | (True, m') \<Rightarrow>
          (case curl_code cu (curl_handle m') of
             None \<Rightarrow> (0, m')
           | Some code \<Rightarrow> if code \<noteq> 200 then (sint (word_of_int (- code) :: 32 word), m')
                          else (int (page_len m'), m')))"

definition begin_page :: "bytes \<Rightarrow> int \<Rightarrow> int \<Rightarrow> 'c netman \<Rightarrow> 'c netman" where
  "begin_page page iMaxPageSize iTimeOut m =
     m\<lparr>ptr_page := page, max_page_size := iMaxPageSize, page_len := 0, net_timeout := iTimeOut\<rparr>"

definition doHttpGet :: "'c curl \<Rightarrow> string option \<Rightarrow> int \<Rightarrow> bytes option \<Rightarrow> int \<Rightarrow> 'c netman \<Rightarrow> int \<times> 'c netman" where
  "doHttpGet cu pUrl iTimeOut pPage iMaxPageSize m =
     (case (pUrl, pPage) of
        (Some url, Some page) \<Rightarrow>
          if iTimeOut \<le> 0 \<or> iMaxPageSize \<le> 0 then (NET_ERR, m)
          else (case set_options cu
              ([(OptUrl url, NET_ERR_SET_URL), (OptHttpGet, NET_ERR_SET_HTTPGET),
                (OptTimeoutMs iTimeOut, NET_ERR_SET_TIMEOUT_MS)] @ common_options)
              (begin_page page iMaxPageSize iTimeOut m) of
                (Some err, m') \<Rightarrow> (err, m')
              | (None, m') \<Rightarrow> finish_request cu m')
      | _ \<Rightarrow> (NET_ERR, m))"

definition doHttpHeader :: "'c curl \<Rightarrow> string option \<Rightarrow> int \<Rightarrow> bytes option \<Rightarrow> int \<Rightarrow> 'c netman \<Rightarrow> int \<times> 'c netman" where
  "doHttpHeader cu pUrl iTimeOut pPage iMaxPageSize m =
     (case (pUrl, pPage) of
        (Some url, Some page) \<Rightarrow>
          if iTimeOut \<le> 0 \<or> iMaxPageSize \<le> 0 then (NET_ERR, m)
          else (case set_options cu
              ([(OptUrl url, NET_ERR_SET_URL), (OptHttpGet, NET_ERR_SET_HTTPGET),
                (OptHeader, NET_ERR_SET_HEADER), (OptNoBody, NET_ERR_SET_NOBODY),
                (OptTimeoutMs iTimeOut, NET_ERR_SET_TIMEOUT_MS)] @ common_options)
              (begin_page page iMaxPageSize iTimeOut m) of
                (Some err, m') \<Rightarrow> (err, m')
              | (None, m') \<Rightarrow> finish_request cu m')
      | _ \<Rightarrow> (NET_ERR, m))"

definition doHttpPost :: "'c curl \<Rightarrow> string option \<Rightarrow> string option \<Rightarrow> int \<Rightarrow> bytes option \<Rightarrow> int \<Rightarrow>
    'c netman \<Rightarrow> int \<times> 'c netman" where
  "doHttpPost cu pUrl pData iTimeOut pPage iMaxPageSize m =
     (case (pUrl, pData, pPage) of
        (Some url, Some data, Some page) \<Rightarrow>
          if iTimeOut \<le> 0 \<or> iMaxPageSize \<le> 0 then (NET_ERR, m)
          else (case set_options cu
              ([(OptUrl url, NET_ERR_SET_URL), (OptPost, NET_ERR_SET_POST),
                (OptPostFields data, NET_ERR_SET_POSTFIELDS),
                (OptTimeoutMs iTimeOut, NET_ERR_SET_TIMEOUT_MS)] @ common_options)
              (begin_page page iMaxPageSize iTimeOut m) of
                (Some err, m') \<Rightarrow> (err, m')
              | (None, m') \<Rightarrow> finish_request cu m')
      | _ \<Rightarrow> (NET_ERR, m))"

text \<open>
  \<open>doHttpDownload\<close> writes the body to a file as it arrives; a piece that does not fit makes
  \<open>fwrite\<close> return less than the size of the piece, which aborts the transfer.
\<close>

definition processDownloadFunc :: "path \<Rightarrow> bytes \<Rightarrow> fs \<Rightarrow> int \<times> fs" where
  "processDownloadFunc p piece d =
     (case fwrite_at p (flen d p) piece d of (ok, k, d') \<Rightarrow> (int k, d'))"

fun deliver_file :: "path \<Rightarrow> (int \<times> bytes) list \<Rightarrow> fs \<Rightarrow> bool \<times> fs" where
  "deliver_file p [] d = (True, d)"
| "deliver_file p ((t, piece) # rest) d =
     (case processDownloadFunc p piece d of (r, d') \<Rightarrow>
        if r \<noteq> int (length piece) then (False, d') else deliver_file p rest d')"

definition doHttpDownload :: "'c curl \<Rightarrow> string option \<Rightarrow> string option \<Rightarrow> int \<Rightarrow> 'c netman \<Rightarrow> fs \<Rightarrow>
    int \<times> 'c netman \<times> fs" where
  "doHttpDownload cu pUrl pFileName iTimeOut m d =
     (case (pUrl, pFileName) of
        (Some url, Some name) \<Rightarrow>
          if iTimeOut \<le> 0 then (NET_ERR, m, d)
          else (case fopen_w name d of
             None \<Rightarrow> (NET_ERR_FILE_OPEN, m, d)
           | Some d1 \<Rightarrow>
              (case set_options cu
                 ([(OptUrl url, NET_ERR_SET_URL), (OptTimeoutMs iTimeOut, NET_ERR_SET_TIMEOUT_MS),
                   (OptDownloadFunction, NET_ERR_SET_WRITEFUNCTION)] @ tl common_options) m of
                 (Some err, m') \<Rightarrow> (err, m', d1)
               | (None, m') \<Rightarrow>
                  (case curl_transfer cu (curl_handle m') of (pieces, ok, h) \<Rightarrow>
                    (case deliver_file (path_of name) pieces d1 of (ok', d2) \<Rightarrow>
                      let m'' = m'\<lparr>curl_handle := h\<rparr> in
                      if \<not> (ok \<and> ok') then (NET_ERR_PERFORM, m'', d2)
                      else case curl_code cu h of
                             None \<Rightarrow> (0, m'', d2)
                           | Some code \<Rightarrow>
                               if code \<noteq> 200 then (sint (word_of_int (- code) :: 32 word), m'', d2)
                               else (NET_OK, m'', d2)))))
      | _ \<Rightarrow> (NET_ERR, m, d))"

text \<open>\<open>strcasestr\<close> and \<open>strcasecmp\<close> compare in lower case.\<close>

definition lower :: "char \<Rightarrow> char" where
  "lower c = (let n = of_char c :: nat in if 65 \<le> n \<and> n \<le> 90 then char_of (n + 32) else c)"

definition codecFromContentType :: "string \<Rightarrow> int" where
  "codecFromContentType content_type =
     (case str_find ''charset='' (map lower content_type) of
        None \<Rightarrow> 0
      | Some i \<Rightarrow>
          (let name = map lower (drop (i + 8) content_type)
           in if name = ''gbk'' \<or> name = ''gb2312'' then 1 else if name = ''utf-8'' then 2 else 0))"

definition contentCodec :: "'c curl \<Rightarrow> 'c netman \<Rightarrow> int" where
  "contentCodec cu m =
     (case curl_type cu (curl_handle m) of None \<Rightarrow> 0 | Some t \<Rightarrow> codecFromContentType t)"


section \<open>What a transfer leaves in the page\<close>

definition page_wf :: "bytes \<Rightarrow> int \<Rightarrow> 'c netman \<Rightarrow> bool" where
  "page_wf page mx m \<longleftrightarrow> max_page_size m = mx \<and> int (page_len m) < mx
     \<and> length (ptr_page m) = length page
     \<and> drop (page_len m) (ptr_page m) = drop (page_len m) page"

lemma processFunc_wf:
  assumes "page_wf page mx m" and "mx \<le> int (length page)"
  shows "page_wf page mx (snd (processFunc t piece m))"
proof -
  have "drop (page_len m + length piece) (overwrite (page_len m) piece (ptr_page m)) =
        drop (page_len m + length piece) (ptr_page m)"
    if "page_len m \<le> length (ptr_page m)"
    using that by (simp add: overwrite_def)
  moreover have "drop (page_len m + length piece) (ptr_page m) = drop (page_len m + length piece) page"
    using assms(1) unfolding page_wf_def by (metis add.commute drop_drop)
  ultimately show ?thesis
    using assms by (auto simp: processFunc_def page_wf_def Let_def)
qed

lemma deliver_wf:
  "page_wf page mx m \<Longrightarrow> mx \<le> int (length page) \<Longrightarrow> page_wf page mx (snd (deliver pieces m))"
proof (induction pieces arbitrary: m)
  case (Cons tp rest)
  obtain t piece where tp: "tp = (t, piece)" by fastforce
  obtain r m' where pf: "processFunc t piece m = (r, m')" by fastforce
  from processFunc_wf [OF Cons.prems, of t piece] pf have "page_wf page mx m'" by simp
  with Cons.IH [OF this Cons.prems(2)] show ?case by (simp add: tp pf)
qed simp

definition body_of :: "(int \<times> bytes) list \<Rightarrow> bytes" where
  "body_of pieces = concat (map snd pieces)"

lemma deliver_all:
  assumes "\<forall>tp \<in> set pieces. fst tp < net_timeout m"
    and "int (page_len m + length (body_of pieces)) < max_page_size m"
    and "page_len m + length (body_of pieces) \<le> length (ptr_page m)"
  shows "deliver pieces m =
    (True, m\<lparr>ptr_page := overwrite (page_len m) (body_of pieces) (ptr_page m),
             page_len := page_len m + length (body_of pieces)\<rparr>)"
  using assms
proof (induction pieces arbitrary: m)
  case Nil
  then show ?case by (simp add: body_of_def)
next
  case (Cons tp rest)
  obtain t piece where tp: "tp = (t, piece)" by fastforce
  let ?m = "m\<lparr>ptr_page := overwrite (page_len m) piece (ptr_page m),
              page_len := page_len m + length piece\<rparr>"
  have body: "body_of (tp # rest) = piece @ body_of rest" by (simp add: body_of_def tp)
  have pf: "processFunc t piece m = (int (length piece), ?m)"
    using Cons.prems unfolding body by (simp add: processFunc_def tp)
  have "deliver rest ?m =
    (True, ?m\<lparr>ptr_page := overwrite (page_len ?m) (body_of rest) (ptr_page ?m),
             page_len := page_len ?m + length (body_of rest)\<rparr>)"
    by (rule Cons.IH) (use Cons.prems in \<open>auto simp: body\<close>)
  moreover have "overwrite (page_len m + length piece) (body_of rest)
      (overwrite (page_len m) piece (ptr_page m)) =
      overwrite (page_len m) (piece @ body_of rest) (ptr_page m)"
    using Cons.prems(3) unfolding body by (simp add: overwrite_def ac_simps)
  ultimately show ?case by (simp add: tp pf body [unfolded tp] add.assoc)
qed

lemma deliver_too_much:
  assumes "max_page_size m \<le> int (page_len m + length (body_of pieces))"
    and "int (page_len m) < max_page_size m"
  shows "fst (deliver pieces m) = False"
  using assms
proof (induction pieces arbitrary: m)
  case (Cons tp rest)
  obtain t piece where tp: "tp = (t, piece)" by fastforce
  have body: "body_of (tp # rest) = piece @ body_of rest" by (simp add: body_of_def tp)
  show ?case
  proof (cases "t < net_timeout m \<and> int (page_len m) + int (length piece) < max_page_size m")
    case True
    then show ?thesis
      using Cons.IH [of "snd (processFunc t piece m)"] Cons.prems
      by (auto simp: tp body [unfolded tp] processFunc_def Let_def add.assoc)
  next
    case False
    then show ?thesis by (auto simp: tp processFunc_def Let_def net_codes)
  qed
qed (simp add: body_of_def)

lemma deliver_late:
  assumes "\<exists>tp \<in> set pieces. net_timeout m \<le> fst tp"
  shows "fst (deliver pieces m) = False"
  using assms
proof (induction pieces arbitrary: m)
  case (Cons tp rest)
  obtain t piece where tp: "tp = (t, piece)" by fastforce
  show ?case
  proof (cases "t < net_timeout m \<and> int (page_len m) + int (length piece) < max_page_size m")
    case True
    then have "net_timeout (snd (processFunc t piece m)) = net_timeout m"
      by (simp add: processFunc_def Let_def)
    with True show ?thesis
      using Cons.IH [of "snd (processFunc t piece m)"] Cons.prems
      by (auto simp: tp processFunc_def Let_def)
  next
    case False
    then show ?thesis by (auto simp: tp processFunc_def Let_def net_codes)
  qed
qed simp

lemma set_options_page:
  assumes "set_options cu opts m = (r, m')"
  shows "ptr_page m' = ptr_page m \<and> max_page_size m' = max_page_size m
    \<and> page_len m' = page_len m \<and> net_timeout m' = net_timeout m"
  using assms
proof (induction opts arbitrary: m)
  case (Cons oe rest)
  obtain opt err where oe: "oe = (opt, err)" by fastforce
  obtain ok m1 where st: "net_setopt cu opt m = (ok, m1)" by fastforce
  then have "ptr_page m1 = ptr_page m \<and> max_page_size m1 = max_page_size m
    \<and> page_len m1 = page_len m \<and> net_timeout m1 = net_timeout m"
    by (auto simp: net_setopt_def split: prod.splits)
  with Cons st show ?case by (cases ok) (auto simp: oe)
qed simp


section \<open>Fetching a page\<close>

definition get_options :: "string \<Rightarrow> int \<Rightarrow> (curl_opt \<times> int) list" where
  "get_options url iTimeOut =
     [(OptUrl url, NET_ERR_SET_URL), (OptHttpGet, NET_ERR_SET_HTTPGET),
      (OptTimeoutMs iTimeOut, NET_ERR_SET_TIMEOUT_MS)] @ common_options"

lemma finish_request_wf:
  assumes "page_wf page mx m" and "mx \<le> int (length page)"
  shows "page_wf page mx (snd (finish_request cu m))"
proof -
  obtain pieces ok h where tr: "curl_transfer cu (curl_handle m) = (pieces, ok, h)"
    by (metis prod_cases3)
  have "page_wf page mx (m\<lparr>curl_handle := h\<rparr>)" using assms(1) by (simp add: page_wf_def)
  from deliver_wf [OF this assms(2), of pieces] show ?thesis
    by (auto simp: finish_request_def net_perform_def tr split: prod.splits bool.splits option.splits)
qed

lemma doHttpGet_eq:
  assumes "0 < iTimeOut" and "0 < mx"
  shows "doHttpGet cu (Some url) iTimeOut (Some page) mx m =
    (case set_options cu (get_options url iTimeOut) (begin_page page mx iTimeOut m) of
       (Some err, m') \<Rightarrow> (err, m')
     | (None, m') \<Rightarrow> finish_request cu m')"
  using assms by (simp add: doHttpGet_def get_options_def)

lemma doHttpGet_page_wf:
  assumes "0 < iTimeOut" and "0 < mx" and "mx \<le> int (length page)"
    and "doHttpGet cu (Some url) iTimeOut (Some page) mx m = (r, m')"
  shows "page_wf page mx m'"
proof -
  obtain e m1 where so: "set_options cu (get_options url iTimeOut) (begin_page page mx iTimeOut m) = (e, m1)"
    by fastforce
  have wf: "page_wf page mx m1"
    using set_options_page [OF so] assms(2) by (simp add: page_wf_def begin_page_def)
  show ?thesis
    using assms(4) wf finish_request_wf [OF wf assms(3), of cu]
    by (cases e) (auto simp: doHttpGet_eq [OF assms(1,2)] so)
qed


text \<open>Result of the download.  When every option is accepted, the transport succeeds and the
  server answers 200, \<open>doHttpGet\<close> returns the length of the body and leaves the body, put together
  from its pieces, at the front of the page, provided each piece arrived in time and the body is
  shorter than \<open>iMaxPageSize\<close>; otherwise it returns \<open>NET_ERR_PERFORM\<close>.  A page is therefore never
  cut short and reported as fetched.\<close>

theorem doHttpGet_result:
  assumes "0 < iTimeOut" and "0 < mx" and "mx \<le> int (length page)"
    and "set_options cu (get_options url iTimeOut) (begin_page page mx iTimeOut m) = (None, m1)"
    and "curl_transfer cu (curl_handle m1) = (pieces, True, h)"
    and "curl_code cu h = Some 200"
    and "doHttpGet cu (Some url) iTimeOut (Some page) mx m = (r, m')"
  shows "if (\<exists>tp \<in> set pieces. iTimeOut \<le> fst tp) \<or> mx \<le> int (length (body_of pieces))
         then r = NET_ERR_PERFORM
         else r = int (length (body_of pieces)) \<and> take (nat r) (ptr_page m') = body_of pieces"
proof -
  let ?m = "m1\<lparr>curl_handle := h\<rparr>"
  note pg = set_options_page [OF assms(4)]
  have fr: "(r, m') = finish_request cu m1"
    using assms(7) by (simp add: doHttpGet_eq [OF assms(1,2)] assms(4))
  show ?thesis
  proof (cases "(\<exists>tp \<in> set pieces. iTimeOut \<le> fst tp) \<or> mx \<le> int (length (body_of pieces))")
    case True
    have "fst (deliver pieces ?m) = False"
    proof (cases "mx \<le> int (length (body_of pieces))")
      case True
      show ?thesis by (rule deliver_too_much) (use True pg assms(2) in \<open>simp_all add: begin_page_def\<close>)
    next
      case False
      with \<open>(\<exists>tp \<in> set pieces. iTimeOut \<le> fst tp) \<or> mx \<le> int (length (body_of pieces))\<close>
      show ?thesis by (intro deliver_late) (use pg in \<open>simp add: begin_page_def\<close>)
    qed
    then show ?thesis
      using fr True by (auto simp: finish_request_def net_perform_def assms(5) split: prod.splits)
  next
    case False
    have "deliver pieces ?m = (True, ?m\<lparr>ptr_page := overwrite (page_len ?m) (body_of pieces) (ptr_page ?m),
             page_len := page_len ?m + length (body_of pieces)\<rparr>)"
      by (rule deliver_all) (use False pg assms(3) in \<open>auto simp: begin_page_def not_le\<close>)
    then show ?thesis
      using fr False pg
      by (auto simp: finish_request_def net_perform_def assms(5,6) begin_page_def take_overwrite_0)
  qed
qed

text \<open>A libcurl whose every call succeeds and whose peer sends a given body in given pieces.\<close>

definition page_curl :: "(int \<times> bytes) list \<Rightarrow> int \<Rightarrow> nat curl" where
  "page_curl pieces code =
     \<lparr>curl_init = Some 0, curl_setopt = (\<lambda>opt h. (True, h)), curl_transfer = (\<lambda>h. (pieces, True, h)),
      curl_code = (\<lambda>h. Some code), curl_type = (\<lambda>h. None), curl_reset = (\<lambda>h. h)\<rparr>"

definition fresh_netman :: "nat netman" where
  "fresh_netman = \<lparr>curl_handle = 0, ptr_page = [], max_page_size = 0, page_len = 0, net_timeout = 0\<rparr>"

lemma page_curl_options: "set_options (page_curl pieces code) opts m = (None, m)"
  by (induction opts) (auto simp: net_setopt_def page_curl_def)


theorem doHttpGet_result_witness:
  "\<exists>m'. doHttpGet (page_curl [(1, [7, 8]), (2, [9])] 200) (Some ''u'') 10
       (Some [1, 2, 3, 4, 5]) 4 fresh_netman = (3, m') \<and> take 3 (ptr_page m') = [7, 8, 9]"
proof -
  let ?cu = "page_curl [(1, [7, 8]), (2, [9])] 200"
  obtain r m' where run: "doHttpGet ?cu (Some ''u'') 10 (Some [1, 2, 3, 4, 5]) 4 fresh_netman = (r, m')"
    by fastforce
  have "if (\<exists>tp \<in> set [(1, [7, 8]), (2, [9 :: 8 word])]. (10 :: int) \<le> fst tp) \<or> 4 \<le> int (length (body_of [(1 :: int, [7, 8]), (2, [9])]))
         then r = NET_ERR_PERFORM
         else r = int (length (body_of [(1 :: int, [7, 8]), (2, [9])]))
           \<and> take (nat r) (ptr_page m') = body_of [(1 :: int, [7, 8]), (2, [9])]"
    by (rule doHttpGet_result [OF _ _ _ page_curl_options _ _ run, where h = 0])
      (simp_all add: page_curl_def begin_page_def fresh_netman_def)
  then have "r = 3 \<and> take 3 (ptr_page m') = [7, 8, 9]" by (auto simp: body_of_def)
  with run show ?thesis by blast
qed

end
