(* ===== verification/Tcp_Protocol.thy ===== *)
theory Tcp_Protocol
  imports Net_Socket Text_Util
begin

text \<open>
  The wire format of \<open>qtcpsocket.h\<close> and the client \<open>QTcpClient\<close>.  The packed structs are byte
  offsets into buffers, as the code's pointer casts read and write them; the reserved fields are
  never written by the sender, so they keep whatever the fresh memory held.  Allocated memory is
  a parameter: \<open>env_alloc env n\<close> is the block returned for \<open>n\<close> bytes, followed by what lies behind it.
\<close>

section \<open>Codes and layouts\<close>

definition TCP_OK :: int where "TCP_OK = 0"
definition TCP_ERR :: int where "TCP_ERR = -1"
definition TCP_ERR_HEAP_ALLOC :: int where "TCP_ERR_HEAP_ALLOC = -2"
definition TCP_ERR_SOCKET_INIT :: int where "TCP_ERR_SOCKET_INIT = -11"
definition TCP_ERR_SOCKET_CONNECTION :: int where "TCP_ERR_SOCKET_CONNECTION = -12"
definition TCP_ERR_SOCKET_ACCEPT :: int where "TCP_ERR_SOCKET_ACCEPT = -13"
definition TCP_ERR_SOCKET_TIMEOUT :: int where "TCP_ERR_SOCKET_TIMEOUT = -14"
definition TCP_ERR_SOCKET_RECV :: int where "TCP_ERR_SOCKET_RECV = -15"
definition TCP_ERR_PACKET_HEADER :: int where "TCP_ERR_PACKET_HEADER = -16"
definition TCP_ERR_PACKET_LENGTH :: int where "TCP_ERR_PACKET_LENGTH = -17"
definition TCP_ERR_SOCKET_SEND :: int where "TCP_ERR_SOCKET_SEND = -18"
definition TCP_ERR_SOCKET_VERSION :: int where "TCP_ERR_SOCKET_VERSION = -19"
definition TCP_ERR_PROTOCOL_TYPE :: int where "TCP_ERR_PROTOCOL_TYPE = -20"
definition TCP_ERR_SOURCE_TYPE :: int where "TCP_ERR_SOURCE_TYPE = -21"
definition TCP_ERR_COMMAND_TYPE :: int where "TCP_ERR_COMMAND_TYPE = -22"
definition TCP_ERR_OPERATE_TYPE :: int where "TCP_ERR_OPERATE_TYPE = -24"
definition TCP_ERR_DATA_LENGTH :: int where "TCP_ERR_DATA_LENGTH = -25"

lemmas tcp_codes = TCP_OK_def TCP_ERR_def TCP_ERR_HEAP_ALLOC_def TCP_ERR_SOCKET_INIT_def
  TCP_ERR_SOCKET_CONNECTION_def TCP_ERR_SOCKET_ACCEPT_def TCP_ERR_SOCKET_TIMEOUT_def
  TCP_ERR_SOCKET_RECV_def TCP_ERR_PACKET_HEADER_def TCP_ERR_PACKET_LENGTH_def
  TCP_ERR_SOCKET_SEND_def TCP_ERR_SOCKET_VERSION_def TCP_ERR_PROTOCOL_TYPE_def
  TCP_ERR_SOURCE_TYPE_def TCP_ERR_COMMAND_TYPE_def TCP_ERR_OPERATE_TYPE_def TCP_ERR_DATA_LENGTH_def

definition TCP_DEFAULT_PROTOCOL_TYPE :: "16 word" where "TCP_DEFAULT_PROTOCOL_TYPE = 1"
definition TCP_DEFAULT_SOURCE_TYPE :: "16 word" where "TCP_DEFAULT_SOURCE_TYPE = 1"
definition TCP_DEFAULT_COMMAND_TYPE :: "16 word" where "TCP_DEFAULT_COMMAND_TYPE = 1"
definition TCP_DEFAULT_OPERATE_TYPE :: "16 word" where "TCP_DEFAULT_OPERATE_TYPE = 1"
definition TCP_DEFAULT_SERVER_PORT :: "16 word" where "TCP_DEFAULT_SERVER_PORT = 8088"
definition TCP_DEFAULT_SERVER_TIMEOUT :: int where "TCP_DEFAULT_SERVER_TIMEOUT = 10000"
definition TCP_DEFAULT_REQUEST_SIZE :: nat where "TCP_DEFAULT_REQUEST_SIZE = 3 * 2 ^ 20"
definition TCP_DEFAULT_REPLY_SIZE :: nat where "TCP_DEFAULT_REPLY_SIZE = 2 ^ 20"
definition TCP_DEFAULT_HEADER_SIZE :: nat where "TCP_DEFAULT_HEADER_SIZE = 12"

lemmas tcp_types = TCP_DEFAULT_PROTOCOL_TYPE_def TCP_DEFAULT_SOURCE_TYPE_def
  TCP_DEFAULT_COMMAND_TYPE_def TCP_DEFAULT_OPERATE_TYPE_def

text \<open>\<open>TCP_HEADER_VERSION\<close> and \<open>TCP_TAILER_FILE_MARK\<close> are eight characters read as one word.\<close>

definition TCP_HEADER_VERSION :: "64 word" where
  "TCP_HEADER_VERSION = bytes_word (bytes_of ''YST1.0.0'')"

definition TCP_TAILER_FILE_MARK :: "64 word" where
  "TCP_TAILER_FILE_MARK = bytes_word (bytes_of ''@#@#@#@#'')"

lemma version_bytes: "le64 TCP_HEADER_VERSION = bytes_of ''YST1.0.0''"
  unfolding TCP_HEADER_VERSION_def by (rule word_bytes_word) (simp_all add: bytes_of_def)

lemma mark_bytes: "le64 TCP_TAILER_FILE_MARK = bytes_of ''@#@#@#@#''"
  unfolding TCP_TAILER_FILE_MARK_def by (rule word_bytes_word) (simp_all add: bytes_of_def)

text \<open>\<open>sizeof\<close> the packed structs.\<close>

abbreviation (input) sizeof_baseHeader :: nat where "sizeof_baseHeader \<equiv> 12"
abbreviation (input) sizeof_requestParam :: nat where "sizeof_requestParam \<equiv> 20"
abbreviation (input) sizeof_replyParam :: nat where "sizeof_replyParam \<equiv> 20"
abbreviation (input) sizeof_requestHeader :: nat where "sizeof_requestHeader \<equiv> 32"
abbreviation (input) sizeof_replyHeader :: nat where "sizeof_replyHeader \<equiv> 32"

definition baseHeader :: "64 word \<Rightarrow> int \<Rightarrow> bytes" where
  "baseHeader v n = le64 v @ le32 (int32 n)"

definition base_version :: "bytes \<Rightarrow> 64 word" where
  "base_version buf = rd64 buf 0"

definition base_length :: "bytes \<Rightarrow> int" where
  "base_length buf = sint (rd32 buf 8)"

text \<open>\<open>replyHeader\<close> with the bytes of its \<open>reserved\<close> field.\<close>

definition replyHeader :: "int \<Rightarrow> bytes \<Rightarrow> 16 word \<Rightarrow> int \<Rightarrow> bytes" where
  "replyHeader n reserved cmd status =
     baseHeader TCP_HEADER_VERSION n @ reserved @ le16 cmd @ le32 (int32 status)"

lemma length_baseHeader [simp, layout_simps]: "length (baseHeader v n) = 12"
  by (simp add: baseHeader_def)

lemma length_replyHeader [simp, layout_simps]:
  "length reserved = 14 \<Longrightarrow> length (replyHeader n reserved cmd status) = 32"
  by (simp add: replyHeader_def)

lemma base_version_header [simp]: "base_version (baseHeader v n @ r) = v"
  by (simp add: base_version_def rd64_def baseHeader_def sub_buf_def)

lemma base_length_header [simp]: "is_int32 n \<Longrightarrow> base_length (baseHeader v n @ r) = n"
  by (simp add: base_length_def rd32_def baseHeader_def sub_buf_def sint_int32)


section \<open>The client\<close>

record tcp_client =
  server_ip :: string
  server_port :: "16 word"
  server_timeout :: int
  cl_sock :: "sock option"
  cl_version :: "64 word"
  protocol_type :: "16 word"
  source_type :: "16 word"
  command_type :: "16 word"
  operate_type :: "16 word"
  request_buffer :: "bytes option"
  request_buffer_size :: int
  reply_buffer :: "bytes option"
  reply_buffer_size :: int

text \<open>The constructor leaves \<open>server_ip_\<close> unset; it is given here as the bytes it happens to hold.\<close>

definition QTcpClient :: "string \<Rightarrow> tcp_client" where
  "QTcpClient ip =
     \<lparr>server_ip = ip, server_port = TCP_DEFAULT_SERVER_PORT, server_timeout = TCP_DEFAULT_SERVER_TIMEOUT,
      cl_sock = None, cl_version = TCP_HEADER_VERSION, protocol_type = TCP_DEFAULT_PROTOCOL_TYPE,
      source_type = TCP_DEFAULT_SOURCE_TYPE, command_type = TCP_DEFAULT_COMMAND_TYPE,
      operate_type = TCP_DEFAULT_OPERATE_TYPE, request_buffer = None,
      request_buffer_size = int TCP_DEFAULT_REQUEST_SIZE, reply_buffer = None,
      reply_buffer_size = int TCP_DEFAULT_REPLY_SIZE\<rparr>"

text \<open>\<open>atoi\<close>: optional blanks and sign, then digits.\<close>

definition is_digit :: "char \<Rightarrow> bool" where
  "is_digit c \<longleftrightarrow> 48 \<le> (of_char c :: nat) \<and> (of_char c :: nat) \<le> 57"

definition is_blank :: "char \<Rightarrow> bool" where
  "is_blank c \<longleftrightarrow> of_char c \<in> {9 :: nat, 10, 11, 12, 13, 32}"

definition digits_val :: "string \<Rightarrow> nat" where
  "digits_val s = foldl (\<lambda>acc c. acc * 10 + (of_char c - 48)) 0 (takeWhile is_digit s)"

definition str_int :: "string \<Rightarrow> int" where
  "str_int s =
     (case dropWhile is_blank s of
        CHR ''-'' # r \<Rightarrow> - int (digits_val r)
      | CHR ''+'' # r \<Rightarrow> int (digits_val r)
      | r \<Rightarrow> int (digits_val r))"

definition setHost_port :: "string \<Rightarrow> 16 word \<Rightarrow> tcp_client \<Rightarrow> tcp_client" where
  "setHost_port ip port c = c\<lparr>server_ip := ip, server_port := port\<rparr>"

text \<open>\<open>setHost(host)\<close> aborts (\<open>None\<close>) when there is no colon.\<close>

definition setHost :: "string \<Rightarrow> tcp_client \<Rightarrow> tcp_client option" where
  "setHost host c =
     (if CHR '':'' \<notin> set host then None
      else Some (c\<lparr>server_ip := takeWhile (\<lambda>x. x \<noteq> CHR '':'') host,
                   server_port := word_of_int (str_int (tl (dropWhile (\<lambda>x. x \<noteq> CHR '':'') host)))\<rparr>))"

definition setTimeout :: "int \<Rightarrow> tcp_client \<Rightarrow> tcp_client" where
  "setTimeout t c = c\<lparr>server_timeout := t\<rparr>"
definition setVersion :: "64 word \<Rightarrow> tcp_client \<Rightarrow> tcp_client" where
  "setVersion v c = c\<lparr>cl_version := v\<rparr>"
definition setProtocolType :: "16 word \<Rightarrow> tcp_client \<Rightarrow> tcp_client" where
  "setProtocolType t c = c\<lparr>protocol_type := t\<rparr>"
definition setSourceType :: "16 word \<Rightarrow> tcp_client \<Rightarrow> tcp_client" where
  "setSourceType t c = c\<lparr>source_type := t\<rparr>"
definition setCommandType :: "16 word \<Rightarrow> tcp_client \<Rightarrow> tcp_client" where
  "setCommandType t c = c\<lparr>command_type := t\<rparr>"
definition setOperateType :: "16 word \<Rightarrow> tcp_client \<Rightarrow> tcp_client" where
  "setOperateType t c = c\<lparr>operate_type := t\<rparr>"

text \<open>
  The request packet written into fresh memory.  An extension is sent only when it is present and
  not empty.  Note that the version field is the constant, not \<open>version_\<close>.
\<close>

definition has_extend :: "bytes option \<Rightarrow> bool" where
  "has_extend ext \<longleftrightarrow> (case ext of None \<Rightarrow> False | Some e \<Rightarrow> e \<noteq> [])"

definition packet_length :: "bytes \<Rightarrow> bytes option \<Rightarrow> nat" where
  "packet_length data ext =
     sizeof_requestHeader + 2
     + (if has_extend ext then 12 + length data + length (the ext) else 4 + length data)"

definition request_packet :: "tcp_client \<Rightarrow> bytes \<Rightarrow> bytes option \<Rightarrow> bytes \<Rightarrow> bytes" where
  "request_packet c data ext mem =
     (let packet_len = packet_length data ext;
          b1 = overwrite 0 (baseHeader TCP_HEADER_VERSION (int packet_len - 12)) mem;
          b2 = overwrite 12 (le16 (protocol_type c)) b1;
          b3 = overwrite 14 (le16 (source_type c)) b2;
          b4 = overwrite 30 (le16 (command_type c)) b3;
          b5 = overwrite 32 (le16 (operate_type c)) b4
      in if has_extend ext then
           let e = the ext;
               b6 = overwrite 34 (le32 (int32 (int (length data + length e + 8)))) b5;
               b7 = overwrite 38 (le32 (int32 (int (length data)))) b6;
               b8 = overwrite 42 data b7;
               b9 = overwrite (42 + length data) (le32 (int32 (int (length e)))) b8
           in overwrite (46 + length data) e b9
         else
           let b6 = overwrite 34 (le32 (int32 (int (length data)))) b5
           in overwrite 38 data b6)"

text \<open>
  The system calls behind the client: memory for \<open>n\<close> bytes, whether \<open>q_init_socket\<close> (which blocks
  \<open>SIGPIPE\<close>) and \<open>q_set_overtime\<close> succeed, and what \<open>q_connect_socket\<close> yields for an address.
\<close>

record net_env =
  env_alloc :: "nat \<Rightarrow> bytes option"
  env_init :: bool
  env_connect :: "string \<Rightarrow> 16 word \<Rightarrow> sock option"
  env_settime :: "int \<Rightarrow> bool"

text \<open>
  \<open>sendRequest\<close>.  The length of a C buffer is at most \<open>INT32_MAX\<close>; a packet that would be longer
  is out of the model's range and treated as a failed allocation.
\<close>

definition sendRequest :: "net_env \<Rightarrow> bytes option \<Rightarrow> bytes option \<Rightarrow> tcp_client \<Rightarrow> int \<times> tcp_client" where
  "sendRequest env ptr_data ext c =
     (case ptr_data of
        None \<Rightarrow> (TCP_ERR, c)
      | Some data \<Rightarrow>
         (let packet_len = packet_length data ext;
              c1 = c\<lparr>request_buffer_size := int packet_len\<rparr>
          in case (if int packet_len < 2 ^ 31 then env_alloc env packet_len else None) of
               None \<Rightarrow> (TCP_ERR_HEAP_ALLOC, c1\<lparr>request_buffer := None\<rparr>)
             | Some mem \<Rightarrow>
                (let pkt = request_packet c data ext mem;
                     c2 = c1\<lparr>request_buffer := Some pkt\<rparr>
                 in if \<not> env_init env then (TCP_ERR_SOCKET_INIT, c2)
                    else case env_connect env (server_ip c) (server_port c) of
                      None \<Rightarrow> (TCP_ERR_SOCKET_CONNECTION, c2)
                    | Some s \<Rightarrow>
                       if \<not> env_settime env (server_timeout c)
                       then (TCP_ERR_SOCKET_TIMEOUT, c2\<lparr>cl_sock := Some s\<rparr>)
                       else (case q_sendbuf pkt packet_len s of (r, s') \<Rightarrow>
                         (if r < 0 then TCP_ERR_SOCKET_SEND else TCP_OK, c2\<lparr>cl_sock := Some s'\<rparr>)))))"

record networkReply =
  status :: int
  rdata :: "bytes option"
  rlength :: int

definition fresh_reply :: networkReply where
  "fresh_reply = \<lparr>status = 0, rdata = None, rlength = 0\<rparr>"

text \<open>
  \<open>getReply\<close>.  The header is read into a local struct, all of which \<open>q_recvbuf\<close> fills when it
  succeeds.  \<open>base_header.length + sizeof(baseHeader)\<close> is computed in \<open>size_t\<close>; the length is
  positive at that point.  The reply's \<open>data\<close> points into the reply buffer.
\<close>

definition getReply :: "net_env \<Rightarrow> tcp_client \<Rightarrow> networkReply \<Rightarrow> int \<times> tcp_client \<times> networkReply" where
  "getReply env c reply =
     (case cl_sock c of
        None \<Rightarrow> (TCP_ERR_SOCKET_RECV, c, reply)
      | Some s \<Rightarrow>
         (case q_recvbuf sizeof_baseHeader (replicate 12 0) s of (r, hdr, s1) \<Rightarrow>
            let c1 = c\<lparr>cl_sock := Some s1\<rparr>; len = base_length hdr in
            if r < 0 then (TCP_ERR_SOCKET_RECV, c1, reply)
            else if base_version hdr \<noteq> TCP_HEADER_VERSION then (TCP_ERR_SOCKET_VERSION, c1, reply)
            else if len \<le> 0 \<or> len + 12 > 2 ^ 20 then (TCP_ERR_PACKET_LENGTH, c1, reply)
            else case env_alloc env (nat len) of
               None \<Rightarrow> (TCP_ERR_HEAP_ALLOC, c1\<lparr>reply_buffer_size := len, reply_buffer := None\<rparr>, reply)
             | Some mem \<Rightarrow>
                (case q_recvbuf (nat len) mem s1 of (r2, buf, s2) \<Rightarrow>
                  let c2 = c\<lparr>cl_sock := Some s2, reply_buffer_size := len, reply_buffer := Some buf\<rparr>;
                      reply1 = reply\<lparr>status := sint (rd32 buf 16)\<rparr> in
                  if r2 \<noteq> 0 then (TCP_ERR_SOCKET_RECV, c2, reply)
                  else if status reply1 = 0 \<and> len \<noteq> int sizeof_replyParam
                  then (TCP_OK, c2, reply1\<lparr>rlength := sint (rd32 buf 20), rdata := Some (drop 24 buf)\<rparr>)
                  else (TCP_OK, c2, reply1))))"


section \<open>The packet on the wire\<close>

lemma split_at: "n \<le> length xs \<Longrightarrow> \<exists>a b. xs = a @ b \<and> length a = n"
  by (metis append_take_drop_id length_take min.absorb2)

lemma overwrite_piece:
  "length a = off \<Longrightarrow> length b = length src \<Longrightarrow> overwrite off src (a @ b @ r) = a @ src @ r"
  by (simp add: overwrite_def)

definition request_bytes :: "tcp_client \<Rightarrow> bytes \<Rightarrow> bytes \<Rightarrow> bytes" where
  "request_bytes c reserved data =
     le16 (protocol_type c) @ le16 (source_type c) @ reserved @ le16 (command_type c)
     @ le16 (operate_type c) @ le32 (int32 (int (length data))) @ data"

lemma length_request_bytes [simp, layout_simps]:
  "length reserved = 14 \<Longrightarrow> length (request_bytes c reserved data) = 26 + length data"
  by (simp add: request_bytes_def)

lemma request_packet_plain:
  assumes "38 + length data \<le> length mem"
  shows "\<exists>reserved rest. length reserved = 14 \<and>
    request_packet c data None mem =
      baseHeader TCP_HEADER_VERSION (26 + int (length data)) @ request_bytes c reserved data @ rest"
proof -
  obtain m0 r0 where 0: "mem = m0 @ r0" "length m0 = 12" using split_at [of 12 mem] assms by auto
  obtain m1 r1 where 1: "r0 = m1 @ r1" "length m1 = 2" using split_at [of 2 r0] assms 0 by auto
  obtain m2 r2 where 2: "r1 = m2 @ r2" "length m2 = 2" using split_at [of 2 r1] assms 0 1 by auto
  obtain m3 r3 where 3: "r2 = m3 @ r3" "length m3 = 14" using split_at [of 14 r2] assms 0 1 2 by auto
  obtain m4 r4 where 4: "r3 = m4 @ r4" "length m4 = 2" using split_at [of 2 r3] assms 0 1 2 3 by auto
  obtain m5 r5 where 5: "r4 = m5 @ r5" "length m5 = 2" using split_at [of 2 r4] assms 0 1 2 3 4 by auto
  obtain m6 r6 where 6: "r5 = m6 @ r6" "length m6 = 4" using split_at [of 4 r5] assms 0 1 2 3 4 5 by auto
  obtain m7 r7 where 7: "r6 = m7 @ r7" "length m7 = length data"
    using split_at [of "length data" r6] assms 0 1 2 3 4 5 6 by auto
  let ?h = "baseHeader TCP_HEADER_VERSION (26 + int (length data))"
  let ?p = "le16 (protocol_type c)" and ?s = "le16 (source_type c)" and ?c = "le16 (command_type c)"
    and ?o = "le16 (operate_type c)" and ?n = "le32 (int32 (int (length data)))"
  have mem: "mem = [] @ m0 @ (m1 @ m2 @ m3 @ m4 @ m5 @ m6 @ m7 @ r7)"
    by (simp add: 0 1 2 3 4 5 6 7)
  have s0: "overwrite 0 ?h mem = ?h @ m1 @ (m2 @ m3 @ m4 @ m5 @ m6 @ m7 @ r7)"
    unfolding mem by (subst overwrite_piece) (simp_all add: 0(2))
  have s1: "overwrite 12 ?p (overwrite 0 ?h mem) = (?h @ ?p) @ m2 @ (m3 @ m4 @ m5 @ m6 @ m7 @ r7)"
    unfolding s0 by (subst overwrite_piece) (simp_all add: 1(2))
  have s2: "overwrite 14 ?s (overwrite 12 ?p (overwrite 0 ?h mem)) =
      (?h @ ?p @ ?s @ m3) @ m4 @ (m5 @ m6 @ m7 @ r7)"
    unfolding s1 by (subst overwrite_piece) (simp_all add: 2(2))
  have s3: "overwrite 30 ?c (overwrite 14 ?s (overwrite 12 ?p (overwrite 0 ?h mem))) =
      (?h @ ?p @ ?s @ m3 @ ?c) @ m5 @ (m6 @ m7 @ r7)"
    unfolding s2 by (subst overwrite_piece) (simp_all add: 3(2) 4(2))
  have s4: "overwrite 32 ?o (overwrite 30 ?c (overwrite 14 ?s (overwrite 12 ?p (overwrite 0 ?h mem)))) =
      (?h @ ?p @ ?s @ m3 @ ?c @ ?o) @ m6 @ (m7 @ r7)"
    unfolding s3 by (subst overwrite_piece) (simp_all add: 3(2) 5(2))
  have s5: "overwrite 34 ?n (overwrite 32 ?o (overwrite 30 ?c (overwrite 14 ?s (overwrite 12 ?p (overwrite 0 ?h mem))))) =
      (?h @ ?p @ ?s @ m3 @ ?c @ ?o @ ?n) @ m7 @ r7"
    unfolding s4 by (subst overwrite_piece) (simp_all add: 3(2) 6(2))
  have s6: "overwrite 38 data (overwrite 34 ?n (overwrite 32 ?o (overwrite 30 ?c (overwrite 14 ?s
      (overwrite 12 ?p (overwrite 0 ?h mem)))))) = (?h @ ?p @ ?s @ m3 @ ?c @ ?o @ ?n) @ data @ r7"
    unfolding s5 by (subst overwrite_piece) (simp_all add: 3(2) 7(2))
  have "int (packet_length data None) - 12 = 26 + int (length data)"
    by (simp add: packet_length_def has_extend_def)
  then have "request_packet c data None mem = ?h @ request_bytes c m3 data @ r7"
    unfolding request_packet_def Let_def using s6 by (simp add: has_extend_def request_bytes_def)
  with 3(2) show ?thesis by blast
qed

text \<open>What the peer of a client sees: the whole packet, or a failure code.\<close>

lemma sendRequest_ok:
  assumes alloc: "env_alloc env (38 + length data) = Some mem" "38 + length data \<le> length mem"
    and "env_init env" and "env_connect env (server_ip c) (server_port c) = Some s"
    and "env_settime env (server_timeout c)" and "tx_healthy (stx s)"
    and "38 + int (length data) < 2 ^ 31"
  shows "\<exists>reserved c' s'. length reserved = 14 \<and> sendRequest env (Some data) None c = (TCP_OK, c')
    \<and> cl_sock c' = Some s' \<and> srx s' = srx s
    \<and> sout s' = sout s @ baseHeader TCP_HEADER_VERSION (26 + int (length data)) @ request_bytes c reserved data"
proof -
  obtain reserved rest where pk: "length reserved = 14"
    "request_packet c data None mem =
      baseHeader TCP_HEADER_VERSION (26 + int (length data)) @ request_bytes c reserved data @ rest"
    using request_packet_plain [OF alloc(2)] by blast
  let ?pkt = "request_packet c data None mem"
  have len: "packet_length data None = 38 + length data" by (simp add: packet_length_def has_extend_def)
  have "38 + length data \<le> length ?pkt" unfolding pk(2) using pk(1) by simp
  then obtain tx' where tx: "q_sendbuf ?pkt (38 + length data) s =
      (0, s\<lparr>stx := tx', sout := sout s @ take (38 + length data) ?pkt\<rparr>)"
    using q_sendbuf_healthy [OF assms(6), of "38 + length data" ?pkt] by auto
  have tk: "take (38 + length data) ?pkt =
      baseHeader TCP_HEADER_VERSION (26 + int (length data)) @ request_bytes c reserved data"
    unfolding pk(2) using pk(1) by simp
  show ?thesis
    by (rule exI [of _ reserved]) (use assms pk(1) in \<open>simp add: sendRequest_def len Let_def tx tk\<close>)
qed


section \<open>The reply at the client\<close>

definition reply_bytes :: "bytes \<Rightarrow> 16 word \<Rightarrow> bytes \<Rightarrow> bytes" where
  "reply_bytes reserved cmd data =
     reserved @ le16 cmd @ le32 (int32 0) @ le32 (int32 (int (length data))) @ data"

lemma length_reply_bytes [simp, layout_simps]:
  "length reserved = 14 \<Longrightarrow> length (reply_bytes reserved cmd data) = 24 + length data"
  by (simp add: reply_bytes_def)

lemma getReply_packet:
  assumes s: "cl_sock c = Some s" "rx_data (srx s) = baseHeader TCP_HEADER_VERSION (int (length body)) @ body"
    and body: "body \<noteq> []" "length body + 12 \<le> 2 ^ 20"
    and alloc: "env_alloc env (length body) = Some mem" "length body \<le> length mem"
  shows "\<exists>c' rest. (let buf = body @ rest; reply1 = reply\<lparr>status := sint (rd32 buf 16)\<rparr> in
     getReply env c reply =
       (TCP_OK, c', if status reply1 = 0 \<and> length body \<noteq> 20
                    then reply1\<lparr>rlength := sint (rd32 buf 20), rdata := Some (drop 24 buf)\<rparr> else reply1))"
proof -
  let ?h = "baseHeader TCP_HEADER_VERSION (int (length body))"
  obtain s1 where r1: "q_recvbuf 12 (replicate 12 0) s = (0, ?h, s1)" "rx_data (srx s1) = body"
    using q_recvbuf_ok [of 12 "replicate 12 0" s] s(2) by (auto simp: overwrite_def)
  obtain s2 where r2: "q_recvbuf (length body) mem s1 = (0, overwrite 0 body mem, s2)"
    using q_recvbuf_ok [of "length body" mem s1] body(1) alloc(2) r1(2) by auto
  have hv: "base_version ?h = TCP_HEADER_VERSION" using base_version_header [where r = "[]"] by simp
  have "is_int32 (int (length body))" using body(2) by (simp add: is_int32_def)
  then have hl: "base_length ?h = int (length body)" using base_length_header [where r = "[]"] by simp
  have "overwrite 0 body mem = body @ drop (length body) mem" by (simp add: overwrite_def)
  moreover have "0 < length body" "\<not> 2 ^ 20 < int (length body) + 12" using body by auto
  ultimately show ?thesis
    by (intro exI [of _ "c\<lparr>cl_sock := Some s2, reply_buffer_size := int (length body),
          reply_buffer := Some (body @ drop (length body) mem)\<rparr>"] exI [of _ "drop (length body) mem"])
      (use body(1) in \<open>simp add: getReply_def s(1) r1(1) hv hl alloc(1) r2 Let_def\<close>)
qed

lemma getReply_data:
  assumes s: "cl_sock c = Some s" "rx_data (srx s) =
      baseHeader TCP_HEADER_VERSION (24 + int (length data)) @ reply_bytes reserved cmd data"
    and "length reserved = 14" "length data + 36 \<le> 2 ^ 20"
    and alloc: "env_alloc env (24 + length data) = Some mem" "24 + length data \<le> length mem"
  shows "\<exists>c' reply'. getReply env c reply = (TCP_OK, c', reply') \<and> status reply' = 0
    \<and> rlength reply' = int (length data) \<and> take (length data) (the (rdata reply')) = data"
proof -
  let ?body = "reply_bytes reserved cmd data"
  have len: "length ?body = 24 + length data" using assms(3) by simp
  have rx: "rx_data (srx s) = baseHeader TCP_HEADER_VERSION (int (length ?body)) @ ?body"
    and sz: "length ?body + 12 \<le> 2 ^ 20" and al: "env_alloc env (length ?body) = Some mem"
    and le: "length ?body \<le> length mem"
    using assms len by simp_all
  have ne: "?body \<noteq> []" using len by auto
  obtain c' rest where g: "let buf = ?body @ rest; reply1 = reply\<lparr>status := sint (rd32 buf 16)\<rparr> in
     getReply env c reply =
       (TCP_OK, c', if status reply1 = 0 \<and> length ?body \<noteq> 20
                    then reply1\<lparr>rlength := sint (rd32 buf 20), rdata := Some (drop 24 buf)\<rparr> else reply1)"
    using getReply_packet [OF s(1) rx ne sz al le, of reply] by blast
  have st: "rd32 (?body @ rest) 16 = int32 0" and ln: "rd32 (?body @ rest) 20 = int32 (int (length data))"
    and dt: "drop 24 ?body = data"
    using assms(3) by (simp_all add: rd32_def reply_bytes_def sub_buf_def)
  have "sint (int32 (int (length data))) = int (length data)"
    using assms(4) by (intro sint_int32) (simp add: is_int32_def)
  moreover have "sint (int32 0) = 0" by (simp add: int32_def)
  ultimately show ?thesis using g by (simp add: Let_def st ln dt len)
qed

lemma getReply_status:
  assumes s: "cl_sock c = Some s" "rx_data (srx s) = replyHeader 20 reserved cmd st"
    and "length reserved = 14" and "is_int32 st"
    and alloc: "env_alloc env 20 = Some mem" "20 \<le> length mem"
  shows "\<exists>c'. getReply env c reply = (TCP_OK, c', reply\<lparr>status := st\<rparr>)"
proof -
  let ?body = "reserved @ le16 cmd @ le32 (int32 st)"
  have len: "length ?body = 20" using assms(3) by simp
  have rx: "rx_data (srx s) = baseHeader TCP_HEADER_VERSION (int (length ?body)) @ ?body"
    using s(2) len by (simp add: replyHeader_def)
  have sz: "length ?body + 12 \<le> 2 ^ 20" and al: "env_alloc env (length ?body) = Some mem"
    and le: "length ?body \<le> length mem" using len alloc by (simp_all del: length_append)
  have ne: "?body \<noteq> []" using len by auto
  obtain c' rest where g: "let buf = ?body @ rest; reply1 = reply\<lparr>status := sint (rd32 buf 16)\<rparr> in
     getReply env c reply =
       (TCP_OK, c', if status reply1 = 0 \<and> length ?body \<noteq> 20
                    then reply1\<lparr>rlength := sint (rd32 buf 20), rdata := Some (drop 24 buf)\<rparr> else reply1)"
    using getReply_packet [OF s(1) rx ne sz al le, of reply] by blast
  have "rd32 (?body @ rest) 16 = int32 st"
    using assms(3) by (simp add: rd32_def sub_buf_def)
  then show ?thesis using g len assms(4) by (simp add: Let_def sint_int32)
qed

end
