(* ===== verification/Idfs_Server.thy ===== *)
theory Idfs_Server
  imports Tcp_Protocol Http_Client Mongo_Client Md5_Correct
begin

text \<open>
  \<open>IDFSServer\<close>: the image server itself.  Its state is the configuration, the disk, the database
  and the mutex that guards the database; MongoDB, libcurl, the image decoder and the contents of
  fresh memory come in through an environment record.  \<open>Q_ASSERT\<close> and \<open>Q_CHECK_PTR\<close> abort the whole
  process, which is an outcome of its own.
\<close>

section \<open>State and environment\<close>

datatype 'a outcome = Returned 'a | Aborted

fun bind_outcome :: "'a outcome \<Rightarrow> ('a \<Rightarrow> 'b outcome) \<Rightarrow> 'b outcome" where
  "bind_outcome (Returned x) f = f x"
| "bind_outcome Aborted f = Aborted"

record 'd idfs =
  img_path :: string
  img_dir :: string
  img_subdir_num :: int
  mongo_collection :: string
  disk :: fs
  db :: 'd
  mongo_locked :: bool

text \<open>
  \<open>env_imread\<close> decodes the contents of an image file into width and height; \<open>env_page\<close> is the
  memory returned for the download buffer; the MD5 objects and the text buffers start out with
  arbitrary memory.
\<close>

record ('d, 'c) idfs_env =
  env_mongo :: "'d mongo_driver"
  env_now :: "64 word"
  env_curl :: "'c curl"
  env_imread :: "bytes \<Rightarrow> (int \<times> int) option"
  env_page :: "bytes option"
  env_heap :: "nat \<Rightarrow> char"
  env_md5 :: md5_ctx
  env_qmd5 :: qmd5_ctx

definition IDFS_IMG_MAX_SIZE :: nat where "IDFS_IMG_MAX_SIZE = 3 * 2 ^ 20"

definition iid_of :: "('d, 'c) idfs_env \<Rightarrow> bytes \<Rightarrow> 64 word" where
  "iid_of env data = MD5Bits64 (env_qmd5 env) data"

definition md5_of :: "('d, 'c) idfs_env \<Rightarrow> bytes \<Rightarrow> string" where
  "md5_of env data = md5 (env_md5 env) data"


section \<open>Storing an image\<close>

definition get_image_type_name :: "nat \<Rightarrow> string" where
  "get_image_type_name type =
     (if type = 0 then ''jpg'' else if type = 1 then ''png'' else if type = 2 then ''bmp''
      else if type = 3 then ''gif'' else if type = 4 then ''tif'' else ''jpg'')"

definition save_image :: "string option \<Rightarrow> bytes option \<Rightarrow> fs \<Rightarrow> int \<times> fs" where
  "save_image path data d =
     (case (path, data) of
        (Some p, Some bs) \<Rightarrow>
          if bs = [] then (-1, d)
          else if sys_access p d \<noteq> 0 then
            (case fopen_w p d of
               None \<Rightarrow> (-2, d)
             | Some d1 \<Rightarrow> (case fwrite_at (path_of p) 0 bs d1 of (ok, k, d2) \<Rightarrow> (if ok then 0 else -3, d2)))
          else (1, d)
      | _ \<Rightarrow> (-1, d))"

definition getImageSize :: "(bytes \<Rightarrow> (int \<times> int) option) \<Rightarrow> string \<Rightarrow> fs \<Rightarrow> (int \<times> int) option" where
  "getImageSize imread p d =
     (case fopen_r p d of None \<Rightarrow> None | Some c \<Rightarrow> imread c)"

text \<open>The texts that \<open>q_format\<close> is asked to produce.\<close>

definition image_file_path :: "('d, 'c) idfs_env \<Rightarrow> string \<Rightarrow> nat \<Rightarrow> 64 word \<Rightarrow> string" where
  "image_file_path env dir type iid =
     q_format (env_heap env)
       (dir @ ''/'' @ pad0 3 (dec_nat (unat iid mod 1000)) @ ''/'' @ hex_nat (unat iid) @ ''.''
        @ get_image_type_name type)"

definition image_local_path :: "('d, 'c) idfs_env \<Rightarrow> string \<Rightarrow> string \<Rightarrow> string" where
  "image_local_path env path fpath = q_format (env_heap env) (path @ ''/'' @ cstr fpath)"

definition image_size_text :: "('d, 'c) idfs_env \<Rightarrow> int \<Rightarrow> int \<Rightarrow> string" where
  "image_size_text env w h = q_format (env_heap env) (dec_int w @ ''*'' @ dec_int h)"

definition mutex_lock :: "'d idfs \<Rightarrow> 'd idfs" where
  "mutex_lock st = st\<lparr>mongo_locked := True\<rparr>"

definition mutex_unlock :: "'d idfs \<Rightarrow> 'd idfs" where
  "mutex_unlock st = st\<lparr>mongo_locked := False\<rparr>"

text \<open>
  The critical section, which both branches of \<open>server_main\<close> contain: look the identifier up and
  read path and size from the database, or store the file, decode its size and insert the record.
  Every exit releases the mutex.  \<open>select\<close> returns a \<open>bool\<close>, which never equals \<open>MONGO_ERR\<close>.
\<close>

definition register_image :: "('d, 'c) idfs_env \<Rightarrow> nat \<Rightarrow> bytes \<Rightarrow> 'd idfs \<Rightarrow>
    (int + string \<times> string) \<times> 'd idfs" where
  "register_image env type data st0 =
     (let st = mutex_lock st0; drv = env_mongo env; col = mongo_collection st;
          iid = iid_of env data; imgid = q_to_string iid
      in case mongo_exists drv col ''imgid'' imgid (db st) of
        (True, db1) \<Rightarrow>
          (case mongo_select2 drv col (Some ''imgid'') (Some imgid) (Some ''imgpath'') [] (Some ''imgsize'') [] db1 of
             (found, fpath, img_size, db2) \<Rightarrow>
               if (of_bool found :: int) = MONGO_ERR then (Inl (-54), mutex_unlock (st\<lparr>db := db2\<rparr>))
               else (Inr (fpath, img_size), mutex_unlock (st\<lparr>db := db2\<rparr>)))
      | (False, db1) \<Rightarrow>
          (let fpath = image_file_path env (img_dir st) type iid;
               local_path = cstr (image_local_path env (img_path st) fpath)
           in case save_image (Some local_path) (Some data) (disk st) of (r, d1) \<Rightarrow>
             if r < 0 then (Inl (-55), mutex_unlock (st\<lparr>db := db1, disk := d1\<rparr>))
             else case getImageSize (env_imread env) local_path d1 of
               None \<Rightarrow> (Inl (-56), mutex_unlock (st\<lparr>db := db1, disk := d1\<rparr>))
             | Some (width, height) \<Rightarrow>
               (let img_size = image_size_text env width height
                in case mongo_insert2 drv col (env_now env) (Some ''imgid'') (Some imgid) (Some ''imgpath'')
                       (Some (cstr fpath)) (Some ''imgsize'') (Some (cstr img_size)) db1 of
                 (r2, db2) \<Rightarrow>
                   if r2 = MONGO_ERR then (Inl (-57), mutex_unlock (st\<lparr>db := db2, disk := d1\<rparr>))
                   else (Inr (fpath, img_size), mutex_unlock (st\<lparr>db := db2, disk := d1\<rparr>)))))"


section \<open>The reply document\<close>

text \<open>
  The \<open>snprintf\<close> calls that append to the output, each with the code returned when the text does
  not fit.  The result is the end position or the code, and the buffer.
\<close>

fun emit_all :: "(string \<times> int) list \<Rightarrow> nat \<Rightarrow> bytes \<Rightarrow> (int + nat) \<times> bytes" where
  "emit_all [] pos out = (Inr pos, out)"
| "emit_all ((t, err) # rest) pos out =
     (let out' = snprintf_at pos t out
      in if length out \<le> pos + length t then (Inl err, out') else emit_all rest (pos + length t) out')"

definition reply_head :: "(string \<times> int) list" where
  "reply_head = [(''<?xml version='' @ [CHR 0x22] @ ''1.0'' @ [CHR 0x22] @ '' encoding='' @ [CHR 0x22] @ ''UTF-8''
                   @ [CHR 0x22] @ ''?>'' @ [CHR 0x0A], -51),
                 (''<doc>'' @ [CHR 0x0A], -52), (''<base>'' @ [CHR 0x0A], -53)]"

definition cdata :: "string \<Rightarrow> string \<Rightarrow> string" where
  "cdata tag t = ''<'' @ tag @ ''><![CDATA['' @ t @ '']]></'' @ tag @ ''>'' @ [CHR 0x0A]"

definition reply_tail :: "64 word \<Rightarrow> string \<Rightarrow> string \<Rightarrow> string \<Rightarrow> (string \<times> int) list" where
  "reply_tail iid img_md5 fpath img_size =
     [(cdata ''imgid'' (dec_nat (unat iid)), -58), (cdata ''imgmd5'' (cstr img_md5), -59),
      (cdata ''imgpath'' (cstr fpath), -60), (cdata ''imgsize'' (cstr img_size), -61),
      (''</base>'' @ [CHR 0x0A], -62), (''</doc>'', -63)]"

text \<open>From the point where the image bytes are at hand to the end of \<open>server_main\<close>.\<close>

definition finish_image :: "('d, 'c) idfs_env \<Rightarrow> nat \<Rightarrow> bytes \<Rightarrow> nat \<Rightarrow> bytes \<Rightarrow> 'd idfs \<Rightarrow>
    int \<times> bytes \<times> 'd idfs" where
  "finish_image env type data pos out st =
     (case register_image env type data st of
        (Inl err, st') \<Rightarrow> (err, out, st')
      | (Inr (fpath, img_size), st') \<Rightarrow>
          (case emit_all (reply_tail (iid_of env data) (md5_of env data) fpath img_size) pos out of
             (Inl err, out') \<Rightarrow> (err, out', st')
           | (Inr n, out') \<Rightarrow> (int n, out', st')))"

definition fetch_image :: "('d, 'c) idfs_env \<Rightarrow> bytes \<Rightarrow> bytes \<Rightarrow> int + bytes" where
  "fetch_image env data page =
     (let request = text_of data;
          referer = q_substr request ''<referer><![CDATA['' '']]></referer>'';
          user_agent = q_substr request ''<user_agent><![CDATA['' '']]></user_agent>'';
          src = q_substr request ''<src><![CDATA['' '']]></src>'';
          cu = env_curl env
      in case net_init cu of
        (r, None) \<Rightarrow> Inl (-531)
      | (r, Some m0) \<Rightarrow>
          (let m1 = snd (setReferer cu (Some (cstr referer)) m0);
               m2 = snd (setUserAgent cu (Some (cstr user_agent)) m1);
               m3 = snd (setRedirectionEnabled cu (-1) m2)
           in case doHttpGet cu (Some (cstr src)) 8000 (Some page) (int IDFS_IMG_MAX_SIZE) m3 of
             (ret, m4) \<Rightarrow> if ret < 0 then Inl ret else Inr (take (nat ret) (ptr_page m4))))"

definition server_main :: "('d, 'c) idfs_env \<Rightarrow> 16 word \<Rightarrow> bytes \<Rightarrow> bytes \<Rightarrow> 'd idfs \<Rightarrow>
    (int \<times> bytes \<times> 'd idfs) outcome" where
  "server_main env type data out st =
     (if data = [] \<or> out = [] then Aborted
      else if unat type < 5 then
        (case emit_all reply_head 0 out of
           (Inl err, out') \<Rightarrow> Returned (err, out', st)
         | (Inr pos, out') \<Rightarrow> Returned (finish_image env (unat type) data pos out' st))
      else if type = 64 then
        (case emit_all reply_head 0 out of
           (Inl err, out') \<Rightarrow> Returned (err, out', st)
         | (Inr pos, out') \<Rightarrow>
             (case env_page env of
                None \<Rightarrow> (case net_init (env_curl env) of (_, None) \<Rightarrow> Returned (-531, out', st) | _ \<Rightarrow> Aborted)
              | Some page \<Rightarrow>
                  (case fetch_image env data page of
                     Inl err \<Rightarrow> Returned (err, out', st)
                   | Inr img \<Rightarrow> Returned (finish_image env 64 img pos out' st))))
      else Returned (TCP_ERR_OPERATE_TYPE, out, st))"


section \<open>Requests\<close>

definition server_init :: int where "server_init = TCP_OK"
definition server_free :: int where "server_free = TCP_OK"

definition server_header :: "bytes \<Rightarrow> int \<Rightarrow> int outcome" where
  "server_header header_buffer header_len =
     (if header_len \<noteq> int sizeof_baseHeader then Aborted
      else if base_version header_buffer \<noteq> TCP_HEADER_VERSION then Returned TCP_ERR_SOCKET_VERSION
      else Returned (base_length header_buffer))"

text \<open>
  \<open>server_process\<close> on a request buffer whose first \<open>request_len\<close> bytes were received (what follows
  them is left from earlier requests) and a reply buffer of \<open>reply_size = length reply\<close> bytes.
\<close>

definition server_process :: "('d, 'c) idfs_env \<Rightarrow> bytes \<Rightarrow> int \<Rightarrow> bytes \<Rightarrow> 'd idfs \<Rightarrow>
    (int \<times> bytes \<times> 'd idfs) outcome" where
  "server_process env request request_len reply st =
     (if request_len \<le> 0 \<or> reply = [] then Aborted
      else if rd16 request 0 \<noteq> TCP_DEFAULT_PROTOCOL_TYPE then Returned (TCP_ERR_PROTOCOL_TYPE, reply, st)
      else if rd16 request 2 \<noteq> TCP_DEFAULT_COMMAND_TYPE then Returned (TCP_ERR_SOURCE_TYPE, reply, st)
      else if rd16 request 18 = TCP_DEFAULT_OPERATE_TYPE then
        (let operate = rd16 request 20; data_len = sint (rd32 request 22)
         in if 0 < data_len \<and> 26 + data_len = request_len then
              (let data = sub_buf 26 (nat data_len) request;
                   reply1 = overwrite 16 (le32 (int32 0)) reply;
                   reply2 = overwrite 14 (le16 (rd16 request 18)) reply1
               in bind_outcome (server_main env operate data (drop 24 reply2) st) (\<lambda>(ret, out, st').
                    let reply3 = take 24 reply2 @ out
                    in if ret < 0 then Returned (ret, reply3, st')
                       else Returned (24 + ret, overwrite 20 (le32 (int32 ret)) reply3, st')))
            else Returned (TCP_ERR_DATA_LENGTH, reply, st))
      else Returned (TCP_ERR_COMMAND_TYPE, reply, st))"


section \<open>What the reply contains\<close>

definition texts_of :: "(string \<times> int) list \<Rightarrow> string" where
  "texts_of parts = concat (map fst parts)"

lemma emit_all_length: "emit_all parts pos out = (r, out') \<Longrightarrow> length out' = length out"
  by (induction parts arbitrary: pos out) (fastforce simp: Let_def split: if_splits)+

lemma emit_all_fits:
  "pos + length (texts_of parts) < length out \<Longrightarrow>
   \<exists>out'. emit_all parts pos out = (Inr (pos + length (texts_of parts)), out')
     \<and> take (pos + length (texts_of parts)) out' = take pos out @ bytes_of (texts_of parts)
     \<and> length out' = length out"
proof (induction parts arbitrary: pos out)
  case Nil
  then show ?case by (simp add: texts_of_def bytes_of_def)
next
  case (Cons part rest)
  obtain t err where part: "part = (t, err)" by fastforce
  have tx: "texts_of (part # rest) = t @ texts_of rest" by (simp add: texts_of_def part)
  let ?out = "snprintf_at pos t out"
  have "pos + length t + length (texts_of rest) < length ?out" using Cons.prems by (simp add: tx)
  from Cons.IH [OF this] obtain out' where
    "emit_all rest (pos + length t) ?out = (Inr (pos + length t + length (texts_of rest)), out')"
    "take (pos + length t + length (texts_of rest)) out' =
       take (pos + length t) ?out @ bytes_of (texts_of rest)" "length out' = length ?out" by blast
  moreover have "take (pos + length t) ?out = take pos out @ bytes_of t"
    using Cons.prems by (intro snprintf_at_fits) (simp add: tx)
  ultimately show ?case using Cons.prems by (simp add: part tx [unfolded part] add.assoc)
qed

text \<open>Nothing is reported as written that did not fit.\<close>

lemma emit_all_Inr:
  "emit_all parts pos out = (Inr n, out') \<Longrightarrow> pos < length out \<Longrightarrow>
     n = pos + length (texts_of parts) \<and> n < length out"
proof (induction parts arbitrary: pos out)
  case (Cons part rest)
  obtain t err where part: "part = (t, err)" by fastforce
  have fit: "pos + length t < length out"
    "emit_all rest (pos + length t) (snprintf_at pos t out) = (Inr n, out')"
    using Cons.prems by (auto simp: part Let_def split: if_splits)
  with Cons.IH [OF fit(2)] show ?case by (simp add: part texts_of_def)
qed (simp add: texts_of_def)

lemma emit_all_Inl:
  "emit_all parts pos out = (Inl e, out') \<Longrightarrow> e \<in> snd ` set parts"
  by (induction parts arbitrary: pos out) (fastforce simp: Let_def split: if_splits)+

lemma reply_codes_neg:
  "e \<in> snd ` set reply_head \<Longrightarrow> e < 0" "e \<in> snd ` set (reply_tail i m p s) \<Longrightarrow> e < 0"
  by (auto simp: reply_head_def reply_tail_def)


text \<open>Every exit of the critical section releases the mutex and leaves the configuration alone.\<close>

lemmas register_splits = prod.splits bool.splits option.splits sum.splits if_splits

lemma register_image_frame:
  assumes "register_image env type data st = (r, st')"
  shows "\<not> mongo_locked st'" and "img_path st' = img_path st" and "img_dir st' = img_dir st"
    and "mongo_collection st' = mongo_collection st" and "img_subdir_num st' = img_subdir_num st"
  using assms
  by (auto simp: register_image_def Let_def mutex_lock_def mutex_unlock_def split: register_splits)

lemma of_bool_not_ERR [simp]: "(of_bool b :: int) \<noteq> MONGO_ERR"
  by (cases b) (simp_all add: MONGO_ERR_def)

lemma register_image_codes:
  "register_image env type data st = (Inl e, st') \<Longrightarrow> e \<in> {-55, -56, -57}"
  by (auto simp: register_image_def Let_def split: register_splits)

lemma fetch_image_code: "fetch_image env data page = Inl e \<Longrightarrow> e < 0"
  by (auto simp: fetch_image_def Let_def split: register_splits)

lemma finish_image_bounds:
  assumes "finish_image env type data pos out st = (n, out', st')" and "pos < length out"
  shows "n < int (length out)" and "length out' = length out" and "\<not> mongo_locked st'"
    and "n < 0 \<or> (\<exists>p s. register_image env type data st = (Inr (p, s), st')
       \<and> nat n = pos + length (texts_of (reply_tail (iid_of env data) (md5_of env data) p s)))"
proof -
  obtain r st1 where reg: "register_image env type data st = (r, st1)" by fastforce
  note fr = register_image_frame(1) [OF reg]
  have "n < int (length out) \<and> length out' = length out \<and> \<not> mongo_locked st'
    \<and> (n < 0 \<or> (\<exists>p s. register_image env type data st = (Inr (p, s), st')
       \<and> nat n = pos + length (texts_of (reply_tail (iid_of env data) (md5_of env data) p s))))"
  proof (cases r)
    case (Inl e)
    then have "e < 0" using register_image_codes reg by fastforce
    with Inl assms fr show ?thesis by (auto simp: finish_image_def reg)
  next
    case (Inr ps)
    obtain p s where ps: "ps = (p, s)" by fastforce
    let ?parts = "reply_tail (iid_of env data) (md5_of env data) p s"
    obtain e out1 where em: "emit_all ?parts pos out = (e, out1)" by fastforce
    show ?thesis
    proof (cases e)
      case (Inl err)
      with emit_all_Inl [of ?parts pos out err out1] em have "err < 0"
        using reply_codes_neg(2) by blast
      with assms fr Inl em emit_all_length [OF em] show ?thesis
        by (auto simp: finish_image_def reg Inr ps)
    next
      case e: (Inr k)
      with emit_all_Inr [OF em [unfolded e] assms(2)] assms(1) fr emit_all_length [OF em] em
      show ?thesis by (auto simp: finish_image_def reg Inr ps)
    qed
  qed
  then show "n < int (length out)" and "length out' = length out" and "\<not> mongo_locked st'"
    and "n < 0 \<or> (\<exists>p s. register_image env type data st = (Inr (p, s), st')
       \<and> nat n = pos + length (texts_of (reply_tail (iid_of env data) (md5_of env data) p s)))"
    by auto
qed

lemma server_main_bounds:
  assumes "server_main env type data out st = Returned (n, out', st')"
    and "\<not> mongo_locked st"
  shows "n < int (length out) \<and> length out' = length out \<and> \<not> mongo_locked st'"
proof -
  obtain e out1 where em: "emit_all reply_head 0 out = (e, out1)" by fastforce
  note len = emit_all_length [OF em]
  have fin: "n < int (length out) \<and> length out' = length out \<and> \<not> mongo_locked st'"
    if f: "finish_image env t d pos out1 st = (n, out', st')" and e: "e = Inr pos" and "out \<noteq> []" for t d pos
  proof -
    have "pos < length out1"
      using emit_all_Inr [OF em [unfolded e]] \<open>out \<noteq> []\<close> len by simp
    from finish_image_bounds(1-3) [OF f this] show ?thesis using len by simp
  qed
  have err: "err < 0" if "e = Inl err" for err
    using emit_all_Inl [OF em [unfolded that]] reply_codes_neg(1) by blast
  show ?thesis
    using assms fin err len fetch_image_code
    by (fastforce simp: server_main_def em TCP_ERR_OPERATE_TYPE_def split: register_splits)
qed

end
