(* ===== verification/Idfs_Store.thy ===== *)
theory Idfs_Store
  imports Idfs_Server
begin

text \<open>
  The image store: what the disk and the database say about each other.  The invariant is that
  every record names a file that is there, whose contents have the record's identifier and decode
  to the record's size, and that every file under an image name has the identifier in its name.
\<close>

section \<open>Image paths\<close>

definition cfg_ok :: "'d idfs \<Rightarrow> bool" where
  "cfg_ok st \<longleftrightarrow> img_path st \<noteq> [] \<and> CHR 0x00 \<notin> set (img_path st) \<and> CHR 0x00 \<notin> set (img_dir st)
     \<and> length (img_path st) + length (img_dir st) \<le> 990"

definition file_text :: "string \<Rightarrow> nat \<Rightarrow> 64 word \<Rightarrow> string" where
  "file_text dir type iid =
     dir @ ''/'' @ pad0 3 (dec_nat (unat iid mod 1000)) @ ''/'' @ hex_nat (unat iid) @ ''.''
     @ get_image_type_name type"

definition image_path :: "'d idfs \<Rightarrow> nat \<Rightarrow> 64 word \<Rightarrow> path" where
  "image_path st type iid = path_of (img_path st @ ''/'' @ file_text (img_dir st) type iid)"

lemma dec_nat_plain: "c \<in> set (dec_nat n) \<Longrightarrow> c \<noteq> CHR ''/'' \<and> c \<noteq> CHR ''.'' \<and> c \<noteq> CHR 0x00"
proof -
  assume "c \<in> set (dec_nat n)"
  then have "48 \<le> (of_char c :: nat) \<and> (of_char c :: nat) < 58"
    by (auto dest!: dec_nat_digit)
  then show ?thesis by auto
qed

lemma hex_nat_plain: "c \<in> set (hex_nat n) \<Longrightarrow> c \<noteq> CHR ''/'' \<and> c \<noteq> CHR ''.'' \<and> c \<noteq> CHR 0x00"
proof -
  assume "c \<in> set (hex_nat n)"
  then have "48 \<le> (of_char c :: nat) \<and> (of_char c :: nat) < 103"
    by (auto dest!: hex_nat_digit)
  then show ?thesis by auto
qed

lemma type_name_plain:
  "c \<in> set (get_image_type_name t) \<Longrightarrow> c \<noteq> CHR ''/'' \<and> c \<noteq> CHR ''.'' \<and> c \<noteq> CHR 0x00"
  "length (get_image_type_name t) = 3"
  by (auto simp: get_image_type_name_def split: if_splits)

lemma pad0_plain: "c \<in> set (pad0 w s) \<Longrightarrow> c = CHR ''0'' \<or> c \<in> set s"
  by (auto simp: pad0_def)

lemma length_file_text: "length (file_text dir t iid) \<le> length dir + 25"
proof -
  have "unat iid < 2 ^ 64" using unsigned_less [of iid] by simp
  then have "length (hex_nat (unat iid)) \<le> 16" using length_hex_nat [of "unat iid" 15] by simp
  moreover have "unat iid mod 1000 < 10 ^ Suc 2" by simp
  then have "length (dec_nat (unat iid mod 1000)) \<le> 3" using length_dec_nat [of _ 2] by fastforce
  ultimately show ?thesis by (simp add: file_text_def type_name_plain(2))
qed

lemma file_text_nul: "CHR 0x00 \<notin> set dir \<Longrightarrow> CHR 0x00 \<notin> set (file_text dir t iid)"
  by (auto simp: file_text_def dest: hex_nat_plain type_name_plain(1) dest!: pad0_plain dec_nat_plain)

text \<open>The two \<open>q_format\<close> calls produce the intended texts under a sane configuration.\<close>

lemma image_texts:
  assumes "cfg_ok st"
  shows "image_file_path env (img_dir st) t iid = file_text (img_dir st) t iid"
    and "cstr (file_text (img_dir st) t iid) = file_text (img_dir st) t iid"
    and "cstr (image_local_path env (img_path st) (file_text (img_dir st) t iid)) =
         img_path st @ ''/'' @ file_text (img_dir st) t iid"
proof -
  note len = length_file_text [of "img_dir st" t iid]
  show "image_file_path env (img_dir st) t iid = file_text (img_dir st) t iid"
    unfolding image_file_path_def file_text_def [symmetric]
    using assms len by (intro q_format_short) (simp add: cfg_ok_def)
  show c: "cstr (file_text (img_dir st) t iid) = file_text (img_dir st) t iid"
    using assms by (intro cstr_id file_text_nul) (simp add: cfg_ok_def)
  have "image_local_path env (img_path st) (file_text (img_dir st) t iid) =
      img_path st @ ''/'' @ file_text (img_dir st) t iid"
    unfolding image_local_path_def c using assms len by (intro q_format_short) (simp add: cfg_ok_def)
  then show "cstr (image_local_path env (img_path st) (file_text (img_dir st) t iid)) =
      img_path st @ ''/'' @ file_text (img_dir st) t iid"
    using assms file_text_nul [of "img_dir st" t iid] by (simp add: cstr_id cfg_ok_def)
qed

text \<open>The last component of an image path determines the identifier.\<close>

lemma image_path_eq:
  assumes "img_path st \<noteq> []"
  shows "\<exists>a xs. image_path st t iid =
    (a, xs @ [hex_nat (unat iid) @ ''.'' @ get_image_type_name t])"
proof -
  let ?dir = "img_path st @ ''/'' @ img_dir st @ ''/'' @ pad0 3 (dec_nat (unat iid mod 1000))"
  let ?name = "hex_nat (unat iid) @ ''.'' @ get_image_type_name t"
  have "CHR ''/'' \<notin> set ?name" by (auto dest: hex_nat_plain type_name_plain(1))
  moreover have "?name \<noteq> ''.''" using type_name_plain(2) [of t] by (auto simp: append_eq_Cons_conv)
  ultimately have "path_of (?dir @ CHR ''/'' # ?name) = (fst (path_of ?dir), snd (path_of ?dir) @ [?name])"
    using assms by (intro path_of_name) auto
  then show ?thesis by (simp add: image_path_def file_text_def)
qed

lemma split_dot:
  assumes "CHR ''.'' \<notin> set a" and "CHR ''.'' \<notin> set b" and "a @ CHR ''.'' # x = b @ CHR ''.'' # y"
  shows "a = b"
proof -
  have "takeWhile (\<lambda>c. c \<noteq> CHR ''.'') (v @ CHR ''.'' # w) = v" if "CHR ''.'' \<notin> set v" for v w
    using that by (induction v) auto
  then show ?thesis using assms by metis
qed

lemma image_path_inject:
  assumes "img_path st \<noteq> []" and "image_path st t i = image_path st u j"
  shows "i = j"
proof -
  have "hex_nat (unat i) @ CHR ''.'' # get_image_type_name t = hex_nat (unat j) @ CHR ''.'' # get_image_type_name u"
    using image_path_eq [OF assms(1), of t i] image_path_eq [OF assms(1), of u j] assms(2) by auto
  then have "hex_nat (unat i) = hex_nat (unat j)"
    by (rule split_dot [rotated 2]) (auto dest: hex_nat_plain)
  then show ?thesis by (simp add: word_unat_eq_iff)
qed


section \<open>Saving a file\<close>

text \<open>
  With room for the data, \<open>save_image\<close> stores exactly the data under a name that was free, or
  leaves the disk as it was.
\<close>

lemma save_image_room:
  assumes "save_image (Some p) (Some data) d = (r, d')" and "length data \<le> froom d"
  shows "r = 0 \<and> fget d (path_of p) = None \<and> d' = fset (path_of p) data (fset (path_of p) [] d) \<or> d' = d \<and> r \<noteq> 0"
proof (cases "data \<noteq> [] \<and> sys_access p d \<noteq> 0 \<and> can_create p d")
  case True
  then have free: "fget d (path_of p) = None"
    by (auto simp: sys_access_def can_create_def fs_exists_def split: if_splits)
  then have "froom (fset (path_of p) [] d) = froom d" by (simp add: fset_def flen_def)
  then have "fwrite_at (path_of p) 0 data (fset (path_of p) [] d) =
      (True, length data, fset (path_of p) data (fset (path_of p) [] d))"
    using fwrite_at_end [of "fset (path_of p) [] d" "path_of p" "[]" data] True assms(2) by simp
  with True free assms(1) show ?thesis by (simp add: save_image_def fopen_w_def)
next
  case False
  with assms(1) show ?thesis by (auto simp: save_image_def fopen_w_def split: if_splits)
qed

text \<open>Without room the file is created all the same and keeps what fitted.\<close>

lemma save_image_full:
  assumes "data \<noteq> []" and "froom d < length data" and "sys_access p d \<noteq> 0" and "can_create p d"
  shows "\<exists>d'. save_image (Some p) (Some data) d = (-3, d') \<and> fget d' (path_of p) = Some (take (froom d) data)
    \<and> fdirs d' = fdirs d"
proof -
  have free: "fget d (path_of p) = None"
    using assms(3,4) by (auto simp: sys_access_def can_create_def fs_exists_def split: if_splits)
  then have room: "froom (fset (path_of p) [] d) = froom d" by (simp add: fset_def flen_def)
  have "fwrite_at (path_of p) 0 data (fset (path_of p) [] d) =
      (False, froom d, fset (path_of p) (take (froom d) data) (fset (path_of p) [] d))"
    using fwrite_at_full [of "fset (path_of p) [] d" "path_of p" "[]" data] assms(2) room by simp
  then show ?thesis using assms by (simp add: save_image_def fopen_w_def)
qed


section \<open>The store invariant\<close>

definition record_ok :: "('d, 'c) idfs_env \<Rightarrow> 'd idfs \<Rightarrow> document \<Rightarrow> bool" where
  "record_ok env st doc \<longleftrightarrow>
     (\<exists>iid t c w h. map_of doc ''imgid'' = Some (BStr (q_to_string iid))
        \<and> map_of doc ''imgpath'' = Some (BStr (file_text (img_dir st) t iid))
        \<and> fget (disk st) (image_path st t iid) = Some c
        \<and> iid_of env c = iid
        \<and> env_imread env c = Some (w, h)
        \<and> map_of doc ''imgsize'' = Some (BStr (cstr (image_size_text env w h))))"

definition store_ok :: "('d, 'c) idfs_env \<Rightarrow> ('d \<Rightarrow> string \<Rightarrow> document list) \<Rightarrow> 'd idfs \<Rightarrow> bool" where
  "store_ok env docs st \<longleftrightarrow>
     (\<forall>doc \<in> set (docs (db st) (mongo_collection st)). record_ok env st doc)
   \<and> (\<forall>t iid c. fget (disk st) (image_path st t iid) = Some c \<longrightarrow> iid_of env c = iid)"

text \<open>Configurations that agree have the same image paths.\<close>

definition same_cfg :: "'d idfs \<Rightarrow> 'd idfs \<Rightarrow> bool" where
  "same_cfg st st' \<longleftrightarrow> img_path st' = img_path st \<and> img_dir st' = img_dir st
     \<and> mongo_collection st' = mongo_collection st"

lemma same_cfg_simps:
  assumes "same_cfg st st'"
  shows "image_path st' = image_path st" "cfg_ok st' = cfg_ok st" "img_dir st' = img_dir st"
    "mongo_collection st' = mongo_collection st"
  using assms by (auto simp: same_cfg_def image_path_def cfg_ok_def fun_eq_iff)

lemma record_ok_mono:
  assumes "record_ok env st doc" and "same_cfg st st'" and "fget (disk st) \<subseteq>\<^sub>m fget (disk st')"
  shows "record_ok env st' doc"
proof -
  have le: "fget (disk st') q = Some c" if "fget (disk st) q = Some c" for q c
    using assms(3) that by (metis domI map_le_def)
  from assms(1) obtain iid t c w h where
    "map_of doc ''imgid'' = Some (BStr (q_to_string iid))"
    "map_of doc ''imgpath'' = Some (BStr (file_text (img_dir st) t iid))"
    "fget (disk st) (image_path st t iid) = Some c" "iid_of env c = iid"
    "env_imread env c = Some (w, h)" "map_of doc ''imgsize'' = Some (BStr (cstr (image_size_text env w h)))"
    unfolding record_ok_def by blast
  with le show ?thesis unfolding record_ok_def same_cfg_simps [OF assms(2)] by blast
qed

lemma store_ok_same_disk:
  assumes "store_ok env docs st" and "same_cfg st st'" and "disk st' = disk st"
    and "\<forall>doc \<in> set (docs (db st') (mongo_collection st)).
           doc \<in> set (docs (db st) (mongo_collection st)) \<or> record_ok env st doc"
  shows "store_ok env docs st'"
proof -
  have "record_ok env st doc" if "doc \<in> set (docs (db st') (mongo_collection st))" for doc
    using assms(1,4) that unfolding store_ok_def by blast
  then have "record_ok env st' doc" if "doc \<in> set (docs (db st') (mongo_collection st))" for doc
    using that by (intro record_ok_mono [OF _ assms(2)]) (simp_all add: assms(3))
  with assms(1) show ?thesis
    by (simp add: store_ok_def same_cfg_simps [OF assms(2)] assms(3))
qed

text \<open>A new file whose name carries its identifier keeps the invariant.\<close>

lemma store_ok_new_file:
  assumes "store_ok env docs st" and "cfg_ok st" and "fget (disk st) (image_path st t iid) = None"
    and "fget d' = (fget (disk st))(image_path st t iid \<mapsto> data)" and "iid_of env data = iid"
  shows "store_ok env docs (st\<lparr>disk := d'\<rparr>)"
proof -
  have cfg: "same_cfg st (st\<lparr>disk := d'\<rparr>)" by (simp add: same_cfg_def)
  have le: "fget (disk st) \<subseteq>\<^sub>m fget (disk (st\<lparr>disk := d'\<rparr>))"
    using assms(3,4) by (auto simp: map_le_def)
  have "iid_of env c = i" if "fget d' (image_path st u i) = Some c" for u i c
    using that assms image_path_inject [of st u i t iid] unfolding store_ok_def cfg_ok_def
    by (auto split: if_splits)
  moreover have "record_ok env (st\<lparr>disk := d'\<rparr>) doc" if "record_ok env st doc" for doc
    by (rule record_ok_mono [OF that cfg le])
  ultimately show ?thesis
    using assms(1) by (simp add: store_ok_def same_cfg_simps [OF cfg])
qed

end
