(* ===== verification/Idfs_Invariant.thy ===== *)
theory Idfs_Invariant
  imports Idfs_Store
begin

text \<open>
  What uploads do to the store: the store invariant holds after every request, an image that is
  registered is found again, and the ways in which a registration can go wrong.
\<close>

section \<open>The three ways through the critical section\<close>

definition local_text :: "'d idfs \<Rightarrow> nat \<Rightarrow> 64 word \<Rightarrow> string" where
  "local_text st t iid = img_path st @ ''/'' @ file_text (img_dir st) t iid"

lemma path_of_local_text: "path_of (local_text st t iid) = image_path st t iid"
  by (simp add: local_text_def image_path_def)

lemma register_image_cases:
  assumes "register_image env t data st = (r, st')" and "cfg_ok st"
  obtains
    (known) db1 found p s db2 where
      "mongo_exists (env_mongo env) (mongo_collection st) ''imgid'' (q_to_string (iid_of env data)) (db st) = (True, db1)"
      "mongo_select2 (env_mongo env) (mongo_collection st) (Some ''imgid'') (Some (q_to_string (iid_of env data)))
         (Some ''imgpath'') [] (Some ''imgsize'') [] db1 = (found, p, s, db2)"
      "r = Inr (p, s)" "st' = st\<lparr>db := db2, mongo_locked := False\<rparr>"
  | (failed) db1 sr d1 where
      "mongo_exists (env_mongo env) (mongo_collection st) ''imgid'' (q_to_string (iid_of env data)) (db st) = (False, db1)"
      "save_image (Some (local_text st t (iid_of env data))) (Some data) (disk st) = (sr, d1)"
      "sr < 0 \<and> r = Inl (-55) \<or> 0 \<le> sr \<and> getImageSize (env_imread env) (local_text st t (iid_of env data)) d1 = None \<and> r = Inl (-56)"
      "st' = st\<lparr>db := db1, disk := d1, mongo_locked := False\<rparr>"
  | (stored) db1 sr d1 w h ir db2 where
      "mongo_exists (env_mongo env) (mongo_collection st) ''imgid'' (q_to_string (iid_of env data)) (db st) = (False, db1)"
      "save_image (Some (local_text st t (iid_of env data))) (Some data) (disk st) = (sr, d1)" "0 \<le> sr"
      "getImageSize (env_imread env) (local_text st t (iid_of env data)) d1 = Some (w, h)"
      "mongo_insert2 (env_mongo env) (mongo_collection st) (env_now env) (Some ''imgid'')
         (Some (q_to_string (iid_of env data))) (Some ''imgpath'') (Some (file_text (img_dir st) t (iid_of env data)))
         (Some ''imgsize'') (Some (cstr (image_size_text env w h))) db1 = (ir, db2)"
      "r = (if ir = MONGO_ERR then Inl (-57) else Inr (file_text (img_dir st) t (iid_of env data), image_size_text env w h))"
      "st' = st\<lparr>db := db2, disk := d1, mongo_locked := False\<rparr>"
proof -
  let ?iid = "iid_of env data"
  note tx = image_texts [OF assms(2), where iid = ?iid and t = t]
  obtain ex db1 where ex: "mongo_exists (env_mongo env) (mongo_collection st) ''imgid'' (q_to_string ?iid) (db st) = (ex, db1)"
    by fastforce
  show thesis
  proof (cases ex)
    case True
    obtain found p s db2 where sel: "mongo_select2 (env_mongo env) (mongo_collection st) (Some ''imgid'')
        (Some (q_to_string ?iid)) (Some ''imgpath'') [] (Some ''imgsize'') [] db1 = (found, p, s, db2)"
      by (metis prod_cases4)
    show thesis
      by (rule known [OF ex [unfolded True [THEN eqTrueI]] sel])
        (use assms(1) ex True sel in \<open>simp_all add: register_image_def Let_def mutex_lock_def mutex_unlock_def\<close>)
  next
    case False
    obtain sr d1 where sv: "save_image (Some (local_text st t ?iid)) (Some data) (disk st) = (sr, d1)" by fastforce
    note unf = register_image_def Let_def mutex_lock_def mutex_unlock_def tx local_text_def
    have ex': "mongo_exists (env_mongo env) (mongo_collection st) ''imgid'' (q_to_string ?iid) (db st) = (False, db1)"
      using ex False by simp
    show thesis
    proof (cases "sr < 0")
      case True
      then show thesis
        by (intro failed [OF ex' sv]) (use assms(1) ex' sv in \<open>simp_all add: unf\<close>)
    next
      case pos: False
      show thesis
      proof (cases "getImageSize (env_imread env) (local_text st t ?iid) d1")
        case None
        show thesis
          by (intro failed [OF ex' sv]) (use assms(1) ex' sv pos None in \<open>simp_all add: unf\<close>)
      next
        case (Some wh)
        obtain w h where sz: "getImageSize (env_imread env) (local_text st t ?iid) d1 = Some (w, h)"
          using Some by (cases wh) auto
        obtain ir db2 where ins: "mongo_insert2 (env_mongo env) (mongo_collection st) (env_now env) (Some ''imgid'')
           (Some (q_to_string ?iid)) (Some ''imgpath'') (Some (file_text (img_dir st) t ?iid))
           (Some ''imgsize'') (Some (cstr (image_size_text env w h))) db1 = (ir, db2)" by fastforce
        show thesis
          by (rule stored [OF ex' sv _ sz ins])
            (use assms(1) ex' sv sz ins pos in \<open>auto simp: unf split: if_splits\<close>)
      qed
    qed
  qed
qed


section \<open>Preservation of the store invariant\<close>

lemma save_store_ok:
  assumes "store_ok env docs st" and "cfg_ok st" and "length data \<le> froom (disk st)"
    and "save_image (Some (local_text st t (iid_of env data))) (Some data) (disk st) = (sr, d1)"
  shows "store_ok env docs (st\<lparr>disk := d1\<rparr>)"
proof -
  let ?p = "image_path st t (iid_of env data)"
  consider "fget (disk st) ?p = None" "d1 = fset ?p data (fset ?p [] (disk st))" | "d1 = disk st"
    using save_image_room [OF assms(4,3)] unfolding path_of_local_text by auto
  then show ?thesis
  proof cases
    case 1
    then have "fget d1 = (fget (disk st))(?p \<mapsto> data)" by (simp add: fget_fset_upd)
    with 1 assms show ?thesis by (intro store_ok_new_file [where iid = "iid_of env data"]) auto
  next
    case 2
    with assms(1) show ?thesis by simp
  qed
qed

lemma stored_record_ok:
  assumes "store_ok env docs st"
    and "getImageSize (env_imread env) (local_text st t iid) (disk st) = Some (w, h)"
  shows "record_ok env st [(''imgid'', BStr (q_to_string iid)), (''imgpath'', BStr (file_text (img_dir st) t iid)),
      (''imgsize'', BStr (cstr (image_size_text env w h))), (''createdAt'', BDate now)]"
proof -
  obtain c where c: "fget (disk st) (image_path st t iid) = Some c" "env_imread env c = Some (w, h)"
    using assms(2) by (auto simp: getImageSize_def fopen_r_def path_of_local_text split: option.splits if_splits)
  with assms(1) have "iid_of env c = iid" by (simp add: store_ok_def)
  with c show ?thesis unfolding record_ok_def by (intro exI [of _ iid] exI [of _ t] exI [of _ c] exI [of _ w] exI [of _ h]) simp
qed

lemma register_store_ok:
  assumes inv: "store_ok env docs st" and cfg: "cfg_ok st" and snd: "mongo_sound (env_mongo env) docs"
    and room: "length data \<le> froom (disk st)" and reg: "register_image env t data st = (r, st')"
  shows "store_ok env docs st'"
  using reg cfg
proof (cases rule: register_image_cases)
  case (known db1 found p s db2)
  have "docs db2 = docs (db st)"
    using mongo_exists_docs(1) [OF snd known(1)] mongo_select2_docs(1) [OF snd known(2)] by simp
  then show ?thesis
    by (intro store_ok_same_disk [OF inv]) (simp_all add: known(4) same_cfg_def)
next
  case (failed db1 sr d1)
  let ?st = "st\<lparr>disk := d1\<rparr>"
  have "docs db1 = docs (db st)" using mongo_exists_docs(1) [OF snd failed(1)] by simp
  then show ?thesis
    by (intro store_ok_same_disk [OF save_store_ok [OF inv cfg room failed(2)]])
      (simp_all add: failed(4) same_cfg_def)
next
  case (stored db1 sr d1 w h ir db2)
  let ?st = "st\<lparr>disk := d1\<rparr>" and ?iid = "iid_of env data"
  note inv1 = save_store_ok [OF inv cfg room stored(2)]
  have "getImageSize (env_imread env) (local_text ?st t ?iid) (disk ?st) = Some (w, h)"
    using stored(4) by (simp add: local_text_def)
  note new = stored_record_ok [OF inv1 this, of "env_now env"]
  have "docs db1 = docs (db st)" using mongo_exists_docs(1) [OF snd stored(1)] by simp
  with mongo_insert2_any [OF snd stored(5)]
  have "\<forall>doc \<in> set (docs db2 (mongo_collection st)). doc \<in> set (docs (db ?st) (mongo_collection st))
      \<or> record_ok env ?st doc"
    using new by auto
  then show ?thesis
    by (intro store_ok_same_disk [OF inv1]) (simp_all add: stored(7) same_cfg_def)
qed

lemma register_cfg:
  assumes "register_image env t data st = (r, st')"
  shows "same_cfg st st'"
  using register_image_frame [OF assms] by (simp add: same_cfg_def)

lemma finish_store_ok:
  assumes "store_ok env docs st" and "cfg_ok st" and "mongo_sound (env_mongo env) docs"
    and "length data \<le> froom (disk st)" and "finish_image env t data pos out st = (n, out', st')"
  shows "store_ok env docs st' \<and> cfg_ok st'"
proof -
  obtain r st1 where reg: "register_image env t data st = (r, st1)" by fastforce
  then have "st' = st1"
    using assms(5) by (auto simp: finish_image_def split: sum.splits prod.splits)
  then show ?thesis
    using register_store_ok [OF assms(1-4) reg] same_cfg_simps(2) [OF register_cfg [OF reg]] assms(2) by simp
qed


text \<open>Room for a request of \<open>n\<close> bytes of data and for a downloaded page.\<close>

definition room_for :: "('d, 'c) idfs_env \<Rightarrow> nat \<Rightarrow> fs \<Rightarrow> bool" where
  "room_for env n d \<longleftrightarrow> n \<le> froom d
     \<and> (case env_page env of None \<Rightarrow> True
        | Some page \<Rightarrow> IDFS_IMG_MAX_SIZE \<le> length page \<and> length page \<le> froom d)"

lemma fetch_image_length:
  assumes "fetch_image env data page = Inr img" and "IDFS_IMG_MAX_SIZE \<le> length page"
  shows "length img \<le> length page"
proof -
  obtain src m3 ret m4 where
    get: "doHttpGet (env_curl env) (Some src) 8000 (Some page) (int IDFS_IMG_MAX_SIZE) m3 = (ret, m4)"
    and img: "img = take (nat ret) (ptr_page m4)"
    using assms(1) by (auto simp: fetch_image_def Let_def split: prod.splits option.splits if_splits)
  have "page_wf page (int IDFS_IMG_MAX_SIZE) m4"
    by (rule doHttpGet_page_wf [OF _ _ _ get]) (use assms(2) in \<open>simp_all add: IDFS_IMG_MAX_SIZE_def\<close>)
  then show ?thesis by (simp add: img page_wf_def)
qed

lemma server_main_store_ok:
  assumes "store_ok env docs st" and "cfg_ok st" and "mongo_sound (env_mongo env) docs"
    and room: "room_for env (length data) (disk st)"
    and run: "server_main env type data out st = Returned (n, out', st')"
  shows "store_ok env docs st' \<and> cfg_ok st'"
proof -
  obtain e out1 where em: "emit_all reply_head 0 out = (e, out1)" by fastforce
  have fin: "store_ok env docs st' \<and> cfg_ok st'"
    if "finish_image env t d pos out1 st = (n, out', st')" and "length d \<le> froom (disk st)" for t d pos
    using finish_store_ok [OF assms(1-3) that(2,1)] .
  have img: "length d \<le> froom (disk st)" if "env_page env = Some page" "fetch_image env data page = Inr d" for page d
    using fetch_image_length [OF that(2)] room that(1) by (simp add: room_for_def)
  have dat: "length data \<le> froom (disk st)" using room by (simp add: room_for_def)
  consider "st' = st"
    | pos where "finish_image env (unat type) data pos out1 st = (n, out', st')"
    | page d pos where "env_page env = Some page" "fetch_image env data page = Inr d"
        "finish_image env 64 d pos out1 st = (n, out', st')"
    using run by (auto simp: server_main_def em split: if_splits sum.splits option.splits prod.splits)
  then show ?thesis
    by cases (use assms(1,2) fin dat img in blast)+
qed

lemma bind_outcome_Returned:
  "bind_outcome x f = Returned y \<longleftrightarrow> (\<exists>z. x = Returned z \<and> f z = Returned y)"
  by (cases x) auto

lemma server_process_cases:
  assumes "server_process env request len reply st = Returned (n, reply', st')"
  obtains (rejected) "st' = st" "reply' = reply"
      "n \<in> {TCP_ERR_PROTOCOL_TYPE, TCP_ERR_SOURCE_TYPE, TCP_ERR_COMMAND_TYPE, TCP_ERR_DATA_LENGTH}"
  | (processed) data_len ret out where "0 < data_len" "26 + data_len = len"
      "data_len = sint (rd32 request 22)"
      "server_main env (rd16 request 20) (sub_buf 26 (nat data_len) request)
         (drop 24 (overwrite 14 (le16 TCP_DEFAULT_OPERATE_TYPE) (overwrite 16 (le32 (int32 0)) reply))) st
         = Returned (ret, out, st')"
      "n = (if ret < 0 then ret else 24 + ret)"
  using assms
  by (auto simp: server_process_def Let_def bind_outcome_Returned split: if_splits intro: rejected processed)

lemma server_process_store_ok:
  assumes "store_ok env docs st" and "cfg_ok st" and "mongo_sound (env_mongo env) docs"
    and room: "room_for env (length request) (disk st)"
    and "server_process env request len reply st = Returned (n, reply', st')"
  shows "store_ok env docs st' \<and> cfg_ok st'"
  using assms(5)
proof (cases rule: server_process_cases)
  case rejected
  with assms(1,2) show ?thesis by simp
next
  case (processed data_len ret out)
  have "room_for env (length (sub_buf 26 (nat data_len) request)) (disk st)"
    using room by (auto simp: room_for_def)
  from server_main_store_ok [OF assms(1-3) this processed(4)] show ?thesis .
qed


section \<open>Registering twice\<close>

text \<open>A driver whose reads do not throw.\<close>

definition reads_reliable :: "'d mongo_driver \<Rightarrow> bool" where
  "reads_reliable drv \<longleftrightarrow>
     (\<forall>c k v x. fst (drv_query drv c k v x) \<noteq> None \<and> fst (drv_find_one drv c k v x) \<noteq> None)"

lemma mem_driver_reliable: "reads_reliable mem_driver"
  by (simp add: reads_reliable_def mem_driver_def)

lemma exists_reliable:
  assumes "mongo_sound drv docs" and "reads_reliable drv" and "mongo_exists drv c k v x = (r, x')"
  shows "r \<longleftrightarrow> (\<exists>d \<in> set (docs x c). matches k v d)"
proof -
  obtain q x1' where q: "drv_query drv c k v x = (q, x1')" by (cases "drv_query drv c k v x")
  have "fst (drv_query drv c k v x) \<noteq> None" using assms(2) unfolding reads_reliable_def by blast
  then have "q = Some (filter (matches k v) (docs x c))" using sound_query(2) [OF assms(1) q] q by auto
  then show ?thesis using assms(3) q by (auto simp: mongo_exists_def filter_empty_conv)
qed

lemma select2_reliable:
  assumes "mongo_sound drv docs" and "reads_reliable drv"
    and "mongo_select2 drv c (Some i) (Some iv) (Some n1) o1 (Some n2) o2 x = (r, y1, y2, x')"
    and "find (matches i iv) (docs x c) = Some d"
  shows "y1 = getStringField d n1 \<and> y2 = getStringField d n2"
proof -
  obtain q x1' where q: "drv_find_one drv c i iv x = (q, x1')" by (cases "drv_find_one drv c i iv x")
  have "fst (drv_find_one drv c i iv x) \<noteq> None" using assms(2) unfolding reads_reliable_def by blast
  then have "q = Some (Some d)" using sound_find_one(2) [OF assms(1) q] q assms(4) by auto
  then show ?thesis using assms(3) q by (simp add: mongo_select2_def)
qed

text \<open>The record that a lookup of an identifier finds, as the pair of path and size.\<close>

definition lookup_image :: "('d \<Rightarrow> string \<Rightarrow> document list) \<Rightarrow> 'd idfs \<Rightarrow> string \<Rightarrow> (string \<times> string) option" where
  "lookup_image docs st imgid =
     map_option (\<lambda>d. (getStringField d ''imgpath'', getStringField d ''imgsize''))
       (find (matches ''imgid'' imgid) (docs (db st) (mongo_collection st)))"

lemma find_None_append: "find P xs = None \<Longrightarrow> find P (xs @ [y]) = (if P y then Some y else None)"
  by (induction xs) auto

lemma register_known:
  assumes snd: "mongo_sound (env_mongo env) docs" and rel: "reads_reliable (env_mongo env)"
    and "cfg_ok st" and reg: "register_image env t data st = (r, st')"
    and known: "lookup_image docs st (q_to_string (iid_of env data)) = Some ps"
  shows "r = Inr ps \<and> disk st' = disk st \<and> docs (db st') = docs (db st) \<and> same_cfg st st'"
  using reg assms(3)
proof (cases rule: register_image_cases)
  case (known db1 found p s db2)
  obtain d where d: "find (matches ''imgid'' (q_to_string (iid_of env data))) (docs (db st) (mongo_collection st)) = Some d"
    "ps = (getStringField d ''imgpath'', getStringField d ''imgsize'')"
    using assms(5) by (auto simp: lookup_image_def)
  note e = mongo_exists_docs(1) [OF snd known(1)]
  then have "p = getStringField d ''imgpath'' \<and> s = getStringField d ''imgsize''"
    using select2_reliable [OF snd rel known(2)] d(1) by simp
  with d(2) known e mongo_select2_docs(1) [OF snd known(2)] show ?thesis by (simp add: same_cfg_def)
next
  case (failed db1 sr d1)
  with exists_reliable [OF snd rel failed(1)] assms(5) show ?thesis
    by (auto simp: lookup_image_def find_Some_iff)
next
  case (stored db1 sr d1 w h ir db2)
  with exists_reliable [OF snd rel stored(1)] assms(5) show ?thesis
    by (auto simp: lookup_image_def find_Some_iff)
qed

lemma register_lookup:
  assumes snd: "mongo_sound (env_mongo env) docs" and rel: "reads_reliable (env_mongo env)"
    and "cfg_ok st" and reg: "register_image env t data st = (Inr (p, s), st')"
  shows "\<exists>p' s'. lookup_image docs st' (q_to_string (iid_of env data)) = Some (p', s')
    \<and> cstr p' = cstr p \<and> cstr s' = cstr s"
  using reg assms(3)
proof (cases rule: register_image_cases)
  case (known db1 found p1 s1 db2)
  let ?v = "q_to_string (iid_of env data)"
  note e = mongo_exists_docs [OF snd known(1)]
  obtain d where d: "find (matches ''imgid'' ?v) (docs (db st) (mongo_collection st)) = Some d"
    using e(2) by (cases "find (matches ''imgid'' ?v) (docs (db st) (mongo_collection st))") (auto simp: find_None_iff)
  then have "p1 = getStringField d ''imgpath'' \<and> s1 = getStringField d ''imgsize''"
    using select2_reliable [OF snd rel known(2)] e(1) by simp
  with d known e(1) mongo_select2_docs(1) [OF snd known(2)] show ?thesis by (simp add: lookup_image_def)
next
  case (failed db1 sr d1)
  then show ?thesis by auto
next
  case (stored db1 sr d1 w h ir db2)
  let ?v = "q_to_string (iid_of env data)"
  let ?doc = "[(''imgid'', BStr ?v), (''imgpath'', BStr (file_text (img_dir st) t (iid_of env data))),
      (''imgsize'', BStr (cstr (image_size_text env w h))), (''createdAt'', BDate (env_now env))]"
  have "ir = MONGO_OK" using mongo_insert2_docs(2) [OF snd stored(5)] stored(6) by (auto split: if_splits)
  then have "docs db2 = (docs (db st))(mongo_collection st := docs (db st) (mongo_collection st) @ [?doc])"
    using mongo_insert2_docs(1) [OF snd stored(5)] mongo_exists_docs(1) [OF snd stored(1)] by simp
  moreover have "find (matches ''imgid'' ?v) (docs (db st) (mongo_collection st)) = None"
    using exists_reliable [OF snd rel stored(1)] by (auto simp: find_None_iff)
  ultimately show ?thesis
    using stored(6,7) \<open>ir = MONGO_OK\<close> image_texts(2) [OF assms(3), of t "iid_of env data"]
    by (auto simp: lookup_image_def find_None_append matches_def getStringField_def MONGO_OK_def MONGO_ERR_def
        cstr_def)
qed


section \<open>The text of a reply\<close>

lemma finish_image_text:
  assumes "finish_image env t data pos out st = (n, out', st')" and "pos < length out" and "0 \<le> n"
  shows "\<exists>p s. register_image env t data st = (Inr (p, s), st')
    \<and> take (nat n) out' = take pos out @ bytes_of (texts_of (reply_tail (iid_of env data) (md5_of env data) p s))"
proof -
  obtain p s where reg: "register_image env t data st = (Inr (p, s), st')"
    and n: "nat n = pos + length (texts_of (reply_tail (iid_of env data) (md5_of env data) p s))"
    using finish_image_bounds(4) [OF assms(1,2)] assms(3) by auto
  let ?parts = "reply_tail (iid_of env data) (md5_of env data) p s"
  have "pos + length (texts_of ?parts) < length out"
    using finish_image_bounds(1) [OF assms(1,2)] n assms(3) by simp
  from emit_all_fits [OF this] obtain o1 where
    em: "emit_all ?parts pos out = (Inr (pos + length (texts_of ?parts)), o1)"
    and tk: "take (pos + length (texts_of ?parts)) o1 = take pos out @ bytes_of (texts_of ?parts)" by blast
  have "out' = o1" using assms(1) by (simp add: finish_image_def reg em)
  with tk n reg show ?thesis by auto
qed

definition reply_doc :: "('d, 'c) idfs_env \<Rightarrow> bytes \<Rightarrow> string \<Rightarrow> string \<Rightarrow> string" where
  "reply_doc env data p s =
     texts_of reply_head @ texts_of (reply_tail (iid_of env data) (md5_of env data) p s)"

lemma server_main_upload:
  assumes "server_main env type data out st = Returned (n, out', st')" and "unat type < 5" and "0 \<le> n"
  shows "\<exists>p s. register_image env (unat type) data st = (Inr (p, s), st')
    \<and> take (nat n) out' = bytes_of (reply_doc env data p s) \<and> nat n < length out'"
proof -
  obtain e o1 where em: "emit_all reply_head 0 out = (e, o1)" by fastforce
  have ne: "out \<noteq> []" using assms(1) by (auto simp: server_main_def)
  have "e \<noteq> Inl err" for err
  proof
    assume err: "e = Inl err"
    then have "err < 0" using emit_all_Inl [OF em [unfolded err]] reply_codes_neg(1) by blast
    with assms err show False by (auto simp: server_main_def em split: if_splits)
  qed
  then obtain pos where e: "e = Inr pos" by (cases e) auto
  have pos: "pos = length (texts_of reply_head)" "pos < length out"
    using emit_all_Inr [OF em [unfolded e]] ne by simp_all
  then obtain o2 where "emit_all reply_head 0 out = (Inr pos, o2)" "take pos o2 = bytes_of (texts_of reply_head)"
    using emit_all_fits [of 0 reply_head out] by auto
  then have head: "take pos o1 = bytes_of (texts_of reply_head)" using em by simp
  have fin: "finish_image env (unat type) data pos o1 st = (n, out', st')"
    using assms(1,2) ne by (auto simp: server_main_def em e split: if_splits)
  have "pos < length o1" using pos emit_all_length [OF em] by simp
  with finish_image_text [OF fin this assms(3)] finish_image_bounds(1,2) [OF fin this] head assms(3)
  show ?thesis by (auto simp: reply_doc_def)
qed


section \<open>Properties of the image server\<close>

text \<open>States reached from a start by serving requests, as long as the disk has room for each.\<close>

inductive served :: "('d, 'c) idfs_env \<Rightarrow> 'd idfs \<Rightarrow> 'd idfs \<Rightarrow> bool" for env :: "('d, 'c) idfs_env" and st0 :: "'d idfs" where
  start: "served env st0 st0"
| serve: "served env st0 st \<Longrightarrow> room_for env (length request) (disk st) \<Longrightarrow>
     server_process env request len reply st = Returned (n, reply', st') \<Longrightarrow> served env st0 st'"

definition demo_env :: "(mem_db, nat) idfs_env" where
  "demo_env = \<lparr>env_mongo = mem_driver, env_now = 0, env_curl = page_curl [] 200, env_imread = (\<lambda>bs. Some (1, 1)),
     env_page = None, env_heap = (\<lambda>i. CHR 0x00), env_md5 = md5_zero_mem, env_qmd5 = qmd5_zero_mem\<rparr>"

definition demo_state :: "nat \<Rightarrow> mem_db idfs" where
  "demo_state room = \<lparr>img_path = ''img'', img_dir = ''d'', img_subdir_num = 1000, mongo_collection = ''c'',
     disk = \<lparr>fdirs = [(True, []), (False, [])], ffiles = [], froom = room\<rparr>, db = [], mongo_locked = False\<rparr>"

lemma demo_ok: "store_ok demo_env mem_docs (demo_state room)" "cfg_ok (demo_state room)"
  by (auto simp: store_ok_def cfg_ok_def demo_state_def mem_docs_def fget_def)


text \<open>C11: Uploading is idempotent.  Once an upload has been answered, uploading the same bytes again,
  under any type, is answered with the same path and size, and changes neither the disk nor the
  collection.\<close>

theorem upload_idempotent:
  assumes "mongo_sound (env_mongo env) docs" and "reads_reliable (env_mongo env)" and "cfg_ok st"
    and "register_image env t data st = (Inr (p, s), st1)" and "register_image env u data st1 = (r, st2)"
  shows "\<exists>p' s'. r = Inr (p', s') \<and> cstr p' = cstr p \<and> cstr s' = cstr s
    \<and> disk st2 = disk st1 \<and> docs (db st2) = docs (db st1)"
proof -
  have cfg: "cfg_ok st1" using same_cfg_simps(2) [OF register_cfg [OF assms(4)]] assms(3) by simp
  from register_lookup [OF assms(1-4)] obtain p' s' where
    "lookup_image docs st1 (q_to_string (iid_of env data)) = Some (p', s')" "cstr p' = cstr p" "cstr s' = cstr s"
    by blast
  with register_known [OF assms(1,2) cfg assms(5)] show ?thesis by blast
qed


text \<open>C17: A failed write leaves a truncated image that a retry registers.  When the disk fills up during
  the upload of a new image, the upload is answered with the code -55, but what was written stays on
  the disk; the next upload of the same image finds the file, does not write it again, and if the
  truncated file still decodes registers it and reports success, although the stored file is a
  proper prefix of the image.\<close>

theorem upload_retry_truncated:
  assumes "mongo_sound (env_mongo env) docs" and "reads_reliable (env_mongo env)" and "cfg_ok st"
    and "\<forall>d \<in> set (docs (db st) (mongo_collection st)). \<not> matches ''imgid'' (q_to_string (iid_of env data)) d"
    and "froom (disk st) < length data" and "\<not> fs_exists (disk st) (image_path st t (iid_of env data))"
    and "is_dir (disk st) (parent (image_path st t (iid_of env data)))"
    and "env_imread env (take (froom (disk st)) data) = Some (w, h)"
    and "\<forall>c doc x. fst (drv_insert (env_mongo env) c doc x) = Some ()"
    and "register_image env t data st = (r1, st1)" and "register_image env t data st1 = (r2, st2)"
  shows "r1 = Inl (-55) \<and> r2 = Inr (file_text (img_dir st) t (iid_of env data), image_size_text env w h)
    \<and> fget (disk st2) (image_path st t (iid_of env data)) = Some (take (froom (disk st)) data)"
proof -
  let ?iid = "iid_of env data" and ?lt = "local_text st t (iid_of env data)"
  have ne: "?lt \<noteq> []" "data \<noteq> []" using assms(5) by (auto simp: local_text_def)
  have "sys_access ?lt (disk st) \<noteq> 0" "can_create ?lt (disk st)"
    using ne assms(6,7) by (simp_all add: sys_access_def can_create_def path_of_local_text fs_exists_def)
  then obtain d1 where sv: "save_image (Some ?lt) (Some data) (disk st) = (-3, d1)"
    "fget d1 (image_path st t ?iid) = Some (take (froom (disk st)) data)"
    using save_image_full [OF ne(2) assms(5)] path_of_local_text by metis
  from assms(10,3) have one: "r1 = Inl (-55) \<and> disk st1 = d1 \<and> docs (db st1) = docs (db st) \<and> same_cfg st st1"
  proof (cases rule: register_image_cases)
    case (known db1 found p s db2)
    with exists_reliable [OF assms(1,2) known(1)] assms(4) show ?thesis by simp
  next
    case (failed db1 sr d2)
    with sv(1) mongo_exists_docs(1) [OF assms(1) failed(1)] show ?thesis by (auto simp: same_cfg_def)
  next
    case (stored db1 sr d2 w h ir db2)
    with sv(1) show ?thesis by simp
  qed
  then have cfg: "cfg_ok st1" and lt: "local_text st1 t ?iid = ?lt" and dir: "img_dir st1 = img_dir st"
    using assms(3) by (auto simp: same_cfg_def cfg_ok_def local_text_def)
  have "sys_access ?lt d1 = 0" using ne sv(2) by (simp add: sys_access_def fs_exists_def path_of_local_text)
  then have sv1: "save_image (Some ?lt) (Some data) d1 = (1, d1)" using ne by (simp add: save_image_def)
  have sz1: "getImageSize (env_imread env) ?lt d1 = Some (w, h)"
    using ne sv(2) assms(8) by (simp add: getImageSize_def fopen_r_def path_of_local_text)
  from assms(11) cfg have "r2 = Inr (file_text (img_dir st) t ?iid, image_size_text env w h) \<and> disk st2 = d1"
  proof (cases rule: register_image_cases)
    case (known db1 found p s db2)
    with exists_reliable [OF assms(1,2) known(1)] assms(4) one show ?thesis by (simp add: same_cfg_def)
  next
    case (failed db1 sr d2)
    with sv1 sz1 one lt show ?thesis by auto
  next
    case (stored db1 sr d2 w' h' ir db2)
    have "ir = MONGO_OK"
      using stored(5) assms(9) by (auto simp: mongo_insert2_def split: option.splits prod.splits)
        (metis fst_conv option.distinct(1))+
    with stored sv1 sz1 one lt dir show ?thesis by (auto simp: MONGO_OK_def MONGO_ERR_def)
  qed
  with one sv(2) show ?thesis by simp
qed

text \<open>A database read error is answered as success with an empty path.  When the image is in the
  collection but the read of its record throws, \<open>select\<close> returns \<open>false\<close>, which the server compares
  with \<open>MONGO_ERR\<close> and takes for success.\<close>

theorem select_error_is_success:
  assumes "drv_query (env_mongo env) (mongo_collection st) ''imgid'' (q_to_string (iid_of env data)) (db st) = (Some (d # ds), x1)"
    and "drv_find_one (env_mongo env) (mongo_collection st) ''imgid'' (q_to_string (iid_of env data)) x1 = (None, x2)"
  shows "fst (register_image env t data st) = Inr ([], [])"
  using assms
  by (simp add: register_image_def Let_def mutex_lock_def mongo_exists_def mongo_select2_def)


text \<open>The reply to an upload.  For the five image types the reply never leaves the output buffer,
  the database mutex is released on every path, and a non-negative result is the length of the
  complete XML document with the image's identifier, digest, path and size.\<close>

theorem upload_reply_document:
  assumes "server_main env type data out st = Returned (n, out', st')" and "unat type < 5"
    and "\<not> mongo_locked st"
  shows "n < int (length out) \<and> length out' = length out \<and> \<not> mongo_locked st'
    \<and> (0 \<le> n \<longrightarrow> (\<exists>p s. register_image env (unat type) data st = (Inr (p, s), st')
         \<and> take (nat n) out' = bytes_of (reply_doc env data p s)))"
  using server_main_bounds [OF assms(1,3)] server_main_upload [OF assms(1,2)] by blast

lemma sub_buf_take_eq:
  assumes "take k xs = take k ys" and "off + n \<le> k"
  shows "sub_buf off n xs = sub_buf off n ys"
proof -
  have "sub_buf off n (take k zs) = sub_buf off n zs" for zs :: "'a list"
    using assms(2) by (simp add: sub_buf_def drop_take min_def)
  then show ?thesis using assms(1) by metis
qed



subsection \<open>Instances\<close>

definition demo_request :: bytes where
  "demo_request = [1, 0, 1, 0] @ replicate 14 0 @ [1, 0, 0, 0, 1, 0, 0, 0, 42]"

lemma demo_process: "\<exists>n r st. server_process demo_env demo_request 27 (replicate 1000 0) (demo_state 100) = Returned (n, r, st)"
proof -
  have rd: "rd16 demo_request 0 = 1" "rd16 demo_request 2 = 1" "rd16 demo_request 18 = 1"
    "rd16 demo_request 20 = 0" "rd32 demo_request 22 = 1" "sub_buf 26 (Suc 0) demo_request = [42]"
    by (simp_all add: rd16_def rd32_def sub_buf_def demo_request_def)
  have "\<exists>x. server_main demo_env 0 [42] out st = Returned x" if "out \<noteq> []" for out st
    using that by (auto simp: server_main_def simp del: split_paired_Ex split: prod.splits sum.splits)
  moreover have "drop 24 (overwrite 14 (le16 1) (overwrite 16 (le32 (int32 0)) (replicate 1000 (0 :: 8 word)))) \<noteq> []"
    by simp
  ultimately obtain x where "server_main demo_env 0 [42]
      (drop 24 (overwrite 14 (le16 1) (overwrite 16 (le32 (int32 0)) (replicate 1000 0)))) (demo_state 100) = Returned x"
    by blast
  then show ?thesis
    by (auto simp: server_process_def rd tcp_types Let_def split: prod.splits)
qed


definition demo_known :: "mem_db idfs" where
  "demo_known = (demo_state 100)\<lparr>db := [(''c'', [(''imgid'', BStr (q_to_string (iid_of demo_env [42]))),
     (''imgpath'', BStr ''p''), (''imgsize'', BStr ''s'')])]\<rparr>"

lemma demo_known_register: "register_image demo_env t [42] demo_known = (Inr (''p'', ''s''), demo_known)"
proof -
  have drv: "env_mongo demo_env = mem_driver" by (simp add: demo_env_def)
  show ?thesis
    by (simp add: register_image_def Let_def mutex_lock_def mutex_unlock_def drv)
      (simp add: demo_known_def demo_state_def mem_driver_def mem_docs_def mongo_exists_def mongo_select2_def
        mutex_unlock_def matches_def getStringField_def)
qed

theorem upload_idempotent_witness:
  "\<exists>p' s'. fst (register_image demo_env 3 [42] demo_known) = Inr (p', s') \<and> cstr p' = ''p'' \<and> cstr s' = ''s''"
proof -
  have "cfg_ok demo_known" using demo_ok(2) [of 100] by (simp add: demo_known_def cfg_ok_def)
  then have "\<exists>p' s'. (Inr (''p'', ''s'') :: int + string \<times> string) = Inr (p', s') \<and> cstr p' = cstr ''p'' \<and> cstr s' = cstr ''s''
      \<and> disk demo_known = disk demo_known \<and> mem_docs (db demo_known) = mem_docs (db demo_known)"
    by (intro upload_idempotent [OF _ _ _ demo_known_register [of 0] demo_known_register [of 3]])
      (simp_all add: demo_env_def mem_driver_sound mem_driver_reliable)
  then show ?thesis by (auto simp: demo_known_register cstr_def)
qed

definition demo_full :: "mem_db idfs" where
  "demo_full = (demo_state 2)\<lparr>disk := \<lparr>fdirs = [parent (image_path (demo_state 2) 0 (iid_of demo_env [1, 2, 3]))],
     ffiles = [], froom = 2\<rparr>\<rparr>"

lemma image_path_demo_full: "image_path demo_full = image_path (demo_state 2)"
  by (simp add: image_path_def demo_full_def fun_eq_iff)

lemma image_path_not_parent: "img_path st \<noteq> [] \<Longrightarrow> image_path st t i \<noteq> parent (image_path st t i)"
  using image_path_eq [of st t i] by (auto simp: parent_def)

theorem upload_retry_truncated_witness:
  "\<exists>st1 st2. register_image demo_env 0 [1, 2, 3] demo_full = (Inl (-55), st1)
     \<and> register_image demo_env 0 [1, 2, 3] st1 = (Inr (file_text ''d'' 0 (iid_of demo_env [1, 2, 3]), ''1*1''), st2)
     \<and> fget (disk st2) (image_path demo_full 0 (iid_of demo_env [1, 2, 3])) = Some [1, 2]"
proof -
  obtain r1 st1 where one: "register_image demo_env 0 [1, 2, 3] demo_full = (r1, st1)" by fastforce
  obtain r2 st2 where two: "register_image demo_env 0 [1, 2, 3] st1 = (r2, st2)" by fastforce
  have st: "froom (disk demo_full) = 2" "img_dir demo_full = ''d''" "mongo_collection demo_full = ''c''" "db demo_full = []"
    by (simp_all add: demo_full_def demo_state_def)
  have np: "img_path (demo_state 2) \<noteq> []" by (simp add: demo_state_def)
  have dsk: "disk demo_full = \<lparr>fdirs = [parent (image_path (demo_state 2) 0 (iid_of demo_env [1, 2, 3]))],
     ffiles = [], froom = 2\<rparr>" by (simp add: demo_full_def)
  have "r1 = Inl (-55) \<and> r2 = Inr (file_text (img_dir demo_full) 0 (iid_of demo_env [1, 2, 3]), image_size_text demo_env 1 1)
    \<and> fget (disk st2) (image_path demo_full 0 (iid_of demo_env [1, 2, 3])) = Some (take (froom (disk demo_full)) [1, 2, 3])"
  proof (rule upload_retry_truncated [OF _ _ _ _ _ _ _ _ _ one two, of mem_docs])
    show "mongo_sound (env_mongo demo_env) mem_docs" "reads_reliable (env_mongo demo_env)"
      by (simp_all add: demo_env_def mem_driver_sound mem_driver_reliable)
    show "cfg_ok demo_full" using demo_ok(2) [of 2] by (simp add: demo_full_def cfg_ok_def)
    show "\<forall>d \<in> set (mem_docs (db demo_full) (mongo_collection demo_full)).
        \<not> matches ''imgid'' (q_to_string (iid_of demo_env [1, 2, 3])) d" by (simp add: st mem_docs_def)
    show "froom (disk demo_full) < length [1, 2, 3 :: 8 word]" by (simp add: st)
    show "\<not> fs_exists (disk demo_full) (image_path demo_full 0 (iid_of demo_env [1, 2, 3]))"
      using image_path_not_parent [of "demo_state 2", OF np]
      by (simp add: image_path_demo_full fs_exists_def is_dir_def fget_def dsk)
    show "is_dir (disk demo_full) (parent (image_path demo_full 0 (iid_of demo_env [1, 2, 3])))"
      by (simp add: image_path_demo_full dsk is_dir_def)
    show "env_imread demo_env (take (froom (disk demo_full)) [1, 2, 3]) = Some (1, 1)" by (simp add: demo_env_def)
    show "\<forall>c doc x. fst (drv_insert (env_mongo demo_env) c doc x) = Some ()" by (simp add: demo_env_def mem_driver_def)
  qed
  moreover have "image_size_text demo_env 1 1 = ''1*1''"
    by code_simp
  ultimately show ?thesis using one two by (auto simp: st)
qed


definition demo_throwing :: "(mem_db, nat) idfs_env" where
  "demo_throwing = demo_env\<lparr>env_mongo := mem_driver\<lparr>drv_find_one := (\<lambda>c k v x. (None, x))\<rparr>\<rparr>"

theorem select_error_is_success_witness:
  "fst (register_image demo_throwing 0 [42] demo_known) = Inr ([], [])"
proof (rule select_error_is_success)
  have "iid_of demo_throwing [42] = iid_of demo_env [42]" by (simp add: iid_of_def demo_throwing_def)
  then show "drv_query (env_mongo demo_throwing) (mongo_collection demo_known) ''imgid''
      (q_to_string (iid_of demo_throwing [42])) (db demo_known) =
      (Some [[(''imgid'', BStr (q_to_string (iid_of demo_env [42]))), (''imgpath'', BStr ''p''), (''imgsize'', BStr ''s'')]],
       db demo_known)"
    by (simp add: demo_throwing_def demo_known_def demo_state_def mem_driver_def mem_docs_def matches_def)
qed (simp add: demo_throwing_def)

theorem upload_reply_document_witness:
  "\<exists>n out st. server_main demo_env 0 [42] (replicate 900 0) demo_known = Returned (n, out, st)
     \<and> n < 900 \<and> length out = 900 \<and> \<not> mongo_locked st"
proof -
  have "\<exists>n out st. server_main demo_env 0 [42] (replicate 900 0) demo_known = Returned (n, out, st)"
    by (auto simp: server_main_def finish_image_def demo_known_register split: prod.splits sum.splits)
  then obtain n out st where run: "server_main demo_env 0 [42] (replicate 900 0) demo_known = Returned (n, out, st)"
    by blast
  have "\<not> mongo_locked demo_known" by (simp add: demo_known_def demo_state_def)
  with run upload_reply_document [OF run] show ?thesis by simp
qed


end
