(* ===== verification/Work_Thread.thy ===== *)
theory Work_Thread
  imports Idfs_Invariant
begin

text \<open>
  What a worker of \<open>QTcpServer\<close> does with one accepted connection: read the header, read the body,
  process it, send the reply or an error header, close the socket.  The connection block
  (\<open>clientInfo\<close>) is taken from a pool and keeps the buffers of earlier connections.
\<close>

section \<open>One connection\<close>

record client_info =
  client_sock :: sock
  ci_request :: bytes
  ci_reply :: bytes

text \<open>
  The body of the \<open>try\<close> block.  \<open>Inl e\<close> is \<open>throw e\<close>.  The connection block is returned in both
  cases, with the buffers and the socket as they are at that point.
\<close>

definition handle_request :: "('d, 'c) idfs_env \<Rightarrow> client_info \<Rightarrow> 'd idfs \<Rightarrow>
    ((int + unit) \<times> client_info \<times> 'd idfs) outcome" where
  "handle_request env ci st =
     (case q_recvbuf TCP_DEFAULT_HEADER_SIZE (ci_request ci) (client_sock ci) of (r1, req1, s1) \<Rightarrow>
        let ci1 = ci\<lparr>ci_request := req1, client_sock := s1\<rparr> in
        if r1 \<noteq> 0 then Returned (Inl TCP_ERR_SOCKET_RECV, ci1, st)
        else bind_outcome (server_header req1 (int TCP_DEFAULT_HEADER_SIZE)) (\<lambda>recv_len.
          if recv_len < 0 then Returned (Inl TCP_ERR_PACKET_HEADER, ci1, st)
          else if 0 < recv_len \<and> int (length (ci_request ci)) < recv_len
          then Returned (Inl TCP_ERR_PACKET_LENGTH, ci1, st)
          else case q_recvbuf (nat recv_len) req1 s1 of (r2, req2, s2) \<Rightarrow>
            let ci2 = ci\<lparr>ci_request := req2, client_sock := s2\<rparr> in
            if r2 \<noteq> 0 then Returned (Inl TCP_ERR_SOCKET_RECV, ci2, st)
            else bind_outcome (server_process env req2 recv_len (drop 12 (ci_reply ci)) st) (\<lambda>(send_len, out, st').
              if send_len < 0
              then Returned (Inl send_len, ci2\<lparr>ci_reply := take 12 (ci_reply ci) @ out\<rparr>, st')
              else
                let reply = overwrite 0 (baseHeader TCP_HEADER_VERSION send_len) (take 12 (ci_reply ci) @ out);
                    ci3 = ci2\<lparr>ci_reply := reply\<rparr> in
                if 0 < send_len then
                  (case q_sendbuf reply (nat send_len + 12) s2 of (r3, s3) \<Rightarrow>
                     if r3 \<noteq> 0 then Returned (Inl TCP_ERR_SOCKET_SEND, ci3\<lparr>client_sock := s3\<rparr>, st')
                     else Returned (Inr (), ci3\<lparr>client_sock := q_close_socket s3\<rparr>, st'))
                else Returned (Inr (), ci3\<lparr>client_sock := q_close_socket s2\<rparr>, st'))))"

text \<open>
  The \<open>catch\<close> block sends a header with the code, whose reserved bytes are what the stack held
  (\<open>junk\<close>), ignores whether that succeeds, and closes the socket.  The first component tells whether
  the connection counts as failed.
\<close>

definition serve_client :: "('d, 'c) idfs_env \<Rightarrow> bytes \<Rightarrow> client_info \<Rightarrow> 'd idfs \<Rightarrow>
    (bool \<times> client_info \<times> 'd idfs) outcome" where
  "serve_client env junk ci st =
     bind_outcome (handle_request env ci st) (\<lambda>(r, ci', st').
       case r of
         Inr _ \<Rightarrow> Returned (False, ci', st')
       | Inl errcode \<Rightarrow>
           (case q_sendbuf (replyHeader 20 junk TCP_DEFAULT_COMMAND_TYPE errcode) sizeof_replyHeader (client_sock ci') of
              (r', s') \<Rightarrow> Returned (True, ci'\<lparr>client_sock := q_close_socket s'\<rparr>, st')))"


section \<open>Reading a packet\<close>

lemma overwrite_0_full: "overwrite 0 xs buf = xs @ drop (length xs) buf"
  by (simp add: overwrite_def)

text \<open>
  The stream of a well-formed packet: the header with the length of the body, then the body.  After
  the two reads the request buffer starts with the body.
\<close>

lemma recv_packet:
  assumes rx: "rx_data (srx s) = baseHeader TCP_HEADER_VERSION (int (length body)) @ body @ rest"
    and len: "0 < length body" "length body \<le> length req" "12 \<le> length req" "length body < 2 ^ 31"
  shows "\<exists>s1 s2 tail. q_recvbuf 12 req s = (0, baseHeader TCP_HEADER_VERSION (int (length body)) @ drop 12 req, s1)
    \<and> q_recvbuf (length body) (baseHeader TCP_HEADER_VERSION (int (length body)) @ drop 12 req) s1 = (0, body @ tail, s2)
    \<and> length (body @ tail) = length req \<and> rx_data (srx s2) = rest \<and> stx s2 = stx s \<and> sout s2 = sout s
    \<and> sopen s2 = sopen s"
proof -
  let ?h = "baseHeader TCP_HEADER_VERSION (int (length body))"
  obtain s1 where s1: "q_recvbuf 12 req s = (0, overwrite 0 (take 12 (rx_data (srx s))) req, s1)"
    "rx_data (srx s1) = drop 12 (rx_data (srx s))" "stx s1 = stx s" "sout s1 = sout s" "sopen s1 = sopen s"
    using q_recvbuf_ok [of 12 req s] len(3) rx by auto
  have b1: "overwrite 0 (take 12 (rx_data (srx s))) req = ?h @ drop 12 req" and d1: "rx_data (srx s1) = body @ rest"
    using rx s1(2) by (simp_all add: overwrite_0_full)
  let ?buf = "?h @ drop 12 req"
  have "length ?buf = length req" using len(3) by simp
  then obtain s2 where s2: "q_recvbuf (length body) ?buf s1 = (0, overwrite 0 (take (length body) (rx_data (srx s1))) ?buf, s2)"
    "rx_data (srx s2) = drop (length body) (rx_data (srx s1))" "stx s2 = stx s1" "sout s2 = sout s1" "sopen s2 = sopen s1"
    using q_recvbuf_ok [of "length body" ?buf s1] len d1 by auto
  have "overwrite 0 (take (length body) (rx_data (srx s1))) ?buf = body @ drop (length body) ?buf"
    using d1 by (simp add: overwrite_0_full)
  moreover have "length (body @ drop (length body) ?buf) = length req" using len \<open>length ?buf = length req\<close> by simp
  ultimately show ?thesis using s1 s2 b1 d1 by (metis append_eq_conv_conj)
qed

lemma server_header_packet:
  assumes "is_int32 n"
  shows "server_header (baseHeader TCP_HEADER_VERSION n @ r) (int TCP_DEFAULT_HEADER_SIZE) = Returned n"
  using assms by (simp add: server_header_def TCP_DEFAULT_HEADER_SIZE_def)


section \<open>A well-formed request\<close>

definition default_types :: "tcp_client \<Rightarrow> bool" where
  "default_types c \<longleftrightarrow> protocol_type c = TCP_DEFAULT_PROTOCOL_TYPE \<and> source_type c = TCP_DEFAULT_SOURCE_TYPE
     \<and> command_type c = TCP_DEFAULT_COMMAND_TYPE"

lemma request_fields:
  assumes "length reserved = 14" and "length data < 2 ^ 31"
  shows "rd16 (request_bytes c reserved data @ tail) 0 = protocol_type c"
    "rd16 (request_bytes c reserved data @ tail) 2 = source_type c"
    "rd16 (request_bytes c reserved data @ tail) 18 = command_type c"
    "rd16 (request_bytes c reserved data @ tail) 20 = operate_type c"
    "sint (rd32 (request_bytes c reserved data @ tail) 22) = int (length data)"
    "sub_buf 26 (length data) (request_bytes c reserved data @ tail) = data"
proof -
  have "is_int32 (int (length data))" using assms(2) by (simp add: is_int32_def)
  note sint_int32 [OF this]
  then show "rd16 (request_bytes c reserved data @ tail) 0 = protocol_type c"
    "rd16 (request_bytes c reserved data @ tail) 2 = source_type c"
    "rd16 (request_bytes c reserved data @ tail) 18 = command_type c"
    "rd16 (request_bytes c reserved data @ tail) 20 = operate_type c"
    "sint (rd32 (request_bytes c reserved data @ tail) 22) = int (length data)"
    "sub_buf 26 (length data) (request_bytes c reserved data @ tail) = data"
    using assms(1) by (simp_all add: rd16_def rd32_def sub_buf_def request_bytes_def)
qed

definition reply_area :: "bytes \<Rightarrow> bytes" where
  "reply_area reply = overwrite 14 (le16 TCP_DEFAULT_OPERATE_TYPE) (overwrite 16 (le32 (int32 0)) reply)"

lemma server_process_request:
  assumes "default_types c" and "length reserved = 14" and "0 < length data" and "length data < 2 ^ 31"
    and "reply \<noteq> []"
  shows "server_process env (request_bytes c reserved data @ tail) (26 + int (length data)) reply st =
    bind_outcome (server_main env (operate_type c) data (drop 24 (reply_area reply)) st) (\<lambda>(ret, out, st').
      let reply3 = take 24 (reply_area reply) @ out
      in if ret < 0 then Returned (ret, reply3, st')
         else Returned (24 + ret, overwrite 20 (le32 (int32 ret)) reply3, st'))"
  using assms
  by (simp add: server_process_def request_fields default_types_def tcp_types reply_area_def Let_def)

lemma reply_area_layout:
  assumes "24 < length reply"
  shows "\<exists>x. length x = 4 \<and> reply_area reply = take 14 reply @ le16 TCP_DEFAULT_OPERATE_TYPE @ le32 (int32 0) @ x @ drop 24 reply"
proof -
  obtain a r0 where 0: "reply = a @ r0" "length a = 14" using split_at [of 14 reply] assms by auto
  obtain b r1 where 1: "r0 = b @ r1" "length b = 2" using split_at [of 2 r0] assms 0 by auto
  obtain cc r2 where 2: "r1 = cc @ r2" "length cc = 4" using split_at [of 4 r1] assms 0 1 by auto
  obtain x r3 where 3: "r2 = x @ r3" "length x = 4" using split_at [of 4 r2] assms 0 1 2 by auto
  have "overwrite 16 (le32 (int32 0)) reply = a @ b @ (le32 (int32 0) @ x @ r3)"
    using overwrite_piece [of "a @ b" 16 cc "le32 (int32 0)" "x @ r3"] 0 1 2 3 by simp
  then have "reply_area reply = a @ le16 TCP_DEFAULT_OPERATE_TYPE @ le32 (int32 0) @ x @ r3"
    unfolding reply_area_def using 0(2) 1(2) by (subst overwrite_piece [symmetric, of a 14 b]) simp_all
  moreover have "take 14 reply = a" "drop 24 reply = r3" using 0 1 2 3 by simp_all
  ultimately show ?thesis using 3(2) by blast
qed

lemma reply_layout:
  assumes "24 < length reply" and "0 \<le> ret" and "nat ret \<le> length out"
  shows "take (24 + nat ret) (overwrite 20 (le32 (int32 ret)) (take 24 (reply_area reply) @ out)) =
    reply_bytes (take 14 reply) TCP_DEFAULT_OPERATE_TYPE (take (nat ret) out)"
proof -
  obtain x where x: "length x = 4"
    "reply_area reply = take 14 reply @ le16 TCP_DEFAULT_OPERATE_TYPE @ le32 (int32 0) @ x @ drop 24 reply"
    using reply_area_layout [OF assms(1)] by blast
  have l14: "length (take 14 reply) = 14" using assms(1) by simp
  let ?p = "take 14 reply @ le16 TCP_DEFAULT_OPERATE_TYPE @ le32 (int32 0)"
  have "take 24 (reply_area reply) = ?p @ x" unfolding x(2) using x(1) l14 by simp
  then have "overwrite 20 (le32 (int32 ret)) (take 24 (reply_area reply) @ out) = ?p @ le32 (int32 ret) @ out"
    using overwrite_piece [of ?p 20 x "le32 (int32 ret)" out] x(1) l14 by simp
  then show ?thesis using l14 assms(2,3) by (simp add: reply_bytes_def)
qed


lemma nat_numeral_plus: "nat (numeral k + int n) = numeral k + n"
  by (simp add: nat_add_distrib)

text \<open>The connection blocks that the pool hands out.\<close>

definition ci_ok :: "client_info \<Rightarrow> bool" where
  "ci_ok ci \<longleftrightarrow> 12 \<le> length (ci_request ci) \<and> length (ci_request ci) < 2 ^ 30
     \<and> 36 < length (ci_reply ci) \<and> length (ci_reply ci) \<le> 2 ^ 20"

lemma serve_request:
  assumes ci: "ci_ok ci" "tx_healthy (stx (client_sock ci))"
    and rx: "rx_data (srx (client_sock ci)) =
      baseHeader TCP_HEADER_VERSION (26 + int (length data)) @ request_bytes c reserved data @ rest"
    and c: "default_types c" "length reserved = 14" "0 < length data" "26 + length data \<le> length (ci_request ci)"
    and junk: "length junk = 14" and "\<not> mongo_locked st"
    and main: "server_main env (operate_type c) data (drop 24 (reply_area (drop 12 (ci_reply ci)))) st = Returned (ret, out, st')"
  shows "\<exists>ci'. serve_client env junk ci st = Returned (ret < 0, ci', st') \<and> \<not> sopen (client_sock ci')
    \<and> sout (client_sock ci') = sout (client_sock ci) @
        (if ret < 0 then replyHeader 20 junk TCP_DEFAULT_COMMAND_TYPE ret
         else baseHeader TCP_HEADER_VERSION (24 + ret)
              @ reply_bytes (take 14 (drop 12 (ci_reply ci))) TCP_DEFAULT_OPERATE_TYPE (take (nat ret) out))"
proof -
  let ?s = "client_sock ci" and ?body = "request_bytes c reserved data" and ?reply = "drop 12 (ci_reply ci)"
  let ?h = "baseHeader TCP_HEADER_VERSION (int (length ?body))"
  have lb: "length ?body = 26 + length data" using c(2) by simp
  have bounds: "length data < 2 ^ 31" "24 < length ?reply" using ci(1) c(4) by (auto simp: ci_ok_def)
  obtain s1 s2 tail where
    r1: "q_recvbuf 12 (ci_request ci) ?s = (0, ?h @ drop 12 (ci_request ci), s1)" and
    r2: "q_recvbuf (length ?body) (?h @ drop 12 (ci_request ci)) s1 = (0, ?body @ tail, s2)" and
    s2: "stx s2 = stx ?s" "sout s2 = sout ?s"
    using recv_packet [of ?s ?body rest "ci_request ci"] rx lb ci(1) c(3,4) by (auto simp: ci_ok_def)
  have "is_int32 (int (length ?body))" using ci(1) c(4) lb by (simp add: ci_ok_def is_int32_def)
  note hd = server_header_packet [OF this]
  have il: "int (length ?body) = 26 + int (length data)" using lb by simp
  have rl: "length out = length ?reply - 24 \<and> ret < int (length out)"
  proof -
    have "length (reply_area ?reply) = length ?reply"
      using bounds(2) by (simp add: reply_area_def)
    then show ?thesis using server_main_bounds [OF main \<open>\<not> mongo_locked st\<close>] by simp
  qed
  let ?reply3 = "take 24 (reply_area ?reply) @ out"
  have l3: "length ?reply3 = length ?reply"
    using bounds(2) rl by (simp add: reply_area_def)
  let ?ci2 = "ci\<lparr>ci_request := ?body @ tail, client_sock := s2\<rparr>"
  have proc: "server_process env (?body @ tail) (int (length ?body)) ?reply st =
      (if ret < 0 then Returned (ret, ?reply3, st') else Returned (24 + ret, overwrite 20 (le32 (int32 ret)) ?reply3, st'))"
    unfolding il using bounds c(3) main
    by (subst server_process_request [OF c(1,2)]) (auto simp: Let_def)
  have tx: "tx_healthy (stx s2)" using s2 ci(2) by simp
  show ?thesis
  proof (cases "ret < 0")
    case True
    have hr: "handle_request env ci st = Returned (Inl ret, ?ci2\<lparr>ci_reply := take 12 (ci_reply ci) @ ?reply3\<rparr>, st')"
      using r1 r2 hd proc True ci(1) c(4) lb by (simp add: handle_request_def TCP_DEFAULT_HEADER_SIZE_def ci_ok_def nat_numeral_plus Let_def)
    obtain tx' where "q_sendbuf (replyHeader 20 junk TCP_DEFAULT_COMMAND_TYPE ret) 32 s2 =
        (0, s2\<lparr>stx := tx', sout := sout s2 @ take 32 (replyHeader 20 junk TCP_DEFAULT_COMMAND_TYPE ret)\<rparr>)"
      using q_sendbuf_healthy [OF tx, of 32 "replyHeader 20 junk TCP_DEFAULT_COMMAND_TYPE ret"] junk by auto
    then show ?thesis using True junk s2 by (simp add: serve_client_def hr q_close_socket_def)
  next
    case False
    let ?out = "overwrite 20 (le32 (int32 ret)) ?reply3"
    let ?r = "overwrite 0 (baseHeader TCP_HEADER_VERSION (24 + ret)) (take 12 (ci_reply ci) @ ?out)"
    have lo: "length ?out = length ?reply" using l3 bounds(2) by simp
    have req: "?r = baseHeader TCP_HEADER_VERSION (24 + ret) @ ?out"
      using ci(1) by (simp add: overwrite_0_full ci_ok_def)
    have n: "0 < nat (24 + ret) + 12" "nat (24 + ret) + 12 \<le> length ?r"
      unfolding req using lo rl False bounds(2) by (auto simp: nat_add_distrib)
    obtain tx' where sb: "q_sendbuf ?r (nat (24 + ret) + 12) s2 =
        (0, s2\<lparr>stx := tx', sout := sout s2 @ take (nat (24 + ret) + 12) ?r\<rparr>)"
      using q_sendbuf_healthy [OF tx n] by auto
    have hr: "\<exists>ci'. handle_request env ci st = Returned (Inr (), ci', st')
        \<and> client_sock ci' = q_close_socket (s2\<lparr>stx := tx', sout := sout s2 @ take (nat (24 + ret) + 12) ?r\<rparr>)"
      using r1 r2 hd proc False ci(1) c(4) lb sb by (simp add: handle_request_def TCP_DEFAULT_HEADER_SIZE_def ci_ok_def nat_numeral_plus Let_def)
    have "take (nat (24 + ret) + 12) ?r = baseHeader TCP_HEADER_VERSION (24 + ret) @ take (24 + nat ret) ?out"
      unfolding req using False by (simp add: nat_add_distrib add.commute)
    also have "take (24 + nat ret) ?out = reply_bytes (take 14 ?reply) TCP_DEFAULT_OPERATE_TYPE (take (nat ret) out)"
      by (rule reply_layout [OF bounds(2)]) (use False rl in auto)
    finally show ?thesis
      using hr False s2 by (auto simp: serve_client_def q_close_socket_def)
  qed
qed


text \<open>For the image types \<open>server_main\<close> always returns, with a length or one of its own codes.\<close>

lemma server_main_total:
  assumes "unat type < 5" and "data \<noteq> []" and "out \<noteq> []"
  shows "\<exists>n out' st'. server_main env type data out st = Returned (n, out', st') \<and> -63 \<le> n"
proof -
  obtain e o1 where em: "emit_all reply_head 0 out = (e, o1)" by fastforce
  show ?thesis
  proof (cases e)
    case (Inl err)
    from emit_all_Inl [OF em [unfolded Inl]] have "-63 \<le> err" by (auto simp: reply_head_def)
    with Inl assms show ?thesis by (simp add: server_main_def em)
  next
    case (Inr pos)
    obtain n out' st' where fi: "finish_image env (unat type) data pos o1 st = (n, out', st')" by (metis prod_cases3)
    have "-63 \<le> n"
    proof (cases "register_image env (unat type) data st")
      case (Pair r st1)
      show ?thesis
      proof (cases r)
        case (Inl err)
        with register_image_codes [of env "unat type" data st err st1] fi Pair show ?thesis
          by (auto simp: finish_image_def)
      next
        case (Inr ps)
        obtain p s where ps: "ps = (p, s)" by fastforce
        obtain e2 o2 where em2: "emit_all (reply_tail (iid_of env data) (md5_of env data) p s) pos o1 = (e2, o2)"
          by fastforce
        show ?thesis
        proof (cases e2)
          case (Inl err)
          from emit_all_Inl [OF em2 [unfolded Inl]] have "-63 \<le> err" by (auto simp: reply_tail_def)
          with fi Pair Inr ps em2 Inl show ?thesis by (simp add: finish_image_def)
        next
          case e2: (Inr k)
          with fi Pair Inr ps em2 show ?thesis by (auto simp: finish_image_def)
        qed
      qed
    qed
    with Inr assms fi show ?thesis by (simp add: server_main_def em)
  qed
qed


section \<open>Every connection\<close>

lemma server_process_frame:
  assumes "server_process env request len reply st = Returned (n, reply', st')" and "24 < length reply"
    and "\<not> mongo_locked st"
  shows "length reply' = length reply \<and> \<not> mongo_locked st' \<and> n < int (length reply)"
proof (cases "\<exists>data_len. 0 < data_len \<and> 26 + data_len = len \<and> data_len = sint (rd32 request 22)
    \<and> rd16 request 0 = TCP_DEFAULT_PROTOCOL_TYPE \<and> rd16 request 2 = TCP_DEFAULT_COMMAND_TYPE
    \<and> rd16 request 18 = TCP_DEFAULT_OPERATE_TYPE")
  case True
  have la: "length (reply_area reply) = length reply" using assms(2) by (simp add: reply_area_def)
  obtain ret out where
    main: "server_main env (rd16 request 20) (sub_buf 26 (nat (sint (rd32 request 22))) request) (drop 24 (reply_area reply)) st
      = Returned (ret, out, st')"
    and rr: "(n, reply') = (let reply3 = take 24 (reply_area reply) @ out in
        if ret < 0 then (ret, reply3) else (24 + ret, overwrite 20 (le32 (int32 ret)) reply3))"
    using assms(1,2) True
    by (auto simp: server_process_def Let_def bind_outcome_Returned reply_area_def split: if_splits)
  from server_main_bounds [OF main assms(3)] rr la assms(2) show ?thesis by (auto simp: Let_def split: if_splits)
next
  case False
  with assms show ?thesis by (auto simp: server_process_def Let_def tcp_codes split: if_splits)
qed

lemma handle_request_frame:
  assumes "handle_request env ci st = Returned (r, ci', st')" and "ci_ok ci" and "\<not> mongo_locked st"
  shows "ci_ok ci' \<and> \<not> mongo_locked st' \<and> (r = Inr () \<longrightarrow> \<not> sopen (client_sock ci'))"
proof -
  obtain r1 req1 s1 where r1: "q_recvbuf 12 (ci_request ci) (client_sock ci) = (r1, req1, s1)" by (metis prod_cases3)
  have l1: "length req1 = length (ci_request ci)"
    using q_recvbuf_length [of 12 "ci_request ci" "client_sock ci"] r1 assms(2) by (simp add: ci_ok_def)
  note hr = assms(1) [unfolded handle_request_def TCP_DEFAULT_HEADER_SIZE_def r1, simplified]
  show ?thesis
  proof (cases "r1 \<noteq> 0")
    case True
    with hr l1 assms(2,3) show ?thesis by (auto simp: ci_ok_def Let_def)
  next
    case ok: False
    obtain len where h: "server_header req1 12 = Returned len"
      using hr ok by (cases "server_header req1 12") (auto simp: Let_def)
    show ?thesis
    proof (cases "len < 0 \<or> 0 < len \<and> int (length (ci_request ci)) < len")
      case True
      with hr ok h l1 assms(2,3) show ?thesis by (auto simp: ci_ok_def Let_def split: if_splits)
    next
      case len: False
      obtain r2 req2 s2 where r2: "q_recvbuf (nat len) req1 s1 = (r2, req2, s2)" by (metis prod_cases3)
      have l2: "length req2 = length (ci_request ci)"
        using q_recvbuf_length [of "nat len" req1 s1] r2 l1 len by (auto simp: not_less)
      show ?thesis
      proof (cases "r2 \<noteq> 0")
        case True
        with hr ok h len r2 l2 assms(2,3) show ?thesis by (auto simp: ci_ok_def Let_def split: if_splits)
      next
        case False
        then obtain n out where sp: "server_process env req2 len (drop 12 (ci_reply ci)) st = Returned (n, out, st')"
          using hr ok h len r2
          by (auto simp: Let_def bind_outcome_Returned split: if_splits prod.splits)
        have "24 < length (drop 12 (ci_reply ci))" using assms(2) unfolding ci_ok_def length_drop by linarith
        from server_process_frame [OF sp this assms(3)]
        have fr: "length out = length (ci_reply ci) - 12" "\<not> mongo_locked st'" by simp_all
        then show ?thesis
          using hr ok h len r2 False l2 sp assms(2)
          by (auto simp: ci_ok_def Let_def q_close_socket_def split: if_splits prod.splits)
      qed
    qed
  qed
qed


text \<open>C13: A worker gives back what it took.  Whatever arrives on a connection, and whatever fails on the
  way, a worker that finishes with it has closed the socket, left the two buffers of the connection
  block at their size so that the block can be reused, and released the database mutex.\<close>

theorem serve_client_gives_back:
  assumes "serve_client env junk ci st = Returned (failed, ci', st')" and "ci_ok ci" and "\<not> mongo_locked st"
  shows "\<not> sopen (client_sock ci') \<and> ci_ok ci' \<and> \<not> mongo_locked st'"
proof -
  obtain r ci1 st1 where hr: "handle_request env ci st = Returned (r, ci1, st1)"
    using assms(1) by (auto simp: serve_client_def bind_outcome_Returned)
  note fr = handle_request_frame [OF hr assms(2,3)]
  show ?thesis
  proof (cases r)
    case (Inl e)
    with assms(1) fr show ?thesis
      by (auto simp: serve_client_def hr q_close_socket_def ci_ok_def split: prod.splits)
  next
    case (Inr u)
    with assms(1) fr show ?thesis by (auto simp: serve_client_def hr)
  qed
qed

lemma recv_rx_zero: "rx_data rx \<noteq> [] \<Longrightarrow> \<exists>rx'. recv_rx 0 rx = (0, False, [], rx')"
  by (induction rx rule: rx_data.induct) auto

lemma q_recvbuf_zero:
  assumes "rx_data (srx s) \<noteq> []"
  shows "\<exists>s'. q_recvbuf 0 buf s = (0, buf, s')"
proof -
  obtain rx' where "recv_rx 0 (srx s) = (0, False, [], rx')" using recv_rx_zero [OF assms] by blast
  then show ?thesis by (simp add: q_recvbuf_def q_recvbuf_loop.simps)
qed


definition demo_ci :: "bytes \<Rightarrow> client_info" where
  "demo_ci input = \<lparr>client_sock = \<lparr>srx = [RxData input], stx = [], sout = [], sopen = True\<rparr>,
     ci_request = replicate 100 0, ci_reply = replicate 1000 0\<rparr>"

lemma demo_ci_ok: "ci_ok (demo_ci input)"
  by (simp add: ci_ok_def demo_ci_def)

theorem serve_client_gives_back_witness:
  "\<exists>failed ci st. serve_client demo_env (replicate 14 0) (demo_ci [1, 2, 3]) (demo_state 5) = Returned (failed, ci, st)
     \<and> \<not> sopen (client_sock ci)"
proof -
  have "rx_data (srx (client_sock (demo_ci [1, 2, 3]))) = [1, 2, 3]" by (simp add: demo_ci_def)
  then have "fst (q_recvbuf 12 (replicate 100 0) (client_sock (demo_ci [1, 2, 3]))) \<noteq> 0"
    using q_recvbuf_ok_iff [of 12 "replicate 100 0" "client_sock (demo_ci [1, 2, 3])"] by simp
  then have "\<exists>failed ci st. serve_client demo_env (replicate 14 0) (demo_ci [1, 2, 3]) (demo_state 5) = Returned (failed, ci, st)"
    by (auto simp: serve_client_def handle_request_def TCP_DEFAULT_HEADER_SIZE_def Let_def demo_ci_def split: prod.splits)
  then obtain failed ci st where
    run: "serve_client demo_env (replicate 14 0) (demo_ci [1, 2, 3]) (demo_state 5) = Returned (failed, ci, st)" by blast
  have "\<not> mongo_locked (demo_state 5)" by (simp add: demo_state_def)
  from serve_client_gives_back [OF run demo_ci_ok this] run show ?thesis by blast
qed


end
