(* ===== verification/Server_Threads.thy ===== *)
theory Server_Threads
  imports Ring_Queue
begin

text \<open>
  The threads of \<open>QTcpServer\<close>: communication threads take a free connection block from
  \<open>chunk_queue_\<close>, accept a connection into it, put it into \<open>client_queue_\<close> and signal the trigger;
  workers wait for the trigger, empty the client queue, and give each block back.  Every queue and
  trigger operation is atomic under its mutex, so an execution is an interleaving of the steps
  below.  Blocks are numbered.  The steps are those of a running server: \<open>exit_flag_\<close> is only set by
  the destructor.  What a worker does with a block between taking it and giving it back is
  \<open>serve_client\<close> of the theory \<open>Work_Thread\<close>, of which only the failure flag matters here; a request
  that aborts the process ends the execution.
\<close>

section \<open>The trigger\<close>

record trigger =
  m_autoreset :: bool
  m_state :: bool

definition QTrigger :: trigger where
  "QTrigger = \<lparr>m_autoreset = True, m_state = False\<rparr>"

definition trigger_signal :: "trigger \<Rightarrow> trigger" where
  "trigger_signal t = t\<lparr>m_state := True\<rparr>"

text \<open>\<open>wait\<close> returns when the state is set; \<open>None\<close> is blocking.\<close>

definition trigger_wait :: "trigger \<Rightarrow> trigger option" where
  "trigger_wait t =
     (if m_state t then Some (if m_autoreset t then t\<lparr>m_state := False\<rparr> else t) else None)"

definition trigger_reset :: "trigger \<Rightarrow> trigger" where
  "trigger_reset t = t\<lparr>m_state := False\<rparr>"


section \<open>Thread states and steps\<close>

text \<open>
  A communication thread is about to take a block, holds one and accepts, has a connection to hand
  over, has handed it over and signals, or failed and gives the block back.  A worker waits for the
  trigger, is about to take a connection, serves one, or gives the block back.
\<close>

datatype comm_pc = CTop | CAccept nat | CSubmit nat | CSignal | CReturn nat
datatype work_pc = WTop | WDrain | WServe nat | WReturn nat

fun comm_held :: "comm_pc \<Rightarrow> nat list" where
  "comm_held (CAccept b) = [b]"
| "comm_held (CSubmit b) = [b]"
| "comm_held (CReturn b) = [b]"
| "comm_held _ = []"

fun work_held :: "work_pc \<Rightarrow> nat list" where
  "work_held (WServe b) = [b]"
| "work_held (WReturn b) = [b]"
| "work_held _ = []"

record pool =
  chunk_queue :: "nat qqueue"
  client_queue :: "nat qqueue"
  client_trigger :: trigger
  comms :: "comm_pc list"
  works :: "work_pc list"
  stat_numconnections :: "32 word"
  stat_failedconnections :: "32 word"

definition set_comm :: "nat \<Rightarrow> comm_pc \<Rightarrow> pool \<Rightarrow> pool" where
  "set_comm i pc s = s\<lparr>comms := (comms s)[i := pc]\<rparr>"

definition set_work :: "nat \<Rightarrow> work_pc \<Rightarrow> pool \<Rightarrow> pool" where
  "set_work i pc s = s\<lparr>works := (works s)[i := pc]\<rparr>"

definition comm_at :: "pool \<Rightarrow> nat \<Rightarrow> comm_pc \<Rightarrow> bool" where
  "comm_at s i pc \<longleftrightarrow> i < length (comms s) \<and> comms s ! i = pc"

definition work_at :: "pool \<Rightarrow> nat \<Rightarrow> work_pc \<Rightarrow> bool" where
  "work_at s i pc \<longleftrightarrow> i < length (works s) \<and> works s ! i = pc"

inductive comm_step :: "pool \<Rightarrow> pool \<Rightarrow> bool" where
  take_chunk: "comm_at s i CTop \<Longrightarrow> qq_pop (chunk_queue s) = Some (b, q) \<Longrightarrow>
     comm_step s (set_comm i (CAccept b) (s\<lparr>chunk_queue := q\<rparr>))"
| accept_ok: "comm_at s i (CAccept b) \<Longrightarrow> comm_step s (set_comm i (CSubmit b) s)"
| accept_error: "comm_at s i (CAccept b) \<Longrightarrow> comm_step s (set_comm i (CReturn b) s)"
| submit: "comm_at s i (CSubmit b) \<Longrightarrow> qq_push b (client_queue s) = Some q \<Longrightarrow>
     comm_step s (set_comm i CSignal (s\<lparr>client_queue := q\<rparr>))"
| signal: "comm_at s i CSignal \<Longrightarrow>
     comm_step s (set_comm i CTop (s\<lparr>client_trigger := trigger_signal (client_trigger s)\<rparr>))"
| return_chunk: "comm_at s i (CReturn b) \<Longrightarrow> qq_push b (chunk_queue s) = Some q \<Longrightarrow>
     comm_step s (set_comm i CTop (s\<lparr>chunk_queue := q\<rparr>))"

inductive work_step :: "pool \<Rightarrow> pool \<Rightarrow> bool" where
  wake: "work_at s i WTop \<Longrightarrow> trigger_wait (client_trigger s) = Some t \<Longrightarrow>
     work_step s (set_work i WDrain (s\<lparr>client_trigger := t\<rparr>))"
| take_client: "work_at s i WDrain \<Longrightarrow> qq_pop_non_blocking d (client_queue s) = (0, b, q) \<Longrightarrow>
     work_step s (set_work i (WServe b) (s\<lparr>client_queue := q\<rparr>))"
| no_client: "work_at s i WDrain \<Longrightarrow> qq_pop_non_blocking d (client_queue s) = (-1, b, q) \<Longrightarrow>
     work_step s (set_work i WTop s)"
| served_client: "work_at s i (WServe b) \<Longrightarrow> work_step s (set_work i (WReturn b)
     (s\<lparr>stat_failedconnections := stat_failedconnections s + (if failed then 1 else 0),
        stat_numconnections := stat_numconnections s + 1\<rparr>))"
| give_back: "work_at s i (WReturn b) \<Longrightarrow> qq_push b (chunk_queue s) = Some q \<Longrightarrow>
     work_step s (set_work i WDrain (s\<lparr>chunk_queue := q\<rparr>))"

definition pool_step :: "pool \<Rightarrow> pool \<Rightarrow> bool" where
  "pool_step s s' \<longleftrightarrow> comm_step s s' \<or> work_step s s'"

text \<open>\<open>init\<close>: both queues are rings of \<open>queue_size_ + 1\<close> places; the blocks go into the first.\<close>

definition init_pool :: "nat \<Rightarrow> nat \<Rightarrow> nat \<Rightarrow> nat list \<Rightarrow> nat list \<Rightarrow> pool option" where
  "init_pool queue_size comm_max work_max mem1 mem2 =
     (case qq_init (int queue_size + 1) (Some mem1) qq_new of (r1, q1) \<Rightarrow>
        if r1 < 0 then None
        else case push_all qq_push [0..<queue_size] q1 of
          None \<Rightarrow> None
        | Some q1' \<Rightarrow>
            (case qq_init (int queue_size + 1) (Some mem2) qq_new of (r2, q2) \<Rightarrow>
               if r2 < 0 then None
               else Some \<lparr>chunk_queue = q1', client_queue = q2, client_trigger = QTrigger,
                          comms = replicate comm_max CTop, works = replicate work_max WTop,
                          stat_numconnections = 0, stat_failedconnections = 0\<rparr>))"

inductive reachable :: "pool \<Rightarrow> pool \<Rightarrow> bool" for s0 :: pool where
  here: "reachable s0 s0"
| there: "reachable s0 s \<Longrightarrow> pool_step s s' \<Longrightarrow> reachable s0 s'"


section \<open>The invariant\<close>

definition all_blocks :: "pool \<Rightarrow> nat multiset" where
  "all_blocks s = mset (qq_list (chunk_queue s)) + mset (qq_list (client_queue s))
     + mset (concat (map comm_held (comms s))) + mset (concat (map work_held (works s)))"

text \<open>A queued connection has a signal pending, or a worker that will look at the queue again.\<close>

definition wake_ok :: "pool \<Rightarrow> bool" where
  "wake_ok s \<longleftrightarrow> (qq_list (client_queue s) \<noteq> [] \<longrightarrow>
     m_state (client_trigger s) \<or> (\<exists>i < length (works s). works s ! i \<noteq> WTop) \<or> (\<exists>i. comm_at s i CSignal))"

definition pool_inv :: "nat \<Rightarrow> pool \<Rightarrow> bool" where
  "pool_inv n s \<longleftrightarrow> qq_wf (chunk_queue s) \<and> qq_wf (client_queue s)
     \<and> qmax (chunk_queue s) = Suc n \<and> qmax (client_queue s) = Suc n
     \<and> all_blocks s = mset [0..<n] \<and> wake_ok s"

lemma held_update:
  assumes "i < length xs"
  shows "mset (concat (map h (xs[i := y]))) + mset (h (xs ! i)) = mset (concat (map h xs)) + mset (h y)"
  using assms
proof (induction xs arbitrary: i)
  case (Cons x xs)
  then show ?case by (cases i) (auto simp: ac_simps)
qed simp

lemma held_comm_update:
  "comm_at s i pc \<Longrightarrow> mset (concat (map comm_held ((comms s)[i := pc']))) + mset (comm_held pc) =
     mset (concat (map comm_held (comms s))) + mset (comm_held pc')"
  using held_update [of i "comms s" comm_held pc'] by (auto simp: comm_at_def)

lemma held_work_update:
  "work_at s i pc \<Longrightarrow> mset (concat (map work_held ((works s)[i := pc']))) + mset (work_held pc) =
     mset (concat (map work_held (works s))) + mset (work_held pc')"
  using held_update [of i "works s" work_held pc'] by (auto simp: work_at_def)

text \<open>A step that moves a block between a thread and the queues keeps the collection of all blocks.\<close>

lemma blocks_comm:
  assumes "comm_at s i pc" and "comms s' = (comms s)[i := pc']" and "works s' = works s"
    and "mset (qq_list (chunk_queue s')) + mset (qq_list (client_queue s')) + mset (comm_held pc') =
         mset (qq_list (chunk_queue s)) + mset (qq_list (client_queue s)) + mset (comm_held pc)"
  shows "all_blocks s' = all_blocks s"
proof (rule multiset_eqI)
  fix x
  have "count (mset (concat (map comm_held (comms s')))) x + count (mset (comm_held pc)) x =
      count (mset (concat (map comm_held (comms s)))) x + count (mset (comm_held pc')) x"
    using held_comm_update [OF assms(1), of pc'] assms(2) by (metis count_union)
  moreover have "count (mset (qq_list (chunk_queue s'))) x + count (mset (qq_list (client_queue s'))) x
      + count (mset (comm_held pc')) x = count (mset (qq_list (chunk_queue s))) x
      + count (mset (qq_list (client_queue s))) x + count (mset (comm_held pc)) x"
    using assms(4) by (metis count_union)
  ultimately show "count (all_blocks s') x = count (all_blocks s) x"
    unfolding all_blocks_def assms(3) count_union by linarith
qed

lemma blocks_work:
  assumes "work_at s i pc" and "works s' = (works s)[i := pc']" and "comms s' = comms s"
    and "mset (qq_list (chunk_queue s')) + mset (qq_list (client_queue s')) + mset (work_held pc') =
         mset (qq_list (chunk_queue s)) + mset (qq_list (client_queue s)) + mset (work_held pc)"
  shows "all_blocks s' = all_blocks s"
proof (rule multiset_eqI)
  fix x
  have "count (mset (concat (map work_held (works s')))) x + count (mset (work_held pc)) x =
      count (mset (concat (map work_held (works s)))) x + count (mset (work_held pc')) x"
    using held_work_update [OF assms(1), of pc'] assms(2) by (metis count_union)
  moreover have "count (mset (qq_list (chunk_queue s'))) x + count (mset (qq_list (client_queue s'))) x
      + count (mset (work_held pc')) x = count (mset (qq_list (chunk_queue s))) x
      + count (mset (qq_list (client_queue s))) x + count (mset (work_held pc)) x"
    using assms(4) by (metis count_union)
  ultimately show "count (all_blocks s') x = count (all_blocks s) x"
    unfolding all_blocks_def assms(3) count_union by linarith
qed

lemma pop_blocks: "qq_wf q \<Longrightarrow> qq_pop q = Some (b, q') \<Longrightarrow>
    qq_wf q' \<and> qmax q' = qmax q \<and> mset (qq_list q) = add_mset b (mset (qq_list q')) \<and> qq_list q \<noteq> []"
  using qq_pop_wf [of q b q'] qq_pop_list [of q b q'] by auto

lemma push_blocks: "qq_wf q \<Longrightarrow> qq_push b q = Some q' \<Longrightarrow>
    qq_wf q' \<and> qmax q' = qmax q \<and> mset (qq_list q') = add_mset b (mset (qq_list q)) \<and> qq_list q' \<noteq> []"
  using qq_push_wf [of q b q'] qq_push_list [of q b q'] by auto

lemma pop_non_blocking_pop:
  "qq_pop_non_blocking d q = (0, b, q') \<Longrightarrow> qq_pop q = Some (b, q')"
  "qq_wf q \<Longrightarrow> qq_pop_non_blocking d q = (-1, b, q') \<Longrightarrow> qq_list q = []"
  by (auto simp: qq_pop_non_blocking_def qq_pop_def qq_empty_list split: if_splits)

lemmas pool_unfold = pool_inv_def set_comm_def set_work_def

lemma wake_ok_comm:
  assumes "wake_ok s" and "\<not> comm_at s i CSignal"
    and "client_trigger s' = client_trigger s" "works s' = works s"
    and "comms s' = (comms s)[i := pc]"
    and "qq_list (client_queue s') \<noteq> [] \<Longrightarrow> qq_list (client_queue s) \<noteq> []"
  shows "wake_ok s'"
proof -
  have "comm_at s' j CSignal" if "comm_at s j CSignal" for j
    using that assms(2,5) by (cases "j = i") (auto simp: comm_at_def)
  then show ?thesis using assms unfolding wake_ok_def by auto
qed


lemma comm_step_inv:
  assumes "comm_step s s'" and "pool_inv n s"
  shows "pool_inv n s'"
  using assms
proof cases
  case (take_chunk i b q)
  note p = pop_blocks [of "chunk_queue s" b q]
  have "wake_ok s'"
    by (rule wake_ok_comm [of s i _ "CAccept b"])
      (use assms(2) take_chunk in \<open>simp_all add: pool_unfold comm_at_def\<close>)
  moreover have "all_blocks s' = all_blocks s"
    by (rule blocks_comm [OF take_chunk(2), of _ "CAccept b"]) (use assms(2) take_chunk p in \<open>auto simp: pool_unfold\<close>)
  ultimately show ?thesis using assms(2) take_chunk p by (simp add: pool_unfold)
next
  case (accept_ok i b)
  have "wake_ok s'"
    by (rule wake_ok_comm [of s i _ "CSubmit b"])
      (use assms(2) accept_ok in \<open>simp_all add: pool_unfold comm_at_def\<close>)
  moreover have "all_blocks s' = all_blocks s"
    by (rule blocks_comm [OF accept_ok(2), of _ "CSubmit b"]) (use accept_ok in \<open>auto simp: set_comm_def\<close>)
  ultimately show ?thesis using assms(2) accept_ok by (simp add: pool_unfold)
next
  case (accept_error i b)
  have "wake_ok s'"
    by (rule wake_ok_comm [of s i _ "CReturn b"])
      (use assms(2) accept_error in \<open>simp_all add: pool_unfold comm_at_def\<close>)
  moreover have "all_blocks s' = all_blocks s"
    by (rule blocks_comm [OF accept_error(2), of _ "CReturn b"]) (use accept_error in \<open>auto simp: set_comm_def\<close>)
  ultimately show ?thesis using assms(2) accept_error by (simp add: pool_unfold)
next
  case (submit i b q)
  note p = push_blocks [of "client_queue s" b q]
  have "comm_at s' i CSignal" using submit by (simp add: comm_at_def set_comm_def)
  then have "wake_ok s'" by (auto simp: wake_ok_def)
  moreover have "all_blocks s' = all_blocks s"
    by (rule blocks_comm [OF submit(2), of _ CSignal]) (use assms(2) submit p in \<open>auto simp: pool_unfold\<close>)
  ultimately show ?thesis using assms(2) submit p by (simp add: pool_unfold)
next
  case (signal i)
  have "wake_ok s'" using signal by (simp add: wake_ok_def trigger_signal_def set_comm_def)
  moreover have "all_blocks s' = all_blocks s"
    by (rule blocks_comm [OF signal(2), of _ CTop]) (use signal in \<open>auto simp: set_comm_def\<close>)
  ultimately show ?thesis using assms(2) signal by (simp add: pool_unfold)
next
  case (return_chunk i b q)
  note p = push_blocks [of "chunk_queue s" b q]
  have "wake_ok s'"
    by (rule wake_ok_comm [of s i _ CTop])
      (use assms(2) return_chunk in \<open>simp_all add: pool_unfold comm_at_def\<close>)
  moreover have "all_blocks s' = all_blocks s"
    by (rule blocks_comm [OF return_chunk(2), of _ CTop]) (use assms(2) return_chunk p in \<open>auto simp: pool_unfold\<close>)
  ultimately show ?thesis using assms(2) return_chunk p by (simp add: pool_unfold)
qed

lemma wake_ok_busy: "work_at s i pc \<Longrightarrow> pc \<noteq> WTop \<Longrightarrow> wake_ok s"
  by (auto simp: wake_ok_def work_at_def)

lemma work_step_inv:
  assumes "work_step s s'" and "pool_inv n s"
  shows "pool_inv n s'"
  using assms
proof cases
  case (wake i t)
  have "work_at s' i WDrain" using wake by (simp add: work_at_def set_work_def)
  then have "wake_ok s'" by (rule wake_ok_busy) simp
  moreover have "all_blocks s' = all_blocks s"
    by (rule blocks_work [OF wake(2), of _ WDrain]) (use wake in \<open>auto simp: set_work_def\<close>)
  ultimately show ?thesis using assms(2) wake by (simp add: pool_unfold)
next
  case (take_client i d b q)
  note p = pop_blocks [OF _ pop_non_blocking_pop(1) [OF take_client(3)]]
  have "work_at s' i (WServe b)" using take_client by (simp add: work_at_def set_work_def)
  then have "wake_ok s'" by (rule wake_ok_busy) simp
  moreover have "all_blocks s' = all_blocks s"
    by (rule blocks_work [OF take_client(2), of _ "WServe b"]) (use assms(2) take_client p in \<open>auto simp: pool_unfold\<close>)
  ultimately show ?thesis using assms(2) take_client p by (simp add: pool_unfold)
next
  case (no_client i d b q)
  have "qq_list (client_queue s) = []"
    using assms(2) pop_non_blocking_pop(2) [OF _ no_client(3)] by (simp add: pool_inv_def)
  then have "wake_ok s'" using no_client by (simp add: wake_ok_def set_work_def)
  moreover have "all_blocks s' = all_blocks s"
    by (rule blocks_work [OF no_client(2), of _ WTop]) (use no_client in \<open>auto simp: set_work_def\<close>)
  ultimately show ?thesis using assms(2) no_client by (simp add: pool_unfold)
next
  case (served_client i b failed)
  have "work_at s' i (WReturn b)" using served_client by (simp add: work_at_def set_work_def)
  then have "wake_ok s'" by (rule wake_ok_busy) simp
  moreover have "all_blocks s' = all_blocks s"
    by (rule blocks_work [OF served_client(2), of _ "WReturn b"]) (use served_client in \<open>auto simp: set_work_def\<close>)
  ultimately show ?thesis using assms(2) served_client by (simp add: pool_unfold)
next
  case (give_back i b q)
  note p = push_blocks [of "chunk_queue s" b q]
  have "work_at s' i WDrain" using give_back by (simp add: work_at_def set_work_def)
  then have "wake_ok s'" by (rule wake_ok_busy) simp
  moreover have "all_blocks s' = all_blocks s"
    by (rule blocks_work [OF give_back(2), of _ WDrain]) (use assms(2) give_back p in \<open>auto simp: pool_unfold\<close>)
  ultimately show ?thesis using assms(2) give_back p by (simp add: pool_unfold)
qed

lemma init_pool_inv:
  assumes "length mem1 = Suc n" and "length mem2 = Suc n"
  shows "\<exists>s. init_pool n nc nw mem1 mem2 = Some s \<and> pool_inv n s \<and> length (comms s) = nc \<and> length (works s) = nw"
proof -
  let ?q1 = "snd (qq_init (int n + 1) (Some mem1) qq_new)" and ?q2 = "snd (qq_init (int n + 1) (Some mem2) qq_new)"
  have n1: "nat (int n + 1) = Suc n" by simp
  note i1 = qq_init_ok [of "int n + 1" mem1 qq_new, unfolded n1] and i2 = qq_init_ok [of "int n + 1" mem2 qq_new, unfolded n1]
  obtain q where q: "push_all qq_push [0..<n] ?q1 = Some q" "qq_wf q" "qq_list q = [0..<n]" "qmax q - 1 = n"
    using qq.push_all_room [of ?q1 "[0..<n]"] i1 assms(1) by auto
  have "qmax q = Suc n" using q(2,4) by (auto simp: qq_wf_def)
  moreover have "concat (map comm_held (replicate k CTop)) = []" "concat (map work_held (replicate k WTop)) = []" for k
    by (induction k) simp_all
  ultimately show ?thesis
    using q i1 i2 assms
    by (simp add: init_pool_def split_def pool_inv_def all_blocks_def wake_ok_def)
qed

lemma reachable_inv:
  assumes "reachable s0 s" and "pool_inv n s0"
  shows "pool_inv n s \<and> length (comms s) = length (comms s0) \<and> length (works s) = length (works s0)"
  using assms
proof induction
  case here
  then show ?case by simp
next
  case (there s s')
  have "length (comms s') = length (comms s) \<and> length (works s') = length (works s)"
    using there(2) by (auto simp: pool_step_def set_comm_def set_work_def elim!: comm_step.cases work_step.cases)
  with there show ?case using comm_step_inv work_step_inv by (auto simp: pool_step_def)
qed


section \<open>Properties of the pool\<close>

definition started :: "nat \<Rightarrow> nat \<Rightarrow> nat \<Rightarrow> pool \<Rightarrow> bool" where
  "started n nc nw s \<longleftrightarrow>
     (\<exists>mem1 mem2. length mem1 = Suc n \<and> length mem2 = Suc n \<and> init_pool n nc nw mem1 mem2 = Some s)"

lemma started_inv: "started n nc nw s \<Longrightarrow> pool_inv n s \<and> length (comms s) = nc \<and> length (works s) = nw"
  using init_pool_inv unfolding started_def by (metis option.inject)

lemma reachable_started:
  "started n nc nw s0 \<Longrightarrow> reachable s0 s \<Longrightarrow> pool_inv n s \<and> length (comms s) = nc \<and> length (works s) = nw"
  using started_inv reachable_inv by metis

text \<open>A thread that holds a block leaves room for it in both queues.\<close>

lemma room_while_held:
  assumes "pool_inv n s" and "comm_at s i pc \<and> comm_held pc = [b] \<or> work_at s j wc \<and> work_held wc = [b]"
  shows "\<exists>q. qq_push b (chunk_queue s) = Some q" and "\<exists>q. qq_push b (client_queue s) = Some q"
proof -
  have "size (all_blocks s) = n" using assms(1) by (simp add: pool_inv_def)
  moreover have "b \<in> set (concat (map comm_held (comms s))) \<or> b \<in> set (concat (map work_held (works s)))"
    using assms(2) by (auto simp: comm_at_def work_at_def) (metis list.set_intros(1) nth_mem)+
  then have "0 < length (concat (map comm_held (comms s))) + length (concat (map work_held (works s)))"
    using length_pos_if_in_set by (metis add_gr_0)
  moreover have "size (all_blocks s) = qq_size (chunk_queue s) + qq_size (client_queue s)
      + length (concat (map comm_held (comms s))) + length (concat (map work_held (works s)))"
    by (simp add: all_blocks_def del: length_concat)
  ultimately have "qq_size (chunk_queue s) < n" "qq_size (client_queue s) < n" by linarith+
  then show "\<exists>q. qq_push b (chunk_queue s) = Some q" "\<exists>q. qq_push b (client_queue s) = Some q"
    using assms(1) by (auto simp: pool_inv_def intro!: qq_push_defined)
qed

text \<open>C7: No connection block is ever lost or shared.  In every state that the threads can reach, each
  of the \<open>queue_size_\<close> blocks is in exactly one place: in the free queue, in the queue of accepted
  connections, or in the hands of exactly one thread.\<close>

theorem blocks_conserved:
  assumes "started n nc nw s0" and "reachable s0 s"
  shows "mset (qq_list (chunk_queue s) @ qq_list (client_queue s) @ concat (map comm_held (comms s))
           @ concat (map work_held (works s))) = mset [0..<n]
    \<and> distinct (qq_list (chunk_queue s) @ qq_list (client_queue s) @ concat (map comm_held (comms s))
           @ concat (map work_held (works s)))"
proof -
  let ?l = "qq_list (chunk_queue s) @ qq_list (client_queue s) @ concat (map comm_held (comms s))
           @ concat (map work_held (works s))"
  have m: "mset ?l = mset [0..<n]"
    using reachable_started [OF assms] by (simp add: pool_inv_def all_blocks_def add.assoc)
  then have "distinct ?l" by (metis distinct_upt mset_eq_imp_distinct_iff)
  with m show ?thesis by blast
qed

text \<open>C10: A push never blocks.  A thread that has a block to hand over or to give back always finds room
  in the queue, so the only operations that can block are the wait for a free block, \<open>accept\<close>, and
  the wait for the trigger.\<close>

theorem push_never_blocks:
  assumes "started n nc nw s0" and "reachable s0 s"
  shows "(comm_at s i (CSubmit b) \<longrightarrow> (\<exists>q. qq_push b (client_queue s) = Some q))
    \<and> (comm_at s i (CReturn b) \<longrightarrow> (\<exists>q. qq_push b (chunk_queue s) = Some q))
    \<and> (work_at s i (WReturn b) \<longrightarrow> (\<exists>q. qq_push b (chunk_queue s) = Some q))"
proof -
  have inv: "pool_inv n s" using reachable_started [OF assms] by simp
  show ?thesis
    using room_while_held [OF inv, of i "CSubmit b" b] room_while_held [OF inv, of i "CReturn b" b]
      room_while_held [OF inv, of _ _ b i "WReturn b"] by auto
qed

text \<open>C8: No wake-up is lost.  Although the trigger is a single flag that several connections may set
  before a worker looks at it, a connection in the queue always has a signal on its way or set, or
  a worker that is awake and will look at the queue again before it waits.\<close>

theorem no_lost_wakeup:
  assumes "started n nc nw s0" and "reachable s0 s" and "qq_list (client_queue s) \<noteq> []"
  shows "m_state (client_trigger s) \<or> (\<exists>i. comm_at s i CSignal) \<or> (\<exists>i pc. work_at s i pc \<and> pc \<noteq> WTop)"
  using reachable_started [OF assms(1,2)] assms(3) by (auto simp: pool_inv_def wake_ok_def work_at_def)



subsection \<open>A pool with one block, one communication thread and one worker\<close>

definition demo_pool :: pool where
  "demo_pool = \<lparr>chunk_queue = \<lparr>qarr = [0, 7], qmax = 2, qfront = 0, qrear = 1\<rparr>,
     client_queue = \<lparr>qarr = [7, 7], qmax = 2, qfront = 0, qrear = 0\<rparr>, client_trigger = QTrigger,
     comms = [CTop], works = [WTop], stat_numconnections = 0, stat_failedconnections = 0\<rparr>"

definition demo_queued :: pool where
  "demo_queued = \<lparr>chunk_queue = \<lparr>qarr = [0, 7], qmax = 2, qfront = 1, qrear = 1\<rparr>,
     client_queue = \<lparr>qarr = [0, 7], qmax = 2, qfront = 0, qrear = 1\<rparr>, client_trigger = QTrigger,
     comms = [CSignal], works = [WTop], stat_numconnections = 0, stat_failedconnections = 0\<rparr>"

lemma demo_pool_started: "started 1 1 1 demo_pool"
  unfolding started_def
  by (rule exI [of _ "[7, 7]"], rule exI [of _ "[7, 7]"])
    (simp add: init_pool_def demo_pool_def qq_init_def qq_new_def qq_push_def qq_full_def)

definition demo_accepted :: pool where
  "demo_accepted = demo_pool\<lparr>chunk_queue := \<lparr>qarr = [0, 7], qmax = 2, qfront = 1, qrear = 1\<rparr>, comms := [CSubmit 0]\<rparr>"

lemma demo_accepted_reachable: "reachable demo_pool demo_accepted"
proof -
  let ?s1 = "set_comm 0 (CAccept 0) (demo_pool\<lparr>chunk_queue := \<lparr>qarr = [0, 7], qmax = 2, qfront = 1, qrear = 1\<rparr>\<rparr>)"
  have "comm_step demo_pool ?s1"
    by (rule take_chunk) (simp_all add: comm_at_def demo_pool_def qq_pop_def qq_empty_def)
  then have one: "reachable demo_pool ?s1" by (intro there [OF here]) (simp add: pool_step_def)
  have "comm_at ?s1 0 (CAccept 0)" by (simp add: comm_at_def set_comm_def demo_pool_def)
  then have "comm_step ?s1 (set_comm 0 (CSubmit 0) ?s1)" by (rule accept_ok)
  moreover have "set_comm 0 (CSubmit 0) ?s1 = demo_accepted"
    by (simp add: set_comm_def demo_pool_def demo_accepted_def)
  ultimately show ?thesis by (intro there [OF one]) (simp add: pool_step_def)
qed

lemma demo_queued_reachable: "reachable demo_pool demo_queued"
proof -
  have "comm_step demo_accepted demo_queued"
    using submit [of demo_accepted 0 0 "\<lparr>qarr = [0, 7], qmax = 2, qfront = 0, qrear = 1\<rparr>"]
    by (simp add: comm_at_def set_comm_def demo_pool_def demo_accepted_def demo_queued_def qq_push_def qq_full_def)
  then show ?thesis by (intro there [OF demo_accepted_reachable]) (simp add: pool_step_def)
qed

theorem blocks_conserved_witness:
  "mset (qq_list (chunk_queue demo_queued) @ qq_list (client_queue demo_queued) @ concat (map comm_held (comms demo_queued))
     @ concat (map work_held (works demo_queued))) = mset [0..<1]"
  using blocks_conserved [OF demo_pool_started demo_queued_reachable] by blast

theorem push_never_blocks_witness:
  "comm_at demo_accepted 0 (CSubmit 0) \<and> (\<exists>q. qq_push 0 (client_queue demo_accepted) = Some q)"
proof -
  have "comm_at demo_accepted 0 (CSubmit 0)" by (simp add: comm_at_def demo_accepted_def)
  with push_never_blocks [OF demo_pool_started demo_accepted_reachable, of 0 0] show ?thesis by blast
qed

theorem no_lost_wakeup_witness: "\<exists>i. comm_at demo_queued i CSignal"
proof -
  have "qq_list (client_queue demo_queued) \<noteq> []"
    by (simp add: demo_queued_def qq_list_def qq_size_def)
  from no_lost_wakeup [OF demo_pool_started demo_queued_reachable this] show ?thesis
    by (auto simp: demo_queued_def QTrigger_def work_at_def less_Suc_eq)
qed


end
