(* ===== verification/Config_Reader.thy ===== *)
theory Config_Reader
  imports Text_Util File_System
begin

text \<open>
  \<open>QConfigReader\<close>: the fields of a configuration file of lines \<open>name = value\<close>.  Every query reads
  the file again from the start, line by line with \<open>fgets\<close> into a buffer of 1024 bytes.
\<close>

section \<open>C library functions\<close>

abbreviation newline :: char where "newline \<equiv> CHR 0x0A"

text \<open>\<open>fgets(buf, n, fp)\<close> on the rest of the file: what goes into the buffer, and what is left.\<close>

definition fgets :: "nat \<Rightarrow> string \<Rightarrow> (string \<times> string) option" where
  "fgets n s =
     (if s = [] then None
      else let line = takeWhile (\<lambda>c. c \<noteq> newline) s;
               k = min (n - 1) (if length line < length s then Suc (length line) else length line)
           in Some (take k s, drop k s))"

lemma fgets_SomeD: "fgets n s = Some (l, r) \<Longrightarrow> 1 < n \<Longrightarrow> s = l @ r \<and> l \<noteq> [] \<and> length l < n"
proof -
  assume f: "fgets n s = Some (l, r)" and n: "1 < n"
  let ?w = "takeWhile (\<lambda>c. c \<noteq> newline) s"
  have "0 < length ?w \<or> length ?w < length s" if "s \<noteq> []" using that by (cases s) auto
  with f n show ?thesis by (auto simp: fgets_def Let_def min_def split: if_splits)
qed

lemma fgets_line:
  assumes "newline \<notin> set l" and "Suc (length l) < n"
  shows "fgets n (l @ newline # r) = Some (l @ [newline], r)"
proof -
  have "takeWhile (\<lambda>c. c \<noteq> newline) (l @ newline # r) = l"
    using assms(1) by (induction l) auto
  then show ?thesis using assms(2) by (simp add: fgets_def)
qed

definition to_lower :: "char \<Rightarrow> char" where
  "to_lower c = (if 65 \<le> (of_char c :: nat) \<and> (of_char c :: nat) \<le> 90 then char_of ((of_char c :: nat) + 32) else c)"

text \<open>\<open>strncasecmp(buf, name, strlen(name)) = 0\<close> and \<open>strcasecmp(s, t) = 0\<close>.\<close>

definition strncase_eq :: "string \<Rightarrow> string \<Rightarrow> bool" where
  "strncase_eq buf name \<longleftrightarrow> map to_lower (take (length name) (cstr buf)) = map to_lower name"

definition strcase_eq :: "string \<Rightarrow> string \<Rightarrow> bool" where
  "strcase_eq s t \<longleftrightarrow> map to_lower (cstr s) = map to_lower (cstr t)"

definition isspace :: "char \<Rightarrow> bool" where
  "isspace c \<longleftrightarrow> c = CHR '' '' \<or> (9 \<le> (of_char c :: nat) \<and> (of_char c :: nat) \<le> 13)"

definition isdigit :: "char \<Rightarrow> bool" where
  "isdigit c \<longleftrightarrow> 48 \<le> (of_char c :: nat) \<and> (of_char c :: nat) \<le> 57"

definition digit_value :: "char \<Rightarrow> nat" where
  "digit_value c = of_char c - 48"

definition digits_value :: "string \<Rightarrow> nat" where
  "digits_value s = from_base 10 (map digit_value (takeWhile isdigit s))"

text \<open>Blanks, an optional sign, digits: whether the sign is a minus, and the value of the digits.\<close>

definition scan_int :: "string \<Rightarrow> bool \<times> nat" where
  "scan_int s =
     (let t = dropWhile isspace s
      in if t \<noteq> [] \<and> hd t = CHR ''-'' then (True, digits_value (tl t))
         else if t \<noteq> [] \<and> hd t = CHR ''+'' then (False, digits_value (tl t))
         else (False, digits_value t))"

text \<open>\<open>strtol\<close> and \<open>strtoul\<close> to base 10 saturate; \<open>atol\<close> is \<open>strtol\<close>, and \<open>atoi\<close> cuts it to 32 bits.\<close>

definition atol :: "string \<Rightarrow> int" where
  "atol s = (case scan_int s of (neg, n) \<Rightarrow> if neg then max (- (2 ^ 63)) (- int n) else min (2 ^ 63 - 1) (int n))"

definition atoi :: "string \<Rightarrow> 32 word" where
  "atoi s = word_of_int (atol s)"

definition strtoul :: "string \<Rightarrow> 64 word" where
  "strtoul s = (case scan_int s of (neg, n) \<Rightarrow>
     if 2 ^ 64 \<le> n then - 1 else if neg then - of_nat n else of_nat n)"


section \<open>Finding a field\<close>

text \<open>\<open>cancelEnter\<close>: the text of the buffer without the blanks and line ends at its end.\<close>

definition cancelEnter :: "string \<Rightarrow> string" where
  "cancelEnter s = rev (dropWhile (\<lambda>c. c = CHR '' '' \<or> c = CHR 0x0D \<or> c = newline) (rev s))"

text \<open>
  What the loop body does with a line whose beginning is the field name: \<open>None\<close> is \<open>continue\<close>,
  otherwise \<open>p2 - p1\<close> and the C string at \<open>p1\<close>.  \<open>cancelEnter\<close> puts a zero byte after the text it
  keeps; behind it the buffer is as it was.
\<close>

definition field_of_line :: "string \<Rightarrow> string \<Rightarrow> (int \<times> string) option" where
  "field_of_line name line =
     (let s = cancelEnter (cstr line);
          readBuf = overwrite (length s) [CHR 0x00] (cstr line @ [CHR 0x00]);
          p1 = length name + length (takeWhile (\<lambda>c. c = CHR '' '') (drop (length name) s))
      in if s = [] then None
         else if readBuf ! p1 \<noteq> CHR ''='' then None
         else let p = Suc p1 + length (takeWhile (\<lambda>c. c = CHR '' '') (drop (Suc p1) s))
              in Some (int (length s) - int p, cstr (drop p readBuf)))"

function find_field :: "string \<Rightarrow> string \<Rightarrow> (int \<times> string) option" where
  "find_field name s =
     (case fgets 1024 s of
        None \<Rightarrow> None
      | Some (line, rest) \<Rightarrow>
          if \<not> strncase_eq line name then find_field name rest
          else case field_of_line name line of
            None \<Rightarrow> find_field name rest
          | Some r \<Rightarrow> Some r)"
  by pat_completeness auto
termination
  by (relation "measure (length \<circ> snd)") (auto dest!: fgets_SomeD)

declare find_field.simps [simp del]


section \<open>QConfigReader\<close>

record config =
  cfg_fp :: "string option"

definition QConfigReader :: config where
  "QConfigReader = \<lparr>cfg_fp = None\<rparr>"

definition config_init :: "string option \<Rightarrow> fs \<Rightarrow> config \<Rightarrow> int \<times> config" where
  "config_init pConfigFile d c =
     (case pConfigFile of
        None \<Rightarrow> (-1, c)
      | Some f \<Rightarrow>
          (case fopen_r f d of
             None \<Rightarrow> (-1, c\<lparr>cfg_fp := None\<rparr>)
           | Some content \<Rightarrow> (0, c\<lparr>cfg_fp := Some (text_of content)\<rparr>)))"

text \<open>
  \<open>getFieldString(name, value, size)\<close>: the result and the text left in the caller's buffer, or
  \<open>None\<close> when the call writes outside that buffer: a negative count makes \<open>strncpy\<close> fill all of
  memory, a count equal to the size puts the terminating zero behind the buffer.
\<close>

definition getFieldString :: "config \<Rightarrow> string \<Rightarrow> nat \<Rightarrow> (int \<times> string) option" where
  "getFieldString c name fieldValueSize =
     (case cfg_fp c of
        None \<Rightarrow> Some (-1, [])
      | Some content \<Rightarrow>
          if fieldValueSize = 0 \<or> name = [] then Some (-1, [])
          else case find_field name content of
            None \<Rightarrow> Some (-1, [])
          | Some (currentLength, v) \<Rightarrow>
              if int fieldValueSize < currentLength then Some (-1, [])
              else if currentLength < 0 \<or> currentLength = int fieldValueSize then None
              else Some (currentLength, take (nat currentLength) v))"

text \<open>\<open>getFieldString(name, char*& value)\<close>, which allocates the value.\<close>

definition getFieldString_dup :: "config \<Rightarrow> string \<Rightarrow> string option \<Rightarrow> int \<times> string option" where
  "getFieldString_dup c name fieldValue =
     (case cfg_fp c of
        None \<Rightarrow> (-1, fieldValue)
      | Some content \<Rightarrow>
          if name = [] then (-1, fieldValue)
          else case find_field name content of
            None \<Rightarrow> (-1, fieldValue)
          | Some (currentLength, v) \<Rightarrow> (currentLength, Some v))"

text \<open>
  The typed queries read the value into a buffer of 1024 bytes and convert it.  The outer \<open>None\<close> is
  again a write outside the buffer; a failed query leaves the variable as it was.
\<close>

definition get_converted :: "(string \<Rightarrow> 'a option) \<Rightarrow> config \<Rightarrow> string \<Rightarrow> 'a \<Rightarrow> (int \<times> 'a) option" where
  "get_converted conv c name fieldValue =
     (case getFieldString c name 1024 of
        None \<Rightarrow> None
      | Some (r, s) \<Rightarrow>
          if r \<le> 0 then Some (-1, fieldValue)
          else case conv s of None \<Rightarrow> Some (-1, fieldValue) | Some x \<Rightarrow> Some (0, x))"

definition getFieldInt8 :: "config \<Rightarrow> string \<Rightarrow> 8 word \<Rightarrow> (int \<times> 8 word) option" where
  "getFieldInt8 = get_converted (\<lambda>s. Some (ucast (atoi s)))"

definition getFieldUint8 :: "config \<Rightarrow> string \<Rightarrow> 8 word \<Rightarrow> (int \<times> 8 word) option" where
  "getFieldUint8 = get_converted (\<lambda>s. Some (ucast (atoi s)))"

definition getFieldInt16 :: "config \<Rightarrow> string \<Rightarrow> 16 word \<Rightarrow> (int \<times> 16 word) option" where
  "getFieldInt16 = get_converted (\<lambda>s. Some (ucast (atoi s)))"

definition getFieldUint16 :: "config \<Rightarrow> string \<Rightarrow> 16 word \<Rightarrow> (int \<times> 16 word) option" where
  "getFieldUint16 = get_converted (\<lambda>s. Some (ucast (atoi s)))"

definition getFieldInt32 :: "config \<Rightarrow> string \<Rightarrow> 32 word \<Rightarrow> (int \<times> 32 word) option" where
  "getFieldInt32 = get_converted (\<lambda>s. Some (atoi s))"

definition getFieldUint32 :: "config \<Rightarrow> string \<Rightarrow> 32 word \<Rightarrow> (int \<times> 32 word) option" where
  "getFieldUint32 = get_converted (\<lambda>s. Some (word_of_int (atol s)))"

definition getFieldInt64 :: "config \<Rightarrow> string \<Rightarrow> 64 word \<Rightarrow> (int \<times> 64 word) option" where
  "getFieldInt64 = get_converted (\<lambda>s. Some (strtoul s))"

definition getFieldUint64 :: "config \<Rightarrow> string \<Rightarrow> 64 word \<Rightarrow> (int \<times> 64 word) option" where
  "getFieldUint64 = get_converted (\<lambda>s. Some (strtoul s))"

definition getFieldYesNo :: "config \<Rightarrow> string \<Rightarrow> 32 word \<Rightarrow> (int \<times> 32 word) option" where
  "getFieldYesNo = get_converted (\<lambda>s.
     if strcase_eq s ''yes'' then Some 1 else if strcase_eq s ''no'' then Some 0 else None)"

definition getFieldString_std :: "config \<Rightarrow> string \<Rightarrow> string \<Rightarrow> (int \<times> string) option" where
  "getFieldString_std = get_converted (\<lambda>s. Some s)"

text \<open>
  \<open>getFieldTime\<close>: the second \<open>strchr\<close> starts again at the beginning of the value, so \<open>second\<close> is
  read from where \<open>minute\<close> was.
\<close>

definition getFieldTime :: "config \<Rightarrow> string \<Rightarrow> 32 word \<times> 32 word \<times> 32 word \<Rightarrow>
    (int \<times> 32 word \<times> 32 word \<times> 32 word) option" where
  "getFieldTime c name old =
     (case getFieldString c name 1024 of
        None \<Rightarrow> None
      | Some (r, s) \<Rightarrow>
          if r \<le> 0 then Some (-1, old)
          else let hour = atoi s; p = dropWhile (\<lambda>x. x \<noteq> CHR '':'') s
               in if p = [] then Some (-1, hour, snd old)
                  else let minute = atoi (tl p); second = atoi (tl p)
                       in Some (sint (hour * 3600 + minute * 60 + second), hour, minute, second))"


section \<open>Well-formed names\<close>

text \<open>
  The fields the program asks for: not empty, no blanks, no equals sign, not a remark.  For such a
  name the loop body takes the text after the equals sign, without the blanks around it.
\<close>

definition field_name :: "string \<Rightarrow> bool" where
  "field_name name \<longleftrightarrow> name \<noteq> [] \<and> hd name \<noteq> CHR ''#''
     \<and> list_all (\<lambda>c. c \<notin> {CHR '' '', CHR ''='', CHR 0x0D, newline, CHR 0x00}) name"

lemma to_lower_special:
  "x \<in> {CHR '' '', CHR ''='', CHR ''#'', CHR 0x0D, newline, CHR 0x00} \<Longrightarrow> to_lower c = x \<longleftrightarrow> c = x"
proof -
  assume x: "x \<in> {CHR '' '', CHR ''='', CHR ''#'', CHR 0x0D, newline, CHR 0x00}"
  have "char_of ((of_char c :: nat) + 32) \<noteq> x" if "65 \<le> (of_char c :: nat)" "(of_char c :: nat) \<le> 90"
  proof
    assume "char_of ((of_char c :: nat) + 32) = x"
    then have "(of_char c + 32) mod 256 = (of_char x :: nat)" by (metis of_char_of)
    with that x show False by auto
  qed
  with x show ?thesis by (auto simp: to_lower_def)
qed

definition line_end :: "char \<Rightarrow> bool" where
  "line_end c \<longleftrightarrow> c = CHR '' '' \<or> c = CHR 0x0D \<or> c = newline"

lemma cancelEnter_split: "\<exists>tail. s = cancelEnter s @ tail \<and> (\<forall>c \<in> set tail. line_end c)"
proof -
  let ?P = "\<lambda>c. c = CHR '' '' \<or> c = CHR 0x0D \<or> c = newline"
  have "rev s = takeWhile ?P (rev s) @ dropWhile ?P (rev s)" by simp
  then have "rev (rev s) = rev (dropWhile ?P (rev s)) @ rev (takeWhile ?P (rev s))" by (metis rev_append)
  then have "s = cancelEnter s @ rev (takeWhile ?P (rev s))" unfolding cancelEnter_def rev_rev_ident .
  moreover have "\<forall>c \<in> set (rev (takeWhile ?P (rev s))). line_end c"
    by (auto dest: set_takeWhileD simp: line_end_def)
  ultimately show ?thesis by blast
qed

lemma cancelEnter_append:
  assumes "\<forall>c \<in> set tail. line_end c" and "s = [] \<or> \<not> line_end (last s)"
  shows "cancelEnter (s @ tail) = s"
proof -
  let ?P = "\<lambda>c. c = CHR '' '' \<or> c = CHR 0x0D \<or> c = newline"
  have "dropWhile ?P (rev tail @ rev s) = dropWhile ?P (rev s)"
    using assms(1) by (intro dropWhile_append2) (auto simp: line_end_def)
  also have "\<dots> = rev s"
    using assms(2) by (cases s rule: rev_cases) (auto simp: line_end_def)
  finally show ?thesis by (simp add: cancelEnter_def)
qed

lemma strncase_eq_length: "strncase_eq line name \<Longrightarrow> length name \<le> length (cstr line)"
proof -
  assume "strncase_eq line name"
  from arg_cong [OF this [unfolded strncase_eq_def], of length] show ?thesis by simp
qed

lemma name_kept:
  assumes "field_name name" and "strncase_eq line name"
  shows "length name \<le> length (cancelEnter (cstr line))"
proof (rule ccontr)
  let ?t = "cstr line" and ?n = "length name - 1"
  assume "\<not> ?thesis"
  then have short: "length (cancelEnter ?t) \<le> ?n" by simp
  have n: "?n < length name" "name \<noteq> []" using assms(1) by (auto simp: field_name_def)
  obtain tail where t: "?t = cancelEnter ?t @ tail" "\<forall>c \<in> set tail. line_end c"
    using cancelEnter_split by blast
  have lt: "?n < length ?t" using strncase_eq_length [OF assms(2)] n(1) by simp
  have "?t ! ?n = tail ! (?n - length (cancelEnter ?t))"
    using short by (subst t(1)) (simp add: nth_append)
  moreover have "length ?t = length (cancelEnter ?t) + length tail" using arg_cong [OF t(1), of length] by simp
  then have "?n - length (cancelEnter ?t) < length tail" using lt short by linarith
  ultimately have "line_end (?t ! ?n)" using t(2) nth_mem by metis
  moreover have "to_lower (?t ! ?n) = to_lower (name ! ?n)"
    using arg_cong [OF assms(2) [unfolded strncase_eq_def], of "\<lambda>xs. xs ! ?n"] n lt by simp
  ultimately have "to_lower (name ! ?n) = ?t ! ?n \<and> line_end (?t ! ?n)"
    using to_lower_special [of "?t ! ?n" "?t ! ?n"] by (auto simp: line_end_def)
  then have "line_end (name ! ?n)" using to_lower_special [of "?t ! ?n" "name ! ?n"] by (auto simp: line_end_def)
  moreover have "name ! ?n \<in> set name" using n(1) by simp
  ultimately show False using assms(1) by (auto simp: field_name_def line_end_def list_all_iff)
qed

definition value_after :: "string \<Rightarrow> string option" where
  "value_after t = (case dropWhile (\<lambda>c. c = CHR '' '') t of
     [] \<Rightarrow> None
   | c # v \<Rightarrow> if c = CHR ''='' then Some (dropWhile (\<lambda>c. c = CHR '' '') v) else None)"

lemma drop_takeWhile_length: "drop (length (takeWhile P xs)) xs = dropWhile P xs"
  by (induction xs) auto

lemma field_of_line_value:
  assumes "field_name name" and "strncase_eq line name"
  shows "field_of_line name line =
    map_option (\<lambda>v. (int (length v), v)) (value_after (drop (length name) (cancelEnter (cstr line))))"
proof -
  let ?sp = "\<lambda>c. c = CHR '' ''"
  define s where "s = cancelEnter (cstr line)"
  define readBuf where "readBuf = overwrite (length s) [CHR 0x00] (cstr line @ [CHR 0x00])"
  define t where "t = drop (length name) s"
  define p1 where "p1 = length name + length (takeWhile ?sp t)"
  have le: "length name \<le> length s" using name_kept [OF assms] by (simp add: s_def)
  obtain tail where tail: "cstr line = s @ tail" using cancelEnter_split s_def by metis
  have nul: "CHR 0x00 \<notin> set s"
    using tail by (metis (mono_tags, lifting) Un_iff cstr_def set_append set_takeWhileD)
  have buf: "readBuf = s @ CHR 0x00 # drop (Suc (length s)) (cstr line @ [CHR 0x00])"
    by (simp add: readBuf_def overwrite_def tail)
  have dr: "drop p s = dropWhile ?sp (drop q s)" if "p = q + length (takeWhile ?sp (drop q s))" for p q
    using that drop_takeWhile_length [of ?sp "drop q s"] by (simp add: add.commute)
  have d1: "drop p1 s = dropWhile ?sp t" using dr [of p1 "length name"] by (simp add: p1_def t_def)
  have p1: "p1 \<le> length s"
    using le length_takeWhile_le [of ?sp t] by (simp add: p1_def t_def)
  have ne: "s \<noteq> []" using le assms(1) by (auto simp: field_name_def)
  have unf: "field_of_line name line = (if readBuf ! p1 \<noteq> CHR ''='' then None
      else let p = Suc p1 + length (takeWhile ?sp (drop (Suc p1) s))
           in Some (int (length s) - int p, cstr (drop p readBuf)))"
    using ne by (simp add: field_of_line_def Let_def s_def [symmetric] readBuf_def [symmetric] t_def [symmetric] p1_def [symmetric])
  show ?thesis
  proof (cases "p1 < length s \<and> s ! p1 = CHR ''=''")
    case False
    then have "readBuf ! p1 \<noteq> CHR ''=''" using p1 by (auto simp: buf nth_append)
    moreover have "value_after t = None"
    proof (cases "p1 < length s")
      case True
      then have "dropWhile ?sp t = s ! p1 # drop (Suc p1) s" using d1 Cons_nth_drop_Suc [of p1 s] by simp
      with True False show ?thesis by (simp add: value_after_def)
    qed (use d1 in \<open>simp add: value_after_def\<close>)
    ultimately show ?thesis by (simp add: unf t_def [symmetric] s_def [symmetric])
  next
    case True
    define p where "p = Suc p1 + length (takeWhile ?sp (drop (Suc p1) s))"
    have v: "drop p s = dropWhile ?sp (drop (Suc p1) s)" using dr p_def by blast
    have p: "p \<le> length s" using True length_takeWhile_le [of ?sp "drop (Suc p1) s"] unfolding p_def length_drop by linarith
    have "dropWhile ?sp t = CHR ''='' # drop (Suc p1) s" using True d1 Cons_nth_drop_Suc [of p1 s] by simp
    then have "value_after t = Some (drop p s)" unfolding value_after_def v by simp
    moreover have "cstr (drop p readBuf) = drop p s"
    proof -
      have "CHR 0x00 \<notin> set (drop p s)" using nul by (auto dest: in_set_dropD)
      from cstr_append [OF this] p show ?thesis by (simp add: buf cstr_def)
    qed
    moreover have "readBuf ! p1 = CHR ''=''" using True by (simp add: buf nth_append)
    ultimately show ?thesis
      using p unfolding unf Let_def p_def [symmetric] t_def [symmetric] s_def [symmetric] by (simp add: of_nat_diff)
  qed
qed

text \<open>So a query of such a field yields a text of its length, shorter than the line buffer.\<close>

lemma value_after_length: "value_after t = Some v \<Longrightarrow> length v < length t"
proof -
  assume v: "value_after t = Some v"
  let ?sp = "\<lambda>c. c = CHR '' ''"
  from v obtain w where "dropWhile ?sp t = CHR ''='' # w" "v = dropWhile ?sp w"
    by (auto simp: value_after_def split: list.splits if_splits)
  then show ?thesis using length_dropWhile_le [of ?sp t] length_dropWhile_le [of ?sp w] by simp
qed

lemma find_field_step:
  assumes "fgets 1024 s = Some (line, rest)" and "field_name name"
  shows "find_field name s =
    (case if strncase_eq line name then value_after (drop (length name) (cancelEnter (cstr line))) else None of
       None \<Rightarrow> find_field name rest
     | Some v \<Rightarrow> Some (int (length v), v))"
  using assms field_of_line_value [OF assms(2), of line]
  by (subst find_field.simps) (auto split: option.splits)

lemma find_field_bounds:
  assumes "field_name name"
  shows "find_field name s = Some (n, v) \<Longrightarrow> n = int (length v) \<and> length v < 1023"
proof (induction "length s" arbitrary: s rule: less_induct)
  case less
  obtain line rest where f: "fgets 1024 s = Some (line, rest)"
    using less.prems by (subst (asm) find_field.simps) (auto split: option.splits)
  then have l: "s = line @ rest" "line \<noteq> []" "length line < 1024" using fgets_SomeD [of 1024 s line rest] by auto
  define t where "t = drop (length name) (cancelEnter (cstr line))"
  have "length (cancelEnter (cstr line)) \<le> length (cstr line)"
    using length_dropWhile_le [of _ "rev (cstr line)"] by (simp add: cancelEnter_def)
  moreover have "length (cstr line) \<le> length line" by (simp add: cstr_def length_takeWhile_le)
  ultimately have t: "length t \<le> 1023" using l(3) by (simp add: t_def)
  note step = find_field_step [OF f assms, folded t_def]
  show ?case
  proof (cases "if strncase_eq line name then value_after t else None")
    case None
    then have "find_field name rest = Some (n, v)" using step less.prems by simp
    moreover have "length rest < length s" using l(1,2) by simp
    ultimately show ?thesis by (rule less.hyps [rotated])
  next
    case (Some w)
    then have "value_after t = Some w" by (auto split: if_splits)
    from value_after_length [OF this] t Some less.prems step show ?thesis by auto
  qed
qed



section \<open>Configuration files\<close>

text \<open>A file of remarks, which are empty or start with a hash sign, and of fields.\<close>

datatype cfg_item = Remark string | Field string string

fun item_line :: "cfg_item \<Rightarrow> string" where
  "item_line (Remark s) = s"
| "item_line (Field k v) = k @ '' = '' @ v"

definition print_config :: "cfg_item list \<Rightarrow> string" where
  "print_config items = concat (map (\<lambda>i. item_line i @ [newline]) items)"

definition field_value :: "string \<Rightarrow> bool" where
  "field_value v \<longleftrightarrow> v = [] \<or> hd v \<noteq> CHR '' '' \<and> \<not> line_end (last v)"

fun item_ok :: "cfg_item \<Rightarrow> bool" where
  "item_ok (Remark s) \<longleftrightarrow> length s < 1022 \<and> newline \<notin> set s \<and> CHR 0x00 \<notin> set s \<and> (s = [] \<or> hd s = CHR ''#'')"
| "item_ok (Field k v) \<longleftrightarrow> length k + length v < 1019 \<and> field_name k \<and> field_value v
     \<and> newline \<notin> set v \<and> CHR 0x00 \<notin> set v"

definition same_name :: "string \<Rightarrow> string \<Rightarrow> bool" where
  "same_name a b \<longleftrightarrow> map to_lower a = map to_lower b"

fun cfg_lookup :: "string \<Rightarrow> cfg_item list \<Rightarrow> string option" where
  "cfg_lookup name [] = None"
| "cfg_lookup name (Remark s # items) = cfg_lookup name items"
| "cfg_lookup name (Field k v # items) = (if same_name k name then Some v else cfg_lookup name items)"

lemma item_line_ok:
  assumes "item_ok i"
  shows "newline \<notin> set (item_line i)" and "CHR 0x00 \<notin> set (item_line i)" and "Suc (length (item_line i)) < 1024"
  using assms by (cases i; auto simp: field_name_def list_all_iff)+

lemma remark_skipped:
  assumes "field_name name" and "s = [] \<or> hd s = CHR ''#''"
  shows "\<not> strncase_eq (s @ [newline]) name"
proof
  assume eq: "strncase_eq (s @ [newline]) name"
  obtain n ns where n: "name = n # ns" "n \<notin> {CHR ''#'', newline}"
    using assms(1) by (cases name) (auto simp: field_name_def)
  obtain c cs where "cstr (s @ [newline]) = c # cs" "c = CHR ''#'' \<or> c = newline"
    using assms(2) by (cases s) (auto simp: cstr_def)
  then have "to_lower n = to_lower c" "c \<in> {CHR ''#'', newline}" using eq n(1) by (auto simp: strncase_eq_def)
  then have "n = c" using to_lower_special [of c n] to_lower_special [of c c] by auto
  with n(2) \<open>c \<in> _\<close> show False by simp
qed

lemma same_name_length: "same_name k name \<Longrightarrow> length k = length name"
  by (auto simp: same_name_def dest: map_eq_imp_length_eq)

lemma field_line_text:
  assumes "item_ok (Field k v)"
  shows "cancelEnter (k @ '' = '' @ v @ [newline]) = k @ (if v = [] then '' ='' else '' = '' @ v)"
proof (cases "v = []")
  case True
  have "cancelEnter ((k @ '' ='') @ [CHR '' '', newline]) = k @ '' =''"
    by (rule cancelEnter_append) (auto simp: line_end_def)
  then show ?thesis using True by simp
next
  case False
  have "cancelEnter ((k @ '' = '' @ v) @ [newline]) = k @ '' = '' @ v"
    using assms False by (intro cancelEnter_append) (auto simp: line_end_def field_value_def)
  then show ?thesis using False by simp
qed

lemma value_after_field: "field_value v \<Longrightarrow> value_after (if v = [] then '' ='' else '' = '' @ v) = Some v"
  by (cases v) (auto simp: value_after_def field_value_def)

lemma field_line_step:
  assumes ok: "item_ok (Field k v)" and name: "field_name name"
  defines "line \<equiv> item_line (Field k v) @ [newline]"
  shows "(if strncase_eq line name then value_after (drop (length name) (cancelEnter (cstr line))) else None) =
    (if same_name k name then Some v else None)"
proof -
  let ?tail = "if v = [] then '' ='' else '' = '' @ v"
  have l: "line = k @ CHR '' '' # ''= '' @ v @ [newline]" by (simp add: line_def)
  have c: "cstr line = line" using item_line_ok(2) [OF ok] unfolding line_def by (intro cstr_id) auto
  have ce: "cancelEnter line = k @ ?tail" using field_line_text [OF ok] by (simp add: line_def)
  have eq: "strncase_eq line name \<longleftrightarrow> map to_lower (take (length name) line) = map to_lower name"
    by (simp add: strncase_eq_def c)
  show ?thesis
  proof (cases "same_name k name")
    case True
    note len = same_name_length [OF True]
    have "take (length name) line = k" by (simp add: l len [symmetric])
    then have "strncase_eq line name" using True by (simp add: eq same_name_def)
    moreover have "drop (length name) (cancelEnter line) = ?tail" by (simp add: ce len [symmetric])
    ultimately show ?thesis using True ok value_after_field [of v] by (simp add: c)
  next
    case False
    have "value_after (drop (length name) (cancelEnter line)) = None" if s: "strncase_eq line name"
    proof -
      have "length name \<noteq> length k"
      proof
        assume "length name = length k"
        then have "take (length name) line = k" by (simp add: l)
        with s False show False by (simp add: eq same_name_def)
      qed
      moreover have "\<not> length k < length name"
      proof
        assume less: "length k < length name"
        have "length k < length line" by (simp add: l)
        then have "to_lower (line ! length k) = to_lower (name ! length k)"
          using arg_cong [OF s [unfolded eq], of "\<lambda>xs. xs ! length k"] less by simp
        moreover have "line ! length k = CHR '' ''" by (simp add: l nth_append)
        ultimately have "to_lower (name ! length k) = CHR '' ''" using to_lower_special [of "CHR '' ''" "CHR '' ''"] by simp
        then have "name ! length k = CHR '' ''" using to_lower_special [of "CHR '' ''"] by simp
        with nth_mem [OF less] name show False by (auto simp: field_name_def list_all_iff)
      qed
      ultimately have less: "length name < length k" by linarith
      then have "drop (length name) (cancelEnter line) = k ! length name # drop (Suc (length name)) k @ ?tail"
        unfolding ce by (simp add: Cons_nth_drop_Suc [symmetric])
      moreover have "k ! length name \<noteq> CHR '' ''" "k ! length name \<noteq> CHR ''=''"
        using nth_mem [OF less] ok by (auto simp: field_name_def list_all_iff)
      ultimately show ?thesis by (simp add: value_after_def)
    qed
    with False show ?thesis by (simp add: c)
  qed
qed

lemma find_field_print:
  assumes "field_name name" and "list_all item_ok items"
  shows "find_field name (print_config items) =
    map_option (\<lambda>v. (int (length v), v)) (cfg_lookup name items)"
  using assms(2)
proof (induction items)
  case Nil
  then show ?case by (subst find_field.simps) (simp add: print_config_def fgets_def)
next
  case (Cons i items)
  let ?line = "item_line i @ [newline]"
  have ok: "item_ok i" and rest: "list_all item_ok items" using Cons.prems by simp_all
  have "fgets 1024 (item_line i @ newline # print_config items) = Some (?line, print_config items)"
    using item_line_ok [OF ok] by (intro fgets_line) auto
  then have f: "fgets 1024 (print_config (i # items)) = Some (?line, print_config items)"
    by (simp add: print_config_def)
  note step = find_field_step [OF f assms(1)]
  show ?case
  proof (cases i)
    case (Remark s)
    then have "\<not> strncase_eq ?line name" using remark_skipped [OF assms(1), of s] ok by simp
    with step Cons.IH [OF rest] Remark show ?thesis by simp
  next
    case (Field k v)
    show ?thesis
      unfolding step [unfolded Field field_line_step [OF ok [unfolded Field] assms(1)]] Field Cons.IH [OF rest] by simp
  qed
qed

lemma getFieldString_print:
  assumes "field_name name" and "list_all item_ok items" and "cfg_fp c = Some (print_config items)"
  shows "getFieldString c name 1024 = Some (case cfg_lookup name items of None \<Rightarrow> (-1, []) | Some v \<Rightarrow> (int (length v), v))"
proof -
  have "name \<noteq> []" using assms(1) by (simp add: field_name_def)
  moreover have "length v < 1023" if "cfg_lookup name items = Some v" for v
    using find_field_bounds [OF assms(1), of "print_config items"] that find_field_print [OF assms(1,2)] by simp
  ultimately show ?thesis
    using assms(3) find_field_print [OF assms(1,2)] by (force simp: getFieldString_def split: option.splits)
qed

lemma getFieldString_dup_print:
  assumes "field_name name" and "list_all item_ok items" and "cfg_fp c = Some (print_config items)"
  shows "getFieldString_dup c name old =
    (case cfg_lookup name items of None \<Rightarrow> (-1, old) | Some v \<Rightarrow> (int (length v), Some v))"
  using assms find_field_print [OF assms(1,2)]
  by (auto simp: getFieldString_dup_def field_name_def split: option.splits)


section \<open>Numbers\<close>

lemma digit_char_value: "d < 10 \<Longrightarrow> isdigit (digit_char d) \<and> digit_value (digit_char d) = d"
  by (simp add: isdigit_def digit_value_def digit_char_def)

lemma dec_nat_digits: "c \<in> set (dec_nat n) \<Longrightarrow> isdigit c"
  using to_base_digits [of 10 _ n] by (auto simp: dec_nat_def digit_char_value)

lemma digits_value_dec_nat: "digits_value (dec_nat n) = n"
proof -
  have "takeWhile isdigit (dec_nat n) = dec_nat n"
    by (rule takeWhile_eq_all_conv [THEN iffD2]) (use dec_nat_digits in blast)
  moreover have "map digit_value (dec_nat n) = to_base 10 n"
    using to_base_digits [of 10 _ n] by (simp add: dec_nat_def map_idI digit_char_value)
  ultimately show ?thesis unfolding digits_value_def by (simp only: from_base_to_base)
qed

lemma hd_dec_nat: "isdigit (hd (dec_nat n))"
  by (rule dec_nat_digits [of _ n]) simp

lemma scan_int_dec_int: "scan_int (dec_int i) = (i < 0, nat \<bar>i\<bar>)"
proof -
  have sp: "dropWhile isspace (dec_nat n) = dec_nat n" for n
    using hd_dec_nat [of n] by (cases "dec_nat n") (auto simp: isdigit_def isspace_def)
  have nosign: "hd (dec_nat n) \<noteq> CHR ''-'' \<and> hd (dec_nat n) \<noteq> CHR ''+''" for n
    using hd_dec_nat [of n] by (auto simp: isdigit_def)
  have "\<not> isspace CHR ''-''" by (simp add: isspace_def)
  then show ?thesis
    using sp nosign by (simp add: scan_int_def dec_int_def digits_value_dec_nat Let_def)
qed

lemma atol_dec_int: "- (2 ^ 63) \<le> i \<Longrightarrow> i < 2 ^ 63 \<Longrightarrow> atol (dec_int i) = i"
  by (simp add: atol_def scan_int_dec_int)

lemma atoi_dec_int: "- (2 ^ 63) \<le> i \<Longrightarrow> i < 2 ^ 63 \<Longrightarrow> atoi (dec_int i) = word_of_int i"
  by (simp add: atoi_def atol_dec_int)



section \<open>Properties\<close>

text \<open>C15: a query of a well-formed field name with the 1024-byte buffer of the typed queries never
  writes outside the buffer, on any file; it fails or returns the length of the value.\<close>

theorem getFieldString_in_bounds:
  assumes "field_name name"
  shows "\<exists>r v. getFieldString c name 1024 = Some (r, v)
    \<and> (r = -1 \<and> v = [] \<or> r = int (length v) \<and> length v < 1023)"
  using find_field_bounds [OF assms]
  by (fastforce simp: getFieldString_def split: option.splits)

text \<open>
  With a buffer of any other size, a value that fills the buffer exactly puts the terminating
  zero byte behind the end of the buffer: the test for the length admits the size itself.
\<close>

theorem getFieldString_off_by_one:
  assumes "item_ok (Field k v)" and "v \<noteq> []"
  shows "getFieldString \<lparr>cfg_fp = Some (print_config [Field k v])\<rparr> k (length v) = None"
proof -
  have "field_name k" "k \<noteq> []" using assms(1) by (auto simp: field_name_def)
  moreover from this have "find_field k (print_config [Field k v]) = Some (int (length v), v)"
    using find_field_print [of k "[Field k v]"] assms(1) by (simp add: same_name_def)
  ultimately show ?thesis using assms(2) by (simp add: getFieldString_def)
qed

theorem getFieldString_in_bounds_witness:
  "\<exists>r v. getFieldString \<lparr>cfg_fp = Some ''a = b''\<rparr> ''a'' 1024 = Some (r, v) \<and> length v < 1023"
proof -
  have "field_name ''a''" by (simp add: field_name_def)
  from getFieldString_in_bounds [OF this, of "\<lparr>cfg_fp = Some ''a = b''\<rparr>"] show ?thesis by auto
qed

theorem getFieldString_off_by_one_witness:
  "getFieldString \<lparr>cfg_fp = Some (''log-prefix = idfs'' @ [newline])\<rparr> ''log-prefix'' 4 = None"
proof -
  have "item_ok (Field ''log-prefix'' ''idfs'')" by (simp add: field_name_def field_value_def line_end_def)
  from getFieldString_off_by_one [OF this] show ?thesis by (simp add: print_config_def eval_nat_numeral)
qed

end
