(* ===== verification/Server_Config.thy ===== *)
theory Server_Config
  imports Config_Reader Tcp_Protocol
begin

text \<open>
  The configuration of \<open>QTcpServer\<close>: the members that \<open>load_server_config\<close> fills, their defaults
  from the constructor, and the queries in the order of the source.
\<close>

section \<open>Members and defaults\<close>

record tcp_conf =
  pidfile :: "string option"
  server_name :: "string option"
  server_port :: "16 word"
  monitor_port :: "16 word"
  server_timeout :: "32 word"
  comm_thread_max :: "32 word"
  comm_buffer_size :: "32 word"
  comm_thread_timeout :: "32 word"
  work_thread_max :: "32 word"
  work_buffer_size :: "32 word"
  work_thread_timeout :: "32 word"
  send_thread_max :: "32 word"
  send_buffer_size :: "32 word"
  send_thread_timeout :: "32 word"
  queue_size :: "32 word"
  send_ip :: "string option"
  send_port :: "32 word"
  data_path :: "string option"
  read_path :: "string option"
  write_path :: "string option"
  log_path :: "string option"
  log_prefix :: "string option"
  log_screen :: "32 word"
  log_size :: "32 word"

definition QTcpServer_conf :: tcp_conf where
  "QTcpServer_conf = \<lparr>pidfile = Some ''/var/run/niu.pid'', server_name = None, server_port = 8088,
     monitor_port = 8078, server_timeout = 10000,
     comm_thread_max = 1, comm_buffer_size = 1048576, comm_thread_timeout = 12000,
     work_thread_max = 1, work_buffer_size = 1048576, work_thread_timeout = 12000,
     send_thread_max = 1, send_buffer_size = 1048576, send_thread_timeout = 12000,
     queue_size = 200, send_ip = None, send_port = 0, data_path = None, read_path = None,
     write_path = None, log_path = Some ''../log/'', log_prefix = None, log_screen = 1, log_size = 1024\<rparr>"


section \<open>Loading\<close>

text \<open>
  One query into a member, given by its selector and its update.  A query that writes outside its
  buffer has no result.
\<close>

type_synonym 's loader = "config \<Rightarrow> 's \<Rightarrow> (int \<times> 's) option"

definition load_text :: "string \<Rightarrow> ('s \<Rightarrow> string option) \<Rightarrow> ((string option \<Rightarrow> string option) \<Rightarrow> 's \<Rightarrow> 's) \<Rightarrow> 's loader" where
  "load_text name get upd c s = (case getFieldString_dup c name (get s) of (r, v) \<Rightarrow> Some (r, upd (\<lambda>_. v) s))"

definition load_with :: "(config \<Rightarrow> string \<Rightarrow> 'a \<Rightarrow> (int \<times> 'a) option) \<Rightarrow> string \<Rightarrow> ('s \<Rightarrow> 'a) \<Rightarrow>
    (('a \<Rightarrow> 'a) \<Rightarrow> 's \<Rightarrow> 's) \<Rightarrow> 's loader" where
  "load_with query name get upd c s =
     (case query c name (get s) of None \<Rightarrow> None | Some (r, v) \<Rightarrow> Some (r, upd (\<lambda>_. v) s))"

text \<open>The queries one after the other; the first failure ends them with \<open>TCP_ERR\<close>.\<close>

fun load_all :: "'s loader list \<Rightarrow> 's loader" where
  "load_all [] c s = Some (TCP_OK, s)"
| "load_all (f # fs) c s =
     (case f c s of
        None \<Rightarrow> None
      | Some (ret, s') \<Rightarrow> if ret < 0 then Some (TCP_ERR, s') else load_all fs c s')"

definition server_loads :: "tcp_conf loader list" where
  "server_loads =
     [load_text ''pidfile'' pidfile pidfile_update,
      load_text ''server-name'' server_name server_name_update,
      load_with getFieldUint16 ''server-port'' server_port server_port_update,
      load_with getFieldUint16 ''monitor-port'' monitor_port monitor_port_update,
      load_with getFieldInt32 ''server-timeout'' server_timeout server_timeout_update,
      load_with getFieldInt32 ''comm-thread-max'' comm_thread_max comm_thread_max_update,
      load_with getFieldInt32 ''comm-buffer-size'' comm_buffer_size comm_buffer_size_update,
      load_with getFieldInt32 ''comm-thread-timeout'' comm_thread_timeout comm_thread_timeout_update,
      load_with getFieldInt32 ''work-thread-max'' work_thread_max work_thread_max_update,
      load_with getFieldInt32 ''work-buffer-size'' work_buffer_size work_buffer_size_update,
      load_with getFieldInt32 ''work-thread-timeout'' work_thread_timeout work_thread_timeout_update,
      load_with getFieldInt32 ''send-thread-max'' send_thread_max send_thread_max_update,
      load_with getFieldInt32 ''send-buffer-size'' send_buffer_size send_buffer_size_update,
      load_with getFieldInt32 ''send-thread-timeout'' send_thread_timeout send_thread_timeout_update,
      load_with getFieldInt32 ''queue-size'' queue_size queue_size_update,
      load_text ''send-ip'' send_ip send_ip_update,
      load_with getFieldInt32 ''send-port'' send_port send_port_update,
      load_text ''data-path'' data_path data_path_update,
      load_text ''read-path'' read_path read_path_update,
      load_text ''write-path'' write_path write_path_update,
      load_text ''log-path'' log_path log_path_update,
      load_text ''log-prefix'' log_prefix log_prefix_update,
      load_with getFieldYesNo ''log-screen'' log_screen log_screen_update,
      load_with getFieldInt32 ''log-size'' log_size log_size_update]"

definition load_server_config :: "string option \<Rightarrow> fs \<Rightarrow> tcp_conf \<Rightarrow> (int \<times> config \<times> tcp_conf) option" where
  "load_server_config cfg_file d s =
     (case config_init cfg_file d QConfigReader of (r, c) \<Rightarrow>
        if r < 0 then Some (TCP_ERR, c, s)
        else case load_all server_loads c s of None \<Rightarrow> None | Some (ret, s') \<Rightarrow> Some (ret, c, s'))"


section \<open>Reading back a written configuration\<close>

text \<open>The fields that describe a configuration, and when they can.\<close>

definition server_items :: "tcp_conf \<Rightarrow> (string \<times> string) list" where
  "server_items r =
     [(''pidfile'', the (pidfile r)), (''server-name'', the (server_name r)),
      (''server-port'', dec_int (uint (server_port r))), (''monitor-port'', dec_int (uint (monitor_port r))),
      (''server-timeout'', dec_int (sint (server_timeout r))),
      (''comm-thread-max'', dec_int (sint (comm_thread_max r))), (''comm-buffer-size'', dec_int (sint (comm_buffer_size r))),
      (''comm-thread-timeout'', dec_int (sint (comm_thread_timeout r))),
      (''work-thread-max'', dec_int (sint (work_thread_max r))), (''work-buffer-size'', dec_int (sint (work_buffer_size r))),
      (''work-thread-timeout'', dec_int (sint (work_thread_timeout r))),
      (''send-thread-max'', dec_int (sint (send_thread_max r))), (''send-buffer-size'', dec_int (sint (send_buffer_size r))),
      (''send-thread-timeout'', dec_int (sint (send_thread_timeout r))), (''queue-size'', dec_int (sint (queue_size r))),
      (''send-ip'', the (send_ip r)), (''send-port'', dec_int (sint (send_port r))),
      (''data-path'', the (data_path r)), (''read-path'', the (read_path r)), (''write-path'', the (write_path r)),
      (''log-path'', the (log_path r)), (''log-prefix'', the (log_prefix r)),
      (''log-screen'', if log_screen r = 1 then ''yes'' else ''no''), (''log-size'', dec_int (sint (log_size r)))]"

definition conf_writable :: "tcp_conf \<Rightarrow> bool" where
  "conf_writable r \<longleftrightarrow> None \<notin> {pidfile r, server_name r, send_ip r, data_path r, read_path r, write_path r,
      log_path r, log_prefix r} \<and> log_screen r \<in> {0, 1}"

definition holds_items :: "(string \<times> string) list \<Rightarrow> cfg_item list \<Rightarrow> bool" where
  "holds_items kvs items \<longleftrightarrow> list_all (\<lambda>(k, v). cfg_lookup k items = Some v) kvs"

lemma load_text_ok:
  assumes "list_all item_ok items" and "cfg_fp c = Some (print_config items)" and "field_name name"
    and "cfg_lookup name items = Some v"
  shows "load_text name get upd c s = Some (int (length v), upd (\<lambda>_. Some v) s)"
  using assms getFieldString_dup_print [OF assms(3,1,2)] by (simp add: load_text_def)

lemma get_converted_ok:
  assumes "list_all item_ok items" and "cfg_fp c = Some (print_config items)" and "field_name name"
    and "cfg_lookup name items = Some v" and "v \<noteq> []" and "conv v = Some x"
  shows "get_converted conv c name old = Some (0, x)"
  using assms getFieldString_print [OF assms(3,1,2)] by (simp add: get_converted_def)

lemma dec_int_not_Nil [simp]: "dec_int i \<noteq> []"
  by (simp add: dec_int_def)

lemma sint_32: "- (2 ^ 63) \<le> sint (w :: 32 word)" "sint (w :: 32 word) < 2 ^ 63"
  using sint_ge [of w] sint_lt [of w] by simp_all

lemma load_int32_ok:
  assumes "list_all item_ok items" and "cfg_fp c = Some (print_config items)" and "field_name name"
    and "cfg_lookup name items = Some (dec_int (sint w))"
  shows "load_with getFieldInt32 name get upd c s = Some (0, upd (\<lambda>_. w) s)"
  using get_converted_ok [OF assms, of "\<lambda>s. Some (atoi s)" w] sint_32 [of w]
  by (simp add: load_with_def getFieldInt32_def atoi_dec_int)

lemma load_uint16_ok:
  assumes "list_all item_ok items" and "cfg_fp c = Some (print_config items)" and "field_name name"
    and "cfg_lookup name items = Some (dec_int (uint w))"
  shows "load_with getFieldUint16 name get upd c s = Some (0, upd (\<lambda>_. w) s)"
proof -
  have "uint w < 2 ^ 16" using uint_lt2p [of w] by simp
  then have "atoi (dec_int (uint w)) = word_of_int (uint w)"
    by (intro atoi_dec_int order_trans [OF _ uint_ge_0]) simp_all
  moreover have "ucast (word_of_int (uint w) :: 32 word) = w"
    by (rule bit_word_eqI) (auto simp: bit_simps bit_word_of_int_iff)
  ultimately show ?thesis
    using get_converted_ok [OF assms, of "\<lambda>s. Some (ucast (atoi s))" w]
    by (simp add: load_with_def getFieldUint16_def)
qed

lemma load_yes_no_ok:
  assumes "list_all item_ok items" and "cfg_fp c = Some (print_config items)" and "field_name name"
    and "cfg_lookup name items = Some (if b = 1 then ''yes'' else ''no'')" and "b \<in> {0, 1}"
  shows "load_with getFieldYesNo name get upd c s = Some (0, upd (\<lambda>_. b) s)"
proof -
  let ?conv = "\<lambda>s. if strcase_eq s ''yes'' then Some 1 else if strcase_eq s ''no'' then Some (0 :: 32 word) else None"
  have "?conv (if b = 1 then ''yes'' else ''no'') = Some b"
    using assms(5) by (auto simp: strcase_eq_def cstr_def to_lower_def)
  with get_converted_ok [OF assms(1-4), of ?conv b] show ?thesis
    by (simp add: load_with_def getFieldYesNo_def)
qed


lemmas load_ok = load_text_ok load_int32_ok load_uint16_ok load_yes_no_ok

lemma server_names: "list_all (\<lambda>(k, v). field_name k) (server_items r)"
  by (simp add: server_items_def field_name_def)

lemma load_all_reads:
  assumes "list_all item_ok items" and "cfg_fp c = Some (print_config items)"
    and "holds_items (server_items r) items" and "conf_writable r"
  shows "load_all server_loads c s = Some (TCP_OK, r)"
proof -
  note l = load_ok [OF assms(1,2)]
  have w: "Some (the (pidfile r)) = pidfile r" "Some (the (server_name r)) = server_name r"
    "Some (the (send_ip r)) = send_ip r" "Some (the (data_path r)) = data_path r"
    "Some (the (read_path r)) = read_path r" "Some (the (write_path r)) = write_path r"
    "Some (the (log_path r)) = log_path r" "Some (the (log_prefix r)) = log_prefix r" and b: "log_screen r \<in> {0, 1}"
    using assms(4) unfolding conf_writable_def by (metis insertCI option.exhaust_sel)+
  note k = assms(3) [unfolded holds_items_def server_items_def list.pred_inject prod.case]
    and n = server_names [of r, unfolded server_items_def list.pred_inject prod.case]
  show ?thesis
    unfolding server_loads_def
    by (simp only: load_all.simps l k n b simp_thms option.case prod.case of_nat_less_0_iff if_False less_irrefl)
      (rule arg_cong [of _ _ "\<lambda>x. Some (TCP_OK, x)"], rule tcp_conf.equality; simp add: w del: option.collapse)
qed


section \<open>Properties\<close>

text \<open>C14: \<open>load_server_config\<close> on a file that holds the fields of a configuration, in any order and
  among remarks and other fields, returns exactly that configuration, whatever the members were.
\<close>

theorem load_server_config_reads:
  assumes "fopen_r f d = Some (bytes_of (print_config items))" and "list_all item_ok items"
    and "holds_items (server_items r) items" and "conf_writable r"
  shows "\<exists>c. load_server_config (Some f) d s = Some (TCP_OK, c, r) \<and> cfg_fp c = Some (print_config items)"
proof -
  let ?c = "\<lparr>cfg_fp = Some (print_config items)\<rparr>"
  have "load_all server_loads ?c s = Some (TCP_OK, r)" by (rule load_all_reads [OF assms(2) _ assms(3,4)]) simp
  moreover have "config_init (Some f) d QConfigReader = (0, ?c)"
    using assms(1) by (simp add: config_init_def QConfigReader_def)
  ultimately show ?thesis by (simp add: load_server_config_def)
qed

text \<open>
  A query of a missing field fails, and a query of a well-formed name never leaves its buffer, so
  the queries go on to the first missing field.
\<close>

definition fails_without :: "'s loader \<Rightarrow> string \<Rightarrow> bool" where
  "fails_without f k \<longleftrightarrow> (\<forall>c s items. cfg_fp c = Some (print_config items) \<longrightarrow> list_all item_ok items \<longrightarrow>
     f c s \<noteq> None \<and> (cfg_lookup k items = None \<longrightarrow> (\<exists>s'. f c s = Some (-1, s'))))"

lemma load_text_fails: "field_name k \<Longrightarrow> fails_without (load_text k get upd) k"
  unfolding fails_without_def load_text_def
proof (intro allI impI)
  fix c :: config and s items
  assume "field_name k" "cfg_fp c = Some (print_config items)" "list_all item_ok items"
  then have "getFieldString_dup c k (get s) = (case cfg_lookup k items of None \<Rightarrow> (-1, get s) | Some v \<Rightarrow> (int (length v), Some v))"
    by (intro getFieldString_dup_print)
  then show "(case getFieldString_dup c k (get s) of (r, v) \<Rightarrow> Some (r, upd (\<lambda>_. v) s)) \<noteq> None \<and>
      (cfg_lookup k items = None \<longrightarrow> (\<exists>s'. (case getFieldString_dup c k (get s) of (r, v) \<Rightarrow> Some (r, upd (\<lambda>_. v) s)) = Some (-1, s')))"
    by (simp split: option.splits)
qed

lemma load_with_fails: "field_name k \<Longrightarrow> fails_without (load_with (get_converted conv) k get upd) k"
  unfolding fails_without_def load_with_def
proof (intro allI impI)
  fix c :: config and s items
  let ?q = "get_converted conv c k (get s)"
  assume "field_name k" "cfg_fp c = Some (print_config items)" "list_all item_ok items"
  then have "getFieldString c k 1024 = Some (case cfg_lookup k items of None \<Rightarrow> (-1, []) | Some v \<Rightarrow> (int (length v), v))"
    by (intro getFieldString_print)
  then have "?q \<noteq> None \<and> (cfg_lookup k items = None \<longrightarrow> ?q = Some (-1, get s))"
    by (simp add: get_converted_def split: option.splits)
  then show "(case ?q of None \<Rightarrow> None | Some (r, v) \<Rightarrow> Some (r, upd (\<lambda>_. v) s)) \<noteq> None \<and>
      (cfg_lookup k items = None \<longrightarrow> (\<exists>s'. (case ?q of None \<Rightarrow> None | Some (r, v) \<Rightarrow> Some (r, upd (\<lambda>_. v) s)) = Some (-1, s')))"
    by (auto split: option.splits)
qed

lemma load_all_fails:
  assumes "list_all2 fails_without fs ks" and "cfg_fp c = Some (print_config items)" and "list_all item_ok items"
    and "k \<in> set ks" and "cfg_lookup k items = None"
  shows "\<exists>s'. load_all fs c s = Some (TCP_ERR, s')"
  using assms(1,4)
proof (induction fs ks arbitrary: s rule: list_all2_induct)
  case (Cons f fs k' ks)
  then have f: "f c s \<noteq> None" "cfg_lookup k' items = None \<longrightarrow> (\<exists>s'. f c s = Some (-1, s'))"
    using assms(2,3) unfolding fails_without_def by blast+
  then obtain ret s' where r: "f c s = Some (ret, s')" by auto
  show ?case
  proof (cases "ret < 0")
    case True
    then show ?thesis using r by simp
  next
    case False
    then have "k \<noteq> k'" using f(2) r assms(5) by auto
    with Cons.prems Cons.IH [of s'] False r show ?thesis by simp
  qed
qed simp

text \<open>when one of the 24 fields is missing, \<open>load_server_config\<close> fails with \<open>TCP_ERR\<close>.\<close>

theorem load_server_config_missing:
  assumes "fopen_r f d = Some (bytes_of (print_config items))" and "list_all item_ok items"
    and "k \<in> set (map fst (server_items r))" and "cfg_lookup k items = None"
  shows "\<exists>c s'. load_server_config (Some f) d s = Some (TCP_ERR, c, s')"
proof -
  have "list_all2 fails_without server_loads (map fst (server_items r))"
    using server_names [of r]
    by (simp add: server_loads_def server_items_def load_text_fails load_with_fails getFieldInt32_def
        getFieldUint16_def getFieldYesNo_def)
  from load_all_fails [OF this, of "\<lparr>cfg_fp = Some (print_config items)\<rparr>" items k s] assms
  show ?thesis by (auto simp: load_server_config_def config_init_def QConfigReader_def)
qed


subsection \<open>A sample configuration\<close>

definition demo_conf :: tcp_conf where
  "demo_conf = \<lparr>pidfile = Some ''/var/run/idfs.pid'', server_name = Some ''ImageDFS'', server_port = 8190,
     monitor_port = 8112, server_timeout = 12000, comm_thread_max = 1, comm_buffer_size = 1024,
     comm_thread_timeout = 8000, work_thread_max = 18, work_buffer_size = 1024, work_thread_timeout = 12000,
     send_thread_max = 0, send_buffer_size = 10240, send_thread_timeout = 8000, queue_size = 200,
     send_ip = Some ''192.168.1.100'', send_port = 22222, data_path = Some ''./data/'',
     read_path = Some ''./data/read.snd'', write_path = Some ''./data/write.snd'', log_path = Some ''../log/'',
     log_prefix = Some ''idfs'', log_screen = 1, log_size = 10240\<rparr>"

text \<open>Numbers make good values, and distinct names are all found.\<close>

lemma dec_int_field:
  assumes "field_name k" and "length k < 1000" and "- (10 ^ 10) < i" and "i < 10 ^ 10"
  shows "item_ok (Field k (dec_int i))"
proof -
  have d: "c \<in> {CHR '' '', CHR 0x0D, newline, CHR 0x00} \<Longrightarrow> c \<notin> set (dec_nat n)" for c n
    using dec_nat_digits [of c n] by (auto simp: isdigit_def)
  have l: "length (dec_nat n) \<le> 10" if "n < 10 ^ 10" for n using length_dec_nat [of n 9] that by simp
  have "nat i < 10000000000" "nat (- i) < 10000000000" using assms(3,4) by simp_all
  then have "length (dec_int i) \<le> 11" using l [of "nat (- i)"] l [of "nat i"] by (auto simp: dec_int_def)
  moreover have "field_value (dec_int i)"
  proof -
    have "hd (dec_nat n) \<noteq> CHR '' ''" for n
      using d [of "CHR '' ''" n] hd_in_set [of "dec_nat n"] by fastforce
    moreover have "\<not> line_end (last (dec_nat n))" for n
      using d [of "last (dec_nat n)" n] last_in_set [of "dec_nat n"] by (auto simp: line_end_def)
    ultimately show ?thesis by (simp add: dec_int_def field_value_def)
  qed
  moreover have "newline \<notin> set (dec_int i)" "CHR 0x00 \<notin> set (dec_int i)" using d by (simp_all add: dec_int_def)
  ultimately show ?thesis using assms(1,2) by simp
qed

lemma cfg_lookup_distinct:
  assumes "distinct (map (\<lambda>(k, v). map to_lower k) kvs)" and "(k, v) \<in> set kvs"
  shows "cfg_lookup k (map (\<lambda>(k, v). Field k v) kvs @ rest) = Some v"
  using assms
proof (induction kvs)
  case (Cons kv kvs)
  obtain k' v' where kv: "kv = (k', v')" by (cases kv)
  show ?case
  proof (cases "(k, v) = kv")
    case False
    then have "(k, v) \<in> set kvs" using Cons.prems(2) by simp
    then have "map to_lower k \<in> set (map (\<lambda>(k, v). map to_lower k) kvs)" by force
    then have "\<not> same_name k' k" using Cons.prems(1) kv by (auto simp: same_name_def)
    with Cons \<open>(k, v) \<in> set kvs\<close> kv show ?thesis by simp
  qed (simp add: kv same_name_def)
qed simp

lemma server_items_distinct: "distinct (map (\<lambda>(k, v). map to_lower k) (server_items r))"
proof -
  have "list_all (\<lambda>(k, v). map to_lower k = k) (server_items r)" by (simp add: server_items_def to_lower_def)
  then have "map (\<lambda>(k, v). map to_lower k) (server_items r) = map fst (server_items r)" by (auto simp: list_all_iff)
  then show ?thesis by (simp add: server_items_def)
qed

definition demo_items :: "cfg_item list" where
  "demo_items = Remark ''# ImageDFS configuration file'' # Remark []
     # map (\<lambda>(k, v). Field k v) (server_items demo_conf) @ [Field ''daemonize'' ''no'']"

definition text_field :: "string \<Rightarrow> bool" where
  "text_field v \<longleftrightarrow> length v < 900 \<and> field_value v \<and> newline \<notin> set v \<and> CHR 0x00 \<notin> set v"

lemma text_field_ok: "field_name k \<Longrightarrow> length k < 100 \<Longrightarrow> text_field v \<Longrightarrow> item_ok (Field k v)"
  by (simp add: text_field_def)

lemma word_fields_ok:
  "field_name k \<Longrightarrow> length k < 100 \<Longrightarrow> item_ok (Field k (dec_int (sint (w :: 32 word))))"
  "field_name k \<Longrightarrow> length k < 100 \<Longrightarrow> item_ok (Field k (dec_int (uint (p :: 16 word))))"
proof -
  have "- (10 ^ 10) < sint w" "sint w < 10 ^ 10" using sint_ge [of w] sint_lt [of w] by simp_all
  then show "field_name k \<Longrightarrow> length k < 100 \<Longrightarrow> item_ok (Field k (dec_int (sint w)))"
    by (intro dec_int_field) simp_all
  have "uint p < 65536" using uint_lt2p [of p] by simp
  then have "- (10 ^ 10) < uint p" "uint p < 10 ^ 10" by (simp_all add: less_le_trans [OF _ uint_ge_0])
  then show "field_name k \<Longrightarrow> length k < 100 \<Longrightarrow> item_ok (Field k (dec_int (uint p)))"
    by (intro dec_int_field) simp_all
qed

lemma server_items_ok:
  assumes "list_all text_field [the (pidfile r), the (server_name r), the (send_ip r), the (data_path r),
    the (read_path r), the (write_path r), the (log_path r), the (log_prefix r)]"
  shows "list_all item_ok (map (\<lambda>(k, v). Field k v) (server_items r))"
proof -
  have "text_field ''yes''" "text_field ''no''" by (simp_all add: text_field_def field_value_def line_end_def)
  then show ?thesis
    using assms server_names [of r]
    by (simp add: server_items_def text_field_ok word_fields_ok del: item_ok.simps(2))
qed

lemma demo_items_ok: "list_all item_ok demo_items"
proof -
  have "list_all item_ok (map (\<lambda>(k, v). Field k v) (server_items demo_conf))"
    by (rule server_items_ok) (simp add: demo_conf_def text_field_def field_value_def line_end_def)
  moreover have "item_ok (Remark ''# ImageDFS configuration file'')" "item_ok (Remark [])" by simp_all
  moreover have "item_ok (Field ''daemonize'' ''no'')"
    by (intro text_field_ok) (simp_all add: field_name_def text_field_def field_value_def line_end_def)
  ultimately show ?thesis unfolding demo_items_def by (simp del: item_ok.simps)
qed

lemma demo_items_hold: "holds_items (server_items demo_conf) demo_items" "conf_writable demo_conf"
proof -
  show "holds_items (server_items demo_conf) demo_items"
    using cfg_lookup_distinct [OF server_items_distinct, of _ _ demo_conf]
    by (auto simp: holds_items_def demo_items_def list_all_iff)
  show "conf_writable demo_conf" by (simp add: conf_writable_def demo_conf_def)
qed

definition demo_disk :: "cfg_item list \<Rightarrow> fs" where
  "demo_disk items = fset (False, [''init.cnf'']) (bytes_of (print_config items)) (empty_fs 100000)"

lemma demo_disk_file: "fopen_r ''init.cnf'' (demo_disk items) = Some (bytes_of (print_config items))"
proof -
  have "path_of ''init.cnf'' = (False, [''init.cnf''])" by (simp add: path_of_def)
  then show ?thesis unfolding fopen_r_def demo_disk_def by simp
qed

theorem load_server_config_reads_witness:
  "\<exists>c. load_server_config (Some ''init.cnf'') (demo_disk demo_items) QTcpServer_conf = Some (TCP_OK, c, demo_conf)"
proof -
  from load_server_config_reads [OF demo_disk_file demo_items_ok demo_items_hold, of QTcpServer_conf]
  obtain c where "load_server_config (Some ''init.cnf'') (demo_disk demo_items) QTcpServer_conf = Some (TCP_OK, c, demo_conf)"
    by (elim exE conjE)
  then show ?thesis by (rule exI)
qed

theorem load_server_config_missing_witness:
  "\<exists>c s. load_server_config (Some ''init.cnf'') (demo_disk [Field ''pidfile'' ''/p'']) QTcpServer_conf = Some (TCP_ERR, c, s)"
proof -
  have ok: "list_all item_ok [Field ''pidfile'' ''/p'']" by code_simp
  have k: "''log-size'' \<in> set (map fst (server_items demo_conf))" by (simp add: server_items_def)
  have "cfg_lookup ''log-size'' [Field ''pidfile'' ''/p''] = None" by code_simp
  from load_server_config_missing [OF demo_disk_file ok k this] show ?thesis by blast
qed

end
