(* ===== verification/Server_Init.thy ===== *)
theory Server_Init
  imports Server_Config Server_Threads Idfs_Invariant
begin

text \<open>
  Starting the server: the logger's directory, the configuration and directories of the image
  server (\<open>IDFSServer::initialize\<close>), and the sequence of \<open>QTcpServer::init\<close>.  Allocation of the
  objects created once at start succeeds; sockets, threads and the monitor answer through an
  environment.
\<close>

section \<open>The logger\<close>

record logger =
  lg_path :: string
  lg_prefix :: string

text \<open>
  \<open>QLogger::mkdir\<close> runs the loop of \<open>QDir::mkdir\<close>, without its tests: the root directory alone is
  fine, and a long path is not refused.
\<close>

definition logger_mkdir :: "string \<Rightarrow> fs \<Rightarrow> int \<times> fs" where
  "logger_mkdir dirPath d =
     (let acc = (if dirPath \<noteq> [] \<and> is_sep (hd dirPath) then [hd dirPath] else []);
          rest = drop (length acc) dirPath
      in if rest = [] then (0, d)
         else case mkdir_loop acc rest d of (ok, d') \<Rightarrow> (if ok then 0 else -1, d'))"

text \<open>
  \<open>QLogger::init\<close>, on the text buffers of the logger; \<open>None\<close> is a path that does not fit into the
  256 bytes of \<open>logPath_\<close> or a prefix copied beyond the 32 bytes of \<open>logPrefix_\<close>.
\<close>

definition logger_dir :: "string option \<Rightarrow> string" where
  "logger_dir logPath =
     (case logPath of
        None \<Rightarrow> ''.''
      | Some p \<Rightarrow> if p = [] then ''.'' else if last p = CHR ''/'' then butlast p else p)"

definition logger_prefix :: "string option \<Rightarrow> string" where
  "logger_prefix logPrefix =
     (case logPrefix of
        None \<Rightarrow> []
      | Some p \<Rightarrow> if p = [] then [] else if last p = CHR ''_'' then p else take 31 (p @ ''_''))"

definition logger_init :: "string option \<Rightarrow> string option \<Rightarrow> fs \<Rightarrow> (int \<times> logger \<times> fs) option" where
  "logger_init logPath logPrefix d =
     (let path = logger_dir logPath; prefix = logger_prefix logPrefix
      in if 256 \<le> length path then None
         else case logger_mkdir path d of (r, d') \<Rightarrow>
           if r \<noteq> 0 then Some (-2, \<lparr>lg_path = path, lg_prefix = []\<rparr>, d')
           else if 32 \<le> length prefix then None
           else Some (0, \<lparr>lg_path = path, lg_prefix = prefix\<rparr>, d'))"


section \<open>IDFSServer::initialize\<close>

record idfs_conf =
  conf_img_path :: "string option"
  conf_img_dir :: "string option"
  conf_img_subdir_num :: "32 word"
  conf_mongo_uri :: "string option"
  conf_mongo_collection :: "string option"

definition idfs_loads :: "idfs_conf loader list" where
  "idfs_loads =
     [load_text ''img-path'' conf_img_path conf_img_path_update,
      load_text ''img-dir'' conf_img_dir conf_img_dir_update,
      load_with getFieldInt32 ''img-subdir-num'' conf_img_subdir_num conf_img_subdir_num_update,
      load_text ''mongo-uri'' conf_mongo_uri conf_mongo_uri_update,
      load_text ''mongo-img-collection'' conf_mongo_collection conf_mongo_collection_update]"

text \<open>The directory for the images whose identifier is \<open>i\<close> modulo 1000.\<close>

definition subdir_text :: "string \<Rightarrow> string \<Rightarrow> nat \<Rightarrow> string" where
  "subdir_text path dir i = path @ ''/'' @ dir @ ''/'' @ pad0 3 (dec_nat i)"

fun make_subdirs :: "string \<Rightarrow> string \<Rightarrow> nat list \<Rightarrow> fs \<Rightarrow> bool \<times> fs" where
  "make_subdirs path dir [] d = (True, d)"
| "make_subdirs path dir (i # is) d =
     (case dir_mkdir (take 1023 (subdir_text path dir i)) d of
        (False, d') \<Rightarrow> (False, d')
      | (True, d') \<Rightarrow> make_subdirs path dir is d')"

text \<open>
  \<open>connect\<close> is the database behind a connection string, or \<open>None\<close> when the driver refuses it, in
  which case the constructor of \<open>QMongoClient\<close> aborts the process.
\<close>

definition initialize :: "(string \<Rightarrow> 'd option) \<Rightarrow> config \<Rightarrow> idfs_conf \<Rightarrow> fs \<Rightarrow>
    ((int + 'd idfs) \<times> fs) outcome option" where
  "initialize connect c ic d =
     (case load_all idfs_loads c ic of
        None \<Rightarrow> None
      | Some (ret, ic1) \<Rightarrow>
          if ret < 0 then Some (Returned (Inl TCP_ERR, d))
          else let p = the (conf_img_path ic1); dir = the (conf_img_dir ic1); n = sint (conf_img_subdir_num ic1)
               in case dir_mkdir p d of
                 (False, d1) \<Rightarrow> Some (Returned (Inl TCP_ERR, d1))
               | (True, d1) \<Rightarrow>
                   (case make_subdirs p dir [0..<nat n] d1 of
                      (False, d2) \<Rightarrow> Some (Returned (Inl TCP_ERR, d2))
                    | (True, d2) \<Rightarrow>
                        (case connect (the (conf_mongo_uri ic1)) of
                           None \<Rightarrow> Some Aborted
                         | Some database \<Rightarrow>
                             Some (Returned (Inr \<lparr>img_path = p, img_dir = dir, img_subdir_num = n,
                               mongo_collection = the (conf_mongo_collection ic1), disk = d2, db = database,
                               mongo_locked = False\<rparr>, d2)))))"


subsection \<open>The directories\<close>

definition subdirs_free :: "string \<Rightarrow> string \<Rightarrow> nat list \<Rightarrow> fs \<Rightarrow> bool" where
  "subdirs_free path dir is d \<longleftrightarrow> list_all (\<lambda>i. path_free d (path_of (subdir_text path dir i))) is"

definition dirs_ok :: "string \<Rightarrow> string \<Rightarrow> bool" where
  "dirs_ok path dir \<longleftrightarrow> path \<noteq> [] \<and> path \<noteq> ''/'' \<and> length path + length dir < 240 \<and> CHR 0x5C \<notin> set path
     \<and> CHR 0x5C \<notin> set dir"

lemma subdir_text_ok:
  assumes "dirs_ok path dir" and "i < 10 ^ 10"
  shows "length (subdir_text path dir i) < 256" "CHR 0x5C \<notin> set (subdir_text path dir i)"
    "subdir_text path dir i \<noteq> []" "subdir_text path dir i \<noteq> ''/''"
proof -
  have "length (dec_nat i) \<le> 10" using length_dec_nat [of i 9] assms(2) by simp
  then show "length (subdir_text path dir i) < 256" using assms(1) by (auto simp: subdir_text_def dirs_ok_def max_def)
  have "CHR 0x5C \<notin> set (dec_nat i)" using dec_nat_digits [of "CHR 0x5C" i] by (auto simp: isdigit_def)
  then have "CHR 0x5C \<notin> set (pad0 3 (dec_nat i))" by (auto dest: pad0_plain)
  then show "CHR 0x5C \<notin> set (subdir_text path dir i)" using assms(1) by (auto simp: subdir_text_def dirs_ok_def max_def)
  show "subdir_text path dir i \<noteq> []" "subdir_text path dir i \<noteq> ''/''"
    using assms(1) by (auto simp: subdir_text_def dirs_ok_def append_eq_Cons_conv)
qed

lemma make_subdirs_ok:
  assumes "dirs_ok path dir" and "fs_wf d" and "subdirs_free path dir is d" and "\<forall>i \<in> set is. i < 10 ^ 10"
  shows "\<exists>d'. make_subdirs path dir is d = (True, d') \<and> fs_wf d' \<and> ffiles d' = ffiles d
    \<and> set (fdirs d) \<subseteq> set (fdirs d') \<and> (\<forall>i \<in> set is. is_dir d' (path_of (subdir_text path dir i)))"
  using assms(2-4)
proof (induction "is" arbitrary: d)
  case (Cons i "is")
  note t = subdir_text_ok [OF assms(1), of i]
  have i: "i < 10 ^ 10" using Cons.prems(3) by simp
  have "path_free d (path_of (subdir_text path dir i))" using Cons.prems(2) by (simp add: subdirs_free_def)
  from dir_mkdir_ok [OF Cons.prems(1) t(1,3,4,2) [OF i] this] obtain d1 where
    d1: "dir_mkdir (subdir_text path dir i) d = (True, d1)" "fs_wf d1" "is_dir d1 (path_of (subdir_text path dir i))"
      "ffiles d1 = ffiles d" "set (fdirs d) \<subseteq> set (fdirs d1)" by blast
  have "subdirs_free path dir is d1"
    using Cons.prems(2) fget_ffiles [OF d1(4)] by (simp add: subdirs_free_def path_free_def)
  from Cons.IH [OF d1(2) this] Cons.prems(3) obtain d' where
    d': "make_subdirs path dir is d1 = (True, d')" "fs_wf d'" "ffiles d' = ffiles d1" "set (fdirs d1) \<subseteq> set (fdirs d')"
      "\<forall>i \<in> set is. is_dir d' (path_of (subdir_text path dir i))" by auto
  have "is_dir d' (path_of (subdir_text path dir i))" using d1(3) d'(4) by (auto simp: is_dir_def)
  moreover have "take 1023 (subdir_text path dir i) = subdir_text path dir i" using t(1) [OF i] by simp
  ultimately show ?case using d1 d' by (intro exI [of _ d']) auto
qed simp


subsection \<open>A server that is ready\<close>

text \<open>
  Ready for uploads: a sane configuration and a directory for every remainder modulo 1000, the
  number that \<open>server_main\<close> uses.  Requests keep it so.
\<close>

definition server_ready :: "'d idfs \<Rightarrow> bool" where
  "server_ready st \<longleftrightarrow> cfg_ok st \<and> (\<forall>i < 1000. is_dir (disk st) (path_of (subdir_text (img_path st) (img_dir st) i)))
     \<and> \<not> mongo_locked st"

lemma fwrite_at_fdirs: "fwrite_at p pos data d = (ok, k, d') \<Longrightarrow> fdirs d' = fdirs d"
  by (auto simp: fwrite_at_def Let_def split: option.splits)

lemma save_image_fdirs: "save_image p data d = (r, d') \<Longrightarrow> fdirs d' = fdirs d"
  by (auto simp: save_image_def fopen_w_def dest!: fwrite_at_fdirs split: option.splits if_splits prod.splits)

lemma register_ready:
  assumes "server_ready st" and "register_image env t data st = (r, st')"
  shows "server_ready st'"
proof -
  have cfg: "cfg_ok st" using assms(1) by (simp add: server_ready_def)
  have "fdirs (disk st') = fdirs (disk st)"
    using assms(2) cfg by (cases rule: register_image_cases) (auto dest: save_image_fdirs)
  then show ?thesis
    using assms(1) register_image_frame(1-3) [OF assms(2)] same_cfg_simps(2) [OF register_cfg [OF assms(2)]]
    by (simp add: server_ready_def is_dir_def)
qed

lemma server_main_ready:
  assumes "server_ready st" and "server_main env type data out st = Returned (n, out', st')"
  shows "server_ready st'"
proof -
  obtain e out1 where em: "emit_all reply_head 0 out = (e, out1)" by fastforce
  consider "st' = st" | t d pos where "finish_image env t d pos out1 st = (n, out', st')"
    using assms(2) by (auto simp: server_main_def em split: if_splits sum.splits option.splits prod.splits)
  then show ?thesis
  proof cases
    case 2
    obtain r st1 where reg: "register_image env t d st = (r, st1)" by fastforce
    then have "st' = st1" using 2 by (auto simp: finish_image_def split: sum.splits prod.splits)
    with register_ready [OF assms(1) reg] show ?thesis by simp
  qed (use assms(1) in simp)
qed

lemma served_ready:
  assumes "served env st0 st" and "server_ready st0"
  shows "server_ready st"
  using assms(1)
proof induction
  case (serve st request len reply n reply' st')
  from serve(3) show ?case
  proof (cases rule: server_process_cases)
    case (processed data_len ret out)
    from server_main_ready [OF serve(4) processed(4)] show ?thesis .
  qed (use serve(4) in simp)
qed (rule assms(2))

lemma image_parent:
  assumes "img_path st \<noteq> []"
  shows "parent (image_path st t iid) = path_of (subdir_text (img_path st) (img_dir st) (unat iid mod 1000))"
proof -
  let ?dir = "subdir_text (img_path st) (img_dir st) (unat iid mod 1000)"
  let ?name = "hex_nat (unat iid) @ ''.'' @ get_image_type_name t"
  have "CHR ''/'' \<notin> set ?name" by (auto dest: hex_nat_plain type_name_plain(1))
  moreover have "?name \<noteq> ''.''" using type_name_plain(2) [of t] by (auto simp: append_eq_Cons_conv)
  ultimately have "path_of (?dir @ CHR ''/'' # ?name) = (fst (path_of ?dir), snd (path_of ?dir) @ [?name])"
    using assms by (intro path_of_name) (auto simp: subdir_text_def)
  then show ?thesis by (simp add: image_path_def file_text_def subdir_text_def parent_def)
qed

lemma save_image_new:
  assumes "fget d (path_of p) = None" and "can_create p d" and "data \<noteq> []" and "length data \<le> froom d"
  shows "\<exists>d'. save_image (Some p) (Some data) d = (0, d') \<and> fget d' = (fget d)(path_of p \<mapsto> data)"
proof -
  let ?d1 = "fset (path_of p) [] d"
  have "sys_access p d \<noteq> 0" using assms(1,2) by (auto simp: sys_access_def can_create_def fs_exists_def)
  moreover have "froom ?d1 = froom d" using assms(1) by (simp add: fset_def flen_def)
  then have "fwrite_at (path_of p) 0 data ?d1 = (True, length data, fset (path_of p) data ?d1)"
    using fwrite_at_end [of ?d1 "path_of p" "[]" data] assms(3,4) by simp
  ultimately show ?thesis using assms(2,3) by (simp add: save_image_def fopen_w_def fget_fset_upd)
qed


section \<open>QTcpServer::init\<close>

text \<open>
  What the operating system answers: the sockets, the listening port, the threads in the order of
  their creation, the monitor; and the memory for the rings of the two queues.
\<close>

record boot_env =
  be_mem1 :: "nat list"
  be_mem2 :: "nat list"
  be_socket :: int
  be_listen :: int
  be_alloc :: "32 word \<Rightarrow> bool"
  be_thread :: "nat \<Rightarrow> int"
  be_monitor :: int

text \<open>
  The spool file: when it is there, cut off what follows its last end mark and stand at its end.
  The result is the position in it, \<open>None\<close> for the member that stays as it was.
\<close>

definition open_spool :: "string \<Rightarrow> fs \<Rightarrow> int \<times> nat option \<times> fs" where
  "open_spool path d =
     (if sys_access path d \<noteq> 0 then (TCP_OK, None, d)
      else case q_repair_file path (le64 TCP_TAILER_FILE_MARK) d of (ret, d1) \<Rightarrow>
        if ret < 0 then (TCP_ERR, None, d1)
        else case fopen_r path d1 of
          None \<Rightarrow> (TCP_ERR, None, d1)
        | Some content \<Rightarrow> (TCP_OK, Some (length content), d1))"

text \<open>
  The three loops that create the threads: a buffer for each, then the thread.  Their counters run
  until they equal the configured number, so a negative number leaves the array of threads.
\<close>

definition start_threads :: "boot_env \<Rightarrow> nat \<Rightarrow> nat \<Rightarrow> 32 word \<Rightarrow> bool" where
  "start_threads be first n buf_size \<longleftrightarrow> list_all (\<lambda>i. be_alloc be buf_size \<and> 0 \<le> be_thread be (first + i)) [0..<n]"

definition create_threads :: "boot_env \<Rightarrow> tcp_conf \<Rightarrow> int option" where
  "create_threads be s =
     (let comm = sint (comm_thread_max s); work = sint (work_thread_max s); snd = sint (send_thread_max s)
      in if comm + work + snd < 0 then Some TCP_ERR
         else if comm < 0 \<or> work < 0 \<or> snd < 0 then None
         else if start_threads be 0 (nat comm) (comm_buffer_size s)
            \<and> start_threads be (nat comm) (nat work) (work_buffer_size s)
            \<and> start_threads be (nat comm + nat work) (nat snd) (send_buffer_size s)
         then Some TCP_OK else Some TCP_ERR)"

text \<open>
  The start sequence.  A result \<open>Inl e\<close> is \<open>return e\<close>; the server that runs consists of the image
  store, the pool of threads and connection blocks, the logger and the position in the spool file.
\<close>

definition server_start :: "boot_env \<Rightarrow> (string \<Rightarrow> 'd option) \<Rightarrow> string option \<Rightarrow> idfs_conf \<Rightarrow> fs \<Rightarrow>
    ((int + 'd idfs \<times> pool \<times> logger \<times> nat option) \<times> fs) outcome option" where
  "server_start be connect cfg_file ic d =
     (case load_server_config cfg_file d QTcpServer_conf of
        None \<Rightarrow> None
      | Some (ret, c, s) \<Rightarrow>
          if ret < 0 then Some (Returned (Inl TCP_ERR, d))
          else case logger_init (log_path s) (log_prefix s) d of
            None \<Rightarrow> None
          | Some (ret, lg, d1) \<Rightarrow>
              if ret < 0 then Some (Returned (Inl TCP_ERR, d1))
              else if sint (queue_size s) < 0 then Some (Returned (Inl TCP_ERR, d1))
              else case init_pool (nat (sint (queue_size s))) (nat (sint (comm_thread_max s)))
                          (nat (sint (work_thread_max s))) (be_mem1 be) (be_mem2 be) of
                None \<Rightarrow> Some (Returned (Inl TCP_ERR, d1))
              | Some pl \<Rightarrow>
                  (case dir_mkdir (the (data_path s)) d1 of
                     (False, d2) \<Rightarrow> Some (Returned (Inl TCP_ERR, d2))
                   | (True, d2) \<Rightarrow>
                       (case open_spool (the (write_path s)) d2 of (ret, fp, d3) \<Rightarrow>
                          if ret < 0 then Some (Returned (Inl TCP_ERR, d3))
                          else case initialize connect c ic d3 of
                            None \<Rightarrow> None
                          | Some Aborted \<Rightarrow> Some Aborted
                          | Some (Returned (Inl e, d4)) \<Rightarrow> Some (Returned (Inl TCP_ERR, d4))
                          | Some (Returned (Inr st, d4)) \<Rightarrow>
                              if be_socket be < 0 \<or> be_listen be < 0 then Some (Returned (Inl TCP_ERR, d4))
                              else case create_threads be s of
                                None \<Rightarrow> None
                              | Some ret \<Rightarrow>
                                  if ret < 0 \<or> be_monitor be < 0 then Some (Returned (Inl TCP_ERR, d4))
                                  else Some (Returned (Inr (st, pl, lg, fp), d4)))))"


section \<open>A start that succeeds\<close>

lemma path_free_files: "\<forall>q. fget d q = None \<longrightarrow> fget d' q = None \<Longrightarrow> path_free d p \<Longrightarrow> path_free d' p"
  by (simp add: path_free_def)

lemma logger_init_ok:
  assumes "fs_wf d" and "logger_dir lp \<noteq> []" and "length (logger_dir lp) < 256" and "CHR 0x5C \<notin> set (logger_dir lp)"
    and "path_free d (path_of (logger_dir lp))" and "length (logger_prefix pre) < 32"
  shows "\<exists>d'. logger_init lp pre d = Some (0, \<lparr>lg_path = logger_dir lp, lg_prefix = logger_prefix pre\<rparr>, d')
    \<and> fs_wf d' \<and> ffiles d' = ffiles d \<and> set (fdirs d) \<subseteq> set (fdirs d')"
proof -
  have "\<exists>d'. logger_mkdir (logger_dir lp) d = (0, d') \<and> fs_wf d' \<and> ffiles d' = ffiles d \<and> set (fdirs d) \<subseteq> set (fdirs d')"
  proof (cases "hd (logger_dir lp) = CHR ''/''")
    case True
    then obtain t where t: "logger_dir lp = CHR ''/'' # t" using assms(2) by (cases "logger_dir lp") auto
    show ?thesis
    proof (cases "t = []")
      case False
      have "is_dir d (path_of ''/'')" using assms(1) by (simp add: fs_wf_def path_of_def)
      with mkdir_loop_ok [of d t "''/''"] assms t False show ?thesis
        by (auto simp: logger_mkdir_def is_sep_def)
    qed (use assms(1) t in \<open>simp add: logger_mkdir_def is_sep_def\<close>)
  next
    case False
    moreover have "\<not> is_sep (hd (logger_dir lp))"
      using False assms(2,4) by (cases "logger_dir lp") (auto simp: is_sep_def)
    moreover have "is_dir d (path_of [])" using assms(1) by (simp add: fs_wf_def path_of_def)
    ultimately show ?thesis
      using mkdir_loop_ok [of d "logger_dir lp" "[]"] assms by (auto simp: logger_mkdir_def)
  qed
  then show ?thesis using assms(3,6) by (auto simp: logger_init_def Let_def)
qed

lemma q_repair_file_cuts:
  assumes "fopen_r file d = Some content"
  shows "\<exists>k d'. q_repair_file file flag d = (0, d') \<and> fget d' = (fget d)(path_of file \<mapsto> take k content) \<and> fdirs d' = fdirs d"
proof -
  have g: "file \<noteq> []" "fget d (path_of file) = Some content" using assms by (auto simp: fopen_r_def split: if_splits)
  then have a: "sys_access file d = 0" "sys_stat_size file d = Some (length content)"
    by (auto simp: sys_access_def fs_exists_def sys_stat_size_def flen_def)
  show ?thesis
  proof (cases "content = []")
    case True
    then show ?thesis using a g by (auto simp: q_repair_file_def)
  next
    case False
    then show ?thesis using a g assms by (auto simp: q_repair_file_def fget_fset_upd)
  qed
qed

lemma fs_wf_same:
  assumes "fs_wf d" and "fdirs d' = fdirs d" and "\<forall>q. fget d' q = None \<longleftrightarrow> fget d q = None"
  shows "fs_wf d'"
  using assms by (simp add: fs_wf_def fs_exists_def is_dir_def del: not_None_eq)

lemma open_spool_ok:
  assumes "fopen_r path d = Some content" and "fs_wf d"
  shows "\<exists>k d'. open_spool path d = (TCP_OK, Some (length (take k content)), d')
    \<and> fget d' = (fget d)(path_of path \<mapsto> take k content) \<and> fdirs d' = fdirs d \<and> fs_wf d'"
proof -
  have g: "path \<noteq> []" "fget d (path_of path) = Some content" using assms(1) by (auto simp: fopen_r_def split: if_splits)
  then have "sys_access path d = 0" by (simp add: sys_access_def fs_exists_def)
  moreover obtain k d' where r: "q_repair_file path (le64 TCP_TAILER_FILE_MARK) d = (0, d')"
    "fget d' = (fget d)(path_of path \<mapsto> take k content)" "fdirs d' = fdirs d"
    using q_repair_file_cuts [OF assms(1)] by blast
  moreover have "fopen_r path d' = Some (take k content)" using g r(2) by (simp add: fopen_r_def)
  moreover have "fs_wf d'" by (rule fs_wf_same [OF assms(2) r(3)]) (use g r(2) in auto)
  ultimately show ?thesis by (auto simp: open_spool_def)
qed

definition idfs_items :: "idfs_conf \<Rightarrow> (string \<times> string) list" where
  "idfs_items ic =
     [(''img-path'', the (conf_img_path ic)), (''img-dir'', the (conf_img_dir ic)),
      (''img-subdir-num'', dec_int (sint (conf_img_subdir_num ic))), (''mongo-uri'', the (conf_mongo_uri ic)),
      (''mongo-img-collection'', the (conf_mongo_collection ic))]"

definition idfs_writable :: "idfs_conf \<Rightarrow> bool" where
  "idfs_writable ic \<longleftrightarrow> conf_img_path ic \<noteq> None \<and> conf_img_dir ic \<noteq> None \<and> conf_mongo_uri ic \<noteq> None
     \<and> conf_mongo_collection ic \<noteq> None"

lemma idfs_load_reads:
  assumes "list_all item_ok items" and "cfg_fp c = Some (print_config items)"
    and "holds_items (idfs_items ic) items" and "idfs_writable ic"
  shows "load_all idfs_loads c s = Some (TCP_OK, ic)"
proof -
  note l = load_ok [OF assms(1,2)]
  have w: "Some (the (conf_img_path ic)) = conf_img_path ic" "Some (the (conf_img_dir ic)) = conf_img_dir ic"
    "Some (the (conf_mongo_uri ic)) = conf_mongo_uri ic" "Some (the (conf_mongo_collection ic)) = conf_mongo_collection ic"
    using assms(4) by (simp_all add: idfs_writable_def)
  note k = assms(3) [unfolded holds_items_def idfs_items_def list.pred_inject prod.case]
  have n: "field_name ''img-path''" "field_name ''img-dir''" "field_name ''img-subdir-num''" "field_name ''mongo-uri''"
    "field_name ''mongo-img-collection''" by (simp_all add: field_name_def)
  show ?thesis
    unfolding idfs_loads_def
    by (simp only: load_all.simps l k n simp_thms option.case prod.case of_nat_less_0_iff if_False less_irrefl)
      (rule arg_cong [of _ _ "\<lambda>x. Some (TCP_OK, x)"], rule idfs_conf.equality; simp add: w del: option.collapse)
qed

text \<open>What the image server needs of its configuration and of the disk.\<close>

definition idfs_bootable :: "idfs_conf \<Rightarrow> fs \<Rightarrow> bool" where
  "idfs_bootable ic d \<longleftrightarrow> idfs_writable ic
     \<and> (let p = the (conf_img_path ic); dir = the (conf_img_dir ic)
        in dirs_ok p dir \<and> path_free d (path_of p)
           \<and> subdirs_free p dir [0..<nat (sint (conf_img_subdir_num ic))] d)"

lemma initialize_ok:
  assumes "list_all item_ok items" and "cfg_fp c = Some (print_config items)" and "holds_items (idfs_items ic) items"
    and "idfs_bootable ic d" and "fs_wf d" and "connect (the (conf_mongo_uri ic)) = Some x"
  shows "\<exists>d'. initialize connect c ic0 d = Some (Returned (Inr \<lparr>img_path = the (conf_img_path ic),
      img_dir = the (conf_img_dir ic), img_subdir_num = sint (conf_img_subdir_num ic),
      mongo_collection = the (conf_mongo_collection ic), disk = d', db = x, mongo_locked = False\<rparr>, d'))
    \<and> fs_wf d' \<and> ffiles d' = ffiles d \<and> (\<forall>i < nat (sint (conf_img_subdir_num ic)).
        is_dir d' (path_of (subdir_text (the (conf_img_path ic)) (the (conf_img_dir ic)) i)))"
proof -
  let ?p = "the (conf_img_path ic)" and ?dir = "the (conf_img_dir ic)" and ?n = "nat (sint (conf_img_subdir_num ic))"
  have b: "idfs_writable ic" "dirs_ok ?p ?dir" "path_free d (path_of ?p)" "subdirs_free ?p ?dir [0..<?n] d"
    using assms(4) by (simp_all add: idfs_bootable_def Let_def)
  have "length ?p < 256" "?p \<noteq> []" "?p \<noteq> ''/''" "CHR 0x5C \<notin> set ?p" using b(2) by (auto simp: dirs_ok_def)
  from dir_mkdir_ok [OF assms(5) this b(3)] obtain d1 where
    d1: "dir_mkdir ?p d = (True, d1)" "fs_wf d1" "ffiles d1 = ffiles d" by blast
  have "subdirs_free ?p ?dir [0..<?n] d1" using b(4) fget_ffiles [OF d1(3)] by (simp add: subdirs_free_def path_free_def)
  moreover have "?n < 10 ^ 10" using sint_lt [of "conf_img_subdir_num ic"] by simp
  then have "\<forall>i \<in> set [0..<?n]. i < 10 ^ 10" by auto
  ultimately obtain d' where d': "make_subdirs ?p ?dir [0..<?n] d1 = (True, d')" "fs_wf d'" "ffiles d' = ffiles d1"
    "\<forall>i \<in> set [0..<?n]. is_dir d' (path_of (subdir_text ?p ?dir i))"
    using make_subdirs_ok [OF b(2) d1(2)] by blast
  show ?thesis
    using idfs_load_reads [OF assms(1-3) b(1), of ic0] d1 d' assms(6) by (intro exI [of _ d']) (simp add: initialize_def tcp_codes)
qed



text \<open>
  What the whole start needs: a configuration of that kind in the file, directories that do not run
  into files, a spool file from an earlier run, and an environment in which nothing fails.
\<close>

definition conf_bootable :: "tcp_conf \<Rightarrow> fs \<Rightarrow> bool" where
  "conf_bootable s d \<longleftrightarrow> conf_writable s
     \<and> list_all (\<lambda>w. 0 \<le> sint w) [queue_size s, comm_thread_max s, work_thread_max s, send_thread_max s]
     \<and> logger_dir (log_path s) \<noteq> [] \<and> length (logger_dir (log_path s)) < 256
     \<and> CHR 0x5C \<notin> set (logger_dir (log_path s)) \<and> path_free d (path_of (logger_dir (log_path s)))
     \<and> length (logger_prefix (log_prefix s)) < 32
     \<and> (let p = the (data_path s)
        in p \<noteq> [] \<and> p \<noteq> ''/'' \<and> length p < 256 \<and> CHR 0x5C \<notin> set p \<and> path_free d (path_of p))"

definition env_healthy :: "boot_env \<Rightarrow> tcp_conf \<Rightarrow> bool" where
  "env_healthy be s \<longleftrightarrow> length (be_mem1 be) = Suc (nat (sint (queue_size s)))
     \<and> length (be_mem2 be) = Suc (nat (sint (queue_size s)))
     \<and> 0 \<le> be_socket be \<and> 0 \<le> be_listen be \<and> 0 \<le> be_monitor be
     \<and> be_alloc be (comm_buffer_size s) \<and> be_alloc be (work_buffer_size s) \<and> be_alloc be (send_buffer_size s)
     \<and> (\<forall>i. 0 \<le> be_thread be i)"

lemma create_threads_ok: "env_healthy be s \<Longrightarrow> conf_bootable s d \<Longrightarrow> create_threads be s = Some TCP_OK"
  by (simp add: env_healthy_def conf_bootable_def create_threads_def start_threads_def Let_def list_all_iff)

lemma cfg_lookup_text: "list_all item_ok items \<Longrightarrow> cfg_lookup k items = Some v \<Longrightarrow> CHR 0x00 \<notin> set v"
  by (induction k items rule: cfg_lookup.induct) (auto split: if_splits)

lemma boot_disk:
  assumes "conf_bootable s d" and "fs_wf d" and "fopen_r (the (write_path s)) d = Some content"
  obtains d1 d2 k d3 where
    "logger_init (log_path s) (log_prefix s) d =
       Some (0, \<lparr>lg_path = logger_dir (log_path s), lg_prefix = logger_prefix (log_prefix s)\<rparr>, d1)"
    "dir_mkdir (the (data_path s)) d1 = (True, d2)"
    "open_spool (the (write_path s)) d2 = (TCP_OK, Some (length (take k content)), d3)"
    "fs_wf d3" "fget d3 = (fget d)(path_of (the (write_path s)) \<mapsto> take k content)"
proof -
  let ?p = "the (data_path s)" and ?w = "the (write_path s)"
  note c = assms(1) [unfolded conf_bootable_def Let_def]
  have lg: "logger_dir (log_path s) \<noteq> []" "length (logger_dir (log_path s)) < 256" "CHR 0x5C \<notin> set (logger_dir (log_path s))"
    "path_free d (path_of (logger_dir (log_path s)))" "length (logger_prefix (log_prefix s)) < 32"
    and dp: "length ?p < 256" "?p \<noteq> []" "?p \<noteq> ''/''" "CHR 0x5C \<notin> set ?p" "path_free d (path_of ?p)"
    using c by simp_all
  obtain d1 where d1: "logger_init (log_path s) (log_prefix s) d =
      Some (0, \<lparr>lg_path = logger_dir (log_path s), lg_prefix = logger_prefix (log_prefix s)\<rparr>, d1)" "fs_wf d1" "ffiles d1 = ffiles d"
    using logger_init_ok [OF assms(2) lg] by blast
  have "path_free d1 (path_of ?p)" using dp(5) fget_ffiles [OF d1(3)] by (simp add: path_free_def)
  from dir_mkdir_ok [OF d1(2) dp(1-4) this] obtain d2 where
    d2: "dir_mkdir ?p d1 = (True, d2)" "fs_wf d2" "ffiles d2 = ffiles d1" by blast
  have f2: "fget d2 = fget d" using fget_ffiles d1(3) d2(3) by metis
  then have "fopen_r ?w d2 = Some content" using assms(3) by (auto simp: fopen_r_def split: if_splits)
  from open_spool_ok [OF this d2(2)] obtain k d3 where
    "open_spool ?w d2 = (TCP_OK, Some (length (take k content)), d3)"
    "fget d3 = (fget d2)(path_of ?w \<mapsto> take k content)" "fs_wf d3" by blast
  with d1(1) d2(1) f2 show thesis by (intro that) simp_all
qed

lemma idfs_bootable_files:
  assumes "idfs_bootable ic d" and "\<forall>q. fget d q = None \<longrightarrow> fget d' q = None"
  shows "idfs_bootable ic d'"
  using assms path_free_files [OF assms(2)] by (auto simp: idfs_bootable_def Let_def subdirs_free_def list_all_iff)


section \<open>Properties\<close>


text \<open>C4: A new image is accepted.  Take a server that was ready at start and has since served any
  requests.  An image that is not yet registered and decodes, that the disk has room for and whose
  name is free, is stored byte for byte under its name, nothing else on the disk changes, and the
  database then finds the record under its identifier.\<close>

theorem upload_stored:
  assumes "server_ready st0" and "served env st0 st"
    and "mongo_sound (env_mongo env) docs" and "reads_reliable (env_mongo env)"
    and "\<forall>c doc x. fst (drv_insert (env_mongo env) c doc x) = Some ()"
    and "lookup_image docs st (q_to_string (iid_of env data)) = None"
    and "data \<noteq> []" and "length data \<le> froom (disk st)" and "env_imread env data = Some (w, h)"
    and "\<not> fs_exists (disk st) (image_path st t (iid_of env data))"
  shows "\<exists>st'. register_image env t data st =
      (Inr (file_text (img_dir st) t (iid_of env data), image_size_text env w h), st')
    \<and> fget (disk st') = (fget (disk st))(image_path st t (iid_of env data) \<mapsto> data)
    \<and> (\<exists>p s. lookup_image docs st' (q_to_string (iid_of env data)) = Some (p, s)
         \<and> cstr p = file_text (img_dir st) t (iid_of env data) \<and> cstr s = cstr (image_size_text env w h))"
proof -
  let ?iid = "iid_of env data" and ?lt = "local_text st t (iid_of env data)"
  have ready: "server_ready st" by (rule served_ready [OF assms(2,1)])
  then have cfg: "cfg_ok st" and ne: "?lt \<noteq> []" by (auto simp: server_ready_def cfg_ok_def local_text_def)
  have "is_dir (disk st) (parent (image_path st t ?iid))"
    using ready image_parent [of st t ?iid] by (simp add: server_ready_def cfg_ok_def)
  then have "can_create ?lt (disk st)" "fget (disk st) (path_of ?lt) = None"
    using assms(10) ne by (simp_all add: can_create_def path_of_local_text fs_exists_def)
  from save_image_new [OF this(2,1) assms(7,8)] obtain d1 where
    sv: "save_image (Some ?lt) (Some data) (disk st) = (0, d1)"
        "fget d1 = (fget (disk st))(image_path st t ?iid \<mapsto> data)" unfolding path_of_local_text by blast
  have sz: "getImageSize (env_imread env) ?lt d1 = Some (w, h)"
    using sv(2) ne assms(9) by (simp add: getImageSize_def fopen_r_def path_of_local_text)
  have unknown: "\<not> (\<exists>d \<in> set (docs (db st) (mongo_collection st)). matches ''imgid'' (q_to_string ?iid) d)"
    using assms(6) by (auto simp: lookup_image_def find_None_iff)
  obtain r st' where reg: "register_image env t data st = (r, st')" by fastforce
  then have r: "r = Inr (file_text (img_dir st) t ?iid, image_size_text env w h) \<and> disk st' = d1"
    using cfg
  proof (cases rule: register_image_cases)
    case (known db1 found p s db2)
    with exists_reliable [OF assms(3,4) known(1)] unknown show ?thesis by simp
  next
    case (failed db1 sr d2)
    with sv(1) sz show ?thesis by auto
  next
    case (stored db1 sr d2 w' h' ir db2)
    have "ir = MONGO_OK"
      using stored(5) assms(5) by (auto simp: mongo_insert2_def split: option.splits prod.splits)
        (metis fst_conv option.distinct(1))+
    with stored sv(1) sz show ?thesis by (auto simp: MONGO_OK_def MONGO_ERR_def)
  qed
  have "\<exists>p s. lookup_image docs st' (q_to_string ?iid) = Some (p, s)
      \<and> cstr p = cstr (file_text (img_dir st) t ?iid) \<and> cstr s = cstr (image_size_text env w h)"
    using register_lookup [OF assms(3,4) cfg, of t data] reg r by blast
  then show ?thesis using reg r sv(2) image_texts(2) [OF cfg, of t ?iid] by auto
qed

text \<open>
  Without the directory for the remainder of the identifier modulo 1000, which is the case when
  \<open>img-subdir-num\<close> is smaller than that, an image that is not registered is refused with -55.
\<close>

theorem missing_subdir_refused:
  assumes "mongo_sound (env_mongo env) docs" and "cfg_ok st"
    and "\<forall>d \<in> set (docs (db st) (mongo_collection st)). \<not> matches ''imgid'' (q_to_string (iid_of env data)) d"
    and "\<not> is_dir (disk st) (path_of (subdir_text (img_path st) (img_dir st) (unat (iid_of env data) mod 1000)))"
    and "fs_wf (disk st)" and "register_image env t data st = (r, st')"
  shows "r = Inl (-55) \<and> disk st' = disk st"
proof -
  let ?lt = "local_text st t (iid_of env data)"
  have p: "\<not> is_dir (disk st) (parent (image_path st t (iid_of env data)))"
    using assms(4) image_parent [of st t] assms(2) by (simp add: cfg_ok_def)
  then have "\<not> fs_exists (disk st) (path_of ?lt)" using assms(5) unfolding path_of_local_text fs_wf_def by blast
  then have "save_image (Some ?lt) (Some data) (disk st) \<in> {(-1, disk st), (-2, disk st)}"
    using p by (auto simp: save_image_def sys_access_def fopen_w_def can_create_def path_of_local_text)
  with assms(6,2) show ?thesis
  proof (cases rule: register_image_cases)
    case (known db1 found p s db2)
    with mongo_exists_docs(2) [OF assms(1) known(1)] assms(3) show ?thesis by blast
  qed auto
qed



subsection \<open>A sample start\<close>

definition boot_conf :: tcp_conf where
  "boot_conf = demo_conf\<lparr>log_path := Some ''/log/'', data_path := Some ''/data'', write_path := Some ''write.snd''\<rparr>"

definition boot_idfs :: idfs_conf where
  "boot_idfs = \<lparr>conf_img_path = Some ''/data1/img'', conf_img_dir = Some ''img005'', conf_img_subdir_num = 1000,
     conf_mongo_uri = Some ''mongodb://192.168.1.91:27017'', conf_mongo_collection = Some ''IDDS.imgdb''\<rparr>"

definition boot_items :: "cfg_item list" where
  "boot_items = map (\<lambda>(k, v). Field k v) (server_items boot_conf @ idfs_items boot_idfs)"

lemma boot_items_ok: "list_all item_ok boot_items"
proof -
  have "list_all item_ok (map (\<lambda>(k, v). Field k v) (server_items boot_conf))"
    by (rule server_items_ok) (simp add: boot_conf_def demo_conf_def text_field_def field_value_def line_end_def)
  moreover have "text_field ''/data1/img''" "text_field ''img005''" "text_field ''mongodb://192.168.1.91:27017''"
    "text_field ''IDDS.imgdb''" by (simp_all add: text_field_def field_value_def line_end_def)
  moreover have "field_name ''img-path''" "field_name ''img-dir''" "field_name ''img-subdir-num''" "field_name ''mongo-uri''"
    "field_name ''mongo-img-collection''" by (simp_all add: field_name_def)
  ultimately show ?thesis
    using word_fields_ok(1) [of "''img-subdir-num''" 1000]
    unfolding boot_items_def map_append list_all_append idfs_items_def boot_idfs_def
    by (simp add: text_field_ok del: item_ok.simps(2))
qed

lemma boot_items_hold:
  "holds_items (server_items boot_conf) boot_items" "holds_items (idfs_items boot_idfs) boot_items"
proof -
  let ?kvs = "server_items boot_conf @ idfs_items boot_idfs"
  have "list_all (\<lambda>(k, v). map to_lower k = k) ?kvs" by (simp add: server_items_def idfs_items_def to_lower_def)
  then have "map (\<lambda>(k, v). map to_lower k) ?kvs = map fst ?kvs" by (intro map_cong refl) (fastforce simp: list_all_iff)
  moreover have "distinct (map fst ?kvs)" by (simp add: server_items_def idfs_items_def)
  ultimately have "distinct (map (\<lambda>(k, v). map to_lower k) ?kvs)" by metis
  from cfg_lookup_distinct [OF this, where rest = "[]"] have "cfg_lookup k boot_items = Some v" if "(k, v) \<in> set ?kvs" for k v
    using that unfolding boot_items_def append_Nil2 .
  then show "holds_items (server_items boot_conf) boot_items" "holds_items (idfs_items boot_idfs) boot_items"
    unfolding holds_items_def list_all_iff by auto
qed

definition boot_fs :: fs where
  "boot_fs = fset (False, [''write.snd'']) [1, 2, 3] (fset (False, [''init.cnf'']) (bytes_of (print_config boot_items)) (empty_fs 100000))"

lemma boot_fs_wf: "fs_wf boot_fs"
  unfolding boot_fs_def
  by (intro fs_wf_fset empty_fs_wf) (simp_all add: parent_def is_dir_def empty_fs_def fset_def)

lemma boot_path_free: "fst p \<Longrightarrow> path_free boot_fs p"
proof -
  have "fget boot_fs (True, q) = None" for q unfolding boot_fs_def by simp (simp add: fget_def empty_fs_def)
  then show "fst p \<Longrightarrow> path_free boot_fs p" by (simp add: path_free_def)
qed

lemma boot_ready: "conf_bootable boot_conf boot_fs" "idfs_bootable boot_idfs boot_fs"
proof -
  have d: "logger_dir (log_path boot_conf) = ''/log''" "the (data_path boot_conf) = ''/data''"
    "logger_prefix (log_prefix boot_conf) = ''idfs_''"
    by (simp_all add: boot_conf_def demo_conf_def logger_dir_def logger_prefix_def)
  have "path_free boot_fs (path_of ''/log'')" "path_free boot_fs (path_of ''/data'')"
    by (rule boot_path_free, simp add: path_of_def)+
  moreover have "conf_writable boot_conf" by (simp add: conf_writable_def boot_conf_def demo_conf_def)
  moreover have "list_all (\<lambda>w. 0 \<le> sint w) [queue_size boot_conf, comm_thread_max boot_conf,
      work_thread_max boot_conf, send_thread_max boot_conf]" by (simp add: boot_conf_def demo_conf_def)
  ultimately show "conf_bootable boot_conf boot_fs" unfolding conf_bootable_def d Let_def by simp
  have "subdirs_free ''/data1/img'' ''img005'' is boot_fs" for "is"
    unfolding subdirs_free_def list_all_iff by (intro ballI boot_path_free) (simp add: path_of_def subdir_text_def)
  moreover have "path_free boot_fs (path_of ''/data1/img'')" by (rule boot_path_free) (simp add: path_of_def)
  ultimately show "idfs_bootable boot_idfs boot_fs"
    by (simp add: idfs_bootable_def Let_def boot_idfs_def idfs_writable_def dirs_ok_def)
qed

definition boot_demo :: boot_env where
  "boot_demo = \<lparr>be_mem1 = replicate 201 0, be_mem2 = replicate 201 0, be_socket = 0, be_listen = 0,
     be_alloc = (\<lambda>n. True), be_thread = (\<lambda>i. 0), be_monitor = 0\<rparr>"


definition ready_state :: "mem_db idfs" where
  "ready_state = (demo_state 100)\<lparr>disk := \<lparr>fdirs = (True, []) # (False, []) # map (\<lambda>i. path_of (subdir_text ''img'' ''d'' i)) [0..<1000],
     ffiles = [], froom = 100\<rparr>\<rparr>"

lemma ready_state_ready: "server_ready ready_state"
proof -
  have "cfg_ok ready_state" using demo_ok(2) [of 100] by (simp add: ready_state_def demo_state_def cfg_ok_def)
  then show ?thesis by (auto simp: server_ready_def ready_state_def demo_state_def is_dir_def)
qed

lemma ready_state_free: "\<not> fs_exists (disk ready_state) (image_path ready_state t iid)"
proof -
  obtain a xs where p: "image_path ready_state t iid = (a, xs @ [hex_nat (unat iid) @ ''.'' @ get_image_type_name t])"
    using image_path_eq [of ready_state t iid] by (auto simp: ready_state_def demo_state_def)
  have "path_of (subdir_text ''img'' ''d'' i) \<noteq> (a, xs @ [hex_nat (unat iid) @ ''.'' @ get_image_type_name t])" for i
  proof
    let ?n = "pad0 3 (dec_nat i)"
    assume e: "path_of (subdir_text ''img'' ''d'' i) = (a, xs @ [hex_nat (unat iid) @ ''.'' @ get_image_type_name t])"
    have n: "CHR ''/'' \<notin> set ?n" "CHR ''.'' \<notin> set ?n" by (auto dest!: pad0_plain dec_nat_plain)
    then have "?n \<noteq> ''.''" by fastforce
    moreover have "?n \<noteq> []" by (simp add: pad0_def)
    ultimately have "path_of (''img/d'' @ CHR ''/'' # ?n) = (fst (path_of ''img/d''), snd (path_of ''img/d'') @ [?n])"
      using n(1) by (intro path_of_name) simp_all
    then have "path_of (subdir_text ''img'' ''d'' i) = (False, snd (path_of ''img/d'') @ [?n])"
      by (simp add: subdir_text_def path_of_def)
    with e have "?n = hex_nat (unat iid) @ ''.'' @ get_image_type_name t" by simp
    with n(2) show False by simp
  qed
  then show ?thesis unfolding p by (auto simp: fs_exists_def is_dir_def fget_def ready_state_def demo_state_def) blast
qed

theorem upload_stored_witness:
  "\<exists>st'. register_image demo_env 0 [42] ready_state =
      (Inr (file_text ''d'' 0 (iid_of demo_env [42]), image_size_text demo_env 1 1), st')"
proof -
  have d: "env_mongo demo_env = mem_driver" "env_imread demo_env [42] = Some (1, 1)" by (simp_all add: demo_env_def)
  have i: "\<forall>c doc x. fst (drv_insert (env_mongo demo_env) c doc x) = Some ()" by (simp add: d mem_driver_def)
  have l: "lookup_image mem_docs ready_state (q_to_string (iid_of demo_env [42])) = None"
    by (simp add: lookup_image_def ready_state_def demo_state_def mem_docs_def)
  have r: "length [42 :: byte] \<le> froom (disk ready_state)" "img_dir ready_state = ''d''"
    by (simp_all add: ready_state_def demo_state_def)
  from upload_stored [OF ready_state_ready served.start _ _ i l _ r(1) d(2) ready_state_free, of 0]
  show ?thesis using mem_driver_sound mem_driver_reliable unfolding d(1) r(2) by blast
qed

end
