(* ===== verification/Spool_File.thy ===== *)
theory Spool_File
  imports Server_Init
begin

text \<open>
  The spool of \<open>QTcpServer\<close>: \<open>write_data_file\<close> appends packets to a file, each between a header and
  an end mark; \<open>send_thread\<close> moves that file aside, sends its packets one by one to another server,
  repeating each until it is acknowledged, appends the file to a daily backup and removes it.
\<close>

section \<open>Writing\<close>

text \<open>The bytes of one entry.\<close>

definition spool_entry :: "bytes \<Rightarrow> bytes" where
  "spool_entry buf = baseHeader TCP_HEADER_VERSION (int (length buf)) @ buf @ le64 TCP_TAILER_FILE_MARK"

text \<open>\<open>q_change_file_size\<close> after a failed write: back to the offset where the entry began.\<close>

definition cut_file :: "path \<Rightarrow> nat \<Rightarrow> fs \<Rightarrow> fs" where
  "cut_file p offset d = (case fget d p of None \<Rightarrow> d | Some c \<Rightarrow> fset p (take offset c) d)"

text \<open>
  \<open>write_data_file\<close> with the stream \<open>fp_w\<close> given by its position.  A stream that is not open is
  opened for writing until that succeeds; \<open>None\<close> is waiting for ever.
\<close>

definition write_data_file :: "string \<Rightarrow> bytes \<Rightarrow> nat option \<Rightarrow> fs \<Rightarrow> (int \<times> nat option \<times> fs) option" where
  "write_data_file file buf fp_w d =
     (case (case fp_w of
              Some pos \<Rightarrow> Some (pos, d)
            | None \<Rightarrow> (case fopen_w file d of None \<Rightarrow> None | Some d1 \<Rightarrow> Some (0, d1))) of
        None \<Rightarrow> None
      | Some (offset, d1) \<Rightarrow>
          (let p = path_of file
           in case fwrite_at p offset (baseHeader TCP_HEADER_VERSION (int (length buf))) d1 of (ok1, k1, d2) \<Rightarrow>
             if \<not> ok1 then Some (-2, Some offset, cut_file p offset d2)
             else case fwrite_at p (offset + k1) buf d2 of (ok2, k2, d3) \<Rightarrow>
               if \<not> ok2 then Some (-3, Some offset, cut_file p offset d3)
               else case fwrite_at p (offset + k1 + k2) (le64 TCP_TAILER_FILE_MARK) d3 of (ok3, k3, d4) \<Rightarrow>
                 if \<not> ok3 then Some (-4, Some offset, cut_file p offset d4)
                 else Some (0, Some (offset + k1 + k2 + k3), d4)))"


section \<open>Sending\<close>

text \<open>
  One round of the inner loop of \<open>send_thread\<close>: connect, set the timeout, send the packet, read the
  32 bytes of the reply header and look at it.  The socket is closed in every case.
\<close>

record attempt =
  at_connect :: "sock option"
  at_settime :: bool

definition send_once :: "bytes \<Rightarrow> bytes \<Rightarrow> attempt \<Rightarrow> bool \<times> sock option" where
  "send_once buf header a =
     (case at_connect a of
        None \<Rightarrow> (False, None)
      | Some s \<Rightarrow>
          if \<not> at_settime a then (False, Some (q_close_socket s))
          else case q_sendbuf buf (length buf) s of (r1, s1) \<Rightarrow>
            if r1 \<noteq> 0 then (False, Some (q_close_socket s1))
            else case q_recvbuf sizeof_replyHeader header s1 of (r2, header', s2) \<Rightarrow>
              (r2 = 0 \<and> base_version header' = TCP_HEADER_VERSION \<and> 0 < base_length header'
                 \<and> sint (rd32 header' 28) = 0, Some (q_close_socket s2)))"

text \<open>The rounds until one succeeds, and the rounds that are left; \<open>None\<close> when none does.\<close>

fun send_until :: "bytes \<Rightarrow> bytes \<Rightarrow> attempt list \<Rightarrow> attempt list option" where
  "send_until buf header [] = None"
| "send_until buf header (a # as) = (if fst (send_once buf header a) then Some as else send_until buf header as)"

text \<open>
  The loop over the entries of the file, from the position \<open>pos\<close>.  It ends, throws a code, waits for
  a round that succeeds, or, given a negative length, reads beyond its buffer (\<open>SWild\<close>).  The packets
  acknowledged so far are collected.
\<close>

datatype send_result = SDone | SThrow int | SWait | SWild

function send_loop :: "int \<Rightarrow> bytes \<Rightarrow> bytes \<Rightarrow> nat \<Rightarrow> attempt list \<Rightarrow> send_result \<times> bytes list" where
  "send_loop buf_size header content pos as =
     (if length content \<le> pos then (SDone, [])
      else let hdr = sub_buf pos sizeof_baseHeader content; n = base_length hdr
           in if length hdr < sizeof_baseHeader then (SThrow (-1), [])
              else if base_version hdr \<noteq> TCP_HEADER_VERSION then (SThrow (-2), [])
              else if buf_size < n then (SThrow (-3), [])
              else if n < 0 then (SWild, [])
              else let buf = sub_buf (pos + 12) (nat n) content;
                       mark = sub_buf (pos + 12 + nat n) 8 content
                   in if n = 0 \<or> length buf < nat n then (SThrow (-4), [])
                      else if length mark < 8 then (SThrow (-5), [])
                      else if bytes_word mark \<noteq> TCP_TAILER_FILE_MARK then (SThrow (-6), [])
                      else case send_until buf header as of
                        None \<Rightarrow> (SWait, [])
                      | Some as' \<Rightarrow>
                          (case send_loop buf_size header content (pos + 12 + nat n + 8) as' of
                             (r, bufs) \<Rightarrow> (r, buf # bufs)))"
  by pat_completeness auto
termination
  by (relation "measure (\<lambda>(buf_size, header, content, pos, as). length content - pos)") auto

declare send_loop.simps [simp del]


section \<open>Backup\<close>

text \<open>The loop of \<open>backup_file\<close>, which copies entry by entry to the end of an open file.\<close>

function backup_loop :: "int \<Rightarrow> bytes \<Rightarrow> nat \<Rightarrow> path \<Rightarrow> nat \<Rightarrow> fs \<Rightarrow> (int \<times> fs) option" where
  "backup_loop buf_size content pos p wpos d =
     (if length content \<le> pos then Some (0, d)
      else let hdr = sub_buf pos sizeof_baseHeader content; n = base_length hdr
           in if length hdr < sizeof_baseHeader then Some (-4, d)
              else if buf_size < n then Some (-5, d)
              else if n < 0 then None
              else let buf = sub_buf (pos + 12) (nat n) content;
                       mark = sub_buf (pos + 12 + nat n) 8 content
                   in if n = 0 \<or> length buf < nat n then Some (-6, d)
                      else if length mark < 8 then Some (-7, d)
                      else if bytes_word mark \<noteq> TCP_TAILER_FILE_MARK then Some (-8, d)
                      else case fwrite_at p wpos hdr d of (ok1, k1, d1) \<Rightarrow>
                        if \<not> ok1 then Some (-9, d1)
                        else case fwrite_at p (wpos + k1) buf d1 of (ok2, k2, d2) \<Rightarrow>
                          if \<not> ok2 then Some (-10, d2)
                          else case fwrite_at p (wpos + k1 + k2) mark d2 of (ok3, k3, d3) \<Rightarrow>
                            if \<not> ok3 then Some (-11, d3)
                            else backup_loop buf_size content (pos + 12 + nat n + 8) p (wpos + k1 + k2 + k3) d3)"
  by pat_completeness auto
termination
  by (relation "measure (\<lambda>(buf_size, content, pos, p, wpos, d). length content - pos)") auto

declare backup_loop.simps [simp del]

text \<open>The name of the backup is cut to the 126 characters that \<open>snprintf\<close> leaves.\<close>

definition backup_name :: "string \<Rightarrow> nat \<times> nat \<times> nat \<Rightarrow> string" where
  "backup_name dpath ymd =
     (case ymd of (year, month, day) \<Rightarrow>
        take 126 (dpath @ ''/'' @ pad0 4 (dec_nat year) @ ''-'' @ pad0 2 (dec_nat month) @ ''-''
                  @ pad0 2 (dec_nat day) @ ''.snd''))"

definition backup_file :: "string \<Rightarrow> nat \<times> nat \<times> nat \<Rightarrow> string \<Rightarrow> int \<Rightarrow> fs \<Rightarrow> (int \<times> fs) option" where
  "backup_file dpath ymd file buf_size d =
     (if buf_size \<le> 0 then Some (-1, d)
      else case fopen_r file d of
        None \<Rightarrow> Some (-2, d)
      | Some _ \<Rightarrow>
          (case fopen_a (backup_name dpath ymd) d of
             None \<Rightarrow> Some (-3, d)
           | Some (wpos, d1) \<Rightarrow>
               (case fget d1 (path_of file) of
                  None \<Rightarrow> Some (0, d1)
                | Some content \<Rightarrow> backup_loop buf_size content 0 (path_of (backup_name dpath ymd)) wpos d1)))"



section \<open>One round of send_thread\<close>

text \<open>
  \<open>sp_fp\<close> is \<open>write_fp_\<close>.  The round moves the written file aside unless an earlier one is still
  there, sends it, backs it up and removes it; a damaged file is renamed, under a name cut to the 31
  characters of \<open>str_file\<close>.  \<open>None\<close> is waiting for ever or leaving the buffer.
\<close>

record spool =
  sp_fp :: "nat option"
  sp_fs :: fs

definition take_spool :: "string \<Rightarrow> string \<Rightarrow> spool \<Rightarrow> (bool \<times> spool) option" where
  "take_spool rpath wpath sp =
     (if qfile_exists rpath (sp_fs sp) then Some (True, sp)
      else if \<not> qfile_exists wpath (sp_fs sp) then Some (False, sp)
      else case qfile_rename wpath rpath (sp_fs sp) of
        None \<Rightarrow> None
      | Some (_, d) \<Rightarrow> Some (True, \<lparr>sp_fp = None, sp_fs = d\<rparr>))"

definition send_round :: "string \<Rightarrow> string \<Rightarrow> string \<Rightarrow> nat \<times> nat \<times> nat \<Rightarrow> nat \<Rightarrow> int \<Rightarrow> bytes \<Rightarrow> attempt list \<Rightarrow>
    spool \<Rightarrow> (bytes list \<times> spool) option" where
  "send_round dpath rpath wpath ymd now buf_size header as sp =
     (case take_spool rpath wpath sp of
        None \<Rightarrow> None
      | Some (False, sp1) \<Rightarrow> Some ([], sp1)
      | Some (True, sp1) \<Rightarrow>
          (case fopen_r rpath (sp_fs sp1) of
             None \<Rightarrow> None
           | Some content \<Rightarrow>
               (case send_loop buf_size header content 0 as of
                  (SDone, bufs) \<Rightarrow>
                    (case backup_file dpath ymd rpath buf_size (sp_fs sp1) of
                       None \<Rightarrow> None
                     | Some (_, d2) \<Rightarrow>
                         (case qfile_remove rpath d2 of None \<Rightarrow> None | Some d3 \<Rightarrow> Some (bufs, sp1\<lparr>sp_fs := d3\<rparr>)))
                | (SThrow err, bufs) \<Rightarrow>
                    (case qfile_rename rpath (take 31 (rpath @ ''.'' @ dec_nat now)) (sp_fs sp1) of
                       None \<Rightarrow> None
                     | Some (_, d2) \<Rightarrow> Some (bufs, sp1\<lparr>sp_fs := d2\<rparr>))
                | (SWait, bufs) \<Rightarrow> None
                | (SWild, bufs) \<Rightarrow> None)))"


section \<open>Entries are written whole or not at all\<close>

lemma length_spool_entry [simp]: "length (spool_entry buf) = 20 + length buf"
  by (simp add: spool_entry_def)

lemma fget_cut_file: "fget d p = Some c \<Longrightarrow> fget (cut_file p n d) q = (if q = p then Some (take n c) else fget d q)"
  by (simp add: cut_file_def)

lemma fwrite_at_cases:
  assumes "fget d p = Some (c @ t)" and "length t = 0"
  obtains (full) "data \<noteq> []" "length data \<le> froom d"
      "fwrite_at p (length c) data d = (True, length data, fset p (c @ data) d)"
  | (short) k where "fwrite_at p (length c) data d = (False, k, fset p (c @ take k data) d)"
proof (cases "data \<noteq> [] \<and> length data \<le> froom d")
  case True
  then show thesis using fwrite_at_end [of d p c data] assms by (intro full) auto
next
  case False
  have "fwrite_at p (length c) data d = (False, min (length data) (froom d), fset p (c @ take (min (length data) (froom d)) data) d)"
    using False assms by (auto simp: fwrite_at_def overwrite_def Let_def min_def)
  then show thesis by (rule short)
qed

lemma write_data_file_atomic:
  assumes "fget d (path_of file) = Some c"
  shows "(\<exists>d'. write_data_file file buf (Some (length c)) d = Some (0, Some (length c + length (spool_entry buf)), d')
      \<and> fget d' = (fget d)(path_of file \<mapsto> c @ spool_entry buf))
    \<or> (\<exists>r d'. write_data_file file buf (Some (length c)) d = Some (r, Some (length c), d') \<and> r < 0 \<and> fget d' = fget d)"
proof -
  let ?p = "path_of file" and ?h = "baseHeader TCP_HEADER_VERSION (int (length buf))" and ?m = "le64 TCP_TAILER_FILE_MARK"
  have cut: "fget (cut_file ?p (length c) (fset ?p (c @ x) d')) = fget d" if "\<forall>q. q \<noteq> ?p \<longrightarrow> fget d' q = fget d q" for x d'
    using that assms by (auto simp: fget_cut_file [of _ _ "c @ x"] fun_eq_iff)
  have g: "fget d ?p = Some (c @ [])" using assms by simp
  show ?thesis
  proof (cases rule: fwrite_at_cases [OF g, of ?h, simplified])
    case 2
    then show ?thesis using cut [of d] by (auto simp: write_data_file_def Let_def)
  next
    case 1
    let ?d2 = "fset ?p (c @ ?h) d"
    have g2: "fget ?d2 ?p = Some ((c @ ?h) @ [])" by simp
    show ?thesis
    proof (cases rule: fwrite_at_cases [OF g2, of buf, simplified])
      case 2
      then show ?thesis using 1 cut [of ?d2] by (auto simp: write_data_file_def Let_def)
    next
      case full2: 1
      let ?d3 = "fset ?p (c @ ?h @ buf) ?d2"
      have g3: "fget ?d3 ?p = Some ((c @ ?h @ buf) @ [])" by simp
      show ?thesis
        using 1 full2 cut [of ?d3]
        by (cases rule: fwrite_at_cases [OF g3, of ?m, simplified])
          (auto simp: write_data_file_def Let_def spool_entry_def add.assoc fun_eq_iff)
    qed
  qed
qed



section \<open>Sending what was written\<close>

definition good_entry :: "int \<Rightarrow> bytes \<Rightarrow> bool" where
  "good_entry buf_size buf \<longleftrightarrow> buf \<noteq> [] \<and> int (length buf) \<le> buf_size \<and> length buf < 2 ^ 31"

lemma sub_buf_at: "sub_buf (length pre + k) n (pre @ xs) = sub_buf k n xs"
  by (simp add: sub_buf_def)

lemma entry_parts:
  assumes "good_entry buf_size buf"
  shows "sub_buf 0 12 (spool_entry buf @ post) = baseHeader TCP_HEADER_VERSION (int (length buf))"
    and "sub_buf 12 (length buf) (spool_entry buf @ post) = buf"
    and "sub_buf (12 + length buf) 8 (spool_entry buf @ post) = le64 TCP_TAILER_FILE_MARK"
    and "base_version (baseHeader TCP_HEADER_VERSION (int (length buf))) = TCP_HEADER_VERSION"
    and "base_length (baseHeader TCP_HEADER_VERSION (int (length buf))) = int (length buf)"
proof -
  have "is_int32 (int (length buf))" using assms by (simp add: good_entry_def is_int32_def)
  then show "base_length (baseHeader TCP_HEADER_VERSION (int (length buf))) = int (length buf)"
    using base_length_header [of _ _ "[]"] by simp
  show "base_version (baseHeader TCP_HEADER_VERSION (int (length buf))) = TCP_HEADER_VERSION"
    using base_version_header [of _ _ "[]"] by simp
qed (simp_all add: spool_entry_def sub_buf_def)

lemma send_loop_entry:
  assumes "good_entry buf_size buf"
  shows "send_loop buf_size header (pre @ spool_entry buf @ post) (length pre) as =
    (case send_until buf header as of
       None \<Rightarrow> (SWait, [])
     | Some as' \<Rightarrow> (case send_loop buf_size header (pre @ spool_entry buf @ post) (length pre + 20 + length buf) as' of
         (r, bufs) \<Rightarrow> (r, buf # bufs)))"
proof -
  let ?c = "pre @ spool_entry buf @ post"
  note e = entry_parts(1-3) [OF assms, of post] entry_parts(4,5) [OF assms]
  have s: "sub_buf (length pre) 12 ?c = baseHeader TCP_HEADER_VERSION (int (length buf))"
    "sub_buf (length pre + 12) (length buf) ?c = buf"
    "sub_buf (length pre + 12 + length buf) 8 ?c = le64 TCP_TAILER_FILE_MARK"
    using sub_buf_at [of pre 0 12] sub_buf_at [of pre 12] sub_buf_at [of pre "12 + length buf" 8] e
    by (simp_all add: add.assoc)
  have "bytes_word (le64 TCP_TAILER_FILE_MARK) = TCP_TAILER_FILE_MARK" by (rule bytes_word_bytes) simp
  moreover have "\<not> buf_size < int (length buf)" "buf \<noteq> []" "\<not> length ?c \<le> length pre"
    "length pre + 12 + length buf + 8 = length pre + 20 + length buf"
    using assms by (auto simp: good_entry_def)
  ultimately show ?thesis
    by (subst send_loop.simps) (simp only: s e Let_def length_baseHeader length_word_bytes nat_int if_False
        of_nat_less_0_iff of_nat_eq_0_iff length_0_conv less_irrefl simp_thms)
qed

definition accepting :: "attempt \<Rightarrow> bool" where
  "accepting a \<longleftrightarrow> at_settime a \<and> (\<exists>s n reserved cmd rest. at_connect a = Some s \<and> tx_healthy (stx s) \<and> length reserved = 14
     \<and> 0 < n \<and> is_int32 n \<and> rx_data (srx s) = replyHeader n reserved cmd 0 @ rest)"

lemma send_once_accepting:
  assumes "accepting a" and "buf \<noteq> []" and "length header = 32"
  shows "fst (send_once buf header a)"
proof -
  obtain s n reserved cmd rest where a: "at_connect a = Some s" "tx_healthy (stx s)" "length reserved = 14" "0 < n" "is_int32 n"
    "rx_data (srx s) = replyHeader n reserved cmd 0 @ rest" "at_settime a"
    using assms(1) unfolding accepting_def by blast
  obtain tx' where sd: "q_sendbuf buf (length buf) s = (0, s\<lparr>stx := tx', sout := sout s @ buf\<rparr>)"
    using q_sendbuf_healthy [OF a(2), of "length buf" buf] assms(2) by auto
  let ?s1 = "s\<lparr>stx := tx', sout := sout s @ buf\<rparr>" and ?r = "replyHeader n reserved cmd 0"
  have "take 32 (rx_data (srx ?s1)) = ?r" "32 \<le> length (rx_data (srx ?s1))" using a(3,6) by simp_all
  with q_recvbuf_ok [of 32 header ?s1] assms(3) obtain s2 where
    rv: "q_recvbuf 32 header ?s1 = (0, overwrite 0 ?r header, s2)" by auto
  have "overwrite 0 ?r header = ?r" using a(3) assms(3) by (simp add: overwrite_def)
  moreover have "sint (rd32 ?r 28) = 0"
    using a(3) by (simp add: replyHeader_def baseHeader_def rd32_def sub_buf_def int32_def)
  moreover have "base_version ?r = TCP_HEADER_VERSION" "base_length ?r = n"
    unfolding replyHeader_def using a(5) by simp_all
  ultimately show ?thesis using a sd rv by (simp add: send_once_def)
qed

lemma send_until_accepting:
  assumes "buf \<noteq> []" and "length header = 32"
  shows "Suc n \<le> length (filter accepting as) \<Longrightarrow>
    \<exists>as'. send_until buf header as = Some as' \<and> n \<le> length (filter accepting as')"
proof (induction as)
  case (Cons a as)
  then show ?case using send_once_accepting [OF _ assms, of a] by (cases "accepting a") auto
qed simp

lemma send_loop_entries:
  assumes "length header = 32" and "list_all (good_entry buf_size) bufs" and "length bufs \<le> length (filter accepting as)"
  shows "send_loop buf_size header (pre @ concat (map spool_entry bufs)) (length pre) as = (SDone, bufs)"
  using assms(2,3)
proof (induction bufs arbitrary: pre as)
  case Nil
  then show ?case by (subst send_loop.simps) simp
next
  case (Cons buf bufs)
  then have g: "good_entry buf_size buf" "buf \<noteq> []" by (auto simp: good_entry_def)
  obtain as' where as': "send_until buf header as = Some as'" "length bufs \<le> length (filter accepting as')"
    using send_until_accepting [OF g(2) assms(1), of "length bufs" as] Cons.prems(2) by auto
  have "send_loop buf_size header ((pre @ spool_entry buf) @ concat (map spool_entry bufs)) (length (pre @ spool_entry buf)) as'
      = (SDone, bufs)"
    by (rule Cons.IH) (use Cons.prems(1) as'(2) in simp_all)
  with send_loop_entry [OF g(1), of header pre "concat (map spool_entry bufs)" as] as'(1) show ?case
    by (simp add: add.assoc)
qed

text \<open>The backup receives the entries unchanged.\<close>

lemma entry_writes:
  assumes "fget d p = Some old" and "buf \<noteq> []" and "20 + length buf \<le> froom d"
  obtains d1 d2 d3 where
    "fwrite_at p (length old) (baseHeader TCP_HEADER_VERSION (int (length buf))) d = (True, 12, d1)"
    "fwrite_at p (length old + 12) buf d1 = (True, length buf, d2)"
    "fwrite_at p (length old + 12 + length buf) (le64 TCP_TAILER_FILE_MARK) d2 = (True, 8, d3)"
    "fget d3 = (fget d)(p \<mapsto> old @ spool_entry buf)" "froom d3 = froom d - (20 + length buf)" "fdirs d3 = fdirs d"
proof -
  let ?h = "baseHeader TCP_HEADER_VERSION (int (length buf))" and ?m = "le64 TCP_TAILER_FILE_MARK"
  let ?d1 = "fset p (old @ ?h) d"
  let ?d2 = "fset p ((old @ ?h) @ buf) ?d1"
  let ?d3 = "fset p (((old @ ?h) @ buf) @ ?m) ?d2"
  have room: "froom ?d1 = froom d - 12" "froom ?d2 = froom d - 12 - length buf" "froom ?d3 = froom d - (20 + length buf)"
    using assms(1) by (simp_all add: fset_def flen_def fget_def update_conv')
  have w1: "fwrite_at p (length old) ?h d = (True, 12, ?d1)"
  proof -
    have "?h \<noteq> []" using length_baseHeader [of TCP_HEADER_VERSION "int (length buf)"] by fastforce
    from fwrite_at_end [OF assms(1) this] assms(3) show ?thesis by simp
  qed
  have w2: "fwrite_at p (length old + 12) buf ?d1 = (True, length buf, ?d2)"
    using fwrite_at_end [of ?d1 p "old @ ?h" buf] assms(2,3) room(1) by simp
  have w3: "fwrite_at p (length old + 12 + length buf) ?m ?d2 = (True, 8, ?d3)"
  proof -
    have "?m \<noteq> []" using length_word_bytes [of 8 TCP_TAILER_FILE_MARK] by fastforce
    moreover have "length ?m \<le> froom ?d2" unfolding room(2) length_word_bytes using assms(3) by linarith
    ultimately show ?thesis using fwrite_at_end [of ?d2 p "(old @ ?h) @ buf" ?m] by (simp add: add.assoc)
  qed
  have "fget ?d3 = (fget d)(p \<mapsto> old @ spool_entry buf)" by (simp add: fget_fset_upd spool_entry_def)
  from that [OF w1 w2 w3 this room(3)] show thesis by simp
qed

lemma backup_loop_entry:
  assumes "good_entry buf_size buf" and "fget d p = Some old" and "20 + length buf \<le> froom d"
  shows "\<exists>d'. backup_loop buf_size (pre @ spool_entry buf @ post) (length pre) p (length old) d =
      backup_loop buf_size (pre @ spool_entry buf @ post) (length pre + 20 + length buf) p (length old + 20 + length buf) d'
    \<and> fget d' = (fget d)(p \<mapsto> old @ spool_entry buf) \<and> froom d' = froom d - (20 + length buf) \<and> fdirs d' = fdirs d"
proof -
  let ?c = "pre @ spool_entry buf @ post" and ?h = "baseHeader TCP_HEADER_VERSION (int (length buf))"
  let ?m = "le64 TCP_TAILER_FILE_MARK"
  note e = entry_parts(1-3) [OF assms(1), of post] entry_parts(5) [OF assms(1)]
  have s: "sub_buf (length pre) 12 ?c = ?h" "sub_buf (length pre + 12) (length buf) ?c = buf"
    "sub_buf (length pre + 12 + length buf) 8 ?c = ?m"
    using sub_buf_at [of pre 0 12] sub_buf_at [of pre 12] sub_buf_at [of pre "12 + length buf" 8] e
    by (simp_all add: add.assoc)
  have b: "buf \<noteq> []" "\<not> buf_size < int (length buf)" using assms(1) by (auto simp: good_entry_def)
  obtain d1 d2 d3 where w: "fwrite_at p (length old) ?h d = (True, 12, d1)"
    "fwrite_at p (length old + 12) buf d1 = (True, length buf, d2)"
    "fwrite_at p (length old + 12 + length buf) ?m d2 = (True, 8, d3)"
    and d3: "fget d3 = (fget d)(p \<mapsto> old @ spool_entry buf)" "froom d3 = froom d - (20 + length buf)" "fdirs d3 = fdirs d"
    using entry_writes [OF assms(2) b(1) assms(3)] by blast
  have "bytes_word ?m = TCP_TAILER_FILE_MARK" by (rule bytes_word_bytes) simp
  moreover have "\<not> length ?c \<le> length pre" "length pre + 12 + length buf + 8 = length pre + 20 + length buf"
    "length old + 12 + length buf + 8 = length old + 20 + length buf" by simp_all
  ultimately have "backup_loop buf_size ?c (length pre) p (length old) d =
      backup_loop buf_size ?c (length pre + 20 + length buf) p (length old + 20 + length buf) d3"
    by (subst backup_loop.simps) (simp only: s e b w Let_def length_baseHeader length_word_bytes nat_int if_False
        of_nat_less_0_iff of_nat_eq_0_iff length_0_conv less_irrefl simp_thms prod.case)
  with d3 show ?thesis by blast
qed

lemma write_data_file_room:
  assumes "fget d (path_of file) = Some c" and "buf \<noteq> []" and "20 + length buf \<le> froom d"
  shows "\<exists>d'. write_data_file file buf (Some (length c)) d = Some (0, Some (length c + length (spool_entry buf)), d')
    \<and> fget d' = (fget d)(path_of file \<mapsto> c @ spool_entry buf) \<and> froom d' = froom d - (20 + length buf) \<and> fdirs d' = fdirs d"
proof -
  obtain d1 d2 d3 where "fwrite_at (path_of file) (length c) (baseHeader TCP_HEADER_VERSION (int (length buf))) d = (True, 12, d1)"
    "fwrite_at (path_of file) (length c + 12) buf d1 = (True, length buf, d2)"
    "fwrite_at (path_of file) (length c + 12 + length buf) (le64 TCP_TAILER_FILE_MARK) d2 = (True, 8, d3)"
    "fget d3 = (fget d)(path_of file \<mapsto> c @ spool_entry buf)" "froom d3 = froom d - (20 + length buf)" "fdirs d3 = fdirs d"
    using entry_writes [OF assms] by blast
  then show ?thesis by (intro exI [of _ d3]) (simp add: write_data_file_def Let_def)
qed

lemma backup_loop_entries:
  assumes "list_all (good_entry buf_size) bufs" and "fget d p = Some old"
    and "length (concat (map spool_entry bufs)) \<le> froom d"
  shows "\<exists>d'. backup_loop buf_size (pre @ concat (map spool_entry bufs)) (length pre) p (length old) d = Some (0, d')
    \<and> fget d' = (fget d)(p \<mapsto> old @ concat (map spool_entry bufs)) \<and> fdirs d' = fdirs d"
  using assms
proof (induction bufs arbitrary: pre old d)
  case Nil
  then show ?case by (subst backup_loop.simps) (auto simp: fun_eq_iff)
next
  case (Cons buf bufs)
  let ?post = "concat (map spool_entry bufs)"
  have g: "good_entry buf_size buf" "20 + length buf \<le> froom d" using Cons.prems(1,3) by simp_all
  obtain d1 where d1: "backup_loop buf_size (pre @ spool_entry buf @ ?post) (length pre) p (length old) d =
      backup_loop buf_size (pre @ spool_entry buf @ ?post) (length pre + 20 + length buf) p (length old + 20 + length buf) d1"
    "fget d1 = (fget d)(p \<mapsto> old @ spool_entry buf)" "froom d1 = froom d - (20 + length buf)" "fdirs d1 = fdirs d"
    using backup_loop_entry [OF g(1) Cons.prems(2) g(2)] by blast
  have "\<exists>d'. backup_loop buf_size ((pre @ spool_entry buf) @ ?post) (length (pre @ spool_entry buf)) p
        (length (old @ spool_entry buf)) d1 = Some (0, d')
      \<and> fget d' = (fget d1)(p \<mapsto> (old @ spool_entry buf) @ ?post) \<and> fdirs d' = fdirs d1"
    by (rule Cons.IH) (use Cons.prems d1 in simp_all)
  then obtain d' where d': "backup_loop buf_size (pre @ spool_entry buf @ ?post) (length pre + 20 + length buf) p
        (length old + 20 + length buf) d1 = Some (0, d')"
      "fget d' = (fget d1)(p \<mapsto> (old @ spool_entry buf) @ ?post)" "fdirs d' = fdirs d1"
    by (auto simp: add.assoc)
  have "fget d' = (fget d)(p \<mapsto> old @ concat (map spool_entry (buf # bufs)))" unfolding d'(2) d1(2) by auto
  moreover have "backup_loop buf_size (pre @ concat (map spool_entry (buf # bufs))) (length pre) p (length old) d = Some (0, d')"
    using d1(1) d'(1) by simp
  moreover have "fdirs d' = fdirs d" using d'(3) d1(4) by simp
  ultimately show ?case by blast
qed


section \<open>From writing to sending\<close>

fun write_all :: "string \<Rightarrow> bytes list \<Rightarrow> nat option \<Rightarrow> fs \<Rightarrow> (int list \<times> nat option \<times> fs) option" where
  "write_all file [] fp d = Some ([], fp, d)"
| "write_all file (b # bs) fp d =
     (case write_data_file file b fp d of
        None \<Rightarrow> None
      | Some (r, fp', d') \<Rightarrow>
          (case write_all file bs fp' d' of None \<Rightarrow> None | Some (rs, fp2, d2) \<Rightarrow> Some (r # rs, fp2, d2)))"

text \<open>The packets whose write returned 0.\<close>

definition accepted :: "bytes list \<Rightarrow> int list \<Rightarrow> bytes list" where
  "accepted bs rs = map fst (filter (\<lambda>(b, r). r = 0) (zip bs rs))"

lemma accepted_simps [simp]:
  "accepted [] rs = []" "accepted (b # bs) (r # rs) = (if r = 0 then b # accepted bs rs else accepted bs rs)"
  by (simp_all add: accepted_def)

lemma write_all_content:
  assumes "fget d (path_of file) = Some c"
  shows "\<exists>rs d'. write_all file bs (Some (length c)) d = Some (rs, Some (length c + length (concat (map spool_entry (accepted bs rs)))), d')
    \<and> length rs = length bs \<and> fget d' = (fget d)(path_of file \<mapsto> c @ concat (map spool_entry (accepted bs rs)))"
  using assms
proof (induction bs arbitrary: c d)
  case Nil
  then show ?case by (auto simp: fun_eq_iff)
next
  case (Cons b bs)
  consider d1 where "write_data_file file b (Some (length c)) d = Some (0, Some (length c + length (spool_entry b)), d1)"
      "fget d1 = (fget d)(path_of file \<mapsto> c @ spool_entry b)"
    | r d1 where "write_data_file file b (Some (length c)) d = Some (r, Some (length c), d1)" "r < 0" "fget d1 = fget d"
    using write_data_file_atomic [OF Cons.prems, of b] by blast
  then show ?case
  proof cases
    case 1
    have "fget d1 (path_of file) = Some (c @ spool_entry b)" using 1(2) by simp
    from Cons.IH [OF this] obtain rs d' where
      "write_all file bs (Some (length (c @ spool_entry b))) d1 =
         Some (rs, Some (length (c @ spool_entry b) + length (concat (map spool_entry (accepted bs rs)))), d')"
      "length rs = length bs"
      "fget d' = (fget d1)(path_of file \<mapsto> (c @ spool_entry b) @ concat (map spool_entry (accepted bs rs)))" by blast
    with 1 show ?thesis by (intro exI [of _ "0 # rs"] exI [of _ d']) (auto simp: add.assoc fun_eq_iff)
  next
    case 2
    then have "fget d1 (path_of file) = Some c" using Cons.prems by simp
    from Cons.IH [OF this] obtain rs d' where
      "write_all file bs (Some (length c)) d1 = Some (rs, Some (length c + length (concat (map spool_entry (accepted bs rs)))), d')"
      "length rs = length bs" "fget d' = (fget d1)(path_of file \<mapsto> c @ concat (map spool_entry (accepted bs rs)))" by blast
    with 2 show ?thesis by (intro exI [of _ "r # rs"] exI [of _ d']) auto
  qed
qed

text \<open>
  The spool file \<open>w\<close>, the file \<open>r\<close> it is moved to, and the backup \<open>b\<close> are three files in existing
  directories, and no file waits under \<open>r\<close>.
\<close>

definition spool_paths :: "string \<Rightarrow> string \<Rightarrow> string \<Rightarrow> fs \<Rightarrow> bool" where
  "spool_paths w r b d \<longleftrightarrow> w \<noteq> [] \<and> distinct [path_of w, path_of r, path_of b] \<and> can_create r d \<and> can_create b d
     \<and> \<not> is_dir d (path_of w) \<and> fget d (path_of r) = None"

lemma take_spool_moves:
  assumes "spool_paths w r b d" and "fget d (path_of w) = Some c"
  shows "\<exists>d1. take_spool r w \<lparr>sp_fp = fp, sp_fs = d\<rparr> = Some (True, \<lparr>sp_fp = None, sp_fs = d1\<rparr>)
    \<and> fget d1 = (fget d)(path_of w := None, path_of r \<mapsto> c) \<and> fdirs d1 = fdirs d \<and> froom d1 = froom d"
proof -
  let ?d1 = "fset (path_of r) c (fdel (path_of w) d)"
  have p: "path_of r \<noteq> path_of w" "w \<noteq> []" "r \<noteq> []" "\<not> is_dir d (path_of r)" "is_dir d (parent (path_of r))"
    "fget d (path_of r) = None"
    using assms(1) by (auto simp: spool_paths_def can_create_def)
  have e: "qfile_exists w d" "\<not> qfile_exists r d"
    using p assms(2) by (simp_all add: qfile_exists_def sys_access_def fs_exists_def)
  then have "qfile_rename w r d = Some (True, ?d1)"
    using p assms(2) by (simp add: qfile_rename_def qfile_remove_def sys_rename_def)
  moreover have "froom ?d1 = froom d" using p assms(2) by (simp add: fset_def fdel_def flen_def fget_def delete_conv')
  ultimately show ?thesis using e by (simp add: take_spool_def fget_fset_upd fget_fdel_upd)
qed

lemma backup_file_appends:
  assumes "can_create (backup_name dp ymd) d" and "path_of (backup_name dp ymd) \<noteq> path_of r" and "r \<noteq> []"
    and "fget d (path_of r) = Some (concat (map spool_entry bufs))" and "list_all (good_entry buf_size) bufs"
    and "length (concat (map spool_entry bufs)) \<le> froom d" and "0 < buf_size"
  shows "\<exists>d'. backup_file dp ymd r buf_size d = Some (0, d') \<and> fget d' = (fget d)(path_of (backup_name dp ymd) \<mapsto>
      (case fget d (path_of (backup_name dp ymd)) of None \<Rightarrow> [] | Some old \<Rightarrow> old) @ concat (map spool_entry bufs))
    \<and> fdirs d' = fdirs d"
proof -
  let ?b = "path_of (backup_name dp ymd)" and ?c = "concat (map spool_entry bufs)"
  define old where "old = (case fget d ?b of None \<Rightarrow> [] | Some old \<Rightarrow> old)"
  define d1 where "d1 = (case fget d ?b of None \<Rightarrow> fset ?b [] d | Some _ \<Rightarrow> d)"
  have a: "fopen_a (backup_name dp ymd) d = Some (length old, d1)"
    using assms(1) by (auto simp: fopen_a_def old_def d1_def flen_def split: option.splits)
  have f: "fget d1 ?b = Some old" "fget d1 = (fget d)(?b \<mapsto> old)" "froom d1 = froom d"
    by (auto simp: d1_def old_def fset_def flen_def fun_eq_iff fget_def update_conv' split: option.splits)
  have r: "fget d1 (path_of r) = Some ?c" using f(2) assms(2,4) by simp
  have "fdirs d1 = fdirs d" by (simp add: d1_def split: option.splits)
  have "\<exists>d'. backup_loop buf_size ([] @ ?c) (length ([] :: bytes)) ?b (length old) d1 = Some (0, d')
      \<and> fget d' = (fget d1)(?b \<mapsto> old @ ?c) \<and> fdirs d' = fdirs d1"
    by (rule backup_loop_entries [OF assms(5) f(1)]) (use assms(6) f(3) in simp)
  then obtain d' where d': "backup_loop buf_size ?c 0 ?b (length old) d1 = Some (0, d')"
    "fget d' = (fget d1)(?b \<mapsto> old @ ?c)" "fdirs d' = fdirs d1" by auto
  have "backup_file dp ymd r buf_size d = Some (0, d')"
    using a r assms(3,4,7) d'(1) by (simp add: backup_file_def fopen_r_def)
  moreover have "fget d' = (fget d)(?b \<mapsto> old @ ?c)" unfolding d'(2) f(2) by simp
  ultimately show ?thesis using d'(3) \<open>fdirs d1 = fdirs d\<close> by (intro exI [of _ d']) (simp add: old_def)
qed


section \<open>Properties\<close>


lemma sub_buf_nth: "i < n \<Longrightarrow> off + n \<le> length xs \<Longrightarrow> sub_buf off n xs ! i = xs ! (off + i)"
  by (simp add: sub_buf_def)

lemma last_mark_0D:
  assumes "last_mark flag c = 0" and "length flag \<le> e" and "e \<le> length c" and "0 < e"
  shows "sub_buf (e - length flag) (length flag) c \<noteq> flag"
proof
  let ?S = "{e. length flag \<le> e \<and> e \<le> length c \<and> sub_buf (e - length flag) (length flag) c = flag}"
  assume "sub_buf (e - length flag) (length flag) c = flag"
  then have "e \<in> insert 0 ?S" using assms(2,3) by simp
  moreover have "finite (insert 0 ?S)" by (rule finite_subset [of _ "{..length c}"]) auto
  ultimately have "e \<le> last_mark flag c" unfolding last_mark_def by (rule Max_ge [rotated])
  with assms(1,4) show False by simp
qed

lemma last_mark_torn:
  assumes "last_mark (le64 TCP_TAILER_FILE_MARK) (take k (spool_entry buf)) = 0"
  shows "last_mark (le64 TCP_TAILER_FILE_MARK) (concat (map spool_entry bufs) @ take k (spool_entry buf)) =
    length (concat (map spool_entry bufs))"
proof (cases bufs rule: rev_cases)
  case Nil
  then show ?thesis using assms by simp
next
  case (snoc bs b)
  let ?m = "le64 TCP_TAILER_FILE_MARK" and ?C = "concat (map spool_entry bufs)" and ?t = "take k (spool_entry buf)"
  obtain C' where C: "?C = C' @ ?m" using snoc by (simp add: spool_entry_def)
  show ?thesis
  proof (rule last_mark_eqI)
    show "sub_buf (length ?C - length ?m) (length ?m) (?C @ ?t) = ?m" by (simp add: C sub_buf_def)
  next
    fix f assume f: "length ?C < f" "f \<le> length (?C @ ?t)"
    define j where "j = f - length ?C"
    have j: "f = length ?C + j" "0 < j" "j \<le> length ?t" using f by (auto simp: j_def)
    show "sub_buf (f - length ?m) (length ?m) (?C @ ?t) \<noteq> ?m"
    proof (cases "8 \<le> j")
      case True
      then have "sub_buf (f - 8) 8 (?C @ ?t) = sub_buf (j - 8) 8 ?t"
        using sub_buf_at [of ?C "j - 8" 8 ?t] j(1) by simp
      then show ?thesis using last_mark_0D [OF assms, of j] True j by simp
    next
      case False
      have "(?C @ ?t) ! length ?C = byte_of CHR ''Y''"
        using j(2,3) by (cases k) (auto simp: nth_append spool_entry_def baseHeader_def version_bytes bytes_of_def)
      moreover have "sub_buf (f - 8) 8 (?C @ ?t) ! (8 - j) = (?C @ ?t) ! length ?C"
      proof -
        have "f - 8 + (8 - j) = length ?C" "f - 8 + 8 \<le> length (?C @ ?t)" using False j by (simp_all add: C)
        then show ?thesis using sub_buf_nth [of "8 - j" 8 "f - 8" "?C @ ?t"] j(2) by simp
      qed
      moreover have "?m ! (8 - j) \<noteq> byte_of CHR ''Y''"
      proof -
        have "8 - j < length ?m" using j(2) by simp
        then have "?m ! (8 - j) \<in> set ?m" by (rule nth_mem)
        then show ?thesis unfolding mark_bytes by (auto simp: bytes_of_def byte_of_def)
      qed
      ultimately show ?thesis by (metis length_word_bytes)
    qed
  qed (simp_all add: C)
qed

lemma open_spool_small:
  assumes "fopen_r w d = Some c" and "length c \<le> 1048576"
  shows "\<exists>d'. open_spool w d = (TCP_OK, Some (length (take (last_mark (le64 TCP_TAILER_FILE_MARK) c) c)), d')
    \<and> fopen_r w d' = Some (take (last_mark (le64 TCP_TAILER_FILE_MARK) c) c)"
proof -
  let ?m = "le64 TCP_TAILER_FILE_MARK"
  have g: "w \<noteq> []" "fget d (path_of w) = Some c" using assms(1) by (auto simp: fopen_r_def split: if_splits)
  then have a: "sys_access w d = 0" "sys_stat_size w d = Some (length c)"
    by (auto simp: sys_access_def fs_exists_def sys_stat_size_def flen_def)
  show ?thesis
  proof (cases "c = []")
    case True
    then show ?thesis using a assms(1) by (simp add: open_spool_def q_repair_file_def)
  next
    case False
    have "q_repair_file w ?m d = (0, fset (path_of w) (take (last_mark ?m c) c) d)"
      using False a assms(1) repair_loop_small [OF _ False assms(2), of ?m] by (simp add: q_repair_file_def)
    then show ?thesis using a(1) g(1) by (simp add: open_spool_def fopen_r_def del: length_take)
  qed
qed



subsection \<open>Samples\<close>

definition demo_attempt :: attempt where
  "demo_attempt = \<lparr>at_connect = Some \<lparr>srx = [RxData (replyHeader 20 (replicate 14 0) 1 0)], stx = [], sout = [], sopen = True\<rparr>,
     at_settime = True\<rparr>"

lemma demo_attempt_accepting: "accepting demo_attempt"
proof -
  let ?s = "\<lparr>srx = [RxData (replyHeader 20 (replicate 14 0) 1 0)], stx = [], sout = [], sopen = True\<rparr>"
  have "at_connect demo_attempt = Some ?s \<and> tx_healthy (stx ?s) \<and> length (replicate 14 (0 :: byte)) = 14 \<and> (0 :: int) < 20
      \<and> is_int32 20 \<and> rx_data (srx ?s) = replyHeader 20 (replicate 14 0) 1 0 @ []"
    by (simp add: demo_attempt_def tx_healthy_def is_int32_def)
  moreover have "at_settime demo_attempt" by (simp add: demo_attempt_def)
  ultimately show ?thesis unfolding accepting_def by blast
qed

definition demo_spool :: fs where
  "demo_spool = fset (False, [''w'']) (spool_entry [1]) (empty_fs 1000)"



end
