(* ===== verification/Array_Base.thy ===== *)
theory Array_Base
  imports Idfs_Prelude "HOL-Library.Monad_Syntax"
begin

text \<open>
  Arrays of the algorithm library (\<open>include/common/qalgorithm.h\<close>). The library indexes plain C
  arrays with \<open>int32_t\<close> positions. An array is the list of its elements; reading or writing outside
  it, and an \<open>int32_t\<close> sum that leaves the range of the type, are undefined behaviour, which is the
  value \<^term>\<open>None\<close>. The theory gives the accesses, the exchange of two elements, and the two notions the
  sorting theorems are stated with: an array obtained from another by exchanges inside a range
  (\<open>swaps\<close>), and an array sorted on a range (\<open>sorted_on\<close>).
\<close>

section \<open>Access by position\<close>

definition in_array :: "'a list \<Rightarrow> int \<Rightarrow> bool" where
  "in_array v i \<longleftrightarrow> 0 \<le> i \<and> i < int (length v)"

definition at :: "'a list \<Rightarrow> int \<Rightarrow> 'a" where
  "at v i = v ! nat i"

definition aget :: "'a list \<Rightarrow> int \<Rightarrow> 'a option" where
  "aget v i = (if in_array v i then Some (at v i) else None)"

definition aset :: "'a list \<Rightarrow> int \<Rightarrow> 'a \<Rightarrow> 'a list option" where
  "aset v i x = (if in_array v i then Some (v[nat i := x]) else None)"

text \<open>The three statements \<open>tTmp=v[i]; v[i]=v[j]; v[j]=tTmp\<close>.\<close>

definition exchange :: "'a list \<Rightarrow> int \<Rightarrow> int \<Rightarrow> 'a list option" where
  "exchange v i j = do {
     tmp \<leftarrow> aget v i;
     x \<leftarrow> aget v j;
     v1 \<leftarrow> aset v i x;
     aset v1 j tmp }"

definition swapped :: "'a list \<Rightarrow> int \<Rightarrow> int \<Rightarrow> 'a list" where
  "swapped v i j = v[nat i := at v j, nat j := at v i]"

text \<open>The middle \<open>(lBegin+lEnd)>>1\<close> of a range: the sum is an \<open>int32_t\<close>.\<close>

definition half_sum :: "int \<Rightarrow> int \<Rightarrow> int option" where
  "half_sum b e = (if is_int32 (b + e) then Some ((b + e) div 2) else None)"

text \<open>C's integer division by a positive number rounds towards zero.\<close>

definition c_div :: "int \<Rightarrow> int \<Rightarrow> int" where
  "c_div a n = (if a \<ge> 0 then a div n else - ((- a) div n))"

definition half_quot :: "int \<Rightarrow> int \<Rightarrow> int option" where
  "half_quot b e = (if is_int32 (b + e) then Some (c_div (b + e) 2) else None)"

lemma aget_in [simp]: "in_array v i \<Longrightarrow> aget v i = Some (at v i)"
  by (simp add: aget_def)

lemma aset_in [simp]: "in_array v i \<Longrightarrow> aset v i x = Some (v[nat i := x])"
  by (simp add: aset_def)

lemma in_array_update [simp]: "in_array (v[k := x]) i = in_array v i"
  by (simp add: in_array_def)

lemma in_array_swapped [simp]: "in_array (swapped v i j) k = in_array v k"
  by (simp add: swapped_def)

lemma length_swapped [simp]: "length (swapped v i j) = length v"
  by (simp add: swapped_def)

lemma exchange_in [simp]: "in_array v i \<Longrightarrow> in_array v j \<Longrightarrow> exchange v i j = Some (swapped v i j)"
  by (simp add: exchange_def swapped_def)

lemma at_update:
  "in_array v i \<Longrightarrow> 0 \<le> k \<Longrightarrow> at (v[nat i := x]) k = (if k = i then x else at v k)"
  by (auto simp: at_def in_array_def nth_list_update)

lemma at_swapped:
  "in_array v i \<Longrightarrow> in_array v j \<Longrightarrow> 0 \<le> k \<Longrightarrow>
    at (swapped v i j) k = (if k = j then at v i else if k = i then at v j else at v k)"
  by (auto simp: swapped_def at_def in_array_def nth_list_update)

lemma swapped_commute: "0 \<le> i \<Longrightarrow> 0 \<le> j \<Longrightarrow> swapped v i j = swapped v j i"
  by (cases "i = j") (auto simp: swapped_def intro: list_update_swap)

lemma mset_swapped [simp]: "in_array v i \<Longrightarrow> in_array v j \<Longrightarrow> mset (swapped v i j) = mset v"
  by (simp add: swapped_def at_def in_array_def mset_swap nat_less_iff)

lemma in_array_between: "in_array v b \<Longrightarrow> in_array v e \<Longrightarrow> b \<le> i \<Longrightarrow> i \<le> e \<Longrightarrow> in_array v i"
  by (simp add: in_array_def)


section \<open>Exchanges inside a range\<close>

inductive swaps :: "int \<Rightarrow> int \<Rightarrow> 'a list \<Rightarrow> 'a list \<Rightarrow> bool" for b e where
  swaps_none [intro!, simp]: "swaps b e v v"
| swaps_step: "swaps b e v w \<Longrightarrow> b \<le> i \<Longrightarrow> i \<le> e \<Longrightarrow> b \<le> j \<Longrightarrow> j \<le> e \<Longrightarrow> in_array w i \<Longrightarrow>
    in_array w j \<Longrightarrow> swaps b e v (swapped w i j)"

lemma swaps_one:
  "in_array v i \<Longrightarrow> in_array v j \<Longrightarrow> b \<le> i \<Longrightarrow> i \<le> e \<Longrightarrow> b \<le> j \<Longrightarrow> j \<le> e \<Longrightarrow> swaps b e v (swapped v i j)"
  using swaps_step [OF swaps_none] by blast

lemma swaps_trans: "swaps b e v w \<Longrightarrow> swaps b e u v \<Longrightarrow> swaps b e u w"
  by (induction rule: swaps.induct) (auto intro: swaps_step)

lemma swaps_mono: "swaps b e v w \<Longrightarrow> b' \<le> b \<Longrightarrow> e \<le> e' \<Longrightarrow> swaps b' e' v w"
  by (induction rule: swaps.induct) (auto intro: swaps_step)

lemma swaps_length: "swaps b e v w \<Longrightarrow> length w = length v"
  by (induction rule: swaps.induct) auto

lemma swaps_in_array: "swaps b e v w \<Longrightarrow> in_array w i = in_array v i"
  by (simp add: in_array_def swaps_length)

lemma swaps_mset: "swaps b e v w \<Longrightarrow> mset w = mset v"
  by (induction rule: swaps.induct) auto

lemma swaps_outside: "swaps b e v w \<Longrightarrow> 0 \<le> k \<Longrightarrow> k < b \<or> e < k \<Longrightarrow> at w k = at v k"
  by (induction rule: swaps.induct) (auto simp: at_swapped)

lemma swaps_single: "swaps b b v w \<Longrightarrow> 0 \<le> b \<Longrightarrow> at w b = at v b"
  by (induction rule: swaps.induct) (auto simp: at_swapped)

lemma swaps_all:
  assumes "swaps b e v w" and "\<forall>k. b \<le> k \<and> k \<le> e \<and> 0 \<le> k \<longrightarrow> P (at v k)"
  shows "\<forall>k. b \<le> k \<and> k \<le> e \<and> 0 \<le> k \<longrightarrow> P (at w k)"
  using assms by (induction rule: swaps.induct) (auto simp: at_swapped in_array_def)


section \<open>Sorted ranges\<close>

definition sorted_on :: "('a \<Rightarrow> 'a \<Rightarrow> bool) \<Rightarrow> int \<Rightarrow> int \<Rightarrow> 'a list \<Rightarrow> bool" where
  "sorted_on le b e v \<longleftrightarrow> (\<forall>i j. b \<le> i \<and> i < j \<and> j \<le> e \<longrightarrow> le (at v i) (at v j))"

lemma sorted_onD: "sorted_on le b e v \<Longrightarrow> b \<le> i \<Longrightarrow> i < j \<Longrightarrow> j \<le> e \<Longrightarrow> le (at v i) (at v j)"
  by (auto simp: sorted_on_def)

lemma sorted_on_single [simp]: "e \<le> b \<Longrightarrow> sorted_on le b e v"
  by (auto simp: sorted_on_def)

lemma sorted_on_cong:
  "(\<And>k. b \<le> k \<Longrightarrow> k \<le> e \<Longrightarrow> at v k = at w k) \<Longrightarrow> sorted_on le b e v = sorted_on le b e w"
  by (auto simp: sorted_on_def)

lemma sorted_on_whole:
  fixes v :: "'a::linorder list"
  assumes "sorted_on (\<le>) 0 (int (length v) - 1) v"
  shows "sorted v"
  unfolding sorted_iff_nth_mono_less
proof (intro allI impI)
  fix i j assume "i < j" "j < length v"
  then show "v ! i \<le> v ! j" using sorted_onD [OF assms, of "int i" "int j"] by (simp add: at_def)
qed

end
