(* ===== verification/Row_Sort.thy ===== *)
theory Row_Sort
  imports Array_Base
begin

text \<open>
  The multi-key quicksorts of \<open>include/common/qalgorithm.h\<close>. The file holds one recursive
  (\<open>Q_Recursion_*\<close>) and one stack-driven (\<open>Q_Unrecursion_*\<close>) routine for every combination of one
  to three key arrays and up to three payload arrays that the exchanges carry along. All of them have the same
  text but for the comparison and the arrays that are exchanged; \<open>sort_rows\<close> is that difference,
  and \<open>q_recursion\<close> and \<open>q_unrecursion\<close> are the common text. Each routine is then its own
  definition over its own arrays.

  The recursion is not structural and ends only because a comparison of an element with itself
  says that the two are equal, so it is a \<open>partial_function\<close> whose value \<^term>\<open>None\<close> also stands for not
  returning. The locale \<open>row_sort\<close> collects what a routine's arrays and comparison must satisfy;
  inside it the recursive routine is proved to return with the range sorted by exchanges of whole
  rows, and the stack-driven one to compute the same arrays whenever the range has at most 513
  elements, the number for which the fixed stack of 1024 integers is enough.
\<close>

section \<open>Comparison functions\<close>

definition Compare_1K :: "'a::linorder \<Rightarrow> 'a \<Rightarrow> int" where
  "Compare_1K key_1_1 key_1_2 = (if key_1_1 > key_1_2 then 1 else if key_1_1 < key_1_2 then -1 else 0)"

definition Compare_1K_Ascending :: "'a::linorder \<Rightarrow> 'a \<Rightarrow> int" where
  "Compare_1K_Ascending key_1_1 key_1_2 =
     (if key_1_1 > key_1_2 then 1 else if key_1_1 < key_1_2 then -1 else 0)"

definition Compare_1K_Descending :: "'a::linorder \<Rightarrow> 'a \<Rightarrow> int" where
  "Compare_1K_Descending key_1_1 key_1_2 =
     (if key_1_1 > key_1_2 then -1 else if key_1_1 < key_1_2 then 1 else 0)"

definition Compare_1K_Ascending_S :: "'a::linorder \<Rightarrow> 'a \<Rightarrow> int \<Rightarrow> int \<Rightarrow> int" where
  "Compare_1K_Ascending_S key_1_1 key_1_2 pos_1 pos_2 =
     (if key_1_1 > key_1_2 then 1 else if key_1_1 < key_1_2 then -1
      else if pos_1 > pos_2 then 1 else if pos_1 < pos_2 then -1 else 0)"

definition Compare_1K_Descending_S :: "'a::linorder \<Rightarrow> 'a \<Rightarrow> int \<Rightarrow> int \<Rightarrow> int" where
  "Compare_1K_Descending_S key_1_1 key_1_2 pos_1 pos_2 =
     (if key_1_1 > key_1_2 then -1 else if key_1_1 < key_1_2 then 1
      else if pos_1 > pos_2 then 1 else if pos_1 < pos_2 then -1 else 0)"

definition Compare_2K :: "'a::linorder \<Rightarrow> 'a \<Rightarrow> 'b::linorder \<Rightarrow> 'b \<Rightarrow> int" where
  "Compare_2K key_1_1 key_1_2 key_2_1 key_2_2 =
     (if key_1_1 > key_1_2 then 1 else if key_1_1 < key_1_2 then -1
      else if key_2_1 > key_2_2 then -1 else if key_2_1 < key_2_2 then -1 else 0)"

definition Compare_3K :: "'a::linorder \<Rightarrow> 'a \<Rightarrow> 'b::linorder \<Rightarrow> 'b \<Rightarrow> 'c::linorder \<Rightarrow> 'c \<Rightarrow> int" where
  "Compare_3K key_1_1 key_1_2 key_2_1 key_2_2 key_3_1 key_3_2 =
     (if key_1_1 > key_1_2 then 1 else if key_1_1 < key_1_2 then -1
      else if key_2_1 > key_2_2 then -1 else if key_2_1 < key_2_2 then -1
      else if key_3_1 > key_3_2 then 1 else if key_3_1 < key_3_2 then -1 else 0)"


section \<open>The common text of the routines\<close>

text \<open>
  What a routine reads of the row at a position, how it exchanges two rows, and its two tests,
  each of which sees the two keys and their positions.
\<close>

record ('s, 'k) sort_rows =
  key_at :: "'s \<Rightarrow> int \<Rightarrow> 'k option"
  row_swap :: "'s \<Rightarrow> int \<Rightarrow> int \<Rightarrow> 's option"
  key_lt :: "'k \<Rightarrow> 'k \<Rightarrow> int \<Rightarrow> int \<Rightarrow> bool"
  key_gt :: "'k \<Rightarrow> 'k \<Rightarrow> int \<Rightarrow> int \<Rightarrow> bool"

text \<open>\<open>while(lBegin<lEnd&&tKey[lBegin]<tMid) lBegin++;\<close>\<close>

function scan_up :: "('s, 'k) sort_rows \<Rightarrow> 's \<Rightarrow> 'k \<Rightarrow> int \<Rightarrow> int \<Rightarrow> int \<Rightarrow> int option" where
  "scan_up R s tMid lMid lBegin lEnd =
     (if lBegin < lEnd then do {
        x \<leftarrow> key_at R s lBegin;
        if key_lt R x tMid lBegin lMid then scan_up R s tMid lMid (lBegin + 1) lEnd else Some lBegin }
      else Some lBegin)"
  by pat_completeness auto
termination by (relation "measure (\<lambda>(R, s, tMid, lMid, lBegin, lEnd). nat (lEnd - lBegin))") auto

text \<open>\<open>while(lBegin<lEnd&&tKey[lEnd]>tMid) lEnd--;\<close>\<close>

function scan_down :: "('s, 'k) sort_rows \<Rightarrow> 's \<Rightarrow> 'k \<Rightarrow> int \<Rightarrow> int \<Rightarrow> int \<Rightarrow> int option" where
  "scan_down R s tMid lMid lBegin lEnd =
     (if lBegin < lEnd then do {
        x \<leftarrow> key_at R s lEnd;
        if key_gt R x tMid lEnd lMid then scan_down R s tMid lMid lBegin (lEnd - 1) else Some lEnd }
      else Some lEnd)"
  by pat_completeness auto
termination by (relation "measure (\<lambda>(R, s, tMid, lMid, lBegin, lEnd). nat (lEnd - lBegin))") auto

text \<open>The loop \<open>while(lBegin<lEnd)\<close> that splits a range around the key \<open>tMid\<close>.\<close>

partial_function (option) split_loop ::
  "('s, 'k) sort_rows \<Rightarrow> 'k \<Rightarrow> int \<Rightarrow> 's \<Rightarrow> int \<Rightarrow> int \<Rightarrow> ('s \<times> int \<times> int) option" where
  "split_loop R tMid lMid s lBegin lEnd =
     (if lBegin < lEnd then do {
        b \<leftarrow> scan_up R s tMid lMid lBegin lEnd;
        e \<leftarrow> scan_down R s tMid lMid b lEnd;
        if b < e then do {
          s1 \<leftarrow> row_swap R s b e;
          if b + 1 < e then split_loop R tMid lMid s1 (b + 1) (e - 1)
          else split_loop R tMid lMid s1 (b + 1) e }
        else split_loop R tMid lMid s b e }
      else Some (s, lBegin, lEnd))"

text \<open>A range of two rows.\<close>

definition order_pair :: "('s, 'k) sort_rows \<Rightarrow> 's \<Rightarrow> int \<Rightarrow> int \<Rightarrow> 's option" where
  "order_pair R s lBegin lEnd = do {
     x \<leftarrow> key_at R s lBegin;
     y \<leftarrow> key_at R s lEnd;
     if key_gt R x y lBegin lEnd then row_swap R s lBegin lEnd else Some s }"

text \<open>
  From the choice of the middle key to \<open>if(tKey[lBegin]<tMid) lBegin++\<close>: the new state and the
  final \<open>lBegin\<close> and \<open>lEnd\<close>.
\<close>

definition split_range :: "('s, 'k) sort_rows \<Rightarrow> 's \<Rightarrow> int \<Rightarrow> int \<Rightarrow> ('s \<times> int \<times> int) option" where
  "split_range R s m n = do {
     lMid \<leftarrow> half_sum m n;
     tMid \<leftarrow> key_at R s lMid;
     (s1, b, e) \<leftarrow> split_loop R tMid lMid s m n;
     x \<leftarrow> key_at R s1 b;
     Some (s1, (if key_lt R x tMid b lMid then b + 1 else b), e) }"

partial_function (option) q_recursion :: "('s, 'k) sort_rows \<Rightarrow> int \<Rightarrow> int \<Rightarrow> 's \<Rightarrow> 's option" where
  "q_recursion R lBegin lEnd s =
     (if lBegin \<ge> lEnd then Some s
      else if lBegin + 1 = lEnd then order_pair R s lBegin lEnd
      else do {
        (s1, b, e) \<leftarrow> split_range R s lBegin lEnd;
        s2 \<leftarrow> (if b - 1 > lBegin then q_recursion R lBegin (b - 1) s1 else Some s1);
        if e < lEnd then q_recursion R e lEnd s2 else Some s2 })"

text \<open>\<open>int32_t stack_buf[1<<10]\<close>: two pushes, of which none may leave the buffer.\<close>

definition stack_push2 :: "int list \<Rightarrow> int \<Rightarrow> int \<Rightarrow> int list option" where
  "stack_push2 stack b e = (if length stack + 2 \<le> 1024 then Some (e # b # stack) else None)"

partial_function (option) unrecursion_loop :: "('s, 'k) sort_rows \<Rightarrow> int list \<Rightarrow> 's \<Rightarrow> 's option" where
  "unrecursion_loop R stack s =
     (case stack of
        lEnd # lBegin # rest \<Rightarrow>
          if lBegin \<ge> lEnd then unrecursion_loop R rest s
          else if lBegin + 1 = lEnd then do {
            s1 \<leftarrow> order_pair R s lBegin lEnd;
            unrecursion_loop R rest s1 }
          else do {
            (s1, b, e) \<leftarrow> split_range R s lBegin lEnd;
            st1 \<leftarrow> (if e < lEnd then stack_push2 rest e lEnd else Some rest);
            st2 \<leftarrow> (if b - 1 > lBegin then stack_push2 st1 lBegin (b - 1) else Some st1);
            unrecursion_loop R st2 s1 }
      | _ \<Rightarrow> Some s)"

definition q_unrecursion :: "('s, 'k) sort_rows \<Rightarrow> int \<Rightarrow> int \<Rightarrow> 's \<Rightarrow> 's option" where
  "q_unrecursion R lBegin lEnd s = do {
     stack \<leftarrow> stack_push2 [] lBegin lEnd;
     unrecursion_loop R stack s }"

declare scan_up.simps [simp del] scan_down.simps [simp del]
declare split_loop.simps [code] q_recursion.simps [code] unrecursion_loop.simps [code]


section \<open>The routines\<close>

text \<open>The arrays a routine exchanges: one to five of them, all at the same two positions.\<close>

definition exchange2 :: "'a list \<times> 'b list \<Rightarrow> int \<Rightarrow> int \<Rightarrow> ('a list \<times> 'b list) option" where
  "exchange2 = (\<lambda>(k1, k2) i j. do { k1' \<leftarrow> exchange k1 i j; k2' \<leftarrow> exchange k2 i j; Some (k1', k2') })"

definition exchange3 ::
  "'a list \<times> 'b list \<times> 'c list \<Rightarrow> int \<Rightarrow> int \<Rightarrow> ('a list \<times> 'b list \<times> 'c list) option" where
  "exchange3 = (\<lambda>(k1, r) i j. do { k1' \<leftarrow> exchange k1 i j; r' \<leftarrow> exchange2 r i j; Some (k1', r') })"

definition exchange4 ::
  "'a list \<times> 'b list \<times> 'c list \<times> 'd list \<Rightarrow> int \<Rightarrow> int \<Rightarrow> ('a list \<times> 'b list \<times> 'c list \<times> 'd list) option" where
  "exchange4 = (\<lambda>(k1, r) i j. do { k1' \<leftarrow> exchange k1 i j; r' \<leftarrow> exchange3 r i j; Some (k1', r') })"

definition exchange5 ::
  "'a list \<times> 'b list \<times> 'c list \<times> 'd list \<times> 'e list \<Rightarrow> int \<Rightarrow> int \<Rightarrow>
    ('a list \<times> 'b list \<times> 'c list \<times> 'd list \<times> 'e list) option" where
  "exchange5 = (\<lambda>(k1, r) i j. do { k1' \<leftarrow> exchange k1 i j; r' \<leftarrow> exchange4 r i j; Some (k1', r') })"

text \<open>The keys: the element of the first array, of the first two, of the first three.\<close>

definition key2_at :: "'a list \<Rightarrow> 'b list \<Rightarrow> int \<Rightarrow> ('a \<times> 'b) option" where
  "key2_at k1 k2 i = do { x \<leftarrow> aget k1 i; y \<leftarrow> aget k2 i; Some (x, y) }"

definition key3_at :: "'a list \<Rightarrow> 'b list \<Rightarrow> 'c list \<Rightarrow> int \<Rightarrow> ('a \<times> 'b \<times> 'c) option" where
  "key3_at k1 k2 k3 i = do { x \<leftarrow> aget k1 i; y \<leftarrow> key2_at k2 k3 i; Some (x, y) }"

definition rows_1K :: "('s \<Rightarrow> 'a list) \<Rightarrow> ('s \<Rightarrow> int \<Rightarrow> int \<Rightarrow> 's option) \<Rightarrow> ('s, 'a::linorder) sort_rows" where
  "rows_1K keys swp = \<lparr> key_at = (\<lambda>s. aget (keys s)), row_swap = swp,
     key_lt = (\<lambda>x y _ _. x < y), key_gt = (\<lambda>x y _ _. x > y) \<rparr>"

definition rows_cmp :: "('a \<Rightarrow> 'a \<Rightarrow> int \<Rightarrow> int \<Rightarrow> int) \<Rightarrow> ('a list, 'a) sort_rows" where
  "rows_cmp Compare_Key = \<lparr> key_at = aget, row_swap = exchange,
     key_lt = (\<lambda>x y i j. Compare_Key x y i j < 0), key_gt = (\<lambda>x y i j. Compare_Key x y i j > 0) \<rparr>"

definition rows_2K ::
  "('s \<Rightarrow> 'a list) \<Rightarrow> ('s \<Rightarrow> 'b list) \<Rightarrow> ('s \<Rightarrow> int \<Rightarrow> int \<Rightarrow> 's option) \<Rightarrow> ('s, 'a::linorder \<times> 'b::linorder) sort_rows" where
  "rows_2K keys1 keys2 swp = \<lparr> key_at = (\<lambda>s. key2_at (keys1 s) (keys2 s)), row_swap = swp,
     key_lt = (\<lambda>(x1, x2) (y1, y2) _ _. Compare_2K x1 y1 x2 y2 < 0),
     key_gt = (\<lambda>(x1, x2) (y1, y2) _ _. Compare_2K x1 y1 x2 y2 > 0) \<rparr>"

definition rows_3K ::
  "('s \<Rightarrow> 'a list) \<Rightarrow> ('s \<Rightarrow> 'b list) \<Rightarrow> ('s \<Rightarrow> 'c list) \<Rightarrow> ('s \<Rightarrow> int \<Rightarrow> int \<Rightarrow> 's option) \<Rightarrow>
    ('s, 'a::linorder \<times> 'b::linorder \<times> 'c::linorder) sort_rows" where
  "rows_3K keys1 keys2 keys3 swp = \<lparr> key_at = (\<lambda>s. key3_at (keys1 s) (keys2 s) (keys3 s)), row_swap = swp,
     key_lt = (\<lambda>(x1, x2, x3) (y1, y2, y3) _ _. Compare_3K x1 y1 x2 y2 x3 y3 < 0),
     key_gt = (\<lambda>(x1, x2, x3) (y1, y2, y3) _ _. Compare_3K x1 y1 x2 y2 x3 y3 > 0) \<rparr>"

definition Q_Recursion_1K ::
  "int \<Rightarrow> int \<Rightarrow> 'a::linorder list \<Rightarrow> 'a list option" where
  "Q_Recursion_1K lBegin lEnd tKey_1 =
     q_recursion (rows_1K (\<lambda>k. k) exchange) lBegin lEnd tKey_1"

definition Q_Unrecursion_1K ::
  "int \<Rightarrow> int \<Rightarrow> 'a::linorder list \<Rightarrow> 'a list option" where
  "Q_Unrecursion_1K lBegin lEnd tKey_1 =
     q_unrecursion (rows_1K (\<lambda>k. k) exchange) lBegin lEnd tKey_1"

definition Q_Recursion_1K_Custom ::
  "int \<Rightarrow> int \<Rightarrow> 'a list \<Rightarrow> ('a \<Rightarrow> 'a \<Rightarrow> int) \<Rightarrow> 'a list option" where
  "Q_Recursion_1K_Custom lBegin lEnd tKey_1 Compare_Key =
     q_recursion (rows_cmp (\<lambda>x y _ _. Compare_Key x y)) lBegin lEnd tKey_1"

definition Q_Unrecursion_1K_Custom ::
  "int \<Rightarrow> int \<Rightarrow> 'a list \<Rightarrow> ('a \<Rightarrow> 'a \<Rightarrow> int) \<Rightarrow> 'a list option" where
  "Q_Unrecursion_1K_Custom lBegin lEnd tKey_1 Compare_Key =
     q_unrecursion (rows_cmp (\<lambda>x y _ _. Compare_Key x y)) lBegin lEnd tKey_1"

text \<open>
  \<open>Q_Recursion_1K_Custom_S\<close> hands its four-argument comparison on to \<open>Q_Recursion_1K_Custom\<close>, which takes
  one of two arguments, so that no instance of it compiles; the stack-driven variant does.
\<close>

definition Q_Unrecursion_1K_Custom_S ::
  "int \<Rightarrow> int \<Rightarrow> 'a list \<Rightarrow> ('a \<Rightarrow> 'a \<Rightarrow> int \<Rightarrow> int \<Rightarrow> int) \<Rightarrow> 'a list option" where
  "Q_Unrecursion_1K_Custom_S lBegin lEnd tKey_1 Compare_Key =
     q_unrecursion (rows_cmp Compare_Key) lBegin lEnd tKey_1"

definition Q_Recursion_1K_1P ::
  "int \<Rightarrow> int \<Rightarrow> 'a::linorder list \<Rightarrow> 'b list \<Rightarrow> ('a list \<times> 'b list) option" where
  "Q_Recursion_1K_1P lBegin lEnd tKey_1 tKey_2 =
     q_recursion (rows_1K fst exchange2) lBegin lEnd (tKey_1, tKey_2)"

definition Q_Unrecursion_1K_1P ::
  "int \<Rightarrow> int \<Rightarrow> 'a::linorder list \<Rightarrow> 'b list \<Rightarrow> ('a list \<times> 'b list) option" where
  "Q_Unrecursion_1K_1P lBegin lEnd tKey_1 tKey_2 =
     q_unrecursion (rows_1K fst exchange2) lBegin lEnd (tKey_1, tKey_2)"

definition Q_Recursion_1K_2P ::
  "int \<Rightarrow> int \<Rightarrow> 'a::linorder list \<Rightarrow> 'b list \<Rightarrow> 'c list \<Rightarrow> ('a list \<times> 'b list \<times> 'c list) option" where
  "Q_Recursion_1K_2P lBegin lEnd tKey_1 tKey_2 tKey_3 =
     q_recursion (rows_1K fst exchange3) lBegin lEnd (tKey_1, tKey_2, tKey_3)"

definition Q_Unrecursion_1K_2P ::
  "int \<Rightarrow> int \<Rightarrow> 'a::linorder list \<Rightarrow> 'b list \<Rightarrow> 'c list \<Rightarrow> ('a list \<times> 'b list \<times> 'c list) option" where
  "Q_Unrecursion_1K_2P lBegin lEnd tKey_1 tKey_2 tKey_3 =
     q_unrecursion (rows_1K fst exchange3) lBegin lEnd (tKey_1, tKey_2, tKey_3)"

definition Q_Recursion_1K_3P ::
  "int \<Rightarrow> int \<Rightarrow> 'a::linorder list \<Rightarrow> 'b list \<Rightarrow> 'c list \<Rightarrow> 'd list \<Rightarrow> ('a list \<times> 'b list \<times> 'c list \<times> 'd list) option" where
  "Q_Recursion_1K_3P lBegin lEnd tKey_1 tKey_2 tKey_3 tKey_4 =
     q_recursion (rows_1K fst exchange4) lBegin lEnd (tKey_1, tKey_2, tKey_3, tKey_4)"

definition Q_Unrecursion_1K_3P ::
  "int \<Rightarrow> int \<Rightarrow> 'a::linorder list \<Rightarrow> 'b list \<Rightarrow> 'c list \<Rightarrow> 'd list \<Rightarrow> ('a list \<times> 'b list \<times> 'c list \<times> 'd list) option" where
  "Q_Unrecursion_1K_3P lBegin lEnd tKey_1 tKey_2 tKey_3 tKey_4 =
     q_unrecursion (rows_1K fst exchange4) lBegin lEnd (tKey_1, tKey_2, tKey_3, tKey_4)"

definition Q_Recursion_2K ::
  "int \<Rightarrow> int \<Rightarrow> 'a::linorder list \<Rightarrow> 'b::linorder list \<Rightarrow> ('a list \<times> 'b list) option" where
  "Q_Recursion_2K lBegin lEnd tKey_1 tKey_2 =
     q_recursion (rows_2K fst (\<lambda>(_, k). k) exchange2) lBegin lEnd (tKey_1, tKey_2)"

definition Q_Unrecursion_2K ::
  "int \<Rightarrow> int \<Rightarrow> 'a::linorder list \<Rightarrow> 'b::linorder list \<Rightarrow> ('a list \<times> 'b list) option" where
  "Q_Unrecursion_2K lBegin lEnd tKey_1 tKey_2 =
     q_unrecursion (rows_2K fst (\<lambda>(_, k). k) exchange2) lBegin lEnd (tKey_1, tKey_2)"

definition Q_Recursion_2K_1P ::
  "int \<Rightarrow> int \<Rightarrow> 'a::linorder list \<Rightarrow> 'b::linorder list \<Rightarrow> 'c list \<Rightarrow> ('a list \<times> 'b list \<times> 'c list) option" where
  "Q_Recursion_2K_1P lBegin lEnd tKey_1 tKey_2 tKey_3 =
     q_recursion (rows_2K fst (\<lambda>(_, k, _). k) exchange3) lBegin lEnd (tKey_1, tKey_2, tKey_3)"

definition Q_Unrecursion_2K_1P ::
  "int \<Rightarrow> int \<Rightarrow> 'a::linorder list \<Rightarrow> 'b::linorder list \<Rightarrow> 'c list \<Rightarrow> ('a list \<times> 'b list \<times> 'c list) option" where
  "Q_Unrecursion_2K_1P lBegin lEnd tKey_1 tKey_2 tKey_3 =
     q_unrecursion (rows_2K fst (\<lambda>(_, k, _). k) exchange3) lBegin lEnd (tKey_1, tKey_2, tKey_3)"

definition Q_Recursion_2K_2P ::
  "int \<Rightarrow> int \<Rightarrow> 'a::linorder list \<Rightarrow> 'b::linorder list \<Rightarrow> 'c list \<Rightarrow> 'd list \<Rightarrow> ('a list \<times> 'b list \<times> 'c list \<times> 'd list) option" where
  "Q_Recursion_2K_2P lBegin lEnd tKey_1 tKey_2 tKey_3 tKey_4 =
     q_recursion (rows_2K fst (\<lambda>(_, k, _, _). k) exchange4) lBegin lEnd (tKey_1, tKey_2, tKey_3, tKey_4)"

definition Q_Unrecursion_2K_2P ::
  "int \<Rightarrow> int \<Rightarrow> 'a::linorder list \<Rightarrow> 'b::linorder list \<Rightarrow> 'c list \<Rightarrow> 'd list \<Rightarrow> ('a list \<times> 'b list \<times> 'c list \<times> 'd list) option" where
  "Q_Unrecursion_2K_2P lBegin lEnd tKey_1 tKey_2 tKey_3 tKey_4 =
     q_unrecursion (rows_2K fst (\<lambda>(_, k, _, _). k) exchange4) lBegin lEnd (tKey_1, tKey_2, tKey_3, tKey_4)"

definition Q_Recursion_2K_3P ::
  "int \<Rightarrow> int \<Rightarrow> 'a::linorder list \<Rightarrow> 'b::linorder list \<Rightarrow> 'c list \<Rightarrow> 'd list \<Rightarrow> 'e list \<Rightarrow> ('a list \<times> 'b list \<times> 'c list \<times> 'd list \<times> 'e list) option" where
  "Q_Recursion_2K_3P lBegin lEnd tKey_1 tKey_2 tKey_3 tKey_4 tKey_5 =
     q_recursion (rows_2K fst (\<lambda>(_, k, _, _, _). k) exchange5) lBegin lEnd (tKey_1, tKey_2, tKey_3, tKey_4, tKey_5)"

definition Q_Unrecursion_2K_3P ::
  "int \<Rightarrow> int \<Rightarrow> 'a::linorder list \<Rightarrow> 'b::linorder list \<Rightarrow> 'c list \<Rightarrow> 'd list \<Rightarrow> 'e list \<Rightarrow> ('a list \<times> 'b list \<times> 'c list \<times> 'd list \<times> 'e list) option" where
  "Q_Unrecursion_2K_3P lBegin lEnd tKey_1 tKey_2 tKey_3 tKey_4 tKey_5 =
     q_unrecursion (rows_2K fst (\<lambda>(_, k, _, _, _). k) exchange5) lBegin lEnd (tKey_1, tKey_2, tKey_3, tKey_4, tKey_5)"

definition Q_Recursion_3K_1P ::
  "int \<Rightarrow> int \<Rightarrow> 'a::linorder list \<Rightarrow> 'b::linorder list \<Rightarrow> 'c::linorder list \<Rightarrow> 'd list \<Rightarrow> ('a list \<times> 'b list \<times> 'c list \<times> 'd list) option" where
  "Q_Recursion_3K_1P lBegin lEnd tKey_1 tKey_2 tKey_3 tKey_4 =
     q_recursion (rows_3K fst (\<lambda>(_, k, _, _). k) (\<lambda>(_, _, k, _). k) exchange4) lBegin lEnd (tKey_1, tKey_2, tKey_3, tKey_4)"

definition Q_Unrecursion_3K_1P ::
  "int \<Rightarrow> int \<Rightarrow> 'a::linorder list \<Rightarrow> 'b::linorder list \<Rightarrow> 'c::linorder list \<Rightarrow> 'd list \<Rightarrow> ('a list \<times> 'b list \<times> 'c list \<times> 'd list) option" where
  "Q_Unrecursion_3K_1P lBegin lEnd tKey_1 tKey_2 tKey_3 tKey_4 =
     q_unrecursion (rows_3K fst (\<lambda>(_, k, _, _). k) (\<lambda>(_, _, k, _). k) exchange4) lBegin lEnd (tKey_1, tKey_2, tKey_3, tKey_4)"

definition Q_Recursion_3K_2P ::
  "int \<Rightarrow> int \<Rightarrow> 'a::linorder list \<Rightarrow> 'b::linorder list \<Rightarrow> 'c::linorder list \<Rightarrow> 'd list \<Rightarrow> 'e list \<Rightarrow> ('a list \<times> 'b list \<times> 'c list \<times> 'd list \<times> 'e list) option" where
  "Q_Recursion_3K_2P lBegin lEnd tKey_1 tKey_2 tKey_3 tKey_4 tKey_5 =
     q_recursion (rows_3K fst (\<lambda>(_, k, _, _, _). k) (\<lambda>(_, _, k, _, _). k) exchange5) lBegin lEnd (tKey_1, tKey_2, tKey_3, tKey_4, tKey_5)"

definition Q_Unrecursion_3K_2P ::
  "int \<Rightarrow> int \<Rightarrow> 'a::linorder list \<Rightarrow> 'b::linorder list \<Rightarrow> 'c::linorder list \<Rightarrow> 'd list \<Rightarrow> 'e list \<Rightarrow> ('a list \<times> 'b list \<times> 'c list \<times> 'd list \<times> 'e list) option" where
  "Q_Unrecursion_3K_2P lBegin lEnd tKey_1 tKey_2 tKey_3 tKey_4 tKey_5 =
     q_unrecursion (rows_3K fst (\<lambda>(_, k, _, _, _). k) (\<lambda>(_, _, k, _, _). k) exchange5) lBegin lEnd (tKey_1, tKey_2, tKey_3, tKey_4, tKey_5)"


section \<open>Stacks of ranges\<close>

text \<open>The stack holds ranges; the routine sorts them from the top down.\<close>

fun stack_of :: "(int \<times> int) list \<Rightarrow> int list" where
  "stack_of [] = []"
| "stack_of ((b, e) # rs) = e # b # stack_of rs"

fun sort_all :: "('s, 'k) sort_rows \<Rightarrow> (int \<times> int) list \<Rightarrow> 's \<Rightarrow> 's option" where
  "sort_all R [] s = Some s"
| "sort_all R ((b, e) # rs) s = do { s1 \<leftarrow> q_recursion R b e s; sort_all R rs s1 }"

lemma sort_all_fun: "sort_all R [] = Some"
  "sort_all R ((b, e) # rs) = (\<lambda>s. q_recursion R b e s \<bind> sort_all R rs)"
  by (auto simp: fun_eq_iff)

definition span :: "(int \<times> int) list \<Rightarrow> int" where
  "span rs = (\<Sum>(b, e)\<leftarrow>rs. e - b)"

definition ranges_in :: "int \<Rightarrow> (int \<times> int) list \<Rightarrow> bool" where
  "ranges_in n rs \<longleftrightarrow> (\<forall>(b, e)\<in>set rs. 0 \<le> b \<and> b < e \<and> e < n)"

lemma length_stack_of [simp]: "length (stack_of rs) = 2 * length rs"
  by (induction rs rule: stack_of.induct) auto

lemma span_simps [simp]: "span [] = 0" "span ((b, e) # rs) = e - b + span rs" "span (rs @ rs') = span rs + span rs'"
  by (auto simp: span_def)

lemma ranges_in_simps [simp]: "ranges_in n []"
  "ranges_in n ((b, e) # rs) \<longleftrightarrow> 0 \<le> b \<and> b < e \<and> e < n \<and> ranges_in n rs"
  by (auto simp: ranges_in_def)

lemma length_le_span: "ranges_in n rs \<Longrightarrow> int (length rs) \<le> span rs"
  by (induction rs) auto

text \<open>A split replaces the range on top by its parts; there is always room to push them.\<close>

lemma push_parts:
  assumes "ranges_in n ((if b < b1 - 1 then [(b, b1 - 1)] else []) @ (if e1 < e then [(e1, e)] else []) @ rs)"
    and "span ((if b < b1 - 1 then [(b, b1 - 1)] else []) @ (if e1 < e then [(e1, e)] else []) @ rs) \<le> 512"
  shows "do { st1 \<leftarrow> (if e1 < e then stack_push2 (stack_of rs) e1 e else Some (stack_of rs));
              if b1 - 1 > b then stack_push2 st1 b (b1 - 1) else Some st1 } =
    Some (stack_of ((if b < b1 - 1 then [(b, b1 - 1)] else []) @ (if e1 < e then [(e1, e)] else []) @ rs))"
  using assms length_le_span [OF assms(1)] by (auto simp: stack_push2_def)


section \<open>What a routine needs of its arrays and its comparison\<close>

text \<open>
  The arrays of a routine behave as one list of rows: reading a key reads the key of the row, and
  exchanging exchanges whole rows.
\<close>

locale par_rows =
  fixes R :: "('s, 'k) sort_rows"
    and sound :: "'s \<Rightarrow> bool"
    and rows :: "'s \<Rightarrow> 'r list"
    and key :: "'r \<Rightarrow> 'k"
  assumes key_at_row: "sound s \<Longrightarrow> in_array (rows s) i \<Longrightarrow> key_at R s i = Some (key (at (rows s) i))"
    and row_swap_row: "sound s \<Longrightarrow> in_array (rows s) i \<Longrightarrow> in_array (rows s) j \<Longrightarrow>
      \<exists>s'. row_swap R s i j = Some s' \<and> sound s' \<and> rows s' = swapped (rows s) i j"

text \<open>
  The tests agree with a preorder \<open>le\<close> of the keys, and a key is neither below nor above itself at
  the same position, nor below itself at a later one.
\<close>

locale row_sort = par_rows R sound rows key
  for R :: "('s, 'k) sort_rows" and sound :: "'s \<Rightarrow> bool" and rows :: "'s \<Rightarrow> 'r list" and key :: "'r \<Rightarrow> 'k" +
  fixes le :: "'k \<Rightarrow> 'k \<Rightarrow> bool"
  assumes lt_le: "key_lt R x y i j \<Longrightarrow> le x y"
    and not_gt_le: "\<not> key_gt R x y i j \<Longrightarrow> le x y"
    and gt_ge: "key_gt R x y i j \<Longrightarrow> le y x"
    and not_lt_ge: "\<not> key_lt R x y i j \<Longrightarrow> le y x"
    and le_trans: "le x y \<Longrightarrow> le y z \<Longrightarrow> le x z"
    and lt_self: "j \<le> i \<Longrightarrow> \<not> key_lt R x x i j"
    and gt_self: "\<not> key_gt R x x i i"
begin

abbreviation (input) row_le :: "'r \<Rightarrow> 'r \<Rightarrow> bool" where
  "row_le r1 r2 \<equiv> le (key r1) (key r2)"

lemma scan_up_stops:
  assumes "sound s" and "0 \<le> b" and "b \<le> e" and "e < int (length (rows s))"
  shows "\<exists>b'. scan_up R s mid lm b e = Some b' \<and> b \<le> b' \<and> b' \<le> e \<and>
    (\<forall>k. b \<le> k \<and> k < b' \<longrightarrow> key_lt R (key (at (rows s) k)) mid k lm) \<and>
    (b' < e \<longrightarrow> \<not> key_lt R (key (at (rows s) b')) mid b' lm)"
  using assms
proof (induction "nat (e - b)" arbitrary: b rule: less_induct)
  case less
  have k: "key_at R s b = Some (key (at (rows s) b))" using less.prems by (simp add: key_at_row in_array_def)
  show ?case
  proof (cases "b < e \<and> key_lt R (key (at (rows s) b)) mid b lm")
    case True
    then obtain b' where b': "scan_up R s mid lm (b + 1) e = Some b'" "b + 1 \<le> b'" "b' \<le> e"
      "\<forall>k. b + 1 \<le> k \<and> k < b' \<longrightarrow> key_lt R (key (at (rows s) k)) mid k lm"
      "b' < e \<longrightarrow> \<not> key_lt R (key (at (rows s) b')) mid b' lm"
      using less.hyps [of "b + 1"] less.prems by auto
    have "\<forall>k. b \<le> k \<and> k < b' \<longrightarrow> key_lt R (key (at (rows s) k)) mid k lm"
      using True b'(4) by (metis less_le zless_imp_add1_zle)
    then show ?thesis using True b' k by (subst scan_up.simps) auto
  next
    case False
    then show ?thesis using k less.prems by (subst scan_up.simps) auto
  qed
qed

lemma scan_down_stops:
  assumes "sound s" and "0 \<le> b" and "b \<le> e" and "e < int (length (rows s))"
  shows "\<exists>e'. scan_down R s mid lm b e = Some e' \<and> b \<le> e' \<and> e' \<le> e \<and>
    (\<forall>k. e' < k \<and> k \<le> e \<longrightarrow> key_gt R (key (at (rows s) k)) mid k lm) \<and>
    (b < e' \<longrightarrow> \<not> key_gt R (key (at (rows s) e')) mid e' lm)"
  using assms
proof (induction "nat (e - b)" arbitrary: e rule: less_induct)
  case less
  have k: "key_at R s e = Some (key (at (rows s) e))" using less.prems by (simp add: key_at_row in_array_def)
  show ?case
  proof (cases "b < e \<and> key_gt R (key (at (rows s) e)) mid e lm")
    case True
    then obtain e' where e': "scan_down R s mid lm b (e - 1) = Some e'" "b \<le> e'" "e' \<le> e - 1"
      "\<forall>k. e' < k \<and> k \<le> e - 1 \<longrightarrow> key_gt R (key (at (rows s) k)) mid k lm"
      "b < e' \<longrightarrow> \<not> key_gt R (key (at (rows s) e')) mid e' lm"
      using less.hyps [of "e - 1"] less.prems by auto
    have "\<forall>k. e' < k \<and> k \<le> e \<longrightarrow> key_gt R (key (at (rows s) k)) mid k lm"
      using True e'(4) by (metis le_less zle_diff1_eq)
    then show ?thesis using True e' k by (subst scan_down.simps) auto
  next
    case False
    then show ?thesis using k less.prems by (subst scan_down.simps) auto
  qed
qed

definition split_inv :: "int \<Rightarrow> int \<Rightarrow> 'k \<Rightarrow> 'r list \<Rightarrow> int \<Rightarrow> int \<Rightarrow> bool" where
  "split_inv m n mid a b e \<longleftrightarrow> 0 \<le> m \<and> m \<le> b \<and> b \<le> e \<and> e \<le> n \<and> n < int (length a) \<and>
     (\<forall>k. m \<le> k \<and> k < b \<longrightarrow> le (key (at a k)) mid) \<and> (\<forall>k. e < k \<and> k \<le> n \<longrightarrow> le mid (key (at a k)))"

text \<open>One round of the loop: the scans meet, or two rows change sides.\<close>

lemma split_round:
  assumes "sound s" and inv: "split_inv m n mid (rows s) b e" and "b < e"
  obtains b' e' where "scan_up R s mid lm b e = Some b'" "scan_down R s mid lm b' e = Some e'"
    "b \<le> b'" "b' \<le> e'" "e' \<le> e"
    "\<forall>k. b \<le> k \<and> k < b' \<longrightarrow> key_lt R (key (at (rows s) k)) mid k lm"
    "\<forall>k. e' < k \<and> k \<le> e \<longrightarrow> key_gt R (key (at (rows s) k)) mid k lm"
    "split_inv m n mid (rows s) b' e'"
    "b' < e' \<longrightarrow> (\<exists>s1. row_swap R s b' e' = Some s1 \<and> sound s1 \<and> rows s1 = swapped (rows s) b' e' \<and>
      split_inv m n mid (rows s1) (b' + 1) (if b' + 1 < e' then e' - 1 else e'))"
proof -
  have bnd: "0 \<le> b" "e < int (length (rows s))" "0 \<le> m" "m \<le> b" "e \<le> n" "n < int (length (rows s))"
    using inv by (auto simp: split_inv_def)
  obtain b' where b': "scan_up R s mid lm b e = Some b'" "b \<le> b'" "b' \<le> e"
    "\<forall>k. b \<le> k \<and> k < b' \<longrightarrow> key_lt R (key (at (rows s) k)) mid k lm"
    "b' < e \<longrightarrow> \<not> key_lt R (key (at (rows s) b')) mid b' lm"
    using scan_up_stops [OF assms(1), of b e mid lm] bnd \<open>b < e\<close> by auto
  obtain e' where e': "scan_down R s mid lm b' e = Some e'" "b' \<le> e'" "e' \<le> e"
    "\<forall>k. e' < k \<and> k \<le> e \<longrightarrow> key_gt R (key (at (rows s) k)) mid k lm"
    "b' < e' \<longrightarrow> \<not> key_gt R (key (at (rows s) e')) mid e' lm"
    using scan_down_stops [OF assms(1), of b' e mid lm] bnd b' by auto
  have lo: "le (key (at (rows s) k)) mid" if "m \<le> k" "k < b'" for k
    using that inv lt_le [of "key (at (rows s) k)" mid k lm] b'(4) by (cases "k < b") (auto simp: split_inv_def)
  have hi: "le mid (key (at (rows s) k))" if "e' < k" "k \<le> n" for k
    using that inv gt_ge [of "key (at (rows s) k)" mid k lm] e'(4) by (cases "e < k") (auto simp: split_inv_def)
  have sw: "\<exists>s1. row_swap R s b' e' = Some s1 \<and> sound s1 \<and> rows s1 = swapped (rows s) b' e' \<and>
      split_inv m n mid (rows s1) (b' + 1) (if b' + 1 < e' then e' - 1 else e')" if "b' < e'"
  proof -
    have ia: "in_array (rows s) b'" "in_array (rows s) e'" using b' e' bnd by (auto simp: in_array_def)
    then obtain s1 where s1: "row_swap R s b' e' = Some s1" "sound s1" "rows s1 = swapped (rows s) b' e'"
      using row_swap_row [OF assms(1)] by blast
    have "le (key (at (rows s) e')) mid" "le mid (key (at (rows s) b'))"
      using that b' e' not_gt_le [of "key (at (rows s) e')" mid e' lm] not_lt_ge [of "key (at (rows s) b')" mid b' lm]
      by auto
    then have "split_inv m n mid (rows s1) (b' + 1) (if b' + 1 < e' then e' - 1 else e')"
      using that b' e' bnd lo hi ia unfolding s1(3) by (auto simp: split_inv_def at_swapped)
    with s1 show ?thesis by blast
  qed
  have "split_inv m n mid (rows s) b' e'" using b' e' bnd lo hi by (auto simp: split_inv_def)
  then show ?thesis by (rule that [OF b'(1) e'(1) b'(2) e'(2,3) b'(4) e'(4)]) (use sw in blast)
qed

lemma split_loop_returns:
  assumes "sound s" and "split_inv m n mid (rows s) b e"
  shows "\<exists>s' p. split_loop R mid lm s b e = Some (s', p, p) \<and> sound s' \<and> swaps b e (rows s) (rows s') \<and>
    b \<le> p \<and> p \<le> e \<and> split_inv m n mid (rows s') p p"
  using assms
proof (induction "nat (e - b)" arbitrary: s b e rule: less_induct)
  case less
  show ?case
  proof (cases "b < e")
    case False
    then have "b = e" using less.prems by (auto simp: split_inv_def)
    then show ?thesis using less.prems by (subst split_loop.simps) auto
  next
    case True
    obtain b' e' where r: "scan_up R s mid lm b e = Some b'" "scan_down R s mid lm b' e = Some e'"
      "b \<le> b'" "b' \<le> e'" "e' \<le> e" "split_inv m n mid (rows s) b' e'"
      and sw: "b' < e' \<longrightarrow> (\<exists>s1. row_swap R s b' e' = Some s1 \<and> sound s1 \<and> rows s1 = swapped (rows s) b' e' \<and>
        split_inv m n mid (rows s1) (b' + 1) (if b' + 1 < e' then e' - 1 else e'))"
      by (rule split_round [OF less.prems True, of lm]) (rule that)
    show ?thesis
    proof (cases "b' < e'")
      case False
      then have "b' = e'" using r by simp
      then have "split_loop R mid lm s b e = Some (s, e', e')"
        using True r by (simp add: split_loop.simps [of R mid lm s b e] split_loop.simps [of R mid lm s e' e'])
      then show ?thesis using less.prems r \<open>b' = e'\<close> by auto
    next
      case lt: True
      define e2 where "e2 = (if b' + 1 < e' then e' - 1 else e')"
      have e2: "e2 \<le> e'" "nat (e2 - (b' + 1)) < nat (e - b)" using r lt by (auto simp: e2_def)
      from sw lt obtain s1 where s1: "row_swap R s b' e' = Some s1" "sound s1"
        "rows s1 = swapped (rows s) b' e'" "split_inv m n mid (rows s1) (b' + 1) e2"
        by (auto simp: e2_def)
      have "split_loop R mid lm s b e = split_loop R mid lm s1 (b' + 1) e2"
        using True r lt s1(1) by (simp add: split_loop.simps [of R mid lm s b e] e2_def)
      moreover obtain s' p where s': "split_loop R mid lm s1 (b' + 1) e2 = Some (s', p, p)" "sound s'"
        "swaps (b' + 1) e2 (rows s1) (rows s')" "b' + 1 \<le> p" "p \<le> e2" "split_inv m n mid (rows s') p p"
        using less.hyps [OF e2(2) s1(2,4)] by blast
      moreover have "swaps b e (rows s) (rows s1)"
        using r lt less.prems(2) s1(3) by (auto simp: in_array_def split_inv_def intro!: swaps_one)
      moreover have "swaps b e (rows s1) (rows s')" using s'(3) r lt e2 by (auto intro: swaps_mono)
      ultimately show ?thesis using r lt e2 by (auto intro: swaps_trans)
    qed
  qed
qed

text \<open>
  The first round moves both ends, because the middle row stops both scans: so both parts are
  shorter than the range.
\<close>

lemma split_loop_progress:
  assumes "sound s" and "0 \<le> m" and "m + 2 \<le> n" and "n < int (length (rows s))"
    and lm: "lm = (m + n) div 2" and mid: "mid = key (at (rows s) lm)"
  shows "\<exists>s' p. split_loop R mid lm s m n = Some (s', p, p) \<and> sound s' \<and> swaps m n (rows s) (rows s') \<and>
    m < p \<and> p \<le> n \<and> split_inv m n mid (rows s') p p \<and> (p = n \<longrightarrow> \<not> key_lt R (key (at (rows s') p)) mid p lm)"
proof -
  have lmb: "m < lm" "lm < n" using assms by auto
  have inv: "split_inv m n mid (rows s) m n" using assms by (auto simp: split_inv_def)
  have "m < n" using assms by simp
  obtain b e where r: "scan_up R s mid lm m n = Some b" "scan_down R s mid lm b n = Some e"
      "m \<le> b" "b \<le> e" "e \<le> n"
      "\<forall>k. m \<le> k \<and> k < b \<longrightarrow> key_lt R (key (at (rows s) k)) mid k lm"
      "\<forall>k. e < k \<and> k \<le> n \<longrightarrow> key_gt R (key (at (rows s) k)) mid k lm"
      "split_inv m n mid (rows s) b e"
      "b < e \<longrightarrow> (\<exists>s1. row_swap R s b e = Some s1 \<and> sound s1 \<and> rows s1 = swapped (rows s) b e \<and>
        split_inv m n mid (rows s1) (b + 1) (if b + 1 < e then e - 1 else e))"
    by (rule split_round [OF assms(1) inv \<open>m < n\<close>, of lm]) (rule that)
  have bl: "b \<le> lm" using r(6) lmb lt_self [of lm lm mid] mid by (meson leI less_imp_le order_refl)
  have el: "lm \<le> e" using r(7) lmb gt_self [of mid lm] mid by (meson leI less_imp_le)
  show ?thesis
  proof (cases "b < e")
    case False
    then have be: "b = lm" "e = lm" using r bl el by auto
    have "split_loop R mid lm s m n = Some (s, lm, lm)"
      using \<open>m < n\<close> r be
      by (simp add: split_loop.simps [of R mid lm s m n] split_loop.simps [of R mid lm s lm lm])
    then show ?thesis using assms(1) lmb r(8) be by auto
  next
    case True
    define e2 where "e2 = (if b + 1 < e then e - 1 else e)"
    from r(9) True obtain s1 where s1: "row_swap R s b e = Some s1" "sound s1"
      "rows s1 = swapped (rows s) b e" "split_inv m n mid (rows s1) (b + 1) e2"
      by (auto simp: e2_def)
    obtain s' p where s': "split_loop R mid lm s1 (b + 1) e2 = Some (s', p, p)" "sound s'"
      "swaps (b + 1) e2 (rows s1) (rows s')" "b + 1 \<le> p" "p \<le> e2" "split_inv m n mid (rows s') p p"
      using split_loop_returns [OF s1(2,4)] by blast
    have "split_loop R mid lm s m n = Some (s', p, p)"
      using \<open>m < n\<close> r(1,2) True s1(1) s'(1)
      by (simp add: split_loop.simps [of R mid lm s m n] e2_def split: if_splits)
    moreover have "swaps m n (rows s) (rows s')"
    proof (rule swaps_trans)
      show "swaps m n (rows s1) (rows s')" using s'(3) r True by (auto simp: e2_def intro: swaps_mono)
      show "swaps m n (rows s) (rows s1)"
        unfolding s1(3) using r assms by (intro swaps_one) (auto simp: in_array_def)
    qed
    moreover have "\<not> key_lt R (key (at (rows s') p)) mid p lm" if "p = n"
    proof -
      have be: "b = lm" "e = n" "e2 = n" "b + 1 = n" using that s' r True bl lmb by (auto simp: e2_def split: if_splits)
      have i2: "in_array (rows s) n" "in_array (rows s) lm" using assms lmb by (auto simp: in_array_def)
      have "swaps n n (rows s1) (rows s')" using s'(3) be by simp
      then have "at (rows s') n = at (rows s1) n"
        by (rule swaps_single) (use assms in simp)
      also have "\<dots> = at (rows s) lm" using be i2 assms unfolding s1(3) by (simp add: at_swapped)
      finally show ?thesis using that mid lmb lt_self [of lm n mid] by simp
    qed
    ultimately show ?thesis using s' r by (auto simp: e2_def split: if_splits)
  qed
qed

lemma split_range_splits:
  assumes "sound s" and "0 \<le> m" and "m + 2 \<le> n" and "n < int (length (rows s))" and "length (rows s) \<le> 2 ^ 30"
  obtains s' b e mid where "split_range R s m n = Some (s', b, e)" "sound s'" "swaps m n (rows s) (rows s')"
    "m < e" "e \<le> n" "b = e \<or> b = e + 1 \<and> e < n"
    "\<forall>k. m \<le> k \<and> k < b \<longrightarrow> le (key (at (rows s') k)) mid"
    "\<forall>k. b \<le> k \<and> k \<le> n \<longrightarrow> le mid (key (at (rows s') k))"
proof -
  define lm where "lm = (m + n) div 2"
  define mid where "mid = key (at (rows s) lm)"
  have h: "half_sum m n = Some lm" using assms by (simp add: half_sum_def lm_def is_int32_def)
  have k: "key_at R s lm = Some mid" using assms by (simp add: key_at_row mid_def in_array_def lm_def)
  obtain s' p where s': "split_loop R mid lm s m n = Some (s', p, p)" "sound s'" "swaps m n (rows s) (rows s')"
    "m < p" "p \<le> n" "split_inv m n mid (rows s') p p" "p = n \<longrightarrow> \<not> key_lt R (key (at (rows s') p)) mid p lm"
    using split_loop_progress [OF assms(1-4) lm_def mid_def] by blast
  have kp: "key_at R s' p = Some (key (at (rows s') p))"
    using s' assms by (intro key_at_row) (auto simp: in_array_def dest: swaps_length)
  define b where "b = (if key_lt R (key (at (rows s') p)) mid p lm then p + 1 else p)"
  show ?thesis
  proof (rule that)
    show "split_range R s m n = Some (s', b, p)" by (simp add: split_range_def h k s'(1) kp b_def)
    show "b = p \<or> b = p + 1 \<and> p < n" using s'(5,7) by (cases "p = n") (auto simp: b_def)
    show "\<forall>k. m \<le> k \<and> k < b \<longrightarrow> le (key (at (rows s') k)) mid"
    proof (intro allI impI)
      fix k assume "m \<le> k \<and> k < b"
      then show "le (key (at (rows s') k)) mid"
        using s'(6) lt_le [of "key (at (rows s') p)" mid p lm]
        by (cases "k = p") (auto simp: b_def split_inv_def split: if_splits)
    qed
    show "\<forall>k. b \<le> k \<and> k \<le> n \<longrightarrow> le mid (key (at (rows s') k))"
    proof (intro allI impI)
      fix k assume "b \<le> k \<and> k \<le> n"
      then show "le mid (key (at (rows s') k))"
        using s'(6) not_lt_ge [of "key (at (rows s') p)" mid p lm]
        by (cases "k = p") (auto simp: b_def split_inv_def split: if_splits)
    qed
  qed (use s' in auto)
qed

text \<open>Sorting the two parts one after the other sorts the range, although the parts may share a row.\<close>

lemma parts_sorted:
  assumes "swaps m (b - 1) a1 a2" and s2: "sorted_on row_le m (b - 1) a2"
    and "swaps e n a2 a3" and s3: "sorted_on row_le e n a3"
    and be: "b = e \<or> b = e + 1" and bnd: "0 \<le> m" "m < e"
    and lo: "\<forall>k. m \<le> k \<and> k < b \<longrightarrow> le (key (at a1 k)) mid"
    and hi: "\<forall>k. b \<le> k \<and> k \<le> n \<longrightarrow> le mid (key (at a1 k))"
  shows "sorted_on row_le m n a3"
  unfolding sorted_on_def
proof (intro allI impI)
  fix i j assume ij: "m \<le> i \<and> i < j \<and> j \<le> n"
  show "row_le (at a3 i) (at a3 j)"
  proof (cases "e \<le> i")
    case True
    then show ?thesis using ij sorted_onD [OF s3] by simp
  next
    case False
    have i2: "at a3 i = at a2 i" using swaps_outside [OF assms(3)] False ij bnd by simp
    have "\<forall>k. m \<le> k \<and> k \<le> b - 1 \<and> 0 \<le> k \<longrightarrow> le (key (at a2 k)) mid"
      by (rule swaps_all [OF assms(1)]) (use lo in auto)
    then have imid: "le (key (at a2 i)) mid" using False ij bnd be by auto
    have "\<forall>k. e \<le> k \<and> k \<le> n \<and> 0 \<le> k \<longrightarrow> row_le (at a2 i) (at a3 k)"
    proof (rule swaps_all [OF assms(3)], intro allI impI)
      fix k assume k: "e \<le> k \<and> k \<le> n \<and> 0 \<le> k"
      show "row_le (at a2 i) (at a2 k)"
      proof (cases "k < b")
        case True
        then show ?thesis using sorted_onD [OF s2, of i k] False ij k by simp
      next
        case ge: False
        then have "at a2 k = at a1 k" using swaps_outside [OF assms(1)] k by simp
        then show ?thesis using hi ge k le_trans [OF imid] by simp
      qed
    qed
    moreover have "row_le (at a3 i) (at a3 j)" if "j < e"
      using that i2 swaps_outside [OF assms(3), of j] ij bnd be sorted_onD [OF s2, of i j] by auto
    ultimately show ?thesis using i2 ij bnd by (cases "j < e") auto
  qed
qed

definition sorts_to :: "int \<Rightarrow> int \<Rightarrow> 's \<Rightarrow> 's \<Rightarrow> bool" where
  "sorts_to b e s s' \<longleftrightarrow> sound s' \<and> swaps b e (rows s) (rows s') \<and> sorted_on row_le b e (rows s')"

lemma order_pair_sorts:
  assumes "sound s" and "0 \<le> b" and "b + 1 < int (length (rows s))"
  shows "\<exists>s'. order_pair R s b (b + 1) = Some s' \<and> sorts_to b (b + 1) s s'"
proof -
  have ia: "in_array (rows s) b" "in_array (rows s) (b + 1)" using assms by (auto simp: in_array_def)
  note k = key_at_row [OF assms(1) ia(1)] key_at_row [OF assms(1) ia(2)]
  have "b \<le> i \<and> i < j \<and> j \<le> b + 1 \<longleftrightarrow> i = b \<and> j = b + 1" for i j by auto
  then have so: "sorted_on row_le b (b + 1) a \<longleftrightarrow> row_le (at a b) (at a (b + 1))" for a
    by (simp add: sorted_on_def)
  show ?thesis
  proof (cases "key_gt R (key (at (rows s) b)) (key (at (rows s) (b + 1))) b (b + 1)")
    case True
    obtain s' where s': "row_swap R s b (b + 1) = Some s'" "sound s'" "rows s' = swapped (rows s) b (b + 1)"
      using row_swap_row [OF assms(1) ia] by blast
    have "sorted_on row_le b (b + 1) (rows s')"
      using gt_ge [OF True] assms ia unfolding so s'(3) by (simp add: at_swapped)
    then show ?thesis using True k s' ia by (auto simp: order_pair_def sorts_to_def intro: swaps_one)
  next
    case False
    then show ?thesis using k assms(1) not_gt_le [OF False] by (auto simp: order_pair_def sorts_to_def so)
  qed
qed

lemma guarded_part:
  assumes "\<exists>s'. q_recursion R b e s = Some s' \<and> sorts_to b e s s'" and "sound s"
  shows "\<exists>s'. (if b < e then q_recursion R b e s else Some s) = Some s' \<and> sorts_to b e s s'"
proof (cases "b < e")
  case True
  then show ?thesis using assms(1) by simp
next
  case False
  then show ?thesis using assms(2) by (simp add: sorts_to_def)
qed

lemma q_recursion_sorts:
  assumes "sound s" and "0 \<le> b" and "e < int (length (rows s))" and "length (rows s) \<le> 2 ^ 30"
  shows "\<exists>s'. q_recursion R b e s = Some s' \<and> sorts_to b e s s'"
  using assms
proof (induction "nat (e - b)" arbitrary: s b e rule: less_induct)
  case less
  consider "e \<le> b" | "e = b + 1" | "b + 2 \<le> e" by linarith
  then show ?case
  proof cases
    case 1
    then show ?thesis using less.prems by (subst q_recursion.simps) (auto simp: sorts_to_def)
  next
    case 2
    then show ?thesis using order_pair_sorts [of s b] less.prems by (subst q_recursion.simps) auto
  next
    case 3
    obtain s1 b1 e1 mid where sp: "split_range R s b e = Some (s1, b1, e1)" "sound s1" "swaps b e (rows s) (rows s1)"
      "b < e1" "e1 \<le> e" "b1 = e1 \<or> b1 = e1 + 1 \<and> e1 < e"
      "\<forall>k. b \<le> k \<and> k < b1 \<longrightarrow> le (key (at (rows s1) k)) mid"
      "\<forall>k. b1 \<le> k \<and> k \<le> e \<longrightarrow> le mid (key (at (rows s1) k))"
      by (rule split_range_splits [OF less.prems(1,2) 3 less.prems(3,4)]) (rule that)
    note l1 = swaps_length [OF sp(3)]
    have "\<exists>s2. q_recursion R b (b1 - 1) s1 = Some s2 \<and> sorts_to b (b1 - 1) s1 s2"
      using sp(2,4,5,6) l1 less.prems by (intro less.hyps) auto
    from guarded_part [OF this sp(2)] obtain s2
      where s2: "(if b1 - 1 > b then q_recursion R b (b1 - 1) s1 else Some s1) = Some s2"
        "sorts_to b (b1 - 1) s1 s2" by blast
    have l2: "length (rows s2) = length (rows s)" using s2(2) l1 by (auto simp: sorts_to_def dest: swaps_length)
    have "sound s2" using s2(2) by (simp add: sorts_to_def)
    have "\<exists>s3. q_recursion R e1 e s2 = Some s3 \<and> sorts_to e1 e s2 s3"
      using sp(4,5) l2 less.prems \<open>sound s2\<close> by (intro less.hyps) auto
    from guarded_part [OF this \<open>sound s2\<close>] obtain s3
      where s3: "(if e1 < e then q_recursion R e1 e s2 else Some s2) = Some s3"
        "sorts_to e1 e s2 s3" by blast
    have "sorted_on row_le b e (rows s3)"
      using s2(2) s3(2) sp(6)
      by (intro parts_sorted [OF _ _ _ _ _ less.prems(2) sp(4,7,8)]) (auto simp: sorts_to_def)
    moreover have "swaps b e (rows s1) (rows s2)" "swaps b e (rows s2) (rows s3)"
      using s2(2) s3(2) sp(4,5,6) unfolding sorts_to_def by (auto elim!: swaps_mono)
    from swaps_trans [OF this(2) swaps_trans [OF this(1) sp(3)]] have "swaps b e (rows s) (rows s3)" .
    moreover have "q_recursion R b e s = Some s3"
      using 3 sp(1) s2(1) s3(1) by (subst q_recursion.simps) simp
    ultimately show ?thesis using s3(2) by (simp add: sorts_to_def)
  qed
qed

lemma unrecursion_ranges:
  assumes "sound s" and "ranges_in (int (length (rows s))) rs" and "length (rows s) \<le> 2 ^ 30" and "span rs \<le> 512"
  shows "unrecursion_loop R (stack_of rs) s = sort_all R rs s"
  using assms
proof (induction "nat (2 * span rs) - length rs" arbitrary: s rs rule: less_induct)
  case less
  show ?case
  proof (cases rs)
    case Nil
    then show ?thesis by (simp add: unrecursion_loop.simps)
  next
    case (Cons r rs')
    obtain b e where r: "rs = (b, e) # rs'" using Cons by (cases r) auto
    have bnd: "0 \<le> b" "b < e" "e < int (length (rows s))" "ranges_in (int (length (rows s))) rs'" "span rs' + (e - b) \<le> 512"
      using less.prems r by auto
    note lspan = length_le_span [OF bnd(4)]
    show ?thesis
    proof (cases "e = b + 1")
      case True
      obtain s1 where s1: "order_pair R s b (b + 1) = Some s1" "sorts_to b (b + 1) s s1"
        using order_pair_sorts [of s b] less.prems bnd True by auto
      have l1: "length (rows s1) = length (rows s)" using s1(2) by (auto simp: sorts_to_def dest: swaps_length)
      have "unrecursion_loop R (stack_of rs') s1 = sort_all R rs' s1"
        using less.prems bnd r True s1(2) l1 lspan by (intro less.hyps) (auto simp: sorts_to_def)
      then show ?thesis using r True s1(1)
        by (simp add: unrecursion_loop.simps [of R "(b + 1) # b # stack_of rs'" s] q_recursion.simps [of R b "b + 1" s])
    next
      case False
      then have three: "b + 2 \<le> e" using bnd by simp
      obtain s1 b1 e1 mid where sp: "split_range R s b e = Some (s1, b1, e1)" "sound s1" "swaps b e (rows s) (rows s1)"
        "b < e1" "e1 \<le> e" "b1 = e1 \<or> b1 = e1 + 1 \<and> e1 < e"
        "\<forall>k. b \<le> k \<and> k < b1 \<longrightarrow> le (key (at (rows s1) k)) mid"
        "\<forall>k. b1 \<le> k \<and> k \<le> e \<longrightarrow> le mid (key (at (rows s1) k))"
        by (rule split_range_splits [OF less.prems(1) bnd(1) three bnd(3) less.prems(3)]) (rule that)
      note l1 = swaps_length [OF sp(3)]
      let ?parts = "(if b < b1 - 1 then [(b, b1 - 1)] else []) @ (if e1 < e then [(e1, e)] else []) @ rs'"
      have new: "ranges_in (int (length (rows s))) ?parts" "span ?parts \<le> 512"
        using sp(4,5,6) bnd by auto
      have dec: "nat (2 * span ?parts) - length ?parts < nat (2 * span rs) - length rs"
        using sp(4,5,6) bnd r lspan three by auto
      have "unrecursion_loop R (stack_of ?parts) s1 = sort_all R ?parts s1"
        by (rule less.hyps [OF dec sp(2)]) (use new l1 less.prems in simp_all)
      moreover have "unrecursion_loop R (stack_of rs) s = unrecursion_loop R (stack_of ?parts) s1"
        using push_parts [OF new] sp(1) r three bnd
        by (simp add: unrecursion_loop.simps [of R "e # b # stack_of rs'" s] flip: bind_assoc)
      moreover have "sort_all R rs s = sort_all R ?parts s1"
        using sp(1) three r by (simp add: q_recursion.simps [of R b e s] sort_all_fun)
      ultimately show ?thesis by simp
    qed
  qed
qed

lemma q_unrecursion_eq:
  assumes "sound s" and "0 \<le> b" and "e < int (length (rows s))" and "length (rows s) \<le> 2 ^ 30" and "e - b \<le> 512"
  shows "q_unrecursion R b e s = q_recursion R b e s"
proof (cases "b < e")
  case True
  have "unrecursion_loop R (stack_of [(b, e)]) s = sort_all R [(b, e)] s"
    by (rule unrecursion_ranges) (use assms True in auto)
  then show ?thesis by (simp add: q_unrecursion_def stack_push2_def sort_all_fun)
next
  case False
  then show ?thesis
    by (simp add: q_unrecursion_def stack_push2_def unrecursion_loop.simps [of R "[e, b]" s] unrecursion_loop.simps [of R "[]" s]
        q_recursion.simps [of R b e s])
qed

end


section \<open>The arrays of each routine as rows\<close>

lemma at_zip: "length a = length b \<Longrightarrow> in_array a i \<Longrightarrow> at (zip a b) i = (at a i, at b i)"
  by (simp add: at_def in_array_def nat_less_iff)

lemma in_array_zip: "length a = length b \<Longrightarrow> in_array (zip a b) i = in_array a i"
  by (simp add: in_array_def)

lemma in_array_length: "length a = length b \<Longrightarrow> in_array a i = in_array b i"
  by (simp add: in_array_def)

lemma zip_swapped:
  "length a = length b \<Longrightarrow> in_array a i \<Longrightarrow> in_array a j \<Longrightarrow>
    zip (swapped a i j) (swapped b i j) = swapped (zip a b) i j"
  by (simp add: swapped_def at_zip zip_update)

definition swaps_rows :: "('s \<Rightarrow> int \<Rightarrow> int \<Rightarrow> 's option) \<Rightarrow> ('s \<Rightarrow> bool) \<Rightarrow> ('s \<Rightarrow> 'r list) \<Rightarrow> bool" where
  "swaps_rows swp sound rows \<longleftrightarrow> (\<forall>s i j. sound s \<longrightarrow> in_array (rows s) i \<longrightarrow> in_array (rows s) j \<longrightarrow>
     (\<exists>s'. swp s i j = Some s' \<and> sound s' \<and> rows s' = swapped (rows s) i j))"

definition sound2 :: "'a list \<times> 'b list \<Rightarrow> bool" where
  "sound2 = (\<lambda>(k1, k2). length k1 = length k2)"

definition rows2 :: "'a list \<times> 'b list \<Rightarrow> ('a \<times> 'b) list" where
  "rows2 = (\<lambda>(k1, k2). zip k1 k2)"

definition sound3 :: "'a list \<times> 'b list \<times> 'c list \<Rightarrow> bool" where
  "sound3 = (\<lambda>(k1, r). sound2 r \<and> length k1 = length (rows2 r))"

definition rows3 :: "'a list \<times> 'b list \<times> 'c list \<Rightarrow> ('a \<times> 'b \<times> 'c) list" where
  "rows3 = (\<lambda>(k1, r). zip k1 (rows2 r))"

definition sound4 :: "'a list \<times> 'b list \<times> 'c list \<times> 'd list \<Rightarrow> bool" where
  "sound4 = (\<lambda>(k1, r). sound3 r \<and> length k1 = length (rows3 r))"

definition rows4 :: "'a list \<times> 'b list \<times> 'c list \<times> 'd list \<Rightarrow> ('a \<times> 'b \<times> 'c \<times> 'd) list" where
  "rows4 = (\<lambda>(k1, r). zip k1 (rows3 r))"

definition sound5 :: "'a list \<times> 'b list \<times> 'c list \<times> 'd list \<times> 'e list \<Rightarrow> bool" where
  "sound5 = (\<lambda>(k1, r). sound4 r \<and> length k1 = length (rows4 r))"

definition rows5 :: "'a list \<times> 'b list \<times> 'c list \<times> 'd list \<times> 'e list \<Rightarrow> ('a \<times> 'b \<times> 'c \<times> 'd \<times> 'e) list" where
  "rows5 = (\<lambda>(k1, r). zip k1 (rows4 r))"

lemma swaps_rows_Cons:
  assumes "swaps_rows swp sound rows"
  shows "swaps_rows (\<lambda>(k1, r) i j. do { k1' \<leftarrow> exchange k1 i j; r' \<leftarrow> swp r i j; Some (k1', r') })
    (\<lambda>(k1, r). sound r \<and> length k1 = length (rows r)) (\<lambda>(k1, r). zip k1 (rows r))"
  unfolding swaps_rows_def
proof (intro allI impI)
  fix s :: "'c list \<times> 'a" and i j
  obtain k1 r where s: "s = (k1, r)" by (cases s)
  assume a: "(\<lambda>(k1, r). sound r \<and> length k1 = length (rows r)) s"
    "in_array ((\<lambda>(k1, r). zip k1 (rows r)) s) i" "in_array ((\<lambda>(k1, r). zip k1 (rows r)) s) j"
  then have ia: "in_array k1 i" "in_array k1 j" "in_array (rows r) i" "in_array (rows r) j"
    using s by (auto simp: in_array_def)
  then obtain r' where "swp r i j = Some r'" "sound r'" "rows r' = swapped (rows r) i j"
    using assms a s unfolding swaps_rows_def by fastforce
  then show "\<exists>s'. (\<lambda>(k1, r) i j. do { k1' \<leftarrow> exchange k1 i j; r' \<leftarrow> swp r i j; Some (k1', r') }) s i j = Some s' \<and>
      (\<lambda>(k1, r). sound r \<and> length k1 = length (rows r)) s' \<and>
      (\<lambda>(k1, r). zip k1 (rows r)) s' = swapped ((\<lambda>(k1, r). zip k1 (rows r)) s) i j"
    using a ia s by (auto simp: zip_swapped)
qed

lemma swaps_rows1: "swaps_rows exchange (\<lambda>_. True) (\<lambda>s. s)"
  by (simp add: swaps_rows_def)

lemma swaps_rows2: "swaps_rows exchange2 sound2 rows2"
  using swaps_rows_Cons [OF swaps_rows1] by (simp add: exchange2_def sound2_def rows2_def)

lemma swaps_rows3: "swaps_rows exchange3 sound3 rows3"
  using swaps_rows_Cons [OF swaps_rows2] by (simp add: exchange3_def sound3_def rows3_def)

lemma swaps_rows4: "swaps_rows exchange4 sound4 rows4"
  using swaps_rows_Cons [OF swaps_rows3] by (simp add: exchange4_def sound4_def rows4_def)

lemma swaps_rows5: "swaps_rows exchange5 sound5 rows5"
  using swaps_rows_Cons [OF swaps_rows4] by (simp add: exchange5_def sound5_def rows5_def)

lemmas row_defs = sound2_def rows2_def sound3_def rows3_def sound4_def rows4_def sound5_def rows5_def
  key2_at_def key3_at_def

lemma swaps_rowsD: "swaps_rows swp sound rows \<Longrightarrow> sound s \<Longrightarrow> in_array (rows s) i \<Longrightarrow> in_array (rows s) j \<Longrightarrow>
    \<exists>s'. swp s i j = Some s' \<and> sound s' \<and> rows s' = swapped (rows s) i j"
  unfolding swaps_rows_def by blast

lemma row_sort_1K:
  assumes "swaps_rows swp sound rows"
    and "\<And>s i. sound s \<Longrightarrow> in_array (rows s) i \<Longrightarrow> aget (keys s) i = Some (key (at (rows s) i))"
  shows "row_sort (rows_1K keys swp) sound rows key (\<le>)"
  by unfold_locales (auto simp: rows_1K_def assms(2) swaps_rowsD [OF assms(1)])

lemma row_sort_2K:
  assumes "swaps_rows swp sound rows"
    and "\<And>s i. sound s \<Longrightarrow> in_array (rows s) i \<Longrightarrow> key2_at (keys1 s) (keys2 s) i = Some (key (at (rows s) i))"
  shows "row_sort (rows_2K keys1 keys2 swp) sound rows key (\<lambda>x y. fst x \<le> fst y)"
  by unfold_locales
    (auto simp: rows_2K_def Compare_2K_def assms(2) swaps_rowsD [OF assms(1)] split: if_splits)

lemma row_sort_3K:
  assumes "swaps_rows swp sound rows"
    and "\<And>s i. sound s \<Longrightarrow> in_array (rows s) i \<Longrightarrow>
      key3_at (keys1 s) (keys2 s) (keys3 s) i = Some (key (at (rows s) i))"
  shows "row_sort (rows_3K keys1 keys2 keys3 swp) sound rows key (\<lambda>x y. fst x \<le> fst y)"
  by unfold_locales
    (auto simp: rows_3K_def Compare_3K_def assms(2) swaps_rowsD [OF assms(1)] split: if_splits)

text \<open>A comparison function that the routines with the suffix \<open>Custom\<close> can be used with.\<close>

definition comparison :: "('a \<Rightarrow> 'a \<Rightarrow> int \<Rightarrow> int \<Rightarrow> int) \<Rightarrow> ('a \<Rightarrow> 'a \<Rightarrow> bool) \<Rightarrow> bool" where
  "comparison C le \<longleftrightarrow> (\<forall>x y i j. (C x y i j \<le> 0 \<longrightarrow> le x y) \<and> (C x y i j \<ge> 0 \<longrightarrow> le y x)) \<and>
     (\<forall>x y z. le x y \<longrightarrow> le y z \<longrightarrow> le x z) \<and> (\<forall>x i j. j \<le> i \<longrightarrow> C x x i j \<ge> 0) \<and> (\<forall>x i. C x x i i = 0)"

lemma row_sort_cmp:
  assumes "comparison C le"
  shows "row_sort (rows_cmp C) (\<lambda>_. True) (\<lambda>s. s) (\<lambda>k. k) le"
proof -
  have c: "C x y i j \<le> 0 \<Longrightarrow> le x y" "0 \<le> C x y i j \<Longrightarrow> le y x" "j \<le> i \<Longrightarrow> 0 \<le> C x x i j" "C x x i i = 0" for x y i j
    using assms unfolding comparison_def by blast+
  have c': "C x y i j < 0 \<Longrightarrow> le x y" "0 < C x y i j \<Longrightarrow> le y x" for x y i j
    using c(1,2) [of x y i j] by simp_all
  have t: "le x y \<Longrightarrow> le y z \<Longrightarrow> le x z" for x y z using assms unfolding comparison_def by blast
  show ?thesis
    by unfold_locales (simp_all add: rows_cmp_def swaps_rowsD [OF swaps_rows1] not_less c(4), (fact c c' t)+)
qed

lemma comparison_default: "comparison (\<lambda>x y _ _. Compare_1K x y) (\<le>)"
  by (auto simp: comparison_def Compare_1K_def)

lemma comparison_ascending: "comparison (\<lambda>x y _ _. Compare_1K_Ascending x y) (\<le>)"
  by (auto simp: comparison_def Compare_1K_Ascending_def)

lemma comparison_descending: "comparison (\<lambda>x y _ _. Compare_1K_Descending x y) (\<ge>)"
  by (auto simp: comparison_def Compare_1K_Descending_def)

lemma comparison_ascending_S: "comparison Compare_1K_Ascending_S (\<le>)"
  by (auto simp: comparison_def Compare_1K_Ascending_S_def split: if_splits)

lemma comparison_descending_S: "comparison Compare_1K_Descending_S (\<ge>)"
  by (auto simp: comparison_def Compare_1K_Descending_S_def split: if_splits)

interpretation k1: row_sort "rows_1K (\<lambda>k. k) exchange" "\<lambda>_. True" "\<lambda>s. s" "\<lambda>k. k" "(\<le>)"
  by (rule row_sort_1K [OF swaps_rows1]) simp

interpretation k1p1: row_sort "rows_1K fst exchange2" sound2 rows2 "fst" "(\<le>)"
  by (rule row_sort_1K [OF swaps_rows2]) (auto simp: row_defs aget_def at_def in_array_def nat_less_iff)

interpretation k1p2: row_sort "rows_1K fst exchange3" sound3 rows3 "fst" "(\<le>)"
  by (rule row_sort_1K [OF swaps_rows3]) (auto simp: row_defs aget_def at_def in_array_def nat_less_iff)

interpretation k1p3: row_sort "rows_1K fst exchange4" sound4 rows4 "fst" "(\<le>)"
  by (rule row_sort_1K [OF swaps_rows4]) (auto simp: row_defs aget_def at_def in_array_def nat_less_iff)

interpretation k2: row_sort "rows_2K fst (\<lambda>(_, k). k) exchange2" sound2 rows2 "\<lambda>r. r" "\<lambda>x y. fst x \<le> fst y"
  by (rule row_sort_2K [OF swaps_rows2]) (auto simp: row_defs aget_def at_def in_array_def nat_less_iff)

interpretation k2p1: row_sort "rows_2K fst (\<lambda>(_, k, _). k) exchange3" sound3 rows3 "\<lambda>(x, y, _). (x, y)" "\<lambda>x y. fst x \<le> fst y"
  by (rule row_sort_2K [OF swaps_rows3]) (auto simp: row_defs aget_def at_def in_array_def nat_less_iff)

interpretation k2p2: row_sort "rows_2K fst (\<lambda>(_, k, _, _). k) exchange4" sound4 rows4 "\<lambda>(x, y, _). (x, y)" "\<lambda>x y. fst x \<le> fst y"
  by (rule row_sort_2K [OF swaps_rows4]) (auto simp: row_defs aget_def at_def in_array_def nat_less_iff)

interpretation k2p3: row_sort "rows_2K fst (\<lambda>(_, k, _, _, _). k) exchange5" sound5 rows5 "\<lambda>(x, y, _). (x, y)" "\<lambda>x y. fst x \<le> fst y"
  by (rule row_sort_2K [OF swaps_rows5]) (auto simp: row_defs aget_def at_def in_array_def nat_less_iff)

interpretation k3p1: row_sort "rows_3K fst (\<lambda>(_, k, _, _). k) (\<lambda>(_, _, k, _). k) exchange4" sound4 rows4 "\<lambda>(x, y, z, _). (x, y, z)" "\<lambda>x y. fst x \<le> fst y"
  by (rule row_sort_3K [OF swaps_rows4]) (auto simp: row_defs aget_def at_def in_array_def nat_less_iff)

interpretation k3p2: row_sort "rows_3K fst (\<lambda>(_, k, _, _, _). k) (\<lambda>(_, _, k, _, _). k) exchange5" sound5 rows5 "\<lambda>(x, y, z, _). (x, y, z)" "\<lambda>x y. fst x \<le> fst y"
  by (rule row_sort_3K [OF swaps_rows5]) (auto simp: row_defs aget_def at_def in_array_def nat_less_iff)


section \<open>The routines sort\<close>

lemma sorted_on_map:
  "0 \<le> b \<Longrightarrow> e < int (length v) \<Longrightarrow> sorted_on (\<lambda>x y. le (f x) (f y)) b e v = sorted_on le b e (map f v)"
  by (auto simp: sorted_on_def at_def nat_less_iff)

lemma sound2_iff: "sound2 (k1, k2) \<longleftrightarrow> length k2 = length k1"
  by (auto simp: row_defs)

lemma sound3_iff: "sound3 (k1, k2, k3) \<longleftrightarrow> length k2 = length k1 \<and> length k3 = length k1"
  by (auto simp: row_defs)

lemma sound4_iff: "sound4 (k1, k2, k3, k4) \<longleftrightarrow> length k2 = length k1 \<and> length k3 = length k1 \<and> length k4 = length k1"
  by (auto simp: row_defs)

lemma sound5_iff: "sound5 (k1, k2, k3, k4, k5) \<longleftrightarrow>
    length k2 = length k1 \<and> length k3 = length k1 \<and> length k4 = length k1 \<and> length k5 = length k1"
  by (auto simp: row_defs)

lemmas sound_iffs = sound2_iff sound3_iff sound4_iff sound5_iff

text \<open>
  What sorting the range from \<open>b\<close> to \<open>e\<close> of a table of rows by a key means: the rows are the same ones,
  those outside the range have not moved, and the keys inside it are in order.
\<close>

definition sorted_table :: "('r \<Rightarrow> 'a::linorder) \<Rightarrow> int \<Rightarrow> int \<Rightarrow> 'r list \<Rightarrow> 'r list \<Rightarrow> bool" where
  "sorted_table key b e t t' \<longleftrightarrow> mset t' = mset t \<and> length t' = length t \<and>
     (\<forall>k. 0 \<le> k \<and> (k < b \<or> e < k) \<longrightarrow> at t' k = at t k) \<and> sorted_on (\<lambda>x y. key x \<le> key y) b e t'"

lemma sorted_tableI:
  "swaps b e t t' \<Longrightarrow> sorted_on (\<lambda>x y. key x \<le> key y) b e t' \<Longrightarrow> sorted_table key b e t t'"
  by (auto simp: sorted_table_def swaps_mset swaps_length swaps_outside)

lemma Q_Recursion_1K_sorts:
  assumes "0 \<le> b" and "e < int (length v)" and "length v \<le> 2 ^ 30"
  shows "\<exists>v'. Q_Recursion_1K b e v = Some v' \<and> sorted_table (\<lambda>k. k) b e v v'"
  using k1.q_recursion_sorts [where s = v and b = b and e = e] assms
  by (auto simp: Q_Recursion_1K_def k1.sorts_to_def intro: sorted_tableI)

lemma Q_Recursion_1K_Custom_sorts:
  assumes "comparison (\<lambda>x y _ _. C x y) le" and "0 \<le> b" and "e < int (length v)" and "length v \<le> 2 ^ 30"
  shows "\<exists>v'. Q_Recursion_1K_Custom b e v C = Some v' \<and> mset v' = mset v \<and> sorted_on le b e v'"
proof -
  note rs = row_sort_cmp [OF assms(1)]
  show ?thesis
    using row_sort.q_recursion_sorts [OF rs _ assms(2-4)]
    by (auto simp: Q_Recursion_1K_Custom_def row_sort.sorts_to_def [OF rs] swaps_mset)
qed

lemma Q_Unrecursion_1K_Custom_eq:
  assumes "comparison (\<lambda>x y _ _. C x y) le" and "0 \<le> b" and "e < int (length v)" and "length v \<le> 2 ^ 30"
    and "e - b \<le> 512"
  shows "Q_Unrecursion_1K_Custom b e v C = Q_Recursion_1K_Custom b e v C"
  using row_sort.q_unrecursion_eq [OF row_sort_cmp [OF assms(1)] _ assms(2-5)]
  by (simp add: Q_Recursion_1K_Custom_def Q_Unrecursion_1K_Custom_def)

lemma Q_Unrecursion_1K_Custom_S_sorts:
  assumes "comparison C le" and "0 \<le> b" and "e < int (length v)" and "length v \<le> 2 ^ 30" and "e - b \<le> 512"
  shows "\<exists>v'. Q_Unrecursion_1K_Custom_S b e v C = Some v' \<and> mset v' = mset v \<and> sorted_on le b e v'"
proof -
  note rs = row_sort_cmp [OF assms(1)]
  show ?thesis
    using row_sort.q_recursion_sorts [OF rs _ assms(2-4)] row_sort.q_unrecursion_eq [OF rs _ assms(2-5)]
    by (auto simp: Q_Unrecursion_1K_Custom_S_def row_sort.sorts_to_def [OF rs] swaps_mset)
qed

lemma Q_Recursion_1K_1P_sorts:
  assumes "sound2 (k1, k2)" and "0 \<le> b" and "e < int (length (rows2 (k1, k2)))" and "length (rows2 (k1, k2)) \<le> 2 ^ 30"
  shows "\<exists>t. Q_Recursion_1K_1P b e k1 k2 = Some t \<and> sound2 t \<and> sorted_table fst b e (rows2 (k1, k2)) (rows2 t)"
  using k1p1.q_recursion_sorts [OF assms] by (auto simp: Q_Recursion_1K_1P_def k1p1.sorts_to_def case_prod_beta intro: sorted_tableI)

lemma Q_Unrecursion_1K_1P_eq:
  assumes "sound2 (k1, k2)" and "0 \<le> b" and "e < int (length (rows2 (k1, k2)))" and "length (rows2 (k1, k2)) \<le> 2 ^ 30" and "e - b \<le> 512"
  shows "Q_Unrecursion_1K_1P b e k1 k2 = Q_Recursion_1K_1P b e k1 k2"
  using k1p1.q_unrecursion_eq [OF assms] by (simp add: Q_Recursion_1K_1P_def Q_Unrecursion_1K_1P_def)

lemma Q_Recursion_1K_2P_sorts_rows:
  assumes "sound3 (k1, k2, k3)" and "0 \<le> b" and "e < int (length (rows3 (k1, k2, k3)))" and "length (rows3 (k1, k2, k3)) \<le> 2 ^ 30"
  shows "\<exists>t. Q_Recursion_1K_2P b e k1 k2 k3 = Some t \<and> sound3 t \<and> sorted_table fst b e (rows3 (k1, k2, k3)) (rows3 t)"
  using k1p2.q_recursion_sorts [OF assms] by (auto simp: Q_Recursion_1K_2P_def k1p2.sorts_to_def case_prod_beta intro: sorted_tableI)

lemma Q_Unrecursion_1K_2P_eq:
  assumes "sound3 (k1, k2, k3)" and "0 \<le> b" and "e < int (length (rows3 (k1, k2, k3)))" and "length (rows3 (k1, k2, k3)) \<le> 2 ^ 30" and "e - b \<le> 512"
  shows "Q_Unrecursion_1K_2P b e k1 k2 k3 = Q_Recursion_1K_2P b e k1 k2 k3"
  using k1p2.q_unrecursion_eq [OF assms] by (simp add: Q_Recursion_1K_2P_def Q_Unrecursion_1K_2P_def)

lemma Q_Recursion_1K_3P_sorts:
  assumes "sound4 (k1, k2, k3, k4)" and "0 \<le> b" and "e < int (length (rows4 (k1, k2, k3, k4)))" and "length (rows4 (k1, k2, k3, k4)) \<le> 2 ^ 30"
  shows "\<exists>t. Q_Recursion_1K_3P b e k1 k2 k3 k4 = Some t \<and> sound4 t \<and> sorted_table fst b e (rows4 (k1, k2, k3, k4)) (rows4 t)"
  using k1p3.q_recursion_sorts [OF assms] by (auto simp: Q_Recursion_1K_3P_def k1p3.sorts_to_def case_prod_beta intro: sorted_tableI)

lemma Q_Unrecursion_1K_3P_eq:
  assumes "sound4 (k1, k2, k3, k4)" and "0 \<le> b" and "e < int (length (rows4 (k1, k2, k3, k4)))" and "length (rows4 (k1, k2, k3, k4)) \<le> 2 ^ 30" and "e - b \<le> 512"
  shows "Q_Unrecursion_1K_3P b e k1 k2 k3 k4 = Q_Recursion_1K_3P b e k1 k2 k3 k4"
  using k1p3.q_unrecursion_eq [OF assms] by (simp add: Q_Recursion_1K_3P_def Q_Unrecursion_1K_3P_def)

lemma Q_Recursion_2K_sorts:
  assumes "sound2 (k1, k2)" and "0 \<le> b" and "e < int (length (rows2 (k1, k2)))" and "length (rows2 (k1, k2)) \<le> 2 ^ 30"
  shows "\<exists>t. Q_Recursion_2K b e k1 k2 = Some t \<and> sound2 t \<and> sorted_table fst b e (rows2 (k1, k2)) (rows2 t)"
  using k2.q_recursion_sorts [OF assms] by (auto simp: Q_Recursion_2K_def k2.sorts_to_def case_prod_beta intro: sorted_tableI)

lemma Q_Unrecursion_2K_eq:
  assumes "sound2 (k1, k2)" and "0 \<le> b" and "e < int (length (rows2 (k1, k2)))" and "length (rows2 (k1, k2)) \<le> 2 ^ 30" and "e - b \<le> 512"
  shows "Q_Unrecursion_2K b e k1 k2 = Q_Recursion_2K b e k1 k2"
  using k2.q_unrecursion_eq [OF assms] by (simp add: Q_Recursion_2K_def Q_Unrecursion_2K_def)

lemma Q_Recursion_2K_1P_sorts:
  assumes "sound3 (k1, k2, k3)" and "0 \<le> b" and "e < int (length (rows3 (k1, k2, k3)))" and "length (rows3 (k1, k2, k3)) \<le> 2 ^ 30"
  shows "\<exists>t. Q_Recursion_2K_1P b e k1 k2 k3 = Some t \<and> sound3 t \<and> sorted_table fst b e (rows3 (k1, k2, k3)) (rows3 t)"
  using k2p1.q_recursion_sorts [OF assms] by (auto simp: Q_Recursion_2K_1P_def k2p1.sorts_to_def case_prod_beta intro: sorted_tableI)

lemma Q_Unrecursion_2K_1P_eq:
  assumes "sound3 (k1, k2, k3)" and "0 \<le> b" and "e < int (length (rows3 (k1, k2, k3)))" and "length (rows3 (k1, k2, k3)) \<le> 2 ^ 30" and "e - b \<le> 512"
  shows "Q_Unrecursion_2K_1P b e k1 k2 k3 = Q_Recursion_2K_1P b e k1 k2 k3"
  using k2p1.q_unrecursion_eq [OF assms] by (simp add: Q_Recursion_2K_1P_def Q_Unrecursion_2K_1P_def)

lemma Q_Recursion_2K_2P_sorts:
  assumes "sound4 (k1, k2, k3, k4)" and "0 \<le> b" and "e < int (length (rows4 (k1, k2, k3, k4)))" and "length (rows4 (k1, k2, k3, k4)) \<le> 2 ^ 30"
  shows "\<exists>t. Q_Recursion_2K_2P b e k1 k2 k3 k4 = Some t \<and> sound4 t \<and> sorted_table fst b e (rows4 (k1, k2, k3, k4)) (rows4 t)"
  using k2p2.q_recursion_sorts [OF assms] by (auto simp: Q_Recursion_2K_2P_def k2p2.sorts_to_def case_prod_beta intro: sorted_tableI)

lemma Q_Unrecursion_2K_2P_eq:
  assumes "sound4 (k1, k2, k3, k4)" and "0 \<le> b" and "e < int (length (rows4 (k1, k2, k3, k4)))" and "length (rows4 (k1, k2, k3, k4)) \<le> 2 ^ 30" and "e - b \<le> 512"
  shows "Q_Unrecursion_2K_2P b e k1 k2 k3 k4 = Q_Recursion_2K_2P b e k1 k2 k3 k4"
  using k2p2.q_unrecursion_eq [OF assms] by (simp add: Q_Recursion_2K_2P_def Q_Unrecursion_2K_2P_def)

lemma Q_Recursion_2K_3P_sorts:
  assumes "sound5 (k1, k2, k3, k4, k5)" and "0 \<le> b" and "e < int (length (rows5 (k1, k2, k3, k4, k5)))" and "length (rows5 (k1, k2, k3, k4, k5)) \<le> 2 ^ 30"
  shows "\<exists>t. Q_Recursion_2K_3P b e k1 k2 k3 k4 k5 = Some t \<and> sound5 t \<and> sorted_table fst b e (rows5 (k1, k2, k3, k4, k5)) (rows5 t)"
  using k2p3.q_recursion_sorts [OF assms] by (auto simp: Q_Recursion_2K_3P_def k2p3.sorts_to_def case_prod_beta intro: sorted_tableI)

lemma Q_Unrecursion_2K_3P_eq:
  assumes "sound5 (k1, k2, k3, k4, k5)" and "0 \<le> b" and "e < int (length (rows5 (k1, k2, k3, k4, k5)))" and "length (rows5 (k1, k2, k3, k4, k5)) \<le> 2 ^ 30" and "e - b \<le> 512"
  shows "Q_Unrecursion_2K_3P b e k1 k2 k3 k4 k5 = Q_Recursion_2K_3P b e k1 k2 k3 k4 k5"
  using k2p3.q_unrecursion_eq [OF assms] by (simp add: Q_Recursion_2K_3P_def Q_Unrecursion_2K_3P_def)

lemma Q_Recursion_3K_1P_sorts:
  assumes "sound4 (k1, k2, k3, k4)" and "0 \<le> b" and "e < int (length (rows4 (k1, k2, k3, k4)))" and "length (rows4 (k1, k2, k3, k4)) \<le> 2 ^ 30"
  shows "\<exists>t. Q_Recursion_3K_1P b e k1 k2 k3 k4 = Some t \<and> sound4 t \<and> sorted_table fst b e (rows4 (k1, k2, k3, k4)) (rows4 t)"
  using k3p1.q_recursion_sorts [OF assms] by (auto simp: Q_Recursion_3K_1P_def k3p1.sorts_to_def case_prod_beta intro: sorted_tableI)

lemma Q_Unrecursion_3K_1P_eq:
  assumes "sound4 (k1, k2, k3, k4)" and "0 \<le> b" and "e < int (length (rows4 (k1, k2, k3, k4)))" and "length (rows4 (k1, k2, k3, k4)) \<le> 2 ^ 30" and "e - b \<le> 512"
  shows "Q_Unrecursion_3K_1P b e k1 k2 k3 k4 = Q_Recursion_3K_1P b e k1 k2 k3 k4"
  using k3p1.q_unrecursion_eq [OF assms] by (simp add: Q_Recursion_3K_1P_def Q_Unrecursion_3K_1P_def)

lemma Q_Recursion_3K_2P_sorts:
  assumes "sound5 (k1, k2, k3, k4, k5)" and "0 \<le> b" and "e < int (length (rows5 (k1, k2, k3, k4, k5)))" and "length (rows5 (k1, k2, k3, k4, k5)) \<le> 2 ^ 30"
  shows "\<exists>t. Q_Recursion_3K_2P b e k1 k2 k3 k4 k5 = Some t \<and> sound5 t \<and> sorted_table fst b e (rows5 (k1, k2, k3, k4, k5)) (rows5 t)"
  using k3p2.q_recursion_sorts [OF assms] by (auto simp: Q_Recursion_3K_2P_def k3p2.sorts_to_def case_prod_beta intro: sorted_tableI)

lemma Q_Unrecursion_3K_2P_eq:
  assumes "sound5 (k1, k2, k3, k4, k5)" and "0 \<le> b" and "e < int (length (rows5 (k1, k2, k3, k4, k5)))" and "length (rows5 (k1, k2, k3, k4, k5)) \<le> 2 ^ 30" and "e - b \<le> 512"
  shows "Q_Unrecursion_3K_2P b e k1 k2 k3 k4 k5 = Q_Recursion_3K_2P b e k1 k2 k3 k4 k5"
  using k3p2.q_unrecursion_eq [OF assms] by (simp add: Q_Recursion_3K_2P_def Q_Unrecursion_3K_2P_def)

text \<open>
  The comparison of two keys answers \<open>-1\<close> whichever of two different second keys is the larger, so the second
  key does not take part in the order.
\<close>

lemma second_key_not_sorted:
  "Q_Recursion_2K 0 1 [1, 1] [2, 1 :: int] = Some ([1 :: int, 1], [2, 1])"
  by code_simp

text \<open>C27: The quicksort of the dense index (one key array, two payload arrays) returns on every range of arrays of up
  to \<open>2^30\<close> elements. The keys of the range are in order, every key still has its two payloads, and
  nothing outside the range has moved.\<close>

theorem Q_Recursion_1K_2P_sorts:
  assumes "length k2 = length k1" and "length k3 = length k1" and "length k1 \<le> 2 ^ 30"
    and "0 \<le> b" and "e < int (length k1)"
  shows "\<exists>k1' k2' k3'. Q_Recursion_1K_2P b e k1 k2 k3 = Some (k1', k2', k3') \<and>
    length k1' = length k1 \<and> length k2' = length k1 \<and> length k3' = length k1 \<and>
    mset (zip k1' (zip k2' k3')) = mset (zip k1 (zip k2 k3)) \<and>
    sorted_on (\<le>) b e k1' \<and>
    (\<forall>k. 0 \<le> k \<and> k < int (length k1) \<and> (k < b \<or> e < k) \<longrightarrow>
      at k1' k = at k1 k \<and> at k2' k = at k2 k \<and> at k3' k = at k3 k)"
proof -
  obtain k1' k2' k3' where t: "Q_Recursion_1K_2P b e k1 k2 k3 = Some (k1', k2', k3')" "sound3 (k1', k2', k3')"
    and st: "sorted_table fst b e (rows3 (k1, k2, k3)) (rows3 (k1', k2', k3'))"
    using Q_Recursion_1K_2P_sorts_rows [of k1 k2 k3 b e] assms by (auto simp: sound_iffs rows3_def rows2_def)
  have l: "length k1' = length k1" "length k2' = length k1" "length k3' = length k1"
    using t(2) st assms by (auto simp: sound_iffs rows3_def rows2_def sorted_table_def)
  have "sorted_on (\<lambda>x y. fst x \<le> fst y) b e (zip k1' (zip k2' k3'))"
    using st by (simp add: sorted_table_def rows3_def rows2_def)
  then have "sorted_on (\<le>) b e k1'" using sorted_on_map [of b e "zip k1' (zip k2' k3')" "(\<le>)" fst] l assms by simp
  moreover have "at k1' k = at k1 k \<and> at k2' k = at k2 k \<and> at k3' k = at k3 k"
    if "0 \<le> k" "k < int (length k1)" "k < b \<or> e < k" for k
    using st that l assms by (auto simp: sorted_table_def rows3_def rows2_def at_zip in_array_def)
  ultimately show ?thesis using t(1) l st by (auto simp: sorted_table_def rows3_def rows2_def)
qed

theorem Q_Recursion_1K_2P_sorts_witness:
  "\<exists>k1' k2' k3'. Q_Recursion_1K_2P 0 3 [3, 1, 2, 1 :: int] ''cabd'' [30, 10, 20, 11 :: nat] = Some (k1', k2', k3') \<and>
    mset (zip k1' (zip k2' k3')) = {#(3, CHR ''c'', 30), (1, CHR ''a'', 10), (2, CHR ''b'', 20), (1, CHR ''d'', 11)#} \<and>
    sorted_on (\<le>) 0 3 k1'"
  using Q_Recursion_1K_2P_sorts [of "''cabd''" "[3, 1, 2, 1 :: int]" "[30, 10, 20, 11 :: nat]" 0 3] by auto

text \<open>C28: The stack-driven quicksort computes what the recursive one computes, and so sorts, on every range of
  at most 513 elements: the stack of 1024 integers cannot overflow there.\<close>

theorem Q_Unrecursion_1K_sorts:
  assumes "0 \<le> b" and "e < int (length v)" and "length v \<le> 2 ^ 30" and "e - b \<le> 512"
  shows "Q_Unrecursion_1K b e v = Q_Recursion_1K b e v \<and>
    (\<exists>v'. Q_Unrecursion_1K b e v = Some v' \<and> sorted_table (\<lambda>k. k) b e v v')"
  using k1.q_unrecursion_eq [where s = v and b = b and e = e] Q_Recursion_1K_sorts [of b e v] assms
  by (auto simp: Q_Unrecursion_1K_def Q_Recursion_1K_def)

theorem Q_Unrecursion_1K_sorts_witness:
  "\<exists>v'. Q_Unrecursion_1K 1 4 [9, 4, 2, 8, 2, 0 :: int] = Some v' \<and>
    sorted_table (\<lambda>k. k) 1 4 [9, 4, 2, 8, 2, 0] v'"
  by (rule Q_Unrecursion_1K_sorts [THEN conjunct2]) simp_all

end
