(* ===== verification/Array_Sort.thy ===== *)
theory Array_Sort
  imports Row_Sort
begin

text \<open>
  The searches and the one-array sorts of \<open>include/common/qalgorithm.h\<close>. Every loop of the source is
  a function of its own; loops that the code bounds by their indices have a termination proof, the
  unbounded loop of \<open>partition\<close> and the recursion of \<open>Q_Quick_Sort\<close> and \<open>Q_Quick_Sort_3\<close> are partial functions
  whose value \<^term>\<open>None\<close> also stands for not returning. The searches are proved to find what is there;
  the bubble, insertion, selection and Shell sorts are proved to sort every range. \<open>Q_Quick_Sort\<close> is proved to sort
  ranges of up to 21 elements, and never to return on longer ranges of equal keys, because its
  partition exchanges two keys equal to the pivot for ever.
\<close>

section \<open>Searches\<close>

definition Compare_Key_Default :: "'a::linorder \<Rightarrow> 'a \<Rightarrow> int" where
  "Compare_Key_Default tKey1 tKey2 = (if tKey1 > tKey2 then 1 else if tKey1 < tKey2 then -1 else 0)"

text \<open>\<open>for(lPos=lBegin; lPos<=lEnd; ++lPos)\<close> with a test that returns.\<close>

function find_pos :: "('a \<Rightarrow> bool) \<Rightarrow> 'a list \<Rightarrow> int \<Rightarrow> int \<Rightarrow> int option" where
  "find_pos found v lPos lEnd =
     (if lPos \<le> lEnd then do {
        x \<leftarrow> aget v lPos;
        if found x then Some lPos else find_pos found v (lPos + 1) lEnd }
      else Some (-1))"
  by pat_completeness auto
termination by (relation "measure (\<lambda>(found, v, lPos, lEnd). nat (lEnd + 1 - lPos))") auto

definition Q_Sequential_Search_Default :: "int \<Rightarrow> int \<Rightarrow> 'a::linorder list \<Rightarrow> 'a \<Rightarrow> int option" where
  "Q_Sequential_Search_Default lBegin lEnd tpLibrary tKey =
     (if lBegin > lEnd then Some (-1) else find_pos (\<lambda>x. x = tKey) tpLibrary lBegin lEnd)"

definition Q_Sequential_Search_Custom ::
  "int \<Rightarrow> int \<Rightarrow> 'a list \<Rightarrow> 'a \<Rightarrow> ('a \<Rightarrow> 'a \<Rightarrow> int) \<Rightarrow> int option" where
  "Q_Sequential_Search_Custom lBegin lEnd tpLibrary tKey Compare_Key =
     (if lBegin > lEnd then Some (-1) else find_pos (\<lambda>x. Compare_Key x tKey = 0) tpLibrary lBegin lEnd)"

text \<open>The loop \<open>while(lBegin<=lEnd)\<close> of the binary searches.\<close>

function binary_loop :: "('a \<Rightarrow> bool) \<Rightarrow> ('a \<Rightarrow> bool) \<Rightarrow> 'a list \<Rightarrow> int \<Rightarrow> int \<Rightarrow> int option" where
  "binary_loop lo hi v lBegin lEnd =
     (if lBegin \<le> lEnd then
        (case half_sum lBegin lEnd of
           None \<Rightarrow> None
         | Some lMidVal \<Rightarrow> do {
             tMidVal \<leftarrow> aget v lMidVal;
             if lo tMidVal then binary_loop lo hi v (lMidVal + 1) lEnd
             else if hi tMidVal then binary_loop lo hi v lBegin (lMidVal - 1)
             else Some lMidVal })
      else Some (-1))"
  by pat_completeness auto
termination
  by (relation "measure (\<lambda>(lo, hi, v, lBegin, lEnd). nat (lEnd + 1 - lBegin))")
    (auto simp: half_sum_def split: if_splits)

definition Q_Binary_Search_Default :: "int \<Rightarrow> int \<Rightarrow> 'a::linorder list \<Rightarrow> 'a \<Rightarrow> int option" where
  "Q_Binary_Search_Default lBegin lEnd tpLibrary tKey =
     (if lBegin > lEnd then Some (-1)
      else binary_loop (\<lambda>x. x < tKey) (\<lambda>x. x > tKey) tpLibrary lBegin lEnd)"

definition Q_Binary_Search_Custom ::
  "int \<Rightarrow> int \<Rightarrow> 'a list \<Rightarrow> 'a \<Rightarrow> ('a \<Rightarrow> 'a \<Rightarrow> int) \<Rightarrow> int option" where
  "Q_Binary_Search_Custom lBegin lEnd tpLibrary tKey Compare_Key =
     (if lBegin > lEnd then Some (-1)
      else binary_loop (\<lambda>x. Compare_Key x tKey < 0) (\<lambda>x. Compare_Key x tKey > 0) tpLibrary lBegin lEnd)"

function Q_Binary_Search_Recursion :: "int \<Rightarrow> int \<Rightarrow> 'a::linorder list \<Rightarrow> 'a \<Rightarrow> int option" where
  "Q_Binary_Search_Recursion lBegin lEnd tpLibrary tKey =
     (if lBegin > lEnd then Some (-1)
      else (case half_sum lBegin lEnd of
              None \<Rightarrow> None
            | Some lMidVal \<Rightarrow> do {
                tMidVal \<leftarrow> aget tpLibrary lMidVal;
                if tMidVal < tKey then Q_Binary_Search_Recursion (lMidVal + 1) lEnd tpLibrary tKey
                else if tMidVal > tKey then Q_Binary_Search_Recursion lBegin (lMidVal - 1) tpLibrary tKey
                else Some lMidVal }))"
  by pat_completeness auto
termination
  by (relation "measure (\<lambda>(lBegin, lEnd, tpLibrary, tKey). nat (lEnd + 1 - lBegin))")
    (auto simp: half_sum_def split: if_splits)


section \<open>Bubble sort\<close>

text \<open>\<open>for(j=lEnd; j>=i; --j)\<close>, with the flag \<open>exchange\<close>.\<close>

function bubble_up :: "'a::linorder list \<Rightarrow> int \<Rightarrow> int \<Rightarrow> bool \<Rightarrow> ('a list \<times> bool) option" where
  "bubble_up v i j exchanged =
     (if j \<ge> i then do {
        x \<leftarrow> aget v (j - 1);
        y \<leftarrow> aget v j;
        if x > y then do { v1 \<leftarrow> exchange v (j - 1) j; bubble_up v1 i (j - 1) True }
        else bubble_up v i (j - 1) exchanged }
      else Some (v, exchanged))"
  by pat_completeness auto
termination by (relation "measure (\<lambda>(v, i, j, exchanged). nat (j + 1 - i))") auto

function bubble_loop :: "'a::linorder list \<Rightarrow> int \<Rightarrow> int \<Rightarrow> 'a list option" where
  "bubble_loop v i lEnd =
     (if i \<le> lEnd then do {
        (v1, exchanged) \<leftarrow> bubble_up v i lEnd False;
        if exchanged then bubble_loop v1 (i + 1) lEnd else Some v1 }
      else Some v)"
  by pat_completeness auto
termination by (relation "measure (\<lambda>(v, i, lEnd). nat (lEnd + 1 - i))") auto

definition Q_Bubble_Sort_Improved :: "'a::linorder list \<Rightarrow> int \<Rightarrow> int \<Rightarrow> 'a list option" where
  "Q_Bubble_Sort_Improved v lBegin lEnd = bubble_loop v (lBegin + 1) lEnd"


section \<open>Insertion sort\<close>

text \<open>The loop that looks for the place of \<open>temp\<close> by halving.\<close>

partial_function (option) insert_pos :: "'a::linorder list \<Rightarrow> 'a \<Rightarrow> int \<Rightarrow> int \<Rightarrow> int option" where
  "insert_pos v temp low high =
     (if low \<le> high then do {
        middle \<leftarrow> half_quot low high;
        x \<leftarrow> aget v middle;
        if temp < x then insert_pos v temp low (middle - 1) else insert_pos v temp (middle + 1) high }
      else Some low)"

text \<open>\<open>for(k=i-1; k>=low; --k) v[k+1]=v[k];\<close>\<close>

function shift_up :: "'a list \<Rightarrow> int \<Rightarrow> int \<Rightarrow> 'a list option" where
  "shift_up v low k =
     (if k \<ge> low then do {
        x \<leftarrow> aget v k;
        v1 \<leftarrow> aset v (k + 1) x;
        shift_up v1 low (k - 1) }
      else Some v)"
  by pat_completeness auto
termination by (relation "measure (\<lambda>(v, low, k). nat (k + 1 - low))") auto

definition insert_step :: "'a::linorder list \<Rightarrow> int \<Rightarrow> int \<Rightarrow> 'a list option" where
  "insert_step v lBegin i = do {
     temp \<leftarrow> aget v i;
     low \<leftarrow> insert_pos v temp lBegin (i - 1);
     v1 \<leftarrow> shift_up v low (i - 1);
     aset v1 low temp }"

function insert_loop :: "'a::linorder list \<Rightarrow> int \<Rightarrow> int \<Rightarrow> int \<Rightarrow> 'a list option" where
  "insert_loop v lBegin i lEnd =
     (if i \<le> lEnd then do { v1 \<leftarrow> insert_step v lBegin i; insert_loop v1 lBegin (i + 1) lEnd } else Some v)"
  by pat_completeness auto
termination by (relation "measure (\<lambda>(v, lBegin, i, lEnd). nat (lEnd + 1 - i))") auto

definition Q_Insert_Sort :: "'a::linorder list \<Rightarrow> int \<Rightarrow> int \<Rightarrow> 'a list option" where
  "Q_Insert_Sort v lBegin lEnd = insert_loop v lBegin (lBegin + 1) lEnd"


section \<open>Shell sort\<close>

text \<open>\<open>do { v[j+gap]=v[j]; j-=gap; } while(j>=lBegin&&temp<v[j]);\<close>\<close>

partial_function (option) shell_shift :: "'a::linorder list \<Rightarrow> 'a \<Rightarrow> int \<Rightarrow> int \<Rightarrow> int \<Rightarrow> ('a list \<times> int) option" where
  "shell_shift v temp lBegin gap j = do {
     x \<leftarrow> aget v j;
     v1 \<leftarrow> aset v (j + gap) x;
     if j - gap \<ge> lBegin then do {
       y \<leftarrow> aget v1 (j - gap);
       if temp < y then shell_shift v1 temp lBegin gap (j - gap) else Some (v1, j - gap) }
     else Some (v1, j - gap) }"

definition shell_step :: "'a::linorder list \<Rightarrow> int \<Rightarrow> int \<Rightarrow> int \<Rightarrow> 'a list option" where
  "shell_step v lBegin gap i = do {
     x \<leftarrow> aget v i;
     y \<leftarrow> aget v (i - gap);
     if x < y then do {
       (v1, j) \<leftarrow> shell_shift v x lBegin gap (i - gap);
       aset v1 (j + gap) x }
     else Some v }"

function shell_pass :: "'a::linorder list \<Rightarrow> int \<Rightarrow> int \<Rightarrow> int \<Rightarrow> int \<Rightarrow> 'a list option" where
  "shell_pass v lBegin gap i lEnd =
     (if i \<le> lEnd then do { v1 \<leftarrow> shell_step v lBegin gap i; shell_pass v1 lBegin gap (i + 1) lEnd } else Some v)"
  by pat_completeness auto
termination by (relation "measure (\<lambda>(v, lBegin, gap, i, lEnd). nat (lEnd + 1 - i))") auto

partial_function (option) shell_gaps :: "'a::linorder list \<Rightarrow> int \<Rightarrow> int \<Rightarrow> int \<Rightarrow> 'a list option" where
  "shell_gaps v lBegin lEnd gap = do {
     v1 \<leftarrow> shell_pass v lBegin (c_div gap 3 + 1) (lBegin + (c_div gap 3 + 1)) lEnd;
     if c_div gap 3 + 1 > 1 then shell_gaps v1 lBegin lEnd (c_div gap 3 + 1) else Some v1 }"

definition Q_Shell_Sort :: "'a::linorder list \<Rightarrow> int \<Rightarrow> int \<Rightarrow> 'a list option" where
  "Q_Shell_Sort v lBegin lEnd = shell_gaps v lBegin lEnd (lEnd - lBegin + 1)"


section \<open>Quicksort with a median pivot\<close>

definition median3 :: "'a::linorder list \<Rightarrow> int \<Rightarrow> int \<Rightarrow> ('a list \<times> 'a) option" where
  "median3 v lBegin lEnd = do {
     mid \<leftarrow> half_quot lBegin lEnd;
     x \<leftarrow> aget v mid;
     y \<leftarrow> aget v lBegin;
     let k = (if x < y then mid else lBegin);
     z \<leftarrow> aget v lEnd;
     w \<leftarrow> aget v k;
     let k = (if z < w then lEnd else k);
     v1 \<leftarrow> (if k \<noteq> lBegin then exchange v k lBegin else Some v);
     x1 \<leftarrow> aget v1 mid;
     z1 \<leftarrow> aget v1 lEnd;
     v2 \<leftarrow> (if mid \<noteq> lEnd \<and> x1 < z1 then exchange v1 mid lEnd else Some v1);
     p \<leftarrow> aget v2 lEnd;
     Some (v2, p) }"

function part_up :: "'a::linorder list \<Rightarrow> 'a \<Rightarrow> int \<Rightarrow> int \<Rightarrow> int option" where
  "part_up v pivot i j =
     (if i < j then do { x \<leftarrow> aget v i; if x < pivot then part_up v pivot (i + 1) j else Some i } else Some i)"
  by pat_completeness auto
termination by (relation "measure (\<lambda>(v, pivot, i, j). nat (j - i))") auto

function part_down :: "'a::linorder list \<Rightarrow> 'a \<Rightarrow> int \<Rightarrow> int \<Rightarrow> int option" where
  "part_down v pivot i j =
     (if i < j then do { x \<leftarrow> aget v j; if pivot < x then part_down v pivot i (j - 1) else Some j } else Some j)"
  by pat_completeness auto
termination by (relation "measure (\<lambda>(v, pivot, i, j). nat (j - i))") auto

text \<open>The loop \<open>Q_FOREVER\<close> of \<open>partition\<close>.\<close>

partial_function (option) part_loop :: "'a::linorder list \<Rightarrow> 'a \<Rightarrow> int \<Rightarrow> int \<Rightarrow> ('a list \<times> int \<times> int) option" where
  "part_loop v pivot i j = do {
     i1 \<leftarrow> part_up v pivot i j;
     j1 \<leftarrow> part_down v pivot i1 j;
     if i1 < j1 then do { v1 \<leftarrow> exchange v i1 j1; part_loop v1 pivot i1 j1 } else Some (v, i1, j1) }"

definition q_partition :: "'a::linorder list \<Rightarrow> int \<Rightarrow> int \<Rightarrow> ('a list \<times> int) option" where
  "q_partition v lBegin lEnd =
     (if lBegin < lEnd then do {
        (v1, pivot) \<leftarrow> median3 v lBegin lEnd;
        (v2, i, j) \<leftarrow> part_loop v1 pivot lBegin (lEnd - 1);
        x \<leftarrow> aget v2 i;
        if x > pivot then do { v3 \<leftarrow> aset v2 lEnd x; v4 \<leftarrow> aset v3 i pivot; Some (v4, i) }
        else Some (v2, i) }
      else Some (v, lBegin))"

partial_function (option) Q_Quick_Sort :: "'a::linorder list \<Rightarrow> int \<Rightarrow> int \<Rightarrow> 'a list option" where
  "Q_Quick_Sort v lBegin lEnd =
     (if lEnd - lBegin \<le> 20 then Q_Insert_Sort v lBegin lEnd
      else do {
        (v1, pivotpos) \<leftarrow> q_partition v lBegin lEnd;
        v2 \<leftarrow> Q_Quick_Sort v1 lBegin (pivotpos - 1);
        Q_Quick_Sort v2 (pivotpos + 1) lEnd })"


section \<open>Three-way quicksort\<close>

text \<open>\<open>while(v[++i]<pivot) if(i==j) break;\<close> and \<open>while(pivot<v[--j]) if(j==i) break;\<close>\<close>

partial_function (option) three_up :: "'a::linorder list \<Rightarrow> 'a \<Rightarrow> int \<Rightarrow> int \<Rightarrow> int option" where
  "three_up v pivot i j = do {
     x \<leftarrow> aget v (i + 1);
     if x < pivot then (if i + 1 = j then Some (i + 1) else three_up v pivot (i + 1) j) else Some (i + 1) }"

partial_function (option) three_down :: "'a::linorder list \<Rightarrow> 'a \<Rightarrow> int \<Rightarrow> int \<Rightarrow> int option" where
  "three_down v pivot i j = do {
     x \<leftarrow> aget v (j - 1);
     if pivot < x then (if j - 1 = i then Some (j - 1) else three_down v pivot i (j - 1)) else Some (j - 1) }"

partial_function (option) three_loop ::
  "'a::linorder list \<Rightarrow> 'a \<Rightarrow> int \<Rightarrow> int \<Rightarrow> int \<Rightarrow> int \<Rightarrow> ('a list \<times> int \<times> int \<times> int \<times> int) option" where
  "three_loop v pivot i j p q = do {
     i1 \<leftarrow> three_up v pivot i j;
     j1 \<leftarrow> three_down v pivot i1 j;
     if i1 \<ge> j1 then Some (v, i1, j1, p, q)
     else do {
       v1 \<leftarrow> exchange v i1 j1;
       x \<leftarrow> aget v1 i1;
       v2 \<leftarrow> (if x = pivot then exchange v1 (p + 1) i1 else Some v1);
       y \<leftarrow> aget v2 j1;
       v3 \<leftarrow> (if pivot = y then exchange v2 (q - 1) j1 else Some v2);
       three_loop v3 pivot i1 j1 (if x = pivot then p + 1 else p) (if pivot = y then q - 1 else q) } }"

text \<open>\<open>for(k=1; k<=p; k++, j--)\<close> and \<open>for(k=lEnd-1; k>=q; k--, i++)\<close>\<close>

function three_left :: "'a list \<Rightarrow> int \<Rightarrow> int \<Rightarrow> int \<Rightarrow> ('a list \<times> int) option" where
  "three_left v k p j =
     (if k \<le> p then do { v1 \<leftarrow> exchange v k j; three_left v1 (k + 1) p (j - 1) } else Some (v, j))"
  by pat_completeness auto
termination by (relation "measure (\<lambda>(v, k, p, j). nat (p + 1 - k))") auto

function three_right :: "'a list \<Rightarrow> int \<Rightarrow> int \<Rightarrow> int \<Rightarrow> ('a list \<times> int) option" where
  "three_right v k q i =
     (if k \<ge> q then do { v1 \<leftarrow> exchange v k i; three_right v1 (k - 1) q (i + 1) } else Some (v, i))"
  by pat_completeness auto
termination by (relation "measure (\<lambda>(v, k, q, i). nat (k + 1 - q))") auto

partial_function (option) Q_Quick_Sort_3 :: "'a::linorder list \<Rightarrow> int \<Rightarrow> int \<Rightarrow> 'a list option" where
  "Q_Quick_Sort_3 v lBegin lEnd =
     (if lEnd \<le> lBegin then Some v
      else do {
        pivot \<leftarrow> aget v lEnd;
        (v1, i, j, p, q) \<leftarrow> three_loop v pivot (lBegin - 1) lEnd (lBegin - 1) lEnd;
        v2 \<leftarrow> exchange v1 i lEnd;
        (v3, j1) \<leftarrow> three_left v2 1 p (i - 1);
        (v4, i1) \<leftarrow> three_right v3 (lEnd - 1) q (i + 1);
        v5 \<leftarrow> Q_Quick_Sort_3 v4 lBegin j1;
        Q_Quick_Sort_3 v5 i1 lEnd })"


section \<open>Selection sort\<close>

text \<open>\<open>for(j=i+1; j<=lEnd; ++j) if(v[j]<v[k]) k=j;\<close>\<close>

function select_min :: "'a::linorder list \<Rightarrow> int \<Rightarrow> int \<Rightarrow> int \<Rightarrow> int option" where
  "select_min v k j lEnd =
     (if j \<le> lEnd then do {
        x \<leftarrow> aget v j;
        y \<leftarrow> aget v k;
        select_min v (if x < y then j else k) (j + 1) lEnd }
      else Some k)"
  by pat_completeness auto
termination by (relation "measure (\<lambda>(v, k, j, lEnd). nat (lEnd + 1 - j))") auto

function select_loop :: "'a::linorder list \<Rightarrow> int \<Rightarrow> int \<Rightarrow> 'a list option" where
  "select_loop v i lEnd =
     (if i < lEnd then do {
        k \<leftarrow> select_min v i (i + 1) lEnd;
        v1 \<leftarrow> (if k \<noteq> i then exchange v i k else Some v);
        select_loop v1 (i + 1) lEnd }
      else Some v)"
  by pat_completeness auto
termination by (relation "measure (\<lambda>(v, i, lEnd). nat (lEnd - i))") auto

definition Q_Slect_Sort :: "'a::linorder list \<Rightarrow> int \<Rightarrow> int \<Rightarrow> 'a list option" where
  "Q_Slect_Sort v lBegin lEnd = select_loop v lBegin lEnd"


section \<open>Heap sort\<close>

partial_function (option) heapAdjust :: "'a::linorder list \<Rightarrow> int \<Rightarrow> int \<Rightarrow> 'a list option" where
  "heapAdjust v num i = do {
     largest \<leftarrow> (if 2 * i + 1 < num then do {
         y \<leftarrow> aget v (2 * i + 1); x \<leftarrow> aget v i; Some (if y > x then 2 * i + 1 else i) } else Some i);
     largest \<leftarrow> (if 2 * i + 2 < num then do {
         y \<leftarrow> aget v (2 * i + 2); x \<leftarrow> aget v largest; Some (if y > x then 2 * i + 2 else largest) } else Some largest);
     if largest \<noteq> i then do { v1 \<leftarrow> exchange v i largest; heapAdjust v1 num largest } else Some v }"

function heap_build :: "'a::linorder list \<Rightarrow> int \<Rightarrow> int \<Rightarrow> 'a list option" where
  "heap_build v num i = (if i \<ge> 0 then do { v1 \<leftarrow> heapAdjust v num i; heap_build v1 num (i - 1) } else Some v)"
  by pat_completeness auto
termination by (relation "measure (\<lambda>(v, num, i). nat (i + 1))") auto

function heap_drain :: "'a::linorder list \<Rightarrow> int \<Rightarrow> 'a list option" where
  "heap_drain v i =
     (if i > 0 then do { v1 \<leftarrow> exchange v 0 i; v2 \<leftarrow> heapAdjust v1 i 0; heap_drain v2 (i - 1) } else Some v)"
  by pat_completeness auto
termination by (relation "measure (\<lambda>(v, i). nat i)") auto

definition Q_Heap_Sort :: "'a::linorder list \<Rightarrow> int \<Rightarrow> 'a list option" where
  "Q_Heap_Sort v num = do { v1 \<leftarrow> heap_build v num (c_div num 2 - 1); heap_drain v1 (num - 1) }"

declare find_pos.simps [simp del] binary_loop.simps [simp del] Q_Binary_Search_Recursion.simps [simp del]
  bubble_up.simps [simp del] bubble_loop.simps [simp del] shift_up.simps [simp del] insert_loop.simps [simp del]
  shell_pass.simps [simp del] part_up.simps [simp del] part_down.simps [simp del] three_left.simps [simp del]
  three_right.simps [simp del] select_min.simps [simp del] select_loop.simps [simp del]
  heap_build.simps [simp del] heap_drain.simps [simp del]

declare insert_pos.simps [code] shell_shift.simps [code] shell_gaps.simps [code] part_loop.simps [code]
  Q_Quick_Sort.simps [code] three_up.simps [code] three_down.simps [code] three_loop.simps [code]
  Q_Quick_Sort_3.simps [code] heapAdjust.simps [code]


section \<open>The searches find what is there\<close>

lemma find_pos_spec:
  assumes "0 \<le> b" and "e < int (length v)"
  shows "\<exists>r. find_pos P v b e = Some r \<and>
    (r = -1 \<and> (\<forall>k. b \<le> k \<and> k \<le> e \<longrightarrow> \<not> P (at v k)) \<or>
     b \<le> r \<and> r \<le> e \<and> P (at v r) \<and> (\<forall>k. b \<le> k \<and> k < r \<longrightarrow> \<not> P (at v k)))"
  using assms
proof (induction "nat (e + 1 - b)" arbitrary: b rule: less_induct)
  case less
  show ?case
  proof (cases "b \<le> e \<and> \<not> P (at v b)")
    case True
    then have "aget v b = Some (at v b)" using less.prems by (simp add: in_array_def)
    then have u: "find_pos P v b e = find_pos P v (b + 1) e" using True by (simp add: find_pos.simps [of P v b e])
    have "b = k \<or> b + 1 \<le> k" if "b \<le> k" for k using that by auto
    then show ?thesis using less.hyps [of "b + 1"] less.prems True unfolding u by fastforce
  next
    case False
    then show ?thesis using less.prems by (subst find_pos.simps) (auto simp: in_array_def)
  qed
qed

lemma half_sum_mid:
  "0 \<le> b \<Longrightarrow> b \<le> e \<Longrightarrow> e < 2 ^ 30 \<Longrightarrow> half_sum b e = Some ((b + e) div 2) \<and> b \<le> (b + e) div 2 \<and> (b + e) div 2 \<le> e"
  by (auto simp: half_sum_def is_int32_def)

lemma binary_loop_spec:
  assumes "0 \<le> b" and "e < int (length v)" and "length v \<le> 2 ^ 30"
    and "sorted_on (\<lambda>x y. hi x \<longrightarrow> hi y) b e v" and "sorted_on (\<lambda>x y. lo y \<longrightarrow> lo x) b e v"
    and excl: "\<And>x. \<not> (lo x \<and> hi x)"
  shows "\<exists>r. binary_loop lo hi v b e = Some r \<and>
    (r = -1 \<and> (\<forall>k. b \<le> k \<and> k \<le> e \<longrightarrow> lo (at v k) \<or> hi (at v k)) \<or>
     b \<le> r \<and> r \<le> e \<and> \<not> lo (at v r) \<and> \<not> hi (at v r))"
  using assms(1-5)
proof (induction "nat (e + 1 - b)" arbitrary: b e rule: less_induct)
  case less
  show ?case
  proof (cases "b \<le> e")
    case False
    then show ?thesis by (subst binary_loop.simps) auto
  next
    case True
    define m where "m = (b + e) div 2"
    have hm: "half_sum b e = Some m" "b \<le> m" "m \<le> e"
      using half_sum_mid [of b e] less.prems True by (auto simp: m_def)
    have am: "aget v m = Some (at v m)" using hm less.prems by (simp add: in_array_def)
    have mono: "sorted_on le b e v \<Longrightarrow> b \<le> b' \<Longrightarrow> e' \<le> e \<Longrightarrow> sorted_on le b' e' v" for le b' e'
      by (auto simp: sorted_on_def)
    consider "lo (at v m)" | "hi (at v m)" "\<not> lo (at v m)" | "\<not> lo (at v m)" "\<not> hi (at v m)" by blast
    then show ?thesis
    proof cases
      case 1
      then have u: "binary_loop lo hi v b e = binary_loop lo hi v (m + 1) e"
        using hm am True by (simp add: binary_loop.simps [of lo hi v b e])
      have low: "lo (at v k)" if "b \<le> k" "k \<le> m" for k
        using that 1 sorted_onD [OF less.prems(5), of k m] hm by (cases "k = m") auto
      have "\<exists>r. binary_loop lo hi v (m + 1) e = Some r \<and>
        (r = -1 \<and> (\<forall>k. m + 1 \<le> k \<and> k \<le> e \<longrightarrow> lo (at v k) \<or> hi (at v k)) \<or>
          m + 1 \<le> r \<and> r \<le> e \<and> \<not> lo (at v r) \<and> \<not> hi (at v r))"
        by (rule less.hyps)
          (use hm less.prems(1-3) mono [OF less.prems(4), of "m + 1" e] mono [OF less.prems(5), of "m + 1" e] in simp_all)
      moreover have "lo (at v k) \<or> hi (at v k)"
        if "\<forall>k. m + 1 \<le> k \<and> k \<le> e \<longrightarrow> lo (at v k) \<or> hi (at v k)" "b \<le> k" "k \<le> e" for k
        using that low [of k] by (cases "k \<le> m") auto
      ultimately show ?thesis using hm(2) unfolding u by force
    next
      case 2
      then have u: "binary_loop lo hi v b e = binary_loop lo hi v b (m - 1)"
        using hm am True by (simp add: binary_loop.simps [of lo hi v b e])
      have high: "hi (at v k)" if "m \<le> k" "k \<le> e" for k
        using that 2 sorted_onD [OF less.prems(4), of m k] hm by (cases "k = m") auto
      have "\<exists>r. binary_loop lo hi v b (m - 1) = Some r \<and>
        (r = -1 \<and> (\<forall>k. b \<le> k \<and> k \<le> m - 1 \<longrightarrow> lo (at v k) \<or> hi (at v k)) \<or>
          b \<le> r \<and> r \<le> m - 1 \<and> \<not> lo (at v r) \<and> \<not> hi (at v r))"
        by (rule less.hyps)
          (use hm less.prems(1-3) mono [OF less.prems(4), of b "m - 1"] mono [OF less.prems(5), of b "m - 1"] in simp_all)
      moreover have "lo (at v k) \<or> hi (at v k)"
        if "\<forall>k. b \<le> k \<and> k \<le> m - 1 \<longrightarrow> lo (at v k) \<or> hi (at v k)" "b \<le> k" "k \<le> e" for k
        using that high [of k] by (cases "m \<le> k") auto
      ultimately show ?thesis using hm(3) unfolding u by force
    next
      case 3
      then show ?thesis using hm am True by (subst binary_loop.simps) auto
    qed
  qed
qed

lemma Q_Binary_Search_Recursion_eq:
  "Q_Binary_Search_Recursion b e v key = Q_Binary_Search_Default b e v key"
proof -
  have "Q_Binary_Search_Recursion b e v key = binary_loop (\<lambda>x. x < key) (\<lambda>x. x > key) v b e"
  proof (induction b e v key rule: Q_Binary_Search_Recursion.induct)
    case (1 b e v key)
    then show ?case
      by (subst Q_Binary_Search_Recursion.simps, subst binary_loop.simps)
        (auto split: option.splits bind_splits)
  qed
  then show ?thesis by (auto simp: Q_Binary_Search_Default_def binary_loop.simps [of _ _ v b e])
qed

lemma Q_Binary_Search_Default_finds:
  assumes "0 \<le> b" and "e < int (length v)" and "length v \<le> 2 ^ 30" and "sorted_on (\<le>) b e v"
  shows "\<exists>r. Q_Binary_Search_Default b e v key = Some r \<and>
    (r = -1 \<and> (\<forall>k. b \<le> k \<and> k \<le> e \<longrightarrow> at v k \<noteq> key) \<or> b \<le> r \<and> r \<le> e \<and> at v r = key)"
proof (cases "b \<le> e")
  case True
  have "sorted_on (\<lambda>x y. key < x \<longrightarrow> key < y) b e v" "sorted_on (\<lambda>x y. y < key \<longrightarrow> x < key) b e v"
    using assms(4) by (force simp: sorted_on_def)+
  from binary_loop_spec [OF assms(1-3) this] show ?thesis using True
    by (fastforce simp: Q_Binary_Search_Default_def)
qed (auto simp: Q_Binary_Search_Default_def)


section \<open>Bubble and selection sort\<close>

text \<open>The elements before position \<open>m\<close> are in their final places.\<close>

definition prefix_sorted :: "int \<Rightarrow> int \<Rightarrow> int \<Rightarrow> 'a::linorder list \<Rightarrow> bool" where
  "prefix_sorted b m e v \<longleftrightarrow> (\<forall>x y. b \<le> x \<and> x < m \<and> x < y \<and> y \<le> e \<longrightarrow> at v x \<le> at v y)"

lemma prefix_sorted_start [simp]: "prefix_sorted b b e v"
  by (auto simp: prefix_sorted_def)

lemma prefix_sorted_swaps:
  assumes "prefix_sorted b m e v" and "swaps m e v w" and "0 \<le> b"
  shows "prefix_sorted b m e w"
  unfolding prefix_sorted_def
proof (intro allI impI)
  fix x y assume xy: "b \<le> x \<and> x < m \<and> x < y \<and> y \<le> e"
  have x: "at w x = at v x" using swaps_outside [OF assms(2)] xy assms(3) by simp
  show "at w x \<le> at w y"
  proof (cases "y < m")
    case True
    then have "at w y = at v y" using swaps_outside [OF assms(2)] xy assms(3) by simp
    then show ?thesis using assms(1) xy x by (auto simp: prefix_sorted_def)
  next
    case False
    have "\<forall>k. m \<le> k \<and> k \<le> e \<and> 0 \<le> k \<longrightarrow> at v x \<le> at w k"
      by (rule swaps_all [OF assms(2)]) (use assms(1) xy in \<open>auto simp: prefix_sorted_def\<close>)
    then show ?thesis using x xy False assms(3) by auto
  qed
qed

lemma prefix_sorted_extend:
  assumes "prefix_sorted b m e v" and "\<forall>k. m \<le> k \<and> k \<le> e \<longrightarrow> at v m \<le> at v k"
  shows "prefix_sorted b (m + 1) e v"
  using assms unfolding prefix_sorted_def by (metis less_imp_le zle_add1_eq_le order_le_less)

lemma prefix_sorted_done: "prefix_sorted b m e v \<Longrightarrow> sorted_on (\<le>) m e v \<Longrightarrow> sorted_on (\<le>) b e v"
  unfolding prefix_sorted_def sorted_on_def by (metis not_le)

lemma bubble_up_spec:
  assumes "1 \<le> i" and "i - 1 \<le> j" and "j < int (length v)"
  shows "\<exists>v' ex'. bubble_up v i j ex = Some (v', ex') \<and> swaps (i - 1) j v v' \<and>
    (\<forall>k. i - 1 \<le> k \<and> k \<le> j \<longrightarrow> at v' (i - 1) \<le> at v k) \<and>
    (ex \<longrightarrow> ex') \<and> (\<not> ex' \<longrightarrow> v' = v \<and> sorted_on (\<le>) (i - 1) j v)"
  using assms
proof (induction "nat (j + 1 - i)" arbitrary: v j ex rule: less_induct)
  case less
  show ?case
  proof (cases "j \<ge> i")
    case False
    then have j: "j = i - 1" using less.prems by simp
    have "at v (i - 1) \<le> at v k" if "i - 1 \<le> k" "k \<le> j" for k
    proof -
      have "k = i - 1" using that j by simp
      then show ?thesis by simp
    qed
    moreover have "bubble_up v i j ex = Some (v, ex)" using False by (simp add: bubble_up.simps [of v i j ex])
    ultimately show ?thesis using j by simp
  next
    case True
    have ia: "in_array v (j - 1)" "in_array v j" using True less.prems by (auto simp: in_array_def)
    define sw where "sw = (at v j < at v (j - 1))"
    define v1 where "v1 = (if sw then swapped v (j - 1) j else v)"
    have u: "bubble_up v i j ex = bubble_up v1 i (j - 1) (sw \<or> ex)"
      using True ia by (subst bubble_up.simps) (auto simp: v1_def sw_def)
    have v1: "length v1 = length v" "swaps (i - 1) j v v1" "at v1 (j - 1) \<le> at v1 j"
      using True ia less.prems by (auto simp: v1_def sw_def at_swapped intro: swaps_one)
    have v1k: "at v k = at v1 k \<or> (k = j - 1 \<or> k = j) \<and> (at v k = at v1 (j - 1) \<or> at v k = at v1 j)" if "0 \<le> k" for k
      using that ia less.prems True by (auto simp: v1_def at_swapped)
    obtain v' ex' where r: "bubble_up v1 i (j - 1) (sw \<or> ex) = Some (v', ex')" "swaps (i - 1) (j - 1) v1 v'"
      "\<forall>k. i - 1 \<le> k \<and> k \<le> j - 1 \<longrightarrow> at v' (i - 1) \<le> at v1 k" "sw \<or> ex \<longrightarrow> ex'"
      "\<not> ex' \<longrightarrow> v' = v1 \<and> sorted_on (\<le>) (i - 1) (j - 1) v1"
      using less.hyps [of "j - 1" v1 "sw \<or> ex"] True less.prems v1(1) by auto
    have "at v' (i - 1) \<le> at v1 (j - 1)" using r(3) True by simp
    then have le1: "\<forall>k. i - 1 \<le> k \<and> k \<le> j \<longrightarrow> at v' (i - 1) \<le> at v1 k"
      using r(3) v1(3) by (metis order_trans zle_diff1_eq order_le_less)
    have le: "\<forall>k. i - 1 \<le> k \<and> k \<le> j \<longrightarrow> at v' (i - 1) \<le> at v k"
    proof (intro allI impI)
      fix k assume k: "i - 1 \<le> k \<and> k \<le> j"
      then show "at v' (i - 1) \<le> at v k" using v1k [of k] le1 True less.prems by auto
    qed
    have "swaps (i - 1) j v v'"
      using swaps_trans [OF swaps_mono [OF r(2)] v1(2)] by simp
    moreover have "v' = v \<and> sorted_on (\<le>) (i - 1) j v" if "\<not> ex'"
    proof -
      have "v1 = v" using that r(4) by (auto simp: v1_def)
      then show ?thesis using that r(5) v1(3) unfolding sorted_on_def
        by (metis order_trans zle_diff1_eq order_le_less)
    qed
    ultimately show ?thesis using r le unfolding u by auto
  qed
qed

lemma bubble_loop_sorts:
  assumes "0 \<le> b" and "b < i" and "e < int (length v)" and "prefix_sorted b (i - 1) e v"
  shows "\<exists>v'. bubble_loop v i e = Some v' \<and> swaps b e v v' \<and> sorted_on (\<le>) b e v'"
  using assms
proof (induction "nat (e + 1 - i)" arbitrary: v i rule: less_induct)
  case less
  show ?case
  proof (cases "i \<le> e")
    case False
    then have "sorted_on (\<le>) (i - 1) e v" by simp
    then show ?thesis using False prefix_sorted_done [OF less.prems(4)] by (subst bubble_loop.simps) auto
  next
    case True
    obtain v1 ex where r: "bubble_up v i e False = Some (v1, ex)" "swaps (i - 1) e v v1"
      "\<forall>k. i - 1 \<le> k \<and> k \<le> e \<longrightarrow> at v1 (i - 1) \<le> at v k" "\<not> ex \<longrightarrow> v1 = v \<and> sorted_on (\<le>) (i - 1) e v"
      using bubble_up_spec [of i e v False] True less.prems by auto
    have u: "bubble_loop v i e = (if ex then bubble_loop v1 (i + 1) e else Some v1)"
      using True r(1) by (subst bubble_loop.simps) simp
    have s1: "swaps b e v v1" using r(2) less.prems by (auto elim: swaps_mono)
    show ?thesis
    proof (cases ex)
      case False
      then show ?thesis using r(4) prefix_sorted_done [OF less.prems(4)] unfolding u by auto
    next
      case ex: True
      have "\<forall>k. i - 1 \<le> k \<and> k \<le> e \<and> 0 \<le> k \<longrightarrow> at v1 (i - 1) \<le> at v1 k"
        by (rule swaps_all [OF r(2)]) (use r(3) in auto)
      then have "prefix_sorted b (i - 1 + 1) e v1"
        using prefix_sorted_swaps [OF less.prems(4) r(2)] less.prems by (intro prefix_sorted_extend) auto
      then have "\<exists>v'. bubble_loop v1 (i + 1) e = Some v' \<and> swaps b e v1 v' \<and> sorted_on (\<le>) b e v'"
        using True less.prems swaps_length [OF r(2)] by (intro less.hyps) auto
      then show ?thesis using ex s1 unfolding u by (auto intro: swaps_trans)
    qed
  qed
qed

lemma Q_Bubble_Sort_Improved_sorts:
  assumes "0 \<le> b" and "e < int (length v)"
  shows "\<exists>v'. Q_Bubble_Sort_Improved v b e = Some v' \<and> sorted_table (\<lambda>k. k) b e v v'"
  using bubble_loop_sorts [of b "b + 1" e v] assms
  by (auto simp: Q_Bubble_Sort_Improved_def intro: sorted_tableI)

lemma select_min_spec:
  assumes "0 \<le> b" and "b \<le> k" and "k < j" and "j \<le> e + 1" and "e < int (length v)"
    and "\<forall>x. b \<le> x \<and> x < j \<longrightarrow> at v k \<le> at v x"
  shows "\<exists>r. select_min v k j e = Some r \<and> b \<le> r \<and> r \<le> e \<and> (\<forall>x. b \<le> x \<and> x \<le> e \<longrightarrow> at v r \<le> at v x)"
  using assms
proof (induction "nat (e + 1 - j)" arbitrary: k j rule: less_induct)
  case less
  show ?case
  proof (cases "j \<le> e")
    case False
    then show ?thesis using less.prems by (subst select_min.simps) auto
  next
    case True
    have ia: "in_array v j" "in_array v k" using True less.prems by (auto simp: in_array_def)
    define k1 where "k1 = (if at v j < at v k then j else k)"
    have "at v k1 \<le> at v x" if "b \<le> x" "x < j + 1" for x
    proof (cases "x = j")
      case False
      then have "at v k \<le> at v x" using that less.prems(6) by simp
      then show ?thesis by (auto simp: k1_def)
    qed (auto simp: k1_def)
    then have "\<exists>r. select_min v k1 (j + 1) e = Some r \<and> b \<le> r \<and> r \<le> e \<and> (\<forall>x. b \<le> x \<and> x \<le> e \<longrightarrow> at v r \<le> at v x)"
      using True less.prems by (intro less.hyps) (auto simp: k1_def)
    then show ?thesis using True ia by (subst select_min.simps) (simp add: k1_def)
  qed
qed

lemma select_loop_sorts:
  assumes "0 \<le> b" and "b \<le> i" and "e < int (length v)" and "prefix_sorted b i e v"
  shows "\<exists>v'. select_loop v i e = Some v' \<and> swaps b e v v' \<and> sorted_on (\<le>) b e v'"
  using assms
proof (induction "nat (e - i)" arbitrary: v i rule: less_induct)
  case less
  show ?case
  proof (cases "i < e")
    case False
    then have "sorted_on (\<le>) i e v" by simp
    then show ?thesis using False prefix_sorted_done [OF less.prems(4)] by (subst select_loop.simps) auto
  next
    case True
    have "\<forall>x. i \<le> x \<and> x < i + 1 \<longrightarrow> at v i \<le> at v x" by (metis order_refl order_antisym zle_add1_eq_le)
    then obtain k where k: "select_min v i (i + 1) e = Some k" "i \<le> k" "k \<le> e"
      "\<forall>x. i \<le> x \<and> x \<le> e \<longrightarrow> at v k \<le> at v x"
      using select_min_spec [of i i "i + 1" e v] True less.prems by auto
    have ia: "in_array v i" "in_array v k" using True k less.prems by (auto simp: in_array_def)
    define v1 where "v1 = (if k \<noteq> i then swapped v i k else v)"
    have sw: "swaps i e v v1" using ia k True by (auto simp: v1_def intro: swaps_one)
    have atk: "at v1 i = at v k" using ia less.prems by (auto simp: v1_def at_swapped)
    have "\<forall>x. i \<le> x \<and> x \<le> e \<and> 0 \<le> x \<longrightarrow> at v1 i \<le> at v1 x"
      by (rule swaps_all [OF sw]) (use k(4) atk in auto)
    then have "prefix_sorted b (i + 1) e v1"
      using prefix_sorted_swaps [OF less.prems(4) sw] less.prems by (intro prefix_sorted_extend) auto
    then have "\<exists>v'. select_loop v1 (i + 1) e = Some v' \<and> swaps b e v1 v' \<and> sorted_on (\<le>) b e v'"
      using True less.prems swaps_length [OF sw] by (intro less.hyps) auto
    moreover have "select_loop v i e = select_loop v1 (i + 1) e"
      using True k(1) ia by (subst select_loop.simps) (simp add: v1_def)
    moreover have "swaps b e v v1" using sw less.prems by (auto elim: swaps_mono)
    ultimately show ?thesis by (auto intro: swaps_trans)
  qed
qed

lemma Q_Slect_Sort_sorts:
  assumes "0 \<le> b" and "e < int (length v)"
  shows "\<exists>v'. Q_Slect_Sort v b e = Some v' \<and> sorted_table (\<lambda>k. k) b e v v'"
  using select_loop_sorts [of b b e v] assms by (auto simp: Q_Slect_Sort_def intro: sorted_tableI)


section \<open>Insertion and Shell sort\<close>

text \<open>
  Both sorts move the element at \<open>i\<close> down to \<open>low\<close> and the elements between, in steps of \<open>gap\<close>, up by one
  step.
\<close>

definition rotated :: "'a list \<Rightarrow> 'a list \<Rightarrow> int \<Rightarrow> int \<Rightarrow> int \<Rightarrow> bool" where
  "rotated v w low i gap \<longleftrightarrow> length w = length v \<and>
     (\<forall>x. 0 \<le> x \<and> x < int (length v) \<longrightarrow>
       at w x = (if x = low then at v i else if low < x \<and> x \<le> i \<and> (i - x) mod gap = 0 then at v (x - gap) else at v x))"

lemma list_eq_at:
  assumes "length w = length v" and "\<And>x. 0 \<le> x \<Longrightarrow> x < int (length v) \<Longrightarrow> at w x = at v x"
  shows "w = v"
proof (rule nth_equalityI [OF assms(1)])
  fix n assume "n < length w"
  then show "w ! n = v ! n" using assms(1) assms(2) [of "int n"] by (simp add: at_def)
qed

lemma rotated_swaps:
  assumes "rotated v w low i gap" and "0 < gap" and "0 \<le> low" and "low \<le> i" and "(i - low) mod gap = 0"
    and "b \<le> low" and "i \<le> e" and "i < int (length v)"
  shows "swaps b e v w"
  using assms
proof (induction "nat (i - low)" arbitrary: v i rule: less_induct)
  case less
  show ?case
  proof (cases "low = i")
    case True
    then have "w = v" using less.prems(1) by (intro list_eq_at) (auto simp: rotated_def)
    then show ?thesis by simp
  next
    case False
    have "gap \<le> i - low" using False less.prems by (intro zdvd_imp_le) (auto simp: mod_eq_0_iff_dvd)
    then have g: "low \<le> i - gap" by simp
    have ia: "in_array v (i - gap)" "in_array v i" using g less.prems by (auto simp: in_array_def)
    define v1 where "v1 = swapped v (i - gap) i"
    have m: "(i - gap - x) mod gap = (i - x) mod gap" for x
    proof -
      have "i - gap - x = (i - x) - gap" by simp
      then show ?thesis by (simp only: minus_mod_self2)
    qed
    have "rotated v1 w low (i - gap) gap"
      unfolding rotated_def
    proof (intro conjI allI impI)
      show "length w = length v1" using less.prems(1) by (simp add: v1_def rotated_def)
      fix x assume x: "0 \<le> x \<and> x < int (length v1)"
      have wx: "at w x = (if x = low then at v i else if low < x \<and> x \<le> i \<and> (i - x) mod gap = 0 then at v (x - gap) else at v x)"
        using less.prems(1) x by (simp add: rotated_def v1_def)
      have big: "x = i \<or> i < x" if "i - gap < x" "(i - x) mod gap = 0"
      proof (rule ccontr)
        assume "\<not> (x = i \<or> i < x)"
        then have "0 < i - x" "i - x < gap" using that by auto
        then show False using that(2) by simp
      qed
      have down: "low \<le> x - gap" if "low < x" "(i - x) mod gap = 0"
      proof -
        have "gap dvd (i - low) - (i - x)" using that less.prems(5) by (intro dvd_diff [of gap "i - low" "i - x"]) (auto simp: mod_eq_0_iff_dvd)
        then have "gap \<le> x - low" using that by (intro zdvd_imp_le) auto
        then show ?thesis by simp
      qed
      show "at w x = (if x = low then at v1 (i - gap)
          else if low < x \<and> x \<le> i - gap \<and> (i - gap - x) mod gap = 0 then at v1 (x - gap) else at v1 x)"
        using wx x g less.prems(2-8) big down ia by (auto simp: v1_def at_swapped m)
    qed
    then have "swaps b e v1 w"
      using less.prems g m [of low] False by (intro less.hyps [of "i - gap"]) (auto simp: v1_def)
    moreover have "swaps b e v v1" using ia g less.prems by (auto simp: v1_def intro!: swaps_one)
    ultimately show ?thesis by (rule swaps_trans)
  qed
qed

lemma rotated_sorted:
  assumes "rotated v w low i 1" and "sorted_on (\<le>) b (i - 1) v" and "0 \<le> b" and "b \<le> low" and "low \<le> i" and "i < int (length v)"
    and lo: "\<forall>x. b \<le> x \<and> x < low \<longrightarrow> at v x \<le> at v i" and hi: "\<forall>x. low \<le> x \<and> x < i \<longrightarrow> at v i \<le> at v x"
  shows "sorted_on (\<le>) b i w"
  unfolding sorted_on_def
proof (intro allI impI)
  fix x y assume xy: "b \<le> x \<and> x < y \<and> y \<le> i"
  have w: "at w z = (if z = low then at v i else if low < z then at v (z - 1) else at v z)" if "b \<le> z" "z \<le> i" for z
    using assms(1,3,6) that by (auto simp: rotated_def)
  have s: "at v s \<le> at v t" if "b \<le> s" "s < t" "t < i" for s t using sorted_onD [OF assms(2)] that by simp
  consider "y < low" | "x < low" "y = low" | "x < low" "low < y" | "x = low" | "low < x" by linarith
  then show "at w x \<le> at w y"
  proof cases
    case 1
    then show ?thesis using w [of x] w [of y] xy s [of x y] assms(5) by simp
  next
    case 2
    then show ?thesis using w [of x] w [of y] xy lo by simp
  next
    case 3
    then show ?thesis using w [of x] w [of y] xy s [of x "y - 1"] by simp
  next
    case 4
    then show ?thesis using w [of x] w [of y] xy hi by simp
  next
    case 5
    then show ?thesis using w [of x] w [of y] xy s [of "x - 1" "y - 1"] assms(4) by simp
  qed
qed

lemma half_quot_mid:
  "0 \<le> b \<Longrightarrow> b \<le> e \<Longrightarrow> e < 2 ^ 30 \<Longrightarrow> half_quot b e = Some ((b + e) div 2) \<and> b \<le> (b + e) div 2 \<and> (b + e) div 2 \<le> e"
  by (auto simp: half_quot_def is_int32_def c_div_def)

lemma insert_pos_spec:
  assumes "0 \<le> b" and "b \<le> low" and "low \<le> high + 1" and "high < i" and "i < int (length v)" and "length v \<le> 2 ^ 30"
    and s: "sorted_on (\<le>) b (i - 1) v"
    and "\<forall>x. b \<le> x \<and> x < low \<longrightarrow> at v x \<le> temp" and "\<forall>x. high < x \<and> x < i \<longrightarrow> temp \<le> at v x"
  shows "\<exists>p. insert_pos v temp low high = Some p \<and> b \<le> p \<and> p \<le> i \<and>
    (\<forall>x. b \<le> x \<and> x < p \<longrightarrow> at v x \<le> temp) \<and> (\<forall>x. p \<le> x \<and> x < i \<longrightarrow> temp \<le> at v x)"
  using assms(1-6,8,9)
proof (induction "nat (high + 1 - low)" arbitrary: low high rule: less_induct)
  case less
  show ?case
  proof (cases "low \<le> high")
    case False
    then have "low = high + 1" using less.prems by simp
    then show ?thesis using less.prems by (subst insert_pos.simps) auto
  next
    case True
    define m where "m = (low + high) div 2"
    have hm: "half_quot low high = Some m" "low \<le> m" "m \<le> high"
      using half_quot_mid [of low high] less.prems True by (auto simp: m_def)
    have am: "aget v m = Some (at v m)" using hm less.prems by (simp add: in_array_def)
    show ?thesis
    proof (cases "temp < at v m")
      case lt: True
      have "temp \<le> at v x" if "m - 1 < x" "x < i" for x
        using that lt sorted_onD [OF s, of m x] less.prems hm by (cases "x = m") auto
      then have "\<exists>p. insert_pos v temp low (m - 1) = Some p \<and> b \<le> p \<and> p \<le> i \<and>
          (\<forall>x. b \<le> x \<and> x < p \<longrightarrow> at v x \<le> temp) \<and> (\<forall>x. p \<le> x \<and> x < i \<longrightarrow> temp \<le> at v x)"
        using less.prems hm by (intro less.hyps) auto
      then show ?thesis using True lt hm am by (subst insert_pos.simps) simp
    next
      case ge: False
      have "at v x \<le> temp" if "b \<le> x" "x < m + 1" for x
        using that ge sorted_onD [OF s, of x m] less.prems hm by (cases "x = m") auto
      then have "\<exists>p. insert_pos v temp (m + 1) high = Some p \<and> b \<le> p \<and> p \<le> i \<and>
          (\<forall>x. b \<le> x \<and> x < p \<longrightarrow> at v x \<le> temp) \<and> (\<forall>x. p \<le> x \<and> x < i \<longrightarrow> temp \<le> at v x)"
        using less.prems hm by (intro less.hyps) auto
      then show ?thesis using True ge hm am by (subst insert_pos.simps) simp
    qed
  qed
qed

lemma shift_up_spec:
  assumes "0 \<le> low" and "low \<le> k + 1" and "k + 1 < int (length v)"
  shows "\<exists>w. shift_up v low k = Some w \<and> length w = length v \<and>
    (\<forall>x. 0 \<le> x \<longrightarrow> at w x = (if low < x \<and> x \<le> k + 1 then at v (x - 1) else at v x))"
  using assms
proof (induction "nat (k + 1 - low)" arbitrary: v k rule: less_induct)
  case less
  show ?case
  proof (cases "low \<le> k")
    case False
    then show ?thesis by (subst shift_up.simps) auto
  next
    case True
    have ia: "in_array v k" "in_array v (k + 1)" using True less.prems by (auto simp: in_array_def)
    define v1 where "v1 = v[nat (k + 1) := at v k]"
    have "\<exists>w. shift_up v1 low (k - 1) = Some w \<and> length w = length v1 \<and>
        (\<forall>x. 0 \<le> x \<longrightarrow> at w x = (if low < x \<and> x \<le> k - 1 + 1 then at v1 (x - 1) else at v1 x))"
      using True less.prems by (intro less.hyps) (auto simp: v1_def)
    then obtain w where w: "shift_up v1 low (k - 1) = Some w" "length w = length v"
      "\<And>x. 0 \<le> x \<Longrightarrow> at w x = (if low < x \<and> x \<le> k then at v1 (x - 1) else at v1 x)"
      by (auto simp: v1_def)
    have v1: "at v1 x = (if x = k + 1 then at v k else at v x)" if "0 \<le> x" for x
      using that ia(2) by (simp add: v1_def at_update)
    have "at w x = (if low < x \<and> x \<le> k + 1 then at v (x - 1) else at v x)" if "0 \<le> x" for x
      using w(3) [OF that] v1 [OF that] v1 [of "x - 1"] less.prems True that by auto
    then show ?thesis using w True ia by (subst shift_up.simps) (simp add: v1_def)
  qed
qed

lemma insert_step_sorts:
  assumes "0 \<le> b" and "b < i" and "i < int (length v)" and "length v \<le> 2 ^ 30" and "sorted_on (\<le>) b (i - 1) v"
  shows "\<exists>w. insert_step v b i = Some w \<and> swaps b i v w \<and> sorted_on (\<le>) b i w"
proof -
  have ai: "aget v i = Some (at v i)" using assms by (simp add: in_array_def)
  have "\<exists>p. insert_pos v (at v i) b (i - 1) = Some p \<and> b \<le> p \<and> p \<le> i \<and>
      (\<forall>x. b \<le> x \<and> x < p \<longrightarrow> at v x \<le> at v i) \<and> (\<forall>x. p \<le> x \<and> x < i \<longrightarrow> at v i \<le> at v x)"
    by (rule insert_pos_spec) (use assms in auto)
  then obtain p where p: "insert_pos v (at v i) b (i - 1) = Some p" "b \<le> p" "p \<le> i"
    "\<forall>x. b \<le> x \<and> x < p \<longrightarrow> at v x \<le> at v i" "\<forall>x. p \<le> x \<and> x < i \<longrightarrow> at v i \<le> at v x"
    by blast
  obtain w where w: "shift_up v p (i - 1) = Some w" "length w = length v"
    "\<forall>x. 0 \<le> x \<longrightarrow> at w x = (if p < x \<and> x \<le> i then at v (x - 1) else at v x)"
    using shift_up_spec [of p "i - 1" v] assms p by auto
  have ip: "in_array w p" using p assms w(2) by (simp add: in_array_def)
  define w1 where "w1 = w[nat p := at v i]"
  have "rotated v w1 p i 1" using w ip by (auto simp: rotated_def w1_def at_update)
  then have "swaps b i v w1" "sorted_on (\<le>) b i w1"
    using rotated_swaps [of v w1 p i 1 b i] rotated_sorted [of v w1 p i b] p assms by auto
  moreover have "insert_step v b i = Some w1" using ai p(1) w(1) ip by (simp add: insert_step_def w1_def)
  ultimately show ?thesis by blast
qed

lemma insert_loop_sorts:
  assumes "0 \<le> b" and "b < i" and "e < int (length v)" and "length v \<le> 2 ^ 30" and "sorted_on (\<le>) b (i - 1) v" and "i \<le> e + 1"
  shows "\<exists>w. insert_loop v b i e = Some w \<and> swaps b e v w \<and> sorted_on (\<le>) b e w"
  using assms
proof (induction "nat (e + 1 - i)" arbitrary: v i rule: less_induct)
  case less
  show ?case
  proof (cases "i \<le> e")
    case False
    then have "i = e + 1" using less.prems by simp
    then show ?thesis using less.prems by (subst insert_loop.simps) auto
  next
    case True
    obtain w where w: "insert_step v b i = Some w" "swaps b i v w" "sorted_on (\<le>) b i w"
      using insert_step_sorts [of b i v] True less.prems by auto
    have "\<exists>w'. insert_loop w b (i + 1) e = Some w' \<and> swaps b e w w' \<and> sorted_on (\<le>) b e w'"
      using True less.prems w swaps_length [OF w(2)] by (intro less.hyps) auto
    moreover have "swaps b e v w" using w(2) True by (auto elim: swaps_mono)
    ultimately show ?thesis using True w(1) by (subst insert_loop.simps) (auto intro: swaps_trans)
  qed
qed

lemma Q_Insert_Sort_sorts:
  assumes "0 \<le> b" and "e < int (length v)" and "length v \<le> 2 ^ 30"
  shows "\<exists>v'. Q_Insert_Sort v b e = Some v' \<and> sorted_table (\<lambda>k. k) b e v v'"
proof (cases "b \<le> e")
  case True
  then show ?thesis using insert_loop_sorts [of b "b + 1" e v] assms
    by (auto simp: Q_Insert_Sort_def intro: sorted_tableI)
next
  case False
  then show ?thesis by (auto simp: Q_Insert_Sort_def insert_loop.simps [of v b "b + 1" e] sorted_table_def)
qed

lemma mod_gap: "(j + gap - x) mod gap = (j - x) mod (gap :: int)"
proof -
  have "j + gap - x = (j - x) + gap" by simp
  then show ?thesis by (simp only: mod_add_self2)
qed

lemma shell_shift_spec:
  assumes "0 < gap" and "0 \<le> b" and "b \<le> j" and "j + gap < int (length v)" and "temp < at v j"
  shows "\<exists>w j'. shell_shift v temp b gap j = Some (w, j') \<and> b \<le> j' + gap \<and> j' + gap \<le> j \<and>
    (j - (j' + gap)) mod gap = 0 \<and> length w = length v \<and>
    (\<forall>x. 0 \<le> x \<longrightarrow> at w x =
      (if j' + gap < x \<and> x \<le> j + gap \<and> (j + gap - x) mod gap = 0 then at v (x - gap) else at v x)) \<and>
    (\<forall>x. j' + gap \<le> x \<and> x \<le> j \<and> (j - x) mod gap = 0 \<longrightarrow> temp < at v x) \<and> (b \<le> j' \<longrightarrow> at v j' \<le> temp)"
  using assms
proof (induction "nat (j - b)" arbitrary: v j rule: less_induct)
  case less
  have ia: "in_array v j" "in_array v (j + gap)" using less.prems by (auto simp: in_array_def)
  define v1 where "v1 = v[nat (j + gap) := at v j]"
  have v1: "at v1 x = (if x = j + gap then at v j else at v x)" if "0 \<le> x" for x
    using that ia(2) by (simp add: v1_def at_update)
  have near: "x = j" if "j - gap < x" "x \<le> j" "(j - x) mod gap = 0" for x
  proof -
    have "0 \<le> j - x" "j - x < gap" using that by auto
    then show ?thesis using that(3) by simp
  qed
  have near2: "x = j + gap" if "j < x" "x \<le> j + gap" "gap dvd j + gap - x" for x
  proof -
    have "0 \<le> j + gap - x" "j + gap - x < gap" using that by auto
    then show ?thesis using zdvd_imp_le [OF that(3)] by linarith
  qed
  show ?case
  proof (cases "b \<le> j - gap \<and> temp < at v (j - gap)")
    case True
    have ij: "in_array v1 (j - gap)" "at v1 (j - gap) = at v (j - gap)"
      using True less.prems v1 [of "j - gap"] by (auto simp: in_array_def v1_def)
    have "\<exists>w j'. shell_shift v1 temp b gap (j - gap) = Some (w, j') \<and> b \<le> j' + gap \<and> j' + gap \<le> j - gap \<and>
      (j - gap - (j' + gap)) mod gap = 0 \<and> length w = length v1 \<and>
      (\<forall>x. 0 \<le> x \<longrightarrow> at w x =
        (if j' + gap < x \<and> x \<le> j - gap + gap \<and> (j - gap + gap - x) mod gap = 0 then at v1 (x - gap) else at v1 x)) \<and>
      (\<forall>x. j' + gap \<le> x \<and> x \<le> j - gap \<and> (j - gap - x) mod gap = 0 \<longrightarrow> temp < at v1 x) \<and> (b \<le> j' \<longrightarrow> at v1 j' \<le> temp)"
      using True less.prems ij by (intro less.hyps) (auto simp: v1_def)
    then obtain w j' where r: "shell_shift v1 temp b gap (j - gap) = Some (w, j')" "b \<le> j' + gap" "j' + gap \<le> j - gap"
      "(j - gap - (j' + gap)) mod gap = 0" "length w = length v"
      "\<And>x. 0 \<le> x \<Longrightarrow> at w x = (if j' + gap < x \<and> x \<le> j \<and> (j - x) mod gap = 0 then at v1 (x - gap) else at v1 x)"
      "\<And>x. j' + gap \<le> x \<Longrightarrow> x \<le> j - gap \<Longrightarrow> (j - gap - x) mod gap = 0 \<Longrightarrow> temp < at v1 x" "b \<le> j' \<longrightarrow> at v1 j' \<le> temp"
      by (auto simp: v1_def)
    have m: "(j - x) mod gap = (j - gap - x) mod gap" for x using mod_gap [of "j - gap" gap x] by simp
    have "at w x = (if j' + gap < x \<and> x \<le> j + gap \<and> (j + gap - x) mod gap = 0 then at v (x - gap) else at v x)"
      if "0 \<le> x" for x
    proof (cases "x \<le> j")
      case le: True
      then have "x - gap \<noteq> j + gap" using less.prems by auto
      then have "at v1 (x - gap) = at v (x - gap)" if "j' + gap < x" using v1 [of "x - gap"] r(2) that less.prems
        by (cases "0 \<le> x - gap") (auto simp: at_def v1_def)
      then show ?thesis using r(6) [OF that] v1 [OF that] le less.prems by (simp add: mod_gap)
    next
      case False
      then show ?thesis using r(3) r(6) [OF that] v1 [OF that] near2 [of x] less.prems by auto
    qed
    moreover have "temp < at v x" if "j' + gap \<le> x" "x \<le> j" "(j - x) mod gap = 0" for x
    proof (cases "x \<le> j - gap")
      case le: True
      then show ?thesis using r(7) [of x] that r(2) less.prems v1 [of x] by (simp add: m)
    next
      case False
      then show ?thesis using near [of x] that less.prems by simp
    qed
    moreover have "b \<le> j' \<longrightarrow> at v j' \<le> temp" using r(8) r(3) v1 [of j'] less.prems by auto
    moreover have "shell_shift v temp b gap j = Some (w, j')"
      using ia ij True r(1) by (subst shell_shift.simps) (simp add: v1_def)
    moreover have "(j - (j' + gap)) mod gap = 0" using r(4) m by simp
    ultimately show ?thesis using r(2,3,5) less.prems by (intro exI [of _ w] exI [of _ j']) auto
  next
    case False
    have "shell_shift v temp b gap j = Some (v1, j - gap)"
    proof (cases "b \<le> j - gap")
      case True
      have "in_array v1 (j - gap)" "at v1 (j - gap) = at v (j - gap)"
        using True less.prems v1 [of "j - gap"] by (auto simp: in_array_def v1_def)
      then show ?thesis using True False ia by (subst shell_shift.simps) (simp add: v1_def)
    next
      case ng: False
      then show ?thesis using ia by (subst shell_shift.simps) (simp add: v1_def)
    qed
    moreover have "at v1 x = (if j < x \<and> x \<le> j + gap \<and> (j + gap - x) mod gap = 0 then at v (x - gap) else at v x)"
      if "0 \<le> x" for x
      using v1 [OF that] near2 [of x] less.prems by auto
    moreover have "temp < at v x" if "j \<le> x" "x \<le> j" for x using that less.prems by (simp add: order_antisym)
    ultimately show ?thesis using less.prems False
      by (intro exI [of _ v1] exI [of _ "j - gap"]) (auto simp: v1_def)
  qed
qed

lemma shell_step_spec:
  assumes "0 < gap" and "0 \<le> b" and "b + gap \<le> i" and "i < int (length v)"
  shows "\<exists>w. shell_step v b gap i = Some w \<and> swaps b i v w \<and>
    (gap = 1 \<longrightarrow> sorted_on (\<le>) b (i - 1) v \<longrightarrow> sorted_on (\<le>) b i w)"
proof -
  have ia: "in_array v i" "in_array v (i - gap)" using assms by (auto simp: in_array_def)
  show ?thesis
  proof (cases "at v i < at v (i - gap)")
    case False
    have "sorted_on (\<le>) b i v" if "gap = 1" "sorted_on (\<le>) b (i - 1) v"
      unfolding sorted_on_def
    proof (intro allI impI)
      fix x y assume xy: "b \<le> x \<and> x < y \<and> y \<le> i"
      have "at v x \<le> at v (i - 1)" using that xy sorted_onD [OF that(2), of x "i - 1"] by (cases "x = i - 1") auto
      then show "at v x \<le> at v y"
        using sorted_onD [OF that(2), of x y] xy False that(1) by (cases "y = i") auto
    qed
    then show ?thesis using False ia by (auto simp: shell_step_def)
  next
    case True
    obtain w j where r: "shell_shift v (at v i) b gap (i - gap) = Some (w, j)" "b \<le> j + gap" "j + gap \<le> i - gap"
      "(i - gap - (j + gap)) mod gap = 0" "length w = length v"
      "\<forall>x. 0 \<le> x \<longrightarrow> at w x = (if j + gap < x \<and> x \<le> i - gap + gap \<and> (i - gap + gap - x) mod gap = 0 then at v (x - gap) else at v x)"
      "\<forall>x. j + gap \<le> x \<and> x \<le> i - gap \<and> (i - gap - x) mod gap = 0 \<longrightarrow> at v i < at v x" "b \<le> j \<longrightarrow> at v j \<le> at v i"
      using shell_shift_spec [of gap b "i - gap" v "at v i"] assms True by auto
    have ip: "in_array w (j + gap)" using r(2,3,5) assms by (simp add: in_array_def)
    define w1 where "w1 = w[nat (j + gap) := at v i]"
    have rot: "rotated v w1 (j + gap) i gap" using r(5,6) ip by (auto simp: rotated_def w1_def at_update)
    have "(i - (j + gap)) mod gap = 0" using r(4) mod_gap [of "i - gap" gap "j + gap"] by simp
    then have "swaps b i v w1" using rotated_swaps [OF rot] r(2,3) assms by simp
    moreover have "sorted_on (\<le>) b i w1" if g: "gap = 1" and s: "sorted_on (\<le>) b (i - 1) v"
    proof (rule rotated_sorted)
      show "rotated v w1 (j + 1) i 1" using rot g by simp
      show "\<forall>x. b \<le> x \<and> x < j + 1 \<longrightarrow> at v x \<le> at v i"
      proof (intro allI impI)
        fix x assume x: "b \<le> x \<and> x < j + 1"
        have "at v x \<le> at v j" using x sorted_onD [OF s, of x j] r(3) g by (cases "x = j") auto
        then show "at v x \<le> at v i" using r(8) x by auto
      qed
      show "\<forall>x. j + 1 \<le> x \<and> x < i \<longrightarrow> at v i \<le> at v x" using r(7) g by (auto intro: less_imp_le)
    qed (use assms r(2,3) g s in auto)
    moreover have "shell_step v b gap i = Some w1" using ia True r(1) ip by (simp add: shell_step_def w1_def)
    ultimately show ?thesis by blast
  qed
qed

lemma shell_pass_spec:
  assumes "0 < gap" and "0 \<le> b" and "b + gap \<le> i" and "e < int (length v)"
  shows "\<exists>w. shell_pass v b gap i e = Some w \<and> swaps b e v w \<and>
    (gap = 1 \<longrightarrow> i \<le> e + 1 \<longrightarrow> sorted_on (\<le>) b (i - 1) v \<longrightarrow> sorted_on (\<le>) b e w)"
  using assms
proof (induction "nat (e + 1 - i)" arbitrary: v i rule: less_induct)
  case less
  show ?case
  proof (cases "i \<le> e")
    case False
    then have "i - 1 = e" if "i \<le> e + 1" using that by simp
    moreover have "shell_pass v b gap i e = Some v" using False by (simp add: shell_pass.simps [of v b gap i e])
    ultimately show ?thesis by auto
  next
    case True
    obtain w where w: "shell_step v b gap i = Some w" "swaps b i v w"
      "gap = 1 \<longrightarrow> sorted_on (\<le>) b (i - 1) v \<longrightarrow> sorted_on (\<le>) b i w"
      using shell_step_spec [of gap b i v] True less.prems by auto
    obtain w' where w': "shell_pass w b gap (i + 1) e = Some w'" "swaps b e w w'"
      "gap = 1 \<longrightarrow> i + 1 \<le> e + 1 \<longrightarrow> sorted_on (\<le>) b (i + 1 - 1) w \<longrightarrow> sorted_on (\<le>) b e w'"
      using less.hyps [of "i + 1" w] True less.prems swaps_length [OF w(2)] by auto
    have "swaps b e v w'" by (rule swaps_trans [OF w'(2) swaps_mono [OF w(2)]]) (use True in auto)
    then show ?thesis using True w(1,3) w'(1,3) by (subst shell_pass.simps) auto
  qed
qed

lemma shell_gaps_sorts:
  assumes "0 \<le> b" and "b \<le> e" and "e < int (length v)" and "0 < gap"
  shows "\<exists>w. shell_gaps v b e gap = Some w \<and> swaps b e v w \<and> sorted_on (\<le>) b e w"
  using assms
proof (induction "nat gap" arbitrary: v gap rule: less_induct)
  case less
  define g where "g = c_div gap 3 + 1"
  have g: "0 < g" "g > 1 \<longrightarrow> g < gap" using less.prems by (auto simp: g_def c_div_def)
  obtain w where w: "shell_pass v b g (b + g) e = Some w" "swaps b e v w"
    "g = 1 \<longrightarrow> b + g \<le> e + 1 \<longrightarrow> sorted_on (\<le>) b (b + g - 1) v \<longrightarrow> sorted_on (\<le>) b e w"
    using shell_pass_spec [of g b "b + g" e v] g less.prems by auto
  show ?case
  proof (cases "g > 1")
    case True
    have "\<exists>w'. shell_gaps w b e g = Some w' \<and> swaps b e w w' \<and> sorted_on (\<le>) b e w'"
      using True g less.prems swaps_length [OF w(2)] by (intro less.hyps) auto
    then show ?thesis using True w(1,2) by (subst shell_gaps.simps) (auto simp: g_def intro: swaps_trans)
  next
    case False
    then have "g = 1" using g by simp
    then show ?thesis using w less.prems by (subst shell_gaps.simps) (simp add: g_def)
  qed
qed

lemma Q_Shell_Sort_sorts:
  assumes "0 \<le> b" and "b \<le> e" and "e < int (length v)"
  shows "\<exists>v'. Q_Shell_Sort v b e = Some v' \<and> sorted_table (\<lambda>k. k) b e v v'"
  using shell_gaps_sorts [of b e v "e - b + 1"] assms by (auto simp: Q_Shell_Sort_def intro: sorted_tableI)


section \<open>The quicksorts\<close>

lemma Q_Quick_Sort_small:
  assumes "0 \<le> b" and "e < int (length v)" and "length v \<le> 2 ^ 30" and "e - b \<le> 20"
  shows "\<exists>v'. Q_Quick_Sort v b e = Some v' \<and> sorted_table (\<lambda>k. k) b e v v'"
  using Q_Insert_Sort_sorts [OF assms(1-3)] assms(4) by (subst Q_Quick_Sort.simps) simp

lemma three_way_not_sorted: "Q_Quick_Sort_3 [0, 2, 1, 0 :: int] 0 3 = Some [0, 1, 0, 2]"
  by code_simp

text \<open>A round of the partition loop on equal keys changes nothing, so the loop never ends.\<close>

lemma part_loop_stuck:
  assumes "i < j" and "part_up v x i j = Some i" and "part_down v x i j = Some j" and "exchange v i j = Some v"
  shows "part_loop v x i j = None"
proof -
  have "part_loop v' x' i' j' = Some r \<Longrightarrow> \<not> (v' = v \<and> x' = x \<and> i' = i \<and> j' = j)" for v' x' i' j' r
    by (rule part_loop.raw_induct [where P = "\<lambda>v' x' i' j' r. \<not> (v' = v \<and> x' = x \<and> i' = i \<and> j' = j)"])
      (use assms in \<open>fastforce split: if_splits simp: Option.bind_eq_Some_conv\<close>)
  then show ?thesis by (metis option.exhaust)
qed

lemma at_replicate: "in_array (replicate n x) i \<Longrightarrow> at (replicate n x) i = x"
  by (simp add: at_def in_array_def nat_less_iff)

lemma swapped_replicate: "in_array (replicate n x) i \<Longrightarrow> in_array (replicate n x) j \<Longrightarrow> swapped (replicate n x) i j = replicate n x"
  by (intro list_eq_at) (auto simp: at_swapped at_replicate in_array_def)


text \<open>On pairwise different keys every round makes progress.\<close>

lemma part_up_stops:
  assumes "0 \<le> i" and "i \<le> j" and "j < int (length v)"
  shows "\<exists>r. part_up v p i j = Some r \<and> i \<le> r \<and> r \<le> j \<and> (\<forall>k. i \<le> k \<and> k < r \<longrightarrow> at v k < p) \<and>
    (r < j \<longrightarrow> p \<le> at v r)"
  using assms
proof (induction "nat (j - i)" arbitrary: i rule: less_induct)
  case less
  have ia: "in_array v i" using less.prems by (simp add: in_array_def)
  show ?case
  proof (cases "i < j \<and> at v i < p")
    case True
    obtain r where r: "part_up v p (i + 1) j = Some r" "i + 1 \<le> r" "r \<le> j"
      "\<forall>k. i + 1 \<le> k \<and> k < r \<longrightarrow> at v k < p" "r < j \<longrightarrow> p \<le> at v r"
      using less.hyps [of "i + 1"] True less.prems by auto
    have "at v k < p" if "i \<le> k" "k < r" for k using that r(4) True by (cases "k = i") auto
    then show ?thesis using r True ia by (subst part_up.simps) auto
  next
    case False
    then show ?thesis using less.prems ia by (subst part_up.simps) auto
  qed
qed

lemma part_down_stops:
  assumes "0 \<le> i" and "i \<le> j" and "j < int (length v)"
  shows "\<exists>r. part_down v p i j = Some r \<and> i \<le> r \<and> r \<le> j \<and> (\<forall>k. r < k \<and> k \<le> j \<longrightarrow> p < at v k) \<and>
    (i < r \<longrightarrow> at v r \<le> p)"
  using assms
proof (induction "nat (j - i)" arbitrary: j rule: less_induct)
  case less
  have ia: "in_array v j" using less.prems by (simp add: in_array_def)
  show ?case
  proof (cases "i < j \<and> p < at v j")
    case True
    obtain r where r: "part_down v p i (j - 1) = Some r" "i \<le> r" "r \<le> j - 1"
      "\<forall>k. r < k \<and> k \<le> j - 1 \<longrightarrow> p < at v k" "i < r \<longrightarrow> at v r \<le> p"
      using less.hyps [of "j - 1"] True less.prems by auto
    have "p < at v k" if "r < k" "k \<le> j" for k using that r(4) True by (cases "k = j") auto
    then show ?thesis using r True ia by (subst part_down.simps) auto
  next
    case False
    then show ?thesis using less.prems ia by (subst part_down.simps) auto
  qed
qed

lemma part_loop_splits:
  assumes "0 \<le> b" and "b \<le> i" and "i \<le> j" and "j \<le> e" and "e < int (length v)"
    and "\<forall>k. b \<le> k \<and> k \<le> e \<longrightarrow> at v k \<noteq> p"
    and "\<forall>k. b \<le> k \<and> k < i \<longrightarrow> at v k < p" and "\<forall>k. j < k \<and> k \<le> e \<longrightarrow> p < at v k"
    and "\<exists>k. i \<le> k \<and> k \<le> j \<and> p < at v k"
  shows "\<exists>w r. part_loop v p i j = Some (w, r, r) \<and> swaps b e v w \<and> b \<le> r \<and> r \<le> e \<and>
    (\<forall>k. b \<le> k \<and> k < r \<longrightarrow> at w k < p) \<and> (\<forall>k. r \<le> k \<and> k \<le> e \<longrightarrow> p < at w k)"
  using assms
proof (induction "nat (2 * (j - i)) + (if at v i < p then 0 else 1)" arbitrary: v i j rule: less_induct)
  case less
  obtain i1 where i1: "part_up v p i j = Some i1" "i \<le> i1" "i1 \<le> j" "\<forall>k. i \<le> k \<and> k < i1 \<longrightarrow> at v k < p" "i1 < j \<longrightarrow> p \<le> at v i1"
    using part_up_stops [of i j v p] less.prems by auto
  obtain j1 where j1: "part_down v p i1 j = Some j1" "i1 \<le> j1" "j1 \<le> j" "\<forall>k. j1 < k \<and> k \<le> j \<longrightarrow> p < at v k" "i1 < j1 \<longrightarrow> at v j1 \<le> p"
    using part_down_stops [of i1 j v p] less.prems i1 by auto
  have lo: "at v k < p" if "b \<le> k" "k < i1" for k using that i1(4) less.prems(7) by (cases "k < i") auto
  have hi: "p < at v k" if "j1 < k" "k \<le> e" for k using that j1(4) less.prems(8) by (cases "j < k") auto
  have big: "p < at v i1"
  proof (cases "i1 < j")
    case True
    then show ?thesis using i1 less.prems(1-6) by (metis order_le_less order_trans)
  next
    case False
    obtain k where k: "i \<le> k" "k \<le> j" "p < at v k" using less.prems(9) by blast
    have "k = i1" using k i1 False by (metis leI not_less_iff_gr_or_eq order_antisym)
    then show ?thesis using k by simp
  qed
  show ?case
  proof (cases "i1 < j1")
    case False
    have "p < at v k" if "i1 \<le> k" "k \<le> e" for k using that hi [of k] big False j1(2) by (cases "k = i1") auto
    then show ?thesis using False i1 j1 lo less.prems by (subst part_loop.simps) auto
  next
    case True
    have small: "at v j1 < p" using j1 True less.prems(1-6) i1 by (metis order_le_less order_trans)
    have ia: "in_array v i1" "in_array v j1" using i1 j1 True less.prems by (auto simp: in_array_def)
    define v1 where "v1 = swapped v i1 j1"
    have v1: "at v1 k = (if k = j1 then at v i1 else if k = i1 then at v j1 else at v k)" if "0 \<le> k" for k
      using that ia by (simp add: v1_def at_swapped)
    have sw: "swaps b e v v1" using ia i1 j1 True less.prems by (auto simp: v1_def intro!: swaps_one)
    have "at v1 i1 < p" using v1 [of i1] True small less.prems i1 by simp
    then have dec: "nat (2 * (j1 - i1)) + (if at v1 i1 < p then 0 else 1) < nat (2 * (j - i)) + (if at v i < p then 0 else 1)"
      using i1 j1 True big by (cases "i1 = i") auto
    have "\<exists>w r. part_loop v1 p i1 j1 = Some (w, r, r) \<and> swaps b e v1 w \<and> b \<le> r \<and> r \<le> e \<and>
        (\<forall>k. b \<le> k \<and> k < r \<longrightarrow> at w k < p) \<and> (\<forall>k. r \<le> k \<and> k \<le> e \<longrightarrow> p < at w k)"
    proof (rule less.hyps [OF dec])
      show "\<forall>k. b \<le> k \<and> k \<le> e \<longrightarrow> at v1 k \<noteq> p" using v1 less.prems big small i1 j1 True by auto
      show "\<forall>k. b \<le> k \<and> k < i1 \<longrightarrow> at v1 k < p" using v1 lo less.prems True by auto
      show "\<forall>k. j1 < k \<and> k \<le> e \<longrightarrow> p < at v1 k" using v1 hi less.prems i1 True by auto
      show "\<exists>k. i1 \<le> k \<and> k \<le> j1 \<and> p < at v1 k" using v1 [of j1] big True less.prems(1,2) i1(2) by (intro exI [of _ j1]) simp
    qed (use less.prems i1 j1 True in \<open>auto simp: v1_def\<close>)
    moreover have "part_loop v p i j = part_loop v1 p i1 j1"
      using i1(1) j1(1) True ia by (simp add: part_loop.simps [of v p i j] v1_def)
    ultimately show ?thesis using sw by (auto intro: swaps_trans)
  qed
qed

lemma pivot_sorted:
  fixes a1 :: "'a::linorder list"
  assumes s1: "swaps b (r - 1) a1 a2" "sorted_on (\<le>) b (r - 1) a2" and s2: "swaps (r + 1) e a2 a3" "sorted_on (\<le>) (r + 1) e a3"
    and bnd: "0 \<le> b" "b \<le> r"
    and lo: "\<forall>k. b \<le> k \<and> k < r \<longrightarrow> at a1 k \<le> at a1 r" and hi: "\<forall>k. r < k \<and> k \<le> e \<longrightarrow> at a1 r \<le> at a1 k"
  shows "sorted_on (\<le>) b e a3"
proof -
  define p where "p = at a1 r"
  have out3: "at a3 k = at a2 k" if "b \<le> k" "k \<le> r" for k using swaps_outside [OF s2(1)] that bnd by simp
  have out2: "at a2 k = at a1 k" if "r \<le> k" for k using swaps_outside [OF s1(1)] that bnd by simp
  have "\<forall>k. b \<le> k \<and> k \<le> r - 1 \<and> 0 \<le> k \<longrightarrow> at a2 k \<le> p" by (rule swaps_all [OF s1(1)]) (use lo p_def in auto)
  then have lo3: "at a3 k \<le> p" if "b \<le> k" "k \<le> r" for k using that out3 out2 [of r] bnd p_def by (cases "k = r") auto
  have "\<forall>k. r + 1 \<le> k \<and> k \<le> e \<and> 0 \<le> k \<longrightarrow> p \<le> at a3 k" by (rule swaps_all [OF s2(1)]) (use hi out2 p_def in auto)
  then have hi3: "p \<le> at a3 k" if "r < k" "k \<le> e" for k using that bnd by auto
  show ?thesis
    unfolding sorted_on_def
  proof (intro allI impI)
    fix i j assume ij: "b \<le> i \<and> i < j \<and> j \<le> e"
    consider "j < r" | "j = r" | "i \<le> r" "r < j" | "r < i" by linarith
    then show "at a3 i \<le> at a3 j"
    proof cases
      case 1
      then show ?thesis using sorted_onD [OF s1(2), of i j] ij out3 by simp
    next
      case 2
      then show ?thesis using lo3 [of i] ij out3 [of r] out2 [of r] bnd by (simp add: p_def)
    next
      case 3
      then show ?thesis using lo3 [of i] hi3 [of j] ij by simp
    next
      case 4
      then show ?thesis using sorted_onD [OF s2(2), of i j] ij by simp
    qed
  qed
qed

lemma at_inj: "distinct v \<Longrightarrow> in_array v i \<Longrightarrow> in_array v j \<Longrightarrow> i \<noteq> j \<Longrightarrow> at v i \<noteq> at v j"
  by (auto simp: at_def in_array_def nth_eq_iff_index_eq nat_less_iff)

lemma swaps_distinct: "swaps b e v w \<Longrightarrow> distinct v \<Longrightarrow> distinct w"
  using swaps_mset mset_eq_imp_distinct_iff by blast

lemma median3_spec:
  assumes "distinct v" and "0 \<le> b" and "b + 2 \<le> e" and "e < int (length v)" and "length v \<le> 2 ^ 30"
  shows "\<exists>w. median3 v b e = Some (w, at w e) \<and> swaps b e v w \<and> (\<exists>k. b \<le> k \<and> k < e \<and> at w e < at w k)"
proof -
  define m where "m = (b + e) div 2"
  have m: "half_quot b e = Some m" "b < m" "m < e"
    using half_quot_mid [of b e] assms by (auto simp: m_def)
  have ia: "in_array v b" "in_array v m" "in_array v e" using assms m by (auto simp: in_array_def)
  define k where "k = (if at v m < at v b then m else b)"
  define k' where "k' = (if at v e < at v k then e else k)"
  have ik: "in_array v k" "in_array v k'" "b \<le> k'" "k' \<le> e" using ia m by (auto simp: k_def k'_def)
  define v1 where "v1 = (if k' \<noteq> b then swapped v k' b else v)"
  have s1: "swaps b e v v1" using ia ik m by (auto simp: v1_def intro!: swaps_one)
  have i1: "in_array v1 x = in_array v x" for x using swaps_in_array [OF s1] .
  define w where "w = (if at v1 m < at v1 e then swapped v1 m e else v1)"
  have s2: "swaps b e v1 w" using ia m i1 by (auto simp: w_def intro!: swaps_one)
  have sw: "swaps b e v w" by (rule swaps_trans [OF s2 s1])
  have iw: "in_array w x = in_array v x" for x using swaps_in_array [OF sw] .
  have "\<not> at w m < at w e" using ia i1 m assms by (auto simp: w_def at_swapped)
  moreover have "at w m \<noteq> at w e" using at_inj [OF swaps_distinct [OF sw assms(1)], of m e] iw ia m by simp
  ultimately have "at w e < at w m" by simp
  moreover have "median3 v b e = Some (w, at w e)"
    using m(1,3) ia ik i1 iw by (simp add: median3_def k_def [symmetric] k'_def [symmetric] v1_def [symmetric] w_def [symmetric])
      (simp add: v1_def w_def ia ik i1)
  ultimately show ?thesis using sw m by (intro exI [of _ w] conjI exI [of _ m]) auto
qed

lemma q_partition_splits:
  assumes "distinct v" and "0 \<le> b" and "b + 2 \<le> e" and "e < int (length v)" and "length v \<le> 2 ^ 30"
  shows "\<exists>w r. q_partition v b e = Some (w, r) \<and> swaps b e v w \<and> b \<le> r \<and> r \<le> e \<and>
    (\<forall>k. b \<le> k \<and> k < r \<longrightarrow> at w k \<le> at w r) \<and> (\<forall>k. r < k \<and> k \<le> e \<longrightarrow> at w r \<le> at w k)"
proof -
  obtain v1 where v1: "median3 v b e = Some (v1, at v1 e)" "swaps b e v v1" "\<exists>k. b \<le> k \<and> k < e \<and> at v1 e < at v1 k"
    using median3_spec [OF assms] by blast
  note l1 = swaps_length [OF v1(2)]
  have d1: "at v1 k \<noteq> at v1 e" if "b \<le> k" "k \<le> e - 1" for k
    using that at_inj [OF swaps_distinct [OF v1(2) assms(1)], of k e] assms l1 by (simp add: in_array_def)
  have "\<exists>w r. part_loop v1 (at v1 e) b (e - 1) = Some (w, r, r) \<and> swaps b (e - 1) v1 w \<and> b \<le> r \<and> r \<le> e - 1 \<and>
      (\<forall>k. b \<le> k \<and> k < r \<longrightarrow> at w k < at v1 e) \<and> (\<forall>k. r \<le> k \<and> k \<le> e - 1 \<longrightarrow> at v1 e < at w k)"
    by (rule part_loop_splits) (use assms l1 d1 v1(3) in auto)
  then obtain w r where w: "part_loop v1 (at v1 e) b (e - 1) = Some (w, r, r)" "swaps b (e - 1) v1 w" "b \<le> r" "r \<le> e - 1"
    "\<forall>k. b \<le> k \<and> k < r \<longrightarrow> at w k < at v1 e" "\<forall>k. r \<le> k \<and> k \<le> e - 1 \<longrightarrow> at v1 e < at w k"
    by blast
  have we: "at w e = at v1 e" using swaps_outside [OF w(2)] assms by simp
  have ia: "in_array w r" "in_array w e" using w assms swaps_length [OF w(2)] l1 by (auto simp: in_array_def)
  define u where "u = swapped w r e"
  have u: "at u k = (if k = e then at w r else if k = r then at w e else at w k)" if "0 \<le> k" for k
    using that ia by (simp add: u_def at_swapped)
  have "nat e \<noteq> nat r" using w(3,4) assms by auto
  then have "q_partition v b e = Some (u, r)"
    using assms(3) v1(1) w(1,4,6) ia we
    by (simp add: q_partition_def u_def swapped_def list_update_swap)
  moreover have "swaps b e v u"
  proof (rule swaps_trans)
    show "swaps b e v v1" by (rule v1(2))
    show "swaps b e v1 u" unfolding u_def
      by (rule swaps_step [OF swaps_mono [OF w(2)]]) (use w(3,4) ia assms in auto)
  qed
  moreover have "at u k \<le> at u r" if "b \<le> k" "k < r" for k
    using that u [of k] u [of r] w(3,4,5) we assms by (auto intro: less_imp_le)
  moreover have "at u r \<le> at u k" if "r < k" "k \<le> e" for k
    using that u [of k] u [of r] w(3,4,6) we assms by (auto intro: less_imp_le)
  ultimately show ?thesis using w(3,4) by (intro exI [of _ u] exI [of _ r]) auto
qed

lemma Q_Quick_Sort_distinct:
  assumes "distinct v" and "0 \<le> b" and "e < int (length v)" and "length v \<le> 2 ^ 30"
  shows "\<exists>w. Q_Quick_Sort v b e = Some w \<and> swaps b e v w \<and> sorted_on (\<le>) b e w"
  using assms
proof (induction "nat (e - b)" arbitrary: v b e rule: less_induct)
  case less
  show ?case
  proof (cases "e - b \<le> 20")
    case True
    show ?thesis
    proof (cases "b \<le> e")
      case be: True
      then show ?thesis using True insert_loop_sorts [of b "b + 1" e v] less.prems
        by (subst Q_Quick_Sort.simps) (simp add: Q_Insert_Sort_def)
    next
      case False
      then show ?thesis
        by (subst Q_Quick_Sort.simps) (auto simp: Q_Insert_Sort_def insert_loop.simps [of v b "b + 1" e])
    qed
  next
    case False
    obtain v1 r where p: "q_partition v b e = Some (v1, r)" "swaps b e v v1" "b \<le> r" "r \<le> e"
      "\<forall>k. b \<le> k \<and> k < r \<longrightarrow> at v1 k \<le> at v1 r" "\<forall>k. r < k \<and> k \<le> e \<longrightarrow> at v1 r \<le> at v1 k"
      using q_partition_splits [of v b e] less.prems False by auto
    note l1 = swaps_length [OF p(2)]
    obtain v2 where v2: "Q_Quick_Sort v1 b (r - 1) = Some v2" "swaps b (r - 1) v1 v2" "sorted_on (\<le>) b (r - 1) v2"
      using less.hyps [of "r - 1" b v1] p(3,4) l1 less.prems False swaps_distinct [OF p(2)] by auto
    note l2 = swaps_length [OF v2(2)]
    obtain v3 where v3: "Q_Quick_Sort v2 (r + 1) e = Some v3" "swaps (r + 1) e v2 v3" "sorted_on (\<le>) (r + 1) e v3"
      using less.hyps [of e "r + 1" v2] p(3,4) l1 l2 less.prems False
        swaps_distinct [OF v2(2) swaps_distinct [OF p(2)]] by auto
    have "sorted_on (\<le>) b e v3" by (rule pivot_sorted [OF v2(2,3) v3(2,3) less.prems(2) p(3,5,6)])
    moreover have "swaps b e v v3"
      using swaps_trans [OF swaps_mono [OF v3(2)] swaps_trans [OF swaps_mono [OF v2(2)] p(2)]] p(3,4) by simp
    moreover have "Q_Quick_Sort v b e = Some v3" using False p(1) v2(1) v3(1) by (subst Q_Quick_Sort.simps) simp
    ultimately show ?thesis by blast
  qed
qed


section \<open>Properties\<close>

text \<open>\<open>Q_Quick_Sort\<close> on pairwise different keys returns, whatever the range, with the range sorted and
  the rest of the array as it was.\<close>

theorem Q_Quick_Sort_sorts:
  assumes "distinct v" and "0 \<le> b" and "e < int (length v)" and "length v \<le> 2 ^ 30"
  shows "\<exists>w. Q_Quick_Sort v b e = Some w \<and> sorted_table (\<lambda>k. k) b e v w"
  using Q_Quick_Sort_distinct [OF assms] by (auto intro: sorted_tableI)

theorem Q_Quick_Sort_sorts_witness:
  "\<exists>w. Q_Quick_Sort (rev [0..<30]) 0 29 = Some w \<and> sorted_table (\<lambda>k. k) 0 29 (rev [0..<30]) w"
  by (rule Q_Quick_Sort_sorts) simp_all

text \<open>C29: \<open>Q_Quick_Sort\<close> never returns on a range of 22 or more equal keys. Its partition scans up to the first and down
  to the last key, exchanges the two, and is then in the state in which it started, without
  having left the array.\<close>

theorem Q_Quick_Sort_equal_keys:
  assumes "22 \<le> n" and "n \<le> 2 ^ 30"
  shows "median3 (replicate n x) 0 (int n - 1) = Some (replicate n x, x) \<and>
    part_up (replicate n x) x 0 (int n - 2) = Some 0 \<and>
    part_down (replicate n x) x 0 (int n - 2) = Some (int n - 2) \<and>
    exchange (replicate n x) 0 (int n - 2) = Some (replicate n x) \<and>
    Q_Quick_Sort (replicate n x) 0 (int n - 1) = None"
proof -
  let ?v = "replicate n x"
  have ia: "in_array ?v i" if "0 \<le> i" "i \<le> int n - 1" for i using that by (simp add: in_array_def)
  have hm: "half_quot 0 (int n - 1) = Some ((int n - 1) div 2)" "(int n - 1) div 2 \<le> int n - 1" "0 \<le> (int n - 1) div 2"
    using half_quot_mid [of 0 "int n - 1"] assms by auto
  have med: "median3 ?v 0 (int n - 1) = Some (?v, x)"
    using hm assms by (simp add: median3_def ia at_replicate)
  have up: "part_up ?v x 0 (int n - 2) = Some 0" using assms by (subst part_up.simps) (simp add: ia at_replicate)
  have dn: "part_down ?v x 0 (int n - 2) = Some (int n - 2)" using assms by (subst part_down.simps) (simp add: ia at_replicate)
  have ex: "exchange ?v 0 (int n - 2) = Some ?v" using assms by (simp add: ia swapped_replicate)
  have "part_loop ?v x 0 (int n - 2) = None" by (rule part_loop_stuck [OF _ up dn ex]) (use assms in simp)
  then have "q_partition ?v 0 (int n - 1) = None" using assms med by (simp add: q_partition_def)
  then have "Q_Quick_Sort ?v 0 (int n - 1) = None" using assms by (subst Q_Quick_Sort.simps) simp
  then show ?thesis using med up dn ex by blast
qed

theorem Q_Quick_Sort_equal_keys_witness:
  "Q_Quick_Sort (replicate 22 (7 :: nat)) 0 21 = None"
  using Q_Quick_Sort_equal_keys [of 22 "7 :: nat"] by simp

text \<open>The binary search on a sorted range returns a position that holds the key, or \<open>-1\<close> and then the key is
  not there; the recursive variant returns the same.\<close>

theorem Q_Binary_Search_correct:
  assumes "0 \<le> b" and "e < int (length v)" and "length v \<le> 2 ^ 30" and "sorted_on (\<le>) b e v"
  shows "\<exists>r. Q_Binary_Search_Default b e v key = Some r \<and> Q_Binary_Search_Recursion b e v key = Some r \<and>
    (r = -1 \<and> (\<forall>k. b \<le> k \<and> k \<le> e \<longrightarrow> at v k \<noteq> key) \<or> b \<le> r \<and> r \<le> e \<and> at v r = key)"
  using Q_Binary_Search_Default_finds [OF assms, of key] by (simp add: Q_Binary_Search_Recursion_eq)

theorem Q_Binary_Search_correct_witness:
  "\<exists>r. Q_Binary_Search_Default 0 3 [2, 3, 5, 7 :: int] 5 = Some r \<and> Q_Binary_Search_Recursion 0 3 [2, 3, 5, 7 :: int] 5 = Some r \<and>
    (r = -1 \<and> (\<forall>k. 0 \<le> k \<and> k \<le> 3 \<longrightarrow> at [2, 3, 5, 7 :: int] k \<noteq> 5) \<or> 0 \<le> r \<and> r \<le> 3 \<and> at [2, 3, 5, 7 :: int] r = 5)"
proof (rule Q_Binary_Search_correct)
  show "sorted_on (\<le>) 0 3 [2, 3, 5, 7 :: int]"
  proof -
    have "i = 0 \<or> i = 1 \<or> i = 2" if "0 \<le> i" "i < j" "j \<le> 3" for i j :: int using that by presburger
    moreover have "j = 1 \<or> j = 2 \<or> j = 3" if "0 \<le> i" "i < j" "j \<le> 3" for i j :: int using that by presburger
    ultimately show ?thesis by (fastforce simp: sorted_on_def at_def)
  qed
qed simp_all

end
