(* ===== verification/Call_Refinement.thy ===== *)
theory Call_Refinement
  imports Idfs_Prelude "HOL-Library.Monad_Syntax"
begin

text \<open>
  The interface between a container class and its clients. A client makes a sequence of calls; a call is answered with a result and
  a new state, or is \<^const>\<open>None\<close> when it leaves an array, follows a dangling pointer or never returns. The locale \<open>call_refinement\<close> states what a
  class promises: from a state that satisfies its invariant every call returns, keeps the invariant, and answers as the reference
  container does on the abstract value. Its lemmas carry this over to every sequence of calls. The container theories
  interpret it with their classes.
\<close>

fun run_calls :: "('c \<Rightarrow> 's \<Rightarrow> ('r \<times> 's) option) \<Rightarrow> 'c list \<Rightarrow> 's \<Rightarrow> ('r list \<times> 's) option" where
  "run_calls f [] s = Some ([], s)"
| "run_calls f (c # cs) s = do { (r, s1) \<leftarrow> f c s; (rs, s2) \<leftarrow> run_calls f cs s1; Some (r # rs, s2) }"

lemma run_calls_append:
  "run_calls f (cs @ ds) s = do { (rs, s1) \<leftarrow> run_calls f cs s; (qs, s2) \<leftarrow> run_calls f ds s1; Some (rs @ qs, s2) }"
  by (induction cs arbitrary: s) (auto split: Option.bind_splits)

locale call_refinement =
  fixes step :: "'c \<Rightarrow> 's \<Rightarrow> ('r \<times> 's) option"
    and ref_step :: "'c \<Rightarrow> 'a \<Rightarrow> 'r \<times> 'a"
    and inv :: "'s \<Rightarrow> bool"
    and abs_of :: "'s \<Rightarrow> 'a"
  assumes refines: "inv s \<Longrightarrow> \<exists>r s'. step c s = Some (r, s') \<and> inv s' \<and> ref_step c (abs_of s) = (r, abs_of s')"
begin

lemma runs:
  assumes "inv s"
  shows "\<exists>rs s'. run_calls step cs s = Some (rs, s') \<and> inv s' \<and>
    run_calls (\<lambda>c a. Some (ref_step c a)) cs (abs_of s) = Some (rs, abs_of s')"
  using assms
proof (induction cs arbitrary: s)
  case (Cons c cs)
  obtain r s1 where "step c s = Some (r, s1)" "inv s1" "ref_step c (abs_of s) = (r, abs_of s1)"
    using refines [OF Cons.prems] by blast
  then show ?case using Cons.IH [of s1] by auto
qed simp

lemma run_keeps:
  assumes "inv s" and "run_calls step cs s = Some (rs, s')"
  shows "inv s'"
  using runs [OF assms(1), of cs] assms(2) by auto

end

end
