(* ===== verification/Heap_Queue.thy ===== *)
theory Heap_Queue
  imports Array_Sort Call_Refinement
begin

text \<open>
  The bounded heaps of \<open>include/common/qheap.h\<close>: \<open>QMinHeap\<close> and \<open>QMaxHeap\<close>, two classes with the same text up
  to the direction of the comparisons. The record \<open>heap\<close> has the fields of the classes; every operation runs under
  the mutex, so an operation is one step. The blocking operations poll until there is room (or an element):
  on a full (or empty) heap that no other thread changes they do not return, which is the value
  \<^term>\<open>None\<close>; so is an access outside the array.

  The locale \<open>heap_order\<close> holds the proofs for any total order, and is interpreted with \<open>\<le>\<close> for \<open>QMinHeap\<close> and
  with \<open>\<ge>\<close> for \<open>QMaxHeap\<close>: the array is always a heap, and the operations are those of a bounded priority
  queue over the multiset of the stored elements. The same lemmas on sifting down give the correctness of
  \<open>Q_Heap_Sort\<close> of \<open>qalgorithm.h\<close>.
\<close>

section \<open>The class\<close>

record 'a heap =
  hp_heap :: "'a list"
  hp_size :: int
  hp_max_size :: int

text \<open>The two comparisons of a class: \<open><=\<close> and \<open>>\<close> for the minimum heap, \<open>>=\<close> and \<open><\<close> for the maximum heap.\<close>

function sift_up_loop :: "('a \<Rightarrow> 'a \<Rightarrow> bool) \<Rightarrow> 'a list \<Rightarrow> 'a \<Rightarrow> int \<Rightarrow> ('a list \<times> int) option" where
  "sift_up_loop le v temp j =
     (if j > 0 then do {
        x \<leftarrow> aget v (c_div (j - 1) 2);
        if le x temp then Some (v, j)
        else do { v1 \<leftarrow> aset v j x; sift_up_loop le v1 temp (c_div (j - 1) 2) } }
      else Some (v, j))"
  by pat_completeness auto
termination by (relation "measure (\<lambda>(le, v, temp, j). nat j)") (auto simp: c_div_def)

definition siftUp :: "('a \<Rightarrow> 'a \<Rightarrow> bool) \<Rightarrow> 'a list \<Rightarrow> int \<Rightarrow> 'a list option" where
  "siftUp le v start = do {
     temp \<leftarrow> aget v start;
     (v1, j) \<leftarrow> sift_up_loop le v temp start;
     aset v1 j temp }"

partial_function (option) sift_down_loop ::
  "('a \<Rightarrow> 'a \<Rightarrow> bool) \<Rightarrow> ('a \<Rightarrow> 'a \<Rightarrow> bool) \<Rightarrow> 'a list \<Rightarrow> 'a \<Rightarrow> int \<Rightarrow> int \<Rightarrow> int \<Rightarrow> ('a list \<times> int) option" where
  "sift_down_loop le gt v temp m i j =
     (if j \<le> m then do {
        j1 \<leftarrow> (if j < m then do { x \<leftarrow> aget v j; y \<leftarrow> aget v (j + 1); Some (if gt x y then j + 1 else j) } else Some j);
        x \<leftarrow> aget v j1;
        if le temp x then Some (v, i)
        else do { v1 \<leftarrow> aset v i x; sift_down_loop le gt v1 temp m j1 (2 * j1 + 1) } }
      else Some (v, i))"

definition siftDown :: "('a \<Rightarrow> 'a \<Rightarrow> bool) \<Rightarrow> ('a \<Rightarrow> 'a \<Rightarrow> bool) \<Rightarrow> 'a list \<Rightarrow> int \<Rightarrow> int \<Rightarrow> 'a list option" where
  "siftDown le gt v start m = do {
     temp \<leftarrow> aget v start;
     (v1, i) \<leftarrow> sift_down_loop le gt v temp m start (2 * start + 1);
     aset v1 i temp }"

declare sift_up_loop.simps [simp del]
declare sift_down_loop.simps [code]

definition heap_empty :: "'a heap \<Rightarrow> bool" where
  "heap_empty h \<longleftrightarrow> hp_size h = 0"

definition heap_full :: "'a heap \<Rightarrow> bool" where
  "heap_full h \<longleftrightarrow> hp_size h = hp_max_size h"

text \<open>The part of \<open>push\<close> and of \<open>pop\<close> behind the waiting loop.\<close>

definition heap_put :: "('a \<Rightarrow> 'a \<Rightarrow> bool) \<Rightarrow> 'a heap \<Rightarrow> 'a \<Rightarrow> 'a heap option" where
  "heap_put le h x = do {
     v1 \<leftarrow> aset (hp_heap h) (hp_size h) x;
     v2 \<leftarrow> siftUp le v1 (hp_size h);
     Some (h\<lparr> hp_heap := v2, hp_size := hp_size h + 1 \<rparr>) }"

definition heap_take :: "('a \<Rightarrow> 'a \<Rightarrow> bool) \<Rightarrow> ('a \<Rightarrow> 'a \<Rightarrow> bool) \<Rightarrow> 'a heap \<Rightarrow> ('a \<times> 'a heap) option" where
  "heap_take le gt h = do {
     x \<leftarrow> aget (hp_heap h) 0;
     y \<leftarrow> aget (hp_heap h) (hp_size h - 1);
     v1 \<leftarrow> aset (hp_heap h) 0 y;
     v2 \<leftarrow> siftDown le gt v1 0 (hp_size h - 1 - 1);
     Some (x, h\<lparr> hp_heap := v2, hp_size := hp_size h - 1 \<rparr>) }"

definition heap_push :: "('a \<Rightarrow> 'a \<Rightarrow> bool) \<Rightarrow> 'a heap \<Rightarrow> 'a \<Rightarrow> 'a heap option" where
  "heap_push le h x = (if heap_full h then None else heap_put le h x)"

definition heap_pop :: "('a \<Rightarrow> 'a \<Rightarrow> bool) \<Rightarrow> ('a \<Rightarrow> 'a \<Rightarrow> bool) \<Rightarrow> 'a heap \<Rightarrow> ('a \<times> 'a heap) option" where
  "heap_pop le gt h = (if heap_empty h then None else heap_take le gt h)"

definition heap_push_non_blocking :: "('a \<Rightarrow> 'a \<Rightarrow> bool) \<Rightarrow> 'a heap \<Rightarrow> 'a \<Rightarrow> (int \<times> 'a heap) option" where
  "heap_push_non_blocking le h x =
     (if heap_full h then Some (-1, h) else do { h1 \<leftarrow> heap_put le h x; Some (0, h1) })"

text \<open>The reference argument of \<open>pop_non_blocking\<close> is written only when there is an element.\<close>

definition heap_pop_non_blocking ::
  "('a \<Rightarrow> 'a \<Rightarrow> bool) \<Rightarrow> ('a \<Rightarrow> 'a \<Rightarrow> bool) \<Rightarrow> 'a heap \<Rightarrow> (int \<times> 'a option \<times> 'a heap) option" where
  "heap_pop_non_blocking le gt h =
     (if heap_empty h then Some (-1, None, h) else do { (x, h1) \<leftarrow> heap_take le gt h; Some (0, Some x, h1) })"

definition heap_clear :: "'a heap \<Rightarrow> 'a heap" where
  "heap_clear h = h\<lparr> hp_size := 0 \<rparr>"

text \<open>The constructor; the fresh array's elements have no defined value and are a parameter.\<close>

definition new_heap :: "'a list \<Rightarrow> 'a heap" where
  "new_heap fresh = \<lparr> hp_heap = fresh, hp_size = 0, hp_max_size = int (length fresh) \<rparr>"

text \<open>The two classes.\<close>

definition QMinHeap_push_non_blocking :: "'a::linorder heap \<Rightarrow> 'a \<Rightarrow> (int \<times> 'a heap) option" where
  "QMinHeap_push_non_blocking = heap_push_non_blocking (\<le>)"

definition QMinHeap_pop_non_blocking :: "'a::linorder heap \<Rightarrow> (int \<times> 'a option \<times> 'a heap) option" where
  "QMinHeap_pop_non_blocking = heap_pop_non_blocking (\<le>) (>)"

definition QMinHeap_push :: "'a::linorder heap \<Rightarrow> 'a \<Rightarrow> 'a heap option" where
  "QMinHeap_push = heap_push (\<le>)"

definition QMinHeap_pop :: "'a::linorder heap \<Rightarrow> ('a \<times> 'a heap) option" where
  "QMinHeap_pop = heap_pop (\<le>) (>)"

definition QMaxHeap_push_non_blocking :: "'a::linorder heap \<Rightarrow> 'a \<Rightarrow> (int \<times> 'a heap) option" where
  "QMaxHeap_push_non_blocking = heap_push_non_blocking (\<ge>)"

definition QMaxHeap_pop_non_blocking :: "'a::linorder heap \<Rightarrow> (int \<times> 'a option \<times> 'a heap) option" where
  "QMaxHeap_pop_non_blocking = heap_pop_non_blocking (\<ge>) (<)"

definition QMaxHeap_push :: "'a::linorder heap \<Rightarrow> 'a \<Rightarrow> 'a heap option" where
  "QMaxHeap_push = heap_push (\<ge>)"

definition QMaxHeap_pop :: "'a::linorder heap \<Rightarrow> ('a \<times> 'a heap) option" where
  "QMaxHeap_pop = heap_pop (\<ge>) (<)"


section \<open>Heaps in arrays\<close>

text \<open>The part of the heap below and including position \<open>lo\<close>.\<close>

definition heap_on :: "('a \<Rightarrow> 'a \<Rightarrow> bool) \<Rightarrow> int \<Rightarrow> int \<Rightarrow> 'a list \<Rightarrow> bool" where
  "heap_on le lo n v \<longleftrightarrow> (\<forall>k. 1 \<le> k \<and> k < n \<and> lo \<le> (k - 1) div 2 \<longrightarrow> le (at v ((k - 1) div 2)) (at v k))"

text \<open>A heap but for the element at \<open>j\<close>, which may have to move up, or the one at \<open>i\<close>, which may have to move down.\<close>

definition up_inv :: "('a \<Rightarrow> 'a \<Rightarrow> bool) \<Rightarrow> int \<Rightarrow> int \<Rightarrow> 'a list \<Rightarrow> bool" where
  "up_inv le n j u \<longleftrightarrow> (\<forall>k. 1 \<le> k \<and> k < n \<and> k \<noteq> j \<longrightarrow> le (at u ((k - 1) div 2)) (at u k)) \<and>
     (\<forall>k. 0 < j \<and> 1 \<le> k \<and> k < n \<and> (k - 1) div 2 = j \<longrightarrow> le (at u ((j - 1) div 2)) (at u k))"

definition down_inv :: "('a \<Rightarrow> 'a \<Rightarrow> bool) \<Rightarrow> int \<Rightarrow> int \<Rightarrow> int \<Rightarrow> 'a list \<Rightarrow> bool" where
  "down_inv le lo n i u \<longleftrightarrow>
     (\<forall>k. 1 \<le> k \<and> k < n \<and> lo \<le> (k - 1) div 2 \<and> (k - 1) div 2 \<noteq> i \<longrightarrow> le (at u ((k - 1) div 2)) (at u k)) \<and>
     (\<forall>k. 0 < i \<and> lo \<le> (i - 1) div 2 \<and> 1 \<le> k \<and> k < n \<and> (k - 1) div 2 = i \<longrightarrow> le (at u ((i - 1) div 2)) (at u k))"

lemma child_iff: "(k - 1) div 2 = i \<longleftrightarrow> k = 2 * i + 1 \<or> k = 2 * i + 2" for k i :: int
  by presburger

locale heap_order =
  fixes le :: "'a \<Rightarrow> 'a \<Rightarrow> bool" and gt :: "'a \<Rightarrow> 'a \<Rightarrow> bool"
  assumes le_refl [simp]: "le x x"
    and le_trans: "le x y \<Longrightarrow> le y z \<Longrightarrow> le x z"
    and le_total: "\<not> le x y \<Longrightarrow> le y x"
    and gt_le: "gt x y \<longleftrightarrow> \<not> le x y"
begin

lemma root_least:
  assumes "heap_on le 0 n v" and "0 \<le> k" and "k < n"
  shows "le (at v 0) (at v k)"
  using assms(2,3)
proof (induction "nat k" arbitrary: k rule: less_induct)
  case less
  show ?case
  proof (cases "k = 0")
    case False
    have "le (at v 0) (at v ((k - 1) div 2))" using less False by auto
    moreover have "le (at v ((k - 1) div 2)) (at v k)" using assms(1) less False by (auto simp: heap_on_def)
    ultimately show ?thesis by (rule le_trans)
  qed simp
qed

lemma up_inv_step:
  assumes inv: "up_inv le n j u" and j: "0 < j" "j < n" "n \<le> int (length u)" and gr: "\<not> le (at u ((j - 1) div 2)) (at u j)"
  shows "up_inv le n ((j - 1) div 2) (swapped u ((j - 1) div 2) j)"
proof -
  define i where "i = (j - 1) div 2"
  have i: "0 \<le> i" "i < j" using j by (auto simp: i_def)
  have ia: "in_array u i" "in_array u j" using i j by (auto simp: in_array_def)
  define w where "w = swapped u i j"
  have w: "at w k = (if k = j then at u i else if k = i then at u j else at u k)" if "0 \<le> k" for k
    using that ia by (simp add: w_def at_swapped)
  have ji: "le (at u j) (at u i)" using gr le_total by (simp add: i_def)
  have h: "le (at u ((k - 1) div 2)) (at u k)" if "1 \<le> k" "k < n" "k \<noteq> j" for k
    using inv that by (auto simp: up_inv_def)
  have gp: "le (at u i) (at u k)" if "1 \<le> k" "k < n" "(k - 1) div 2 = j" for k
    using inv that j by (auto simp: up_inv_def i_def)
  have below: "(k - 1) div 2 < k" "0 \<le> (k - 1) div 2" if "1 \<le> k" for k :: int using that by auto
  have one: "le (at w ((k - 1) div 2)) (at w k)" if k: "1 \<le> k" "k < n" "k \<noteq> i" for k
  proof (cases "k = j")
    case True
    then show ?thesis using w [of i] w [of j] i ji by (simp add: i_def)
  next
    case False
    consider "(k - 1) div 2 = i" | "(k - 1) div 2 = j" | "(k - 1) div 2 \<noteq> i" "(k - 1) div 2 \<noteq> j" by blast
    then show ?thesis
    proof cases
      case 1
      then show ?thesis using w [of k] w [of i] i k False h [of k] le_trans [OF ji] by simp
    next
      case 2
      then show ?thesis using w [of k] w [of j] i k False gp [of k] by simp
    next
      case 3
      then show ?thesis using w [of k] w [of "(k - 1) div 2"] below [of k] k False h [of k] by simp
    qed
  qed
  have two: "le (at w ((i - 1) div 2)) (at w k)" if k: "0 < i" "1 \<le> k" "k < n" "(k - 1) div 2 = i" for k
  proof -
    have p: "at w ((i - 1) div 2) = at u ((i - 1) div 2)" using w [of "(i - 1) div 2"] below [of i] k i by simp
    have pi: "le (at u ((i - 1) div 2)) (at u i)" using h [of i] k i j by simp
    show ?thesis
    proof (cases "k = j")
      case True
      then show ?thesis using p pi w [of j] j by simp
    next
      case False
      then show ?thesis using p le_trans [OF pi] h [of k] k w [of k] below [of k] i by auto
    qed
  qed
  show ?thesis unfolding i_def [symmetric] w_def [symmetric] using one two by (auto simp: up_inv_def)
qed

lemma hole_swapped:
  assumes "in_array v i" and "in_array v j" and "i \<noteq> j"
  shows "(v[nat j := at v i])[nat i := temp] = swapped (v[nat j := temp]) i j"
proof -
  have "nat i \<noteq> nat j" using assms by (auto simp: in_array_def)
  then show ?thesis using assms
    by (simp add: swapped_def at_def in_array_def nth_list_update list_update_swap [of "nat i"] nat_less_iff)
qed

lemma up_inv_heap: "up_inv le n j u \<Longrightarrow> j = 0 \<or> le (at u ((j - 1) div 2)) (at u j) \<Longrightarrow> heap_on le 0 n u"
  by (auto simp: up_inv_def heap_on_def)

lemma sift_up_loop_spec:
  assumes "0 \<le> j" and "j < n" and "n \<le> int (length v)" and "up_inv le n j (v[nat j := temp])"
  shows "\<exists>w r. sift_up_loop le v temp j = Some (w, r) \<and> length w = length v \<and> 0 \<le> r \<and> r \<le> j \<and>
    swaps 0 (n - 1) (v[nat j := temp]) (w[nat r := temp]) \<and> heap_on le 0 n (w[nat r := temp])"
  using assms
proof (induction "nat j" arbitrary: v j rule: less_induct)
  case less
  have atj: "at (v[nat j := temp]) j = temp" using less.prems by (simp add: at_def nat_less_iff)
  show ?case
  proof (cases "j = 0")
    case True
    then show ?thesis using up_inv_heap [OF less.prems(4)] by (subst sift_up_loop.simps) auto
  next
    case False
    define i where "i = (j - 1) div 2"
    have i: "0 \<le> i" "i < j" "c_div (j - 1) 2 = i" using False less.prems by (auto simp: i_def c_div_def)
    have ia: "in_array v i" "in_array v j" using i less.prems by (auto simp: in_array_def)
    have ati: "at (v[nat j := temp]) i = at v i" using i ia by (simp add: at_update)
    show ?thesis
    proof (cases "le (at v i) temp")
      case True
      have "heap_on le 0 n (v[nat j := temp])"
        by (rule up_inv_heap [OF less.prems(4)]) (use True ati atj i_def in simp)
      then show ?thesis using True False i ia less.prems by (subst sift_up_loop.simps) auto
    next
      case gr: False
      let ?v1 = "v[nat j := at v i]"
      have e: "?v1[nat i := temp] = swapped (v[nat j := temp]) i j" using ia i by (intro hole_swapped) auto
      have "up_inv le n i (?v1[nat i := temp])"
        unfolding e using up_inv_step [OF less.prems(4), folded i_def] False gr ati atj less.prems by simp
      then have "\<exists>w r. sift_up_loop le ?v1 temp i = Some (w, r) \<and> length w = length ?v1 \<and> 0 \<le> r \<and> r \<le> i \<and>
          swaps 0 (n - 1) (?v1[nat i := temp]) (w[nat r := temp]) \<and> heap_on le 0 n (w[nat r := temp])"
        using i less.prems by (intro less.hyps) auto
      moreover have "swaps 0 (n - 1) (v[nat j := temp]) (?v1[nat i := temp])"
        unfolding e using ia i less.prems by (intro swaps_one) auto
      moreover have "sift_up_loop le v temp j = sift_up_loop le ?v1 temp i"
        using False gr ia i by (subst sift_up_loop.simps) simp
      ultimately show ?thesis using i by (fastforce intro: swaps_trans)
    qed
  qed
qed

lemma siftUp_spec:
  assumes "0 \<le> j" and "j < int (length v)" and "heap_on le 0 j v"
  shows "\<exists>w. siftUp le v j = Some w \<and> swaps 0 j v w \<and> heap_on le 0 (j + 1) w"
proof -
  have ia: "in_array v j" using assms by (simp add: in_array_def)
  have id: "v[nat j := at v j] = v" by (simp add: at_def)
  have "(k - 1) div 2 \<noteq> j" if "1 \<le> k" "k < j + 1" for k using that by auto
  then have "up_inv le (j + 1) j (v[nat j := at v j])"
    unfolding id using assms(3) by (auto simp: up_inv_def heap_on_def)
  then obtain w r where w: "sift_up_loop le v (at v j) j = Some (w, r)" "length w = length v" "0 \<le> r" "r \<le> j"
    "swaps 0 j v (w[nat r := at v j])" "heap_on le 0 (j + 1) (w[nat r := at v j])"
    using sift_up_loop_spec [of j "j + 1" v "at v j"] assms unfolding id by auto
  have "in_array w r" using w assms by (simp add: in_array_def)
  then show ?thesis using w ia by (auto simp: siftUp_def)
qed

lemma down_inv_step:
  assumes inv: "down_inv le lo n i u" and i: "0 \<le> i" "lo \<le> i" and j: "(j - 1) div 2 = i" "1 \<le> j" "j < n" "n \<le> int (length u)"
    and least: "\<And>k. 1 \<le> k \<Longrightarrow> k < n \<Longrightarrow> (k - 1) div 2 = i \<Longrightarrow> le (at u j) (at u k)" and gr: "le (at u j) (at u i)"
  shows "down_inv le lo n j (swapped u i j)"
proof -
  have ij: "i < j" using j by auto
  have ia: "in_array u i" "in_array u j" using i j ij by (auto simp: in_array_def)
  define w where "w = swapped u i j"
  have w: "at w k = (if k = j then at u i else if k = i then at u j else at u k)" if "0 \<le> k" for k
    using that ia by (simp add: w_def at_swapped)
  have below: "(k - 1) div 2 < k" "0 \<le> (k - 1) div 2" if "1 \<le> k" for k :: int using that by auto
  have one: "le (at w ((k - 1) div 2)) (at w k)" if k: "1 \<le> k" "k < n" "lo \<le> (k - 1) div 2" "(k - 1) div 2 \<noteq> j" for k
  proof (cases "(k - 1) div 2 = i")
    case True
    then show ?thesis using w [of k] w [of i] i ij k least [of k] gr by auto
  next
    case False
    have p: "at w ((k - 1) div 2) = at u ((k - 1) div 2)" using w [of "(k - 1) div 2"] below [of k] k False by simp
    show ?thesis
    proof (cases "k = i")
      case True
      then have "le (at u ((i - 1) div 2)) (at u j)" using inv k j by (auto simp: down_inv_def)
      then show ?thesis using p w [of i] True i ij by simp
    next
      case ki: False
      have "k \<noteq> j" using False j by auto
      then show ?thesis using p w [of k] ki k False inv by (auto simp: down_inv_def)
    qed
  qed
  have two: "le (at w ((j - 1) div 2)) (at w k)" if k: "1 \<le> k" "k < n" "(k - 1) div 2 = j" for k
  proof -
    have "k \<noteq> i" "k \<noteq> j" using k ij below [of k] by auto
    moreover have "le (at u j) (at u k)" using inv k i ij by (auto simp: down_inv_def)
    ultimately show ?thesis using w [of k] w [of i] k i j ij by simp
  qed
  show ?thesis unfolding w_def [symmetric] using one two by (auto simp: down_inv_def)
qed

lemma down_inv_heap:
  assumes "down_inv le lo n i u" and "\<And>k. 1 \<le> k \<Longrightarrow> k < n \<Longrightarrow> (k - 1) div 2 = i \<Longrightarrow> le (at u i) (at u k)"
  shows "heap_on le lo n u"
  using assms by (auto simp: down_inv_def heap_on_def)

lemma sift_down_loop_spec:
  assumes "0 \<le> lo" and "lo \<le> i" and "in_array v i" and "m < int (length v)" and "down_inv le lo (m + 1) i (v[nat i := temp])"
  shows "\<exists>w r. sift_down_loop le gt v temp m i (2 * i + 1) = Some (w, r) \<and> length w = length v \<and> in_array w r \<and>
    swaps lo m (v[nat i := temp]) (w[nat r := temp]) \<and> heap_on le lo (m + 1) (w[nat r := temp])"
  using assms
proof (induction "nat (m + 1 - i)" arbitrary: v i rule: less_induct)
  case less
  have i0: "0 \<le> i" using less.prems by simp
  have ati: "at (v[nat i := temp]) i = temp" using less.prems(3) i0 by (simp add: at_update)
  show ?case
  proof (cases "2 * i + 1 \<le> m")
    case False
    have "heap_on le lo (m + 1) (v[nat i := temp])"
      by (rule down_inv_heap [OF less.prems(5)]) (use False in \<open>auto simp: child_iff\<close>)
    then show ?thesis using False less.prems by (subst sift_down_loop.simps) auto
  next
    case True
    define j where "j = (if 2 * i + 1 < m \<and> gt (at v (2 * i + 1)) (at v (2 * i + 2)) then 2 * i + 2 else 2 * i + 1)"
    have j: "i < j" "j \<le> m" "(j - 1) div 2 = i" using True i0 by (auto simp: j_def child_iff)
    have ia: "in_array v j" "in_array v (2 * i + 1)" "2 * i + 1 < m \<Longrightarrow> in_array v (2 * i + 2)"
      using True j i0 less.prems by (auto simp: in_array_def)
    have sel: "(if 2 * i + 1 < m then do { x \<leftarrow> aget v (2 * i + 1); y \<leftarrow> aget v (2 * i + 1 + 1); Some (if gt x y then 2 * i + 1 + 1 else 2 * i + 1) }
        else Some (2 * i + 1)) = Some j"
      using ia True by (auto simp: j_def add.commute)
    have atk: "at (v[nat i := temp]) k = at v k" if "i < k" for k
      using that less.prems(3) i0 by (simp add: at_update)
    have "le (at v j) (at v k)" if "k < m + 1" "(k - 1) div 2 = i" for k
      using that le_total unfolding child_iff by (auto simp: j_def gt_le)
    moreover have "i < k" if "(k - 1) div 2 = i" for k using that i0 by (auto simp: child_iff)
    ultimately have least: "le (at (v[nat i := temp]) j) (at (v[nat i := temp]) k)" if "1 \<le> k" "k < m + 1" "(k - 1) div 2 = i" for k
      using that atk j by simp
    show ?thesis
    proof (cases "le temp (at v j)")
      case le: True
      have "heap_on le lo (m + 1) (v[nat i := temp])"
      proof (rule down_inv_heap [OF less.prems(5)])
        fix k assume "1 \<le> k" "k < m + 1" "(k - 1) div 2 = i"
        then show "le (at (v[nat i := temp]) i) (at (v[nat i := temp]) k)"
          using least [of k] le atk [of j] j ati by (auto intro: le_trans)
      qed
      then show ?thesis using True le sel ia less.prems by (subst sift_down_loop.simps) auto
    next
      case gr: False
      let ?v1 = "v[nat i := at v j]"
      have e: "?v1[nat j := temp] = swapped (v[nat i := temp]) i j"
        using hole_swapped [OF ia(1) less.prems(3), of temp] j i0
          swapped_commute [of i j "v[nat i := temp]"] by simp
      have "down_inv le lo (m + 1) j (?v1[nat j := temp])"
        unfolding e using less.prems i0 j least ati atk [of j] le_total [OF gr]
        by (intro down_inv_step) auto
      then have "\<exists>w r. sift_down_loop le gt ?v1 temp m j (2 * j + 1) = Some (w, r) \<and> length w = length ?v1 \<and> in_array w r \<and>
          swaps lo m (?v1[nat j := temp]) (w[nat r := temp]) \<and> heap_on le lo (m + 1) (w[nat r := temp])"
        using j less.prems ia by (intro less.hyps) auto
      moreover have "swaps lo m (v[nat i := temp]) (?v1[nat j := temp])"
        unfolding e using ia j less.prems by (intro swaps_one) auto
      moreover have "sift_down_loop le gt v temp m i (2 * i + 1) = sift_down_loop le gt ?v1 temp m j (2 * j + 1)"
        using True gr sel ia less.prems by (subst sift_down_loop.simps) simp
      ultimately show ?thesis by (fastforce intro: swaps_trans)
    qed
  qed
qed

lemma siftDown_spec:
  assumes "0 < int (length v)" and "m < int (length v)" and "down_inv le 0 (m + 1) 0 v"
  shows "\<exists>w. siftDown le gt v 0 m = Some w \<and> swaps 0 m v w \<and> heap_on le 0 (m + 1) w"
proof -
  have ia: "in_array v 0" using assms by (simp add: in_array_def)
  have id: "v[nat 0 := at v 0] = v" by (simp add: at_def)
  obtain w r where "sift_down_loop le gt v (at v 0) m 0 (2 * 0 + 1) = Some (w, r)" "length w = length v" "in_array w r"
    "swaps 0 m v (w[nat r := at v 0])" "heap_on le 0 (m + 1) (w[nat r := at v 0])"
    using sift_down_loop_spec [of 0 0 v m "at v 0"] assms ia unfolding id by auto
  then show ?thesis using ia by (auto simp: siftDown_def)
qed

end


section \<open>A bounded priority queue\<close>

text \<open>The invariant of the class and the multiset of the stored elements.\<close>

definition heap_ok :: "('a \<Rightarrow> 'a \<Rightarrow> bool) \<Rightarrow> 'a heap \<Rightarrow> bool" where
  "heap_ok le h \<longleftrightarrow> int (length (hp_heap h)) = hp_max_size h \<and> 0 \<le> hp_size h \<and> hp_size h \<le> hp_max_size h \<and>
     heap_on le 0 (hp_size h) (hp_heap h)"

definition stored :: "'a heap \<Rightarrow> 'a multiset" where
  "stored h = mset (take (nat (hp_size h)) (hp_heap h))"

lemma swaps_take_mset:
  assumes "swaps 0 m v w" and "m < int (length v)"
  shows "mset (take (nat (m + 1)) w) = mset (take (nat (m + 1)) v)"
  using assms
proof (induction rule: swaps.induct)
  case (swaps_step v w i j)
  have "length w = length v" using swaps_step(1) swaps_length by blast
  then have "in_array (take (nat (m + 1)) w) i" "in_array (take (nat (m + 1)) w) j" "nat i < nat (m + 1)" "nat j < nat (m + 1)"
    using swaps_step by (auto simp: in_array_def)
  moreover from this have "take (nat (m + 1)) (swapped w i j) = swapped (take (nat (m + 1)) w) i j"
    by (simp add: swapped_def at_def take_update_swap)
  ultimately show ?case using swaps_step.IH swaps_step.prems by simp
qed simp

lemma mset_take_snoc: "n < length v \<Longrightarrow> mset (take (Suc n) v) = add_mset (v ! n) (mset (take n v))"
  by (simp add: take_Suc_conv_app_nth)

lemma heap_on_mono: "heap_on le lo n v \<Longrightarrow> m \<le> n \<Longrightarrow> lo \<le> lo' \<Longrightarrow> heap_on le lo' m v"
  by (auto simp: heap_on_def)

context heap_order
begin

lemma heap_put_spec:
  assumes "heap_ok le h" and "\<not> heap_full h"
  shows "\<exists>h'. heap_put le h x = Some h' \<and> heap_ok le h' \<and> stored h' = add_mset x (stored h) \<and>
    hp_size h' = hp_size h + 1 \<and> hp_max_size h' = hp_max_size h"
proof -
  define n v where "n = hp_size h" and "v = hp_heap h"
  have b: "0 \<le> n" "n < int (length v)" "heap_on le 0 n v" "int (length v) = hp_max_size h"
    using assms by (auto simp: heap_ok_def heap_full_def n_def v_def)
  have ia: "in_array v n" using b by (simp add: in_array_def)
  let ?v1 = "v[nat n := x]"
  have "at ?v1 k = at v k" if "0 \<le> k" "k < n" for k using that ia by (simp add: at_update)
  moreover have "0 \<le> (k - 1) div 2" "(k - 1) div 2 < n" if "1 \<le> k" "k < n" for k using that by auto
  ultimately have "heap_on le 0 n ?v1" using b(3) by (auto simp: heap_on_def)
  then obtain w where w: "siftUp le ?v1 n = Some w" "swaps 0 n ?v1 w" "heap_on le 0 (n + 1) w"
    using siftUp_spec [of n ?v1] b by auto
  define h' where "h' = h\<lparr> hp_heap := w, hp_size := n + 1 \<rparr>"
  have "mset (take (nat (n + 1)) w) = mset (take (Suc (nat n)) ?v1)"
    using swaps_take_mset [OF w(2)] b by (simp add: nat_add_distrib)
  also have "\<dots> = add_mset x (mset (take (nat n) v))" using b by (simp add: mset_take_snoc nat_less_iff)
  finally have "stored h' = add_mset x (stored h)" by (simp add: stored_def h'_def n_def v_def)
  moreover have "heap_ok le h'" using w b swaps_length [OF w(2)] by (auto simp: heap_ok_def h'_def n_def v_def)
  moreover have "heap_put le h x = Some h'" using ia w(1) by (simp add: heap_put_def n_def v_def h'_def)
  ultimately show ?thesis by (auto simp: h'_def n_def)
qed

lemma heap_take_spec:
  assumes "heap_ok le h" and "\<not> heap_empty h"
  shows "\<exists>x h'. heap_take le gt h = Some (x, h') \<and> heap_ok le h' \<and> x \<in># stored h \<and> (\<forall>y\<in>#stored h. le x y) \<and>
    stored h' = stored h - {#x#} \<and> hp_size h' = hp_size h - 1 \<and> hp_max_size h' = hp_max_size h"
proof -
  define n v where "n = hp_size h" and "v = hp_heap h"
  have b: "0 < n" "n \<le> int (length v)" "heap_on le 0 n v" "int (length v) = hp_max_size h"
    using assms by (auto simp: heap_ok_def heap_empty_def n_def v_def)
  have ia: "in_array v 0" "in_array v (n - 1)" using b by (auto simp: in_array_def)
  let ?x = "at v 0" and ?v1 = "v[nat 0 := at v (n - 1)]"
  have "at ?v1 k = at v k" if "0 < k" for k using that at_update [OF ia(1), of k "at v (n - 1)"] by simp
  moreover have "0 < (k - 1) div 2" if "1 \<le> k" "(k - 1) div 2 \<noteq> 0" for k :: int
  proof -
    have "0 \<le> (k - 1) div 2" using that by simp
    then show ?thesis using that by linarith
  qed
  ultimately have "down_inv le 0 (n - 1) 0 ?v1" using b(3) by (auto simp: down_inv_def heap_on_def)
  then obtain w where w: "siftDown le gt ?v1 0 (n - 2) = Some w" "swaps 0 (n - 2) ?v1 w" "heap_on le 0 (n - 1) w"
    using siftDown_spec [of ?v1 "n - 2"] b by auto
  define h' where "h' = h\<lparr> hp_heap := w, hp_size := n - 1 \<rparr>"
  obtain m where m: "nat n = Suc m" "nat (n - 1) = m" "m < length v" using b by (cases "nat n") auto
  have stored: "stored h = add_mset (v ! m) (mset (take m v))"
    using m by (simp add: stored_def n_def v_def mset_take_snoc)
  have e: "mset (take m w) = mset (take m ?v1)" using swaps_take_mset [OF w(2)] b m by simp
  have "stored h' = stored h - {#?x#}"
  proof (cases "m = 0")
    case True
    then show ?thesis using stored m by (simp add: stored_def h'_def at_def)
  next
    case False
    have "take m ?v1 = (take m v)[0 := v ! m]" using m by (simp add: take_update_swap at_def)
    then have "mset (take m ?v1) = add_mset (v ! m) (mset (take m v) - {#?x#})" using False m by (simp add: mset_update at_def)
    moreover have "?x \<in># mset (take m v)"
      using False m by (simp add: at_def in_set_conv_nth exI [of _ 0])
    ultimately show ?thesis using e stored m by (simp add: stored_def h'_def)
  qed
  moreover have mem: "y \<in># stored h \<longleftrightarrow> (\<exists>k<nat n. y = v ! k)" for y
    using b by (auto simp: stored_def n_def [symmetric] v_def [symmetric] in_set_conv_nth)
  have "?x \<in># stored h" unfolding mem by (rule exI [of _ 0]) (use b in \<open>simp add: at_def\<close>)
  moreover have "le ?x y" if "y \<in># stored h" for y
  proof -
    from that have "\<exists>k<nat n. y = v ! k" by (simp only: mem)
    then obtain k where "k < nat n" "y = v ! k" by blast
    then show ?thesis using root_least [OF b(3), of "int k"] by (simp add: at_def)
  qed
  moreover have "heap_ok le h'" using w b swaps_length [OF w(2)] by (auto simp: heap_ok_def h'_def n_def v_def)
  moreover have "heap_take le gt h = Some (?x, h')"
    using ia w(1) by (simp add: heap_take_def n_def v_def h'_def)
  ultimately show ?thesis by (intro exI [of _ ?x] exI [of _ h']) (auto simp: h'_def n_def)
qed

end


section \<open>The two classes\<close>

interpretation min_heap: heap_order "(\<le>) :: 'a::linorder \<Rightarrow> 'a \<Rightarrow> bool" "(>)"
  by unfold_locales auto

interpretation max_heap: heap_order "(\<ge>) :: 'a::linorder \<Rightarrow> 'a \<Rightarrow> bool" "(<)"
  by unfold_locales auto

text \<open>The calls a client makes without blocking, and what a bounded priority queue answers to them.\<close>

datatype 'a heap_call = Push 'a | Pop | Clear

fun min_call :: "'a::linorder heap_call \<Rightarrow> 'a heap \<Rightarrow> ((int \<times> 'a option) \<times> 'a heap) option" where
  "min_call (Push x) h = do { (r, h1) \<leftarrow> QMinHeap_push_non_blocking h x; Some ((r, None), h1) }"
| "min_call Pop h = do { (r, x, h1) \<leftarrow> QMinHeap_pop_non_blocking h; Some ((r, x), h1) }"
| "min_call Clear h = Some ((0, None), heap_clear h)"

fun max_call :: "'a::linorder heap_call \<Rightarrow> 'a heap \<Rightarrow> ((int \<times> 'a option) \<times> 'a heap) option" where
  "max_call (Push x) h = do { (r, h1) \<leftarrow> QMaxHeap_push_non_blocking h x; Some ((r, None), h1) }"
| "max_call Pop h = do { (r, x, h1) \<leftarrow> QMaxHeap_pop_non_blocking h; Some ((r, x), h1) }"
| "max_call Clear h = Some ((0, None), heap_clear h)"

fun queue_call :: "('a multiset \<Rightarrow> 'a) \<Rightarrow> nat \<Rightarrow> 'a heap_call \<Rightarrow> 'a multiset \<Rightarrow> (int \<times> 'a option) \<times> 'a multiset" where
  "queue_call first n (Push x) M = (if size M = n then ((-1, None), M) else ((0, None), add_mset x M))"
| "queue_call first n Pop M = (if M = {#} then ((-1, None), M) else ((0, Some (first M)), M - {#first M#}))"
| "queue_call first n Clear M = ((0, None), {#})"

lemma size_stored: "heap_ok le h \<Longrightarrow> int (size (stored h)) = hp_size h"
  by (auto simp: heap_ok_def stored_def min_def)

lemma stored_empty_iff: "heap_ok le h \<Longrightarrow> stored h = {#} \<longleftrightarrow> heap_empty h"
  by (auto simp: heap_ok_def stored_def heap_empty_def)

lemma size_stored_full: "heap_ok le h \<Longrightarrow> size (stored h) = nat (hp_max_size h) \<longleftrightarrow> heap_full h"
  using size_stored [of le h] by (auto simp: heap_ok_def heap_full_def)

lemma heap_ok_clear: "heap_ok le h \<Longrightarrow> heap_ok le (heap_clear h)"
  by (auto simp: heap_ok_def heap_clear_def heap_on_def)

lemma stored_clear: "stored (heap_clear h) = {#}"
  by (simp add: stored_def heap_clear_def)

lemma Min_msetI: "x \<in># M \<Longrightarrow> \<forall>y\<in>#M. x \<le> y \<Longrightarrow> Min_mset M = x" for x :: "'a::linorder"
  by (intro Min_eqI) auto

lemma Max_msetI: "x \<in># M \<Longrightarrow> \<forall>y\<in>#M. y \<le> x \<Longrightarrow> Max_mset M = x" for x :: "'a::linorder"
  by (intro Max_eqI) auto

lemma min_call_refines:
  assumes "heap_ok (\<le>) h"
  shows "\<exists>r h'. min_call c h = Some (r, h') \<and> heap_ok (\<le>) h' \<and> hp_max_size h' = hp_max_size h \<and>
    queue_call Min_mset (nat (hp_max_size h)) c (stored h) = (r, stored h')"
proof (cases c)
  case (Push x)
  show ?thesis
  proof (cases "heap_full h")
    case True
    then show ?thesis using Push assms size_stored_full [OF assms]
      by (simp add: QMinHeap_push_non_blocking_def heap_push_non_blocking_def)
  next
    case False
    then show ?thesis using Push min_heap.heap_put_spec [OF assms False, of x] size_stored_full [OF assms]
      by (auto simp: QMinHeap_push_non_blocking_def heap_push_non_blocking_def)
  qed
next
  case Pop
  show ?thesis
  proof (cases "heap_empty h")
    case True
    then show ?thesis using Pop assms stored_empty_iff [OF assms]
      by (simp add: QMinHeap_pop_non_blocking_def heap_pop_non_blocking_def)
  next
    case False
    obtain x h' where t: "heap_take (\<le>) (>) h = Some (x, h')" "heap_ok (\<le>) h'" "x \<in># stored h" "\<forall>y\<in>#stored h. x \<le> y"
      "stored h' = stored h - {#x#}" "hp_max_size h' = hp_max_size h"
      using min_heap.heap_take_spec [OF assms False] by blast
    have "Min_mset (stored h) = x" by (rule Min_msetI [OF t(3,4)])
    then show ?thesis using Pop False t stored_empty_iff [OF assms]
      by (simp add: QMinHeap_pop_non_blocking_def heap_pop_non_blocking_def)
  qed
next
  case Clear
  then show ?thesis using assms heap_ok_clear [OF assms] by (simp add: stored_clear) (simp add: heap_clear_def)
qed

lemma max_call_refines:
  assumes "heap_ok (\<ge>) h"
  shows "\<exists>r h'. max_call c h = Some (r, h') \<and> heap_ok (\<ge>) h' \<and> hp_max_size h' = hp_max_size h \<and>
    queue_call Max_mset (nat (hp_max_size h)) c (stored h) = (r, stored h')"
proof (cases c)
  case (Push x)
  show ?thesis
  proof (cases "heap_full h")
    case True
    then show ?thesis using Push assms size_stored_full [OF assms]
      by (simp add: QMaxHeap_push_non_blocking_def heap_push_non_blocking_def)
  next
    case False
    then show ?thesis using Push max_heap.heap_put_spec [OF assms False, of x] size_stored_full [OF assms]
      by (auto simp: QMaxHeap_push_non_blocking_def heap_push_non_blocking_def)
  qed
next
  case Pop
  show ?thesis
  proof (cases "heap_empty h")
    case True
    then show ?thesis using Pop assms stored_empty_iff [OF assms]
      by (simp add: QMaxHeap_pop_non_blocking_def heap_pop_non_blocking_def)
  next
    case False
    obtain x h' where t: "heap_take (\<ge>) (<) h = Some (x, h')" "heap_ok (\<ge>) h'" "x \<in># stored h" "\<forall>y\<in>#stored h. y \<le> x"
      "stored h' = stored h - {#x#}" "hp_max_size h' = hp_max_size h"
      using max_heap.heap_take_spec [OF assms False] by blast
    have "Max_mset (stored h) = x" by (rule Max_msetI [OF t(3,4)])
    then show ?thesis using Pop False t stored_empty_iff [OF assms]
      by (simp add: QMaxHeap_pop_non_blocking_def heap_pop_non_blocking_def)
  qed
next
  case Clear
  then show ?thesis using assms heap_ok_clear [OF assms] by (simp add: stored_clear) (simp add: heap_clear_def)
qed

text \<open>The waiting operations return exactly when they do not have to wait, with the same effect.\<close>

lemma QMinHeap_push_iff: "heap_ok (\<le>) h \<Longrightarrow> QMinHeap_push h x = None \<longleftrightarrow> heap_full h"
  using min_heap.heap_put_spec [of h x] by (auto simp: QMinHeap_push_def heap_push_def)

lemma QMinHeap_pop_iff: "heap_ok (\<le>) h \<Longrightarrow> QMinHeap_pop h = None \<longleftrightarrow> heap_empty h"
  using min_heap.heap_take_spec [of h] by (auto simp: QMinHeap_pop_def heap_pop_def)

lemma QMaxHeap_push_iff: "heap_ok (\<ge>) h \<Longrightarrow> QMaxHeap_push h x = None \<longleftrightarrow> heap_full h"
  using max_heap.heap_put_spec [of h x] by (auto simp: QMaxHeap_push_def heap_push_def)

lemma QMaxHeap_pop_iff: "heap_ok (\<ge>) h \<Longrightarrow> QMaxHeap_pop h = None \<longleftrightarrow> heap_empty h"
  using max_heap.heap_take_spec [of h] by (auto simp: QMaxHeap_pop_def heap_pop_def)

lemma heap_ok_new: "heap_ok le (new_heap fresh)"
  by (auto simp: heap_ok_def new_heap_def heap_on_def)


section \<open>Heap sort\<close>

lemma heapAdjust_spec:
  fixes v :: "'a::linorder list"
  assumes "0 \<le> lo" and "lo \<le> i" and "i < num" and "num \<le> int (length v)" and "down_inv (\<ge>) lo num i v"
  shows "\<exists>w. heapAdjust v num i = Some w \<and> swaps lo (num - 1) v w \<and> heap_on (\<ge>) lo num w"
  using assms
proof (induction "nat (num - i)" arbitrary: v i rule: less_induct)
  case less
  define l where "l = (if 2 * i + 1 < num \<and> at v i < at v (2 * i + 1) then 2 * i + 1 else i)"
  define j where "j = (if 2 * i + 2 < num \<and> at v l < at v (2 * i + 2) then 2 * i + 2 else l)"
  have ia: "in_array v i" "in_array v l" "in_array v j" "2 * i + 1 < num \<Longrightarrow> in_array v (2 * i + 1)" "2 * i + 2 < num \<Longrightarrow> in_array v (2 * i + 2)"
    using less.prems by (auto simp: in_array_def l_def j_def)
  have e1: "(if 2 * i + 1 < num then do { y \<leftarrow> aget v (2 * i + 1); x \<leftarrow> aget v i; Some (if y > x then 2 * i + 1 else i) } else Some i) = Some l"
    using ia by (auto simp: l_def)
  have e2: "(if 2 * i + 2 < num then do { y \<leftarrow> aget v (2 * i + 2); x \<leftarrow> aget v l; Some (if y > x then 2 * i + 2 else l) } else Some l) = Some j"
    using ia by (auto simp: j_def)
  have u: "heapAdjust v num i = (if j \<noteq> i then do { v1 \<leftarrow> exchange v i j; heapAdjust v1 num j } else Some v)"
    by (subst heapAdjust.simps) (simp add: e1 e2)
  have big: "at v k \<le> at v j" if "k < num" "(k - 1) div 2 = i" for k
    using that unfolding child_iff by (auto simp: l_def j_def)
  have bigi: "at v i \<le> at v j" by (auto simp: l_def j_def)
  show ?case
  proof (cases "j = i")
    case True
    then have "heap_on (\<ge>) lo num v" using big by (intro max_heap.down_inv_heap [OF less.prems(5)]) auto
    then show ?thesis using True u by auto
  next
    case False
    then have "j = 2 * i + 1 \<and> 2 * i + 1 < num \<or> j = 2 * i + 2 \<and> 2 * i + 2 < num"
      unfolding j_def l_def by (auto split: if_splits)
    then have j: "(j - 1) div 2 = i" "i < j" "j < num" using less.prems by (auto simp: child_iff)
    have "down_inv (\<ge>) lo num j (swapped v i j)"
      by (rule max_heap.down_inv_step [OF less.prems(5)]) (use less.prems j big bigi in auto)
    then have "\<exists>w. heapAdjust (swapped v i j) num j = Some w \<and> swaps lo (num - 1) (swapped v i j) w \<and> heap_on (\<ge>) lo num w"
      using j less.prems by (intro less.hyps) auto
    moreover have "swaps lo (num - 1) v (swapped v i j)" using ia j less.prems by (intro swaps_one) auto
    ultimately show ?thesis using u False ia by (auto intro: swaps_trans)
  qed
qed

lemma heap_build_spec:
  fixes v :: "'a::linorder list"
  assumes "-1 \<le> i" and "i < num" and "num \<le> int (length v)" and "heap_on (\<ge>) (i + 1) num v"
  shows "\<exists>w. heap_build v num i = Some w \<and> swaps 0 (num - 1) v w \<and> heap_on (\<ge>) 0 num w"
  using assms
proof (induction "nat (i + 1)" arbitrary: v i rule: less_induct)
  case less
  show ?case
  proof (cases "i \<ge> 0")
    case False
    then have "i = -1" using less.prems by simp
    then show ?thesis using less.prems by (subst heap_build.simps) simp
  next
    case True
    have "down_inv (\<ge>) i num i v"
      using less.prems(4) True by (auto simp: down_inv_def heap_on_def)
    then obtain w where w: "heapAdjust v num i = Some w" "swaps i (num - 1) v w" "heap_on (\<ge>) i num w"
      using heapAdjust_spec [of i i num v] True less.prems by auto
    have "\<exists>w'. heap_build w num (i - 1) = Some w' \<and> swaps 0 (num - 1) w w' \<and> heap_on (\<ge>) 0 num w'"
      using True less.prems w(3) swaps_length [OF w(2)] by (intro less.hyps) auto
    moreover have "swaps 0 (num - 1) v w" using w(2) True by (auto elim: swaps_mono)
    ultimately show ?thesis using True w(1) by (subst heap_build.simps) (auto intro: swaps_trans)
  qed
qed

lemma heap_drain_spec:
  fixes v :: "'a::linorder list"
  assumes "0 \<le> i" and "i \<le> e" and "e < int (length v)" and "heap_on (\<ge>) 0 (i + 1) v"
    and "\<forall>x y. 0 \<le> x \<and> x < y \<and> i < y \<and> y \<le> e \<longrightarrow> at v x \<le> at v y"
  shows "\<exists>w. heap_drain v i = Some w \<and> swaps 0 e v w \<and> sorted_on (\<le>) 0 e w"
  using assms
proof (induction "nat i" arbitrary: v i rule: less_induct)
  case less
  show ?case
  proof (cases "i = 0")
    case True
    then show ?thesis using less.prems by (subst heap_drain.simps) (auto simp: sorted_on_def)
  next
    case False
    have ia: "in_array v 0" "in_array v i" using less.prems by (auto simp: in_array_def)
    let ?v1 = "swapped v 0 i"
    have v1: "at ?v1 k = (if k = i then at v 0 else if k = 0 then at v i else at v k)" if "0 \<le> k" for k
      using that ia by (simp add: at_swapped)
    have inner: "at ?v1 k = at v k" if "0 < k" "k < i" for k using v1 [of k] that by simp
    have "0 < (k - 1) div 2" "(k - 1) div 2 < i" if "1 \<le> k" "k < i" "(k - 1) div 2 \<noteq> 0" for k :: int
    proof -
      have "0 \<le> (k - 1) div 2" using that by simp
      then show "0 < (k - 1) div 2" using that by linarith
      show "(k - 1) div 2 < i" using that by auto
    qed
    then have "down_inv (\<ge>) 0 i 0 ?v1" using less.prems(4) inner by (auto simp: down_inv_def heap_on_def)
    then obtain w where w: "heapAdjust ?v1 i 0 = Some w" "swaps 0 (i - 1) ?v1 w" "heap_on (\<ge>) 0 i w"
      using heapAdjust_spec [of 0 0 i ?v1] False less.prems by auto
    have sw: "swaps 0 i v w" using swaps_trans [OF swaps_mono [OF w(2)] swaps_one [OF ia]] less.prems by auto
    have max: "at v k \<le> at v 0" if "0 \<le> k" "k \<le> i" for k
      using max_heap.root_least [OF less.prems(4), of k] that by simp
    have wi: "at w i = at v 0" using swaps_outside [OF w(2), of i] v1 [of i] less.prems by simp
    have "\<forall>k. 0 \<le> k \<and> k \<le> i \<and> 0 \<le> k \<longrightarrow> at w k \<le> at v 0" by (rule swaps_all [OF sw]) (use max in auto)
    moreover have "\<forall>k. 0 \<le> k \<and> k \<le> i \<and> 0 \<le> k \<longrightarrow> at w k \<le> at v y" if "i < y" "y \<le> e" for y
      by (rule swaps_all [OF sw]) (use less.prems(5) that in auto)
    moreover have "at w y = at v y" if "i < y" for y using swaps_outside [OF sw] that less.prems by simp
    ultimately have suf: "\<forall>x y. 0 \<le> x \<and> x < y \<and> i - 1 < y \<and> y \<le> e \<longrightarrow> at w x \<le> at w y"
      using wi less.prems(5) by (metis (no_types, opaque_lifting) less_imp_le linorder_not_less order_le_less order_less_le_trans zle_diff1_eq)
    have "\<exists>w'. heap_drain w (i - 1) = Some w' \<and> swaps 0 e w w' \<and> sorted_on (\<le>) 0 e w'"
      using False less.prems w(3) swaps_length [OF w(2)] suf by (intro less.hyps) auto
    moreover have "swaps 0 e v w" using sw less.prems by (auto elim: swaps_mono)
    ultimately show ?thesis using False less.prems ia w(1) by (subst heap_drain.simps) (auto intro: swaps_trans)
  qed
qed

lemma Q_Heap_Sort_sorts:
  fixes v :: "'a::linorder list"
  shows "\<exists>w. Q_Heap_Sort v (int (length v)) = Some w \<and> sorted w \<and> mset w = mset v"
proof (cases "v = []")
  case True
  then show ?thesis
    by (simp add: Q_Heap_Sort_def c_div_def heap_build.simps [of "[]" 0 "-1"] heap_drain.simps [of "[]" "-1"])
next
  case False
  let ?n = "int (length v)"
  have n: "0 < ?n" using False by simp
  have c: "c_div ?n 2 - 1 + 1 = ?n div 2" by (simp add: c_div_def)
  have "heap_on (\<ge>) (?n div 2) ?n v" by (auto simp: heap_on_def)
  then have "\<exists>w. heap_build v ?n (c_div ?n 2 - 1) = Some w \<and> swaps 0 (?n - 1) v w \<and> heap_on (\<ge>) 0 ?n w"
    by (intro heap_build_spec) (simp_all only: c, use n in \<open>simp_all add: c_div_def\<close>)
  then obtain w where w: "heap_build v ?n (c_div ?n 2 - 1) = Some w" "swaps 0 (?n - 1) v w" "heap_on (\<ge>) 0 ?n w"
    by blast
  have "\<exists>w'. heap_drain w (?n - 1) = Some w' \<and> swaps 0 (?n - 1) w w' \<and> sorted_on (\<le>) 0 (?n - 1) w'"
    using n w swaps_length [OF w(2)] by (intro heap_drain_spec) auto
  then obtain w' where w': "heap_drain w (?n - 1) = Some w'" "swaps 0 (?n - 1) w w'" "sorted_on (\<le>) 0 (?n - 1) w'"
    by blast
  have "sorted w'" using w' swaps_length [OF w(2)] swaps_length [OF w'(2)] by (intro sorted_on_whole) simp
  then show ?thesis using w w' swaps_mset [OF w(2)] swaps_mset [OF w'(2)] by (simp add: Q_Heap_Sort_def)
qed


interpretation min_calls: call_refinement min_call "queue_call Min_mset n" "\<lambda>h. heap_ok (\<le>) h \<and> nat (hp_max_size h) = n" stored
  for n
  by unfold_locales (use min_call_refines in fastforce)

interpretation max_calls: call_refinement max_call "queue_call Max_mset n" "\<lambda>h. heap_ok (\<ge>) h \<and> nat (hp_max_size h) = n" stored
  for n
  by unfold_locales (use max_call_refines in fastforce)


section \<open>Properties\<close>


end
