(* ===== verification/Text_Search.thy ===== *)
theory Text_Search
  imports Text_Util Array_Base
begin

text \<open>
  The searching functions of \<open>include/common/qfunc.h\<close>, on C buffers and on
  \<open>std::string\<close>. A buffer with its length is the list of its characters; a table of integers is a list that is
  read and written by position, and leaving it is the value \<^term>\<open>None\<close>. So is not returning: the loops whose end
  depends on the contents of a table or on the text are partial functions.

  The Knuth-Morris-Pratt search is proved to find what the plain search \<open>q_find\<close> and \<open>std::string::find\<close> find,
  with the table that \<open>q_next_KMP\<close> computes.
\<close>

section \<open>Searching\<close>

text \<open>The inner loop of \<open>q_find\<close>: the number of characters of \<open>pat\<close> found at position \<open>i\<close>.\<close>

function find_inner :: "string \<Rightarrow> string \<Rightarrow> int \<Rightarrow> int \<Rightarrow> int option" where
  "find_inner src pat i j =
     (if j < int (length pat) then do {
        x \<leftarrow> aget src (i + j);
        y \<leftarrow> aget pat j;
        if x \<noteq> y then Some j else find_inner src pat i (j + 1) }
      else Some j)"
  by pat_completeness auto
termination by (relation "measure (\<lambda>(src, pat, i, j). nat (int (length pat) - j))") auto

function find_outer :: "string \<Rightarrow> string \<Rightarrow> int \<Rightarrow> int option" where
  "find_outer src pat i =
     (if i \<le> int (length src) - int (length pat) then do {
        j \<leftarrow> find_inner src pat i 0;
        if j = int (length pat) then Some i else find_outer src pat (i + 1) }
      else Some (-1))"
  by pat_completeness auto
termination by (relation "measure (\<lambda>(src, pat, i). nat (int (length src) - int (length pat) + 1 - i))") auto

definition q_find :: "string \<Rightarrow> string \<Rightarrow> int option" where
  "q_find src pat = find_outer src pat 0"

partial_function (option) find_KMP_loop :: "string \<Rightarrow> string \<Rightarrow> int list \<Rightarrow> int \<Rightarrow> int \<Rightarrow> (int \<times> int) option" where
  "find_KMP_loop src pat nxt posP posS =
     (if posP < int (length pat) \<and> posS < int (length src) then
        (if posP = -1 then find_KMP_loop src pat nxt (posP + 1) (posS + 1)
         else do {
           x \<leftarrow> aget pat posP;
           y \<leftarrow> aget src posS;
           if x = y then find_KMP_loop src pat nxt (posP + 1) (posS + 1)
           else do { p \<leftarrow> aget nxt posP; find_KMP_loop src pat nxt p posS } })
      else Some (posP, posS))"

definition q_find_KMP :: "string \<Rightarrow> string \<Rightarrow> int list \<Rightarrow> int \<Rightarrow> int option" where
  "q_find_KMP src pat nxt k = do {
     (posP, posS) \<leftarrow> find_KMP_loop src pat nxt 0 k;
     Some (if posP < int (length pat) then -1 else posS - int (length pat)) }"

partial_function (option) next_KMP_loop :: "string \<Rightarrow> int \<Rightarrow> int \<Rightarrow> int list \<Rightarrow> int list option" where
  "next_KMP_loop src i j nxt =
     (if i < int (length src) then
        (if j = -1 then do { nxt1 \<leftarrow> aset nxt (i + 1) (j + 1); next_KMP_loop src (i + 1) (j + 1) nxt1 }
         else do {
           x \<leftarrow> aget src i;
           y \<leftarrow> aget src j;
           if x = y then do { nxt1 \<leftarrow> aset nxt (i + 1) (j + 1); next_KMP_loop src (i + 1) (j + 1) nxt1 }
           else do { j1 \<leftarrow> aget nxt j; next_KMP_loop src i j1 nxt } })
      else Some nxt)"

definition q_next_KMP :: "string \<Rightarrow> int list \<Rightarrow> int list option" where
  "q_next_KMP src nxt = do { nxt1 \<leftarrow> aset nxt 0 (-1); next_KMP_loop src 0 (-1) nxt1 }"

declare find_inner.simps [simp del] find_outer.simps [simp del]
declare find_KMP_loop.simps [code] next_KMP_loop.simps [code]


section \<open>The plain search\<close>

text \<open>The answer \<open>-1\<close> or a position, as the C functions give it.\<close>

definition pos_or_minus :: "nat option \<Rightarrow> int" where
  "pos_or_minus r = (case r of None \<Rightarrow> -1 | Some i \<Rightarrow> int i)"

lemma find_inner_spec:
  assumes "0 \<le> j" and "j \<le> int (length pat)" and "0 \<le> i" and "i + int (length pat) \<le> int (length src)"
  shows "\<exists>r. find_inner src pat i j = Some r \<and> j \<le> r \<and> r \<le> int (length pat) \<and>
    (r = int (length pat) \<longleftrightarrow> (\<forall>x. j \<le> x \<and> x < int (length pat) \<longrightarrow> at src (i + x) = at pat x))"
  using assms
proof (induction "nat (int (length pat) - j)" arbitrary: j rule: less_induct)
  case less
  show ?case
  proof (cases "j < int (length pat)")
    case False
    then show ?thesis using less.prems by (subst find_inner.simps) auto
  next
    case True
    have ia: "in_array src (i + j)" "in_array pat j" using True less.prems by (auto simp: in_array_def)
    show ?thesis
    proof (cases "at src (i + j) = at pat j")
      case False
      then show ?thesis using True ia less.prems by (subst find_inner.simps) force
    next
      case eq: True
      obtain r where r: "find_inner src pat i (j + 1) = Some r" "j + 1 \<le> r" "r \<le> int (length pat)"
        "r = int (length pat) \<longleftrightarrow> (\<forall>x. j + 1 \<le> x \<and> x < int (length pat) \<longrightarrow> at src (i + x) = at pat x)"
        using less.hyps [of "j + 1"] True less.prems by auto
      have "(\<forall>x. j + 1 \<le> x \<and> x < int (length pat) \<longrightarrow> at src (i + x) = at pat x) \<longleftrightarrow>
          (\<forall>x. j \<le> x \<and> x < int (length pat) \<longrightarrow> at src (i + x) = at pat x)"
        using eq by (metis add1_zle_eq order_le_less)
      then show ?thesis using r True eq ia by (subst find_inner.simps) auto
    qed
  qed
qed

lemma occurs_iff:
  assumes "i + length pat \<le> length src"
  shows "take (length pat) (drop i src) = pat \<longleftrightarrow> (\<forall>x. 0 \<le> x \<and> x < int (length pat) \<longrightarrow> at src (int i + x) = at pat x)"
proof
  assume a: "take (length pat) (drop i src) = pat"
  show "\<forall>x. 0 \<le> x \<and> x < int (length pat) \<longrightarrow> at src (int i + x) = at pat x"
  proof (intro allI impI)
    fix x :: int assume x: "0 \<le> x \<and> x < int (length pat)"
    then have "pat ! nat x = take (length pat) (drop i src) ! nat x" using a by simp
    also have "\<dots> = src ! (i + nat x)" using x assms by (simp add: nat_less_iff)
    finally show "at src (int i + x) = at pat x" using x by (simp add: at_def nat_add_distrib)
  qed
next
  assume a: "\<forall>x. 0 \<le> x \<and> x < int (length pat) \<longrightarrow> at src (int i + x) = at pat x"
  show "take (length pat) (drop i src) = pat"
  proof (rule nth_equalityI)
    fix n assume "n < length (take (length pat) (drop i src))"
    then show "take (length pat) (drop i src) ! n = pat ! n"
      using a [rule_format, of "int n"] assms by (simp add: at_def nat_add_distrib)
  qed (use assms in simp)
qed

lemma find_outer_spec:
  assumes "\<forall>i'<i. take (length pat) (drop i' src) \<noteq> pat" and "i \<le> length src"
  shows "find_outer src pat (int i) = Some (pos_or_minus (str_find pat src))"
  using assms
proof (induction "length src + 1 - i" arbitrary: i rule: less_induct)
  case less
  show ?case
  proof (cases "i + length pat \<le> length src")
    case False
    have "str_find pat src = None"
    proof (rule ccontr)
      assume "str_find pat src \<noteq> None"
      then obtain r where "str_find pat src = Some r" by blast
      from str_find_SomeD [OF this] show False using less.prems False by (metis add_le_cancel_right leI le_trans)
    qed
    then show ?thesis using False by (subst find_outer.simps) (simp add: pos_or_minus_def)
  next
    case True
    obtain r where r: "find_inner src pat (int i) 0 = Some r"
      "r = int (length pat) \<longleftrightarrow> (\<forall>x. 0 \<le> x \<and> x < int (length pat) \<longrightarrow> at src (int i + x) = at pat x)"
      using find_inner_spec [of 0 pat "int i" src] True by auto
    show ?thesis
    proof (cases "take (length pat) (drop i src) = pat")
      case occ: True
      have "str_find pat src = Some i" using str_find_unique [of i src pat] occ less.prems by auto
      moreover have "r = int (length pat)" using r(2) occurs_iff [OF True] occ by simp
      ultimately show ?thesis using True r(1) by (subst find_outer.simps) (simp add: pos_or_minus_def)
    next
      case occ: False
      have "i < length src"
      proof (rule ccontr)
        assume "\<not> i < length src"
        then have "pat = []" using True less.prems by simp
        then show False using occ by simp
      qed
      then have "find_outer src pat (int (Suc i)) = Some (pos_or_minus (str_find pat src))"
        using less.prems occ by (intro less.hyps) (auto simp: less_Suc_eq)
      moreover have "r \<noteq> int (length pat)" using r(2) occurs_iff [OF True] occ by simp
      ultimately show ?thesis using True r(1) by (subst find_outer.simps) (simp add: add.commute)
    qed
  qed
qed

lemma q_find_spec: "q_find src pat = Some (pos_or_minus (str_find pat src))"
  using find_outer_spec [of 0 pat src] by (simp add: q_find_def)


section \<open>The failure table\<close>

text \<open>The first \<open>l\<close> characters are also the last \<open>l\<close> of the first \<open>i\<close>.\<close>

definition border :: "string \<Rightarrow> int \<Rightarrow> int \<Rightarrow> bool" where
  "border p i l \<longleftrightarrow> 0 \<le> l \<and> l < i \<and> (\<forall>x. 0 \<le> x \<and> x < l \<longrightarrow> at p (i - l + x) = at p x)"

definition longest_border :: "string \<Rightarrow> int \<Rightarrow> int \<Rightarrow> bool" where
  "longest_border p i l \<longleftrightarrow> border p i l \<and> (\<forall>l'. border p i l' \<longrightarrow> l' \<le> l)"

definition table_upto :: "string \<Rightarrow> int \<Rightarrow> int list \<Rightarrow> bool" where
  "table_upto p n nxt \<longleftrightarrow> at nxt 0 = -1 \<and> (\<forall>i. 1 \<le> i \<and> i \<le> n \<longrightarrow> longest_border p i (at nxt i))"

lemma border_zero: "1 \<le> i \<Longrightarrow> border p i 0"
  by (auto simp: border_def)

lemma borderD: "border p i l \<Longrightarrow> 0 \<le> x \<Longrightarrow> x < l \<Longrightarrow> at p (i - l + x) = at p x"
  by (simp add: border_def)

lemma border_trans:
  assumes l: "border p i l" and m: "border p l m"
  shows "border p i m"
proof -
  have "at p (i - m + x) = at p x" if x: "0 \<le> x" "x < m" for x
  proof -
    have "at p (i - l + (l - m + x)) = at p (l - m + x)"
      by (rule borderD [OF l]) (use m x in \<open>auto simp: border_def\<close>)
    also have "\<dots> = at p x" by (rule borderD [OF m x])
    finally show ?thesis by (simp add: algebra_simps)
  qed
  then show ?thesis using l m by (auto simp: border_def)
qed

lemma border_of_border:
  assumes l: "border p i l" and m: "border p i m" and "m < l"
  shows "border p l m"
proof -
  have "at p (l - m + x) = at p x" if x: "0 \<le> x" "x < m" for x
  proof -
    have "at p (i - l + (l - m + x)) = at p (l - m + x)" by (rule borderD [OF l]) (use x assms(3) in auto)
    moreover have "at p (i - m + x) = at p x" by (rule borderD [OF m x])
    ultimately show ?thesis by (simp add: algebra_simps)
  qed
  then show ?thesis using m assms(3) by (auto simp: border_def)
qed

lemma border_Suc:
  assumes "0 \<le> l"
  shows "border p (i + 1) (l + 1) \<longleftrightarrow> border p i l \<and> at p i = at p l"
proof
  assume b: "border p (i + 1) (l + 1)"
  then have a: "at p (i - l + x) = at p x" if "0 \<le> x" "x < l + 1" for x using that by (simp add: border_def)
  show "border p i l \<and> at p i = at p l" using a [of l] a b assms by (auto simp: border_def)
next
  assume a: "border p i l \<and> at p i = at p l"
  have "at p (i - l + x) = at p x" if "0 \<le> x" "x < l + 1" for x
    using that a by (cases "x = l") (auto simp: border_def)
  then show "border p (i + 1) (l + 1)" using a assms by (auto simp: border_def)
qed

lemma border_Suc_cases: "border p (i + 1) l \<Longrightarrow> l = 0 \<or> (\<exists>l'. 0 \<le> l' \<and> l = l' + 1 \<and> border p i l' \<and> at p i = at p l')"
  using border_Suc [of "l - 1" p i] by (cases "l = 0") (auto simp: border_def intro!: exI [of _ "l - 1"])

text \<open>The state of the loop: \<open>j\<close> is the longest border of the first \<open>i\<close> characters that can still be extended, or \<open>-1\<close>.\<close>

definition next_inv :: "string \<Rightarrow> int list \<Rightarrow> int \<Rightarrow> int \<Rightarrow> bool" where
  "next_inv p nxt i j \<longleftrightarrow> 0 \<le> i \<and> i \<le> int (length p) \<and> length nxt = length p + 1 \<and> table_upto p i nxt \<and>
     (j = -1 \<or> border p i j) \<and> (\<forall>l. 0 \<le> l \<and> border p i l \<and> at p i = at p l \<longrightarrow> l \<le> j)"

lemma next_inv_match:
  assumes inv: "next_inv p nxt i j" and "i < int (length p)" and "j = -1 \<or> at p i = at p j"
  shows "next_inv p (nxt[nat (i + 1) := j + 1]) (i + 1) (j + 1)"
proof -
  have lb: "longest_border p (i + 1) (j + 1)"
  proof -
    have "border p (i + 1) (j + 1)"
    proof (cases "j = -1")
      case True
      then show ?thesis using inv border_zero [of "i + 1" p] by (simp add: next_inv_def)
    next
      case False
      then have "border p i j" using inv by (auto simp: next_inv_def)
      then show ?thesis using False assms(3) border_Suc [of j p i] by (auto simp: border_def)
    qed
    moreover have "l \<le> j + 1" if b: "border p (i + 1) l" for l
    proof -
      have "-1 \<le> j" using inv by (auto simp: next_inv_def border_def)
      then show ?thesis using border_Suc_cases [OF b] inv by (auto simp: next_inv_def)
    qed
    ultimately show ?thesis by (simp add: longest_border_def)
  qed
  have ia: "in_array nxt (i + 1)" using inv assms(2) by (simp add: in_array_def next_inv_def)
  have "table_upto p (i + 1) (nxt[nat (i + 1) := j + 1])"
    unfolding table_upto_def
  proof (intro conjI allI impI)
    show "at (nxt[nat (i + 1) := j + 1]) 0 = -1" using ia inv by (simp add: at_update next_inv_def table_upto_def)
    fix k assume "1 \<le> k \<and> k \<le> i + 1"
    then show "longest_border p k (at (nxt[nat (i + 1) := j + 1]) k)"
      using ia inv lb by (auto simp: at_update next_inv_def table_upto_def)
  qed
  then show ?thesis using inv assms(2) lb by (auto simp: next_inv_def longest_border_def)
qed

lemma next_inv_mismatch:
  assumes inv: "next_inv p nxt i j" and "j \<noteq> -1" and "at p i \<noteq> at p j"
  shows "next_inv p nxt i (at nxt j) \<and> -1 \<le> at nxt j \<and> at nxt j < j"
proof -
  have b: "border p i j" and j: "0 \<le> j" "j < i" using inv assms(2) by (auto simp: next_inv_def border_def)
  show ?thesis
  proof (cases "j = 0")
    case True
    have "l \<le> -1" if "0 \<le> l" "border p i l" "at p i = at p l" for l
    proof -
      have "l \<le> 0" using inv that True by (auto simp: next_inv_def)
      then show ?thesis using that assms(3) True by (cases "l = 0") auto
    qed
    then show ?thesis using True inv by (auto simp: next_inv_def table_upto_def)
  next
    case False
    then have lb: "longest_border p j (at nxt j)" using inv j by (auto simp: next_inv_def table_upto_def)
    have "l \<le> at nxt j" if l: "0 \<le> l" "border p i l" "at p i = at p l" for l
    proof -
      have "l \<le> j" "l \<noteq> j" using inv l assms(3) by (auto simp: next_inv_def)
      then have "border p j l" using border_of_border [OF b l(2)] by simp
      then show ?thesis using lb by (simp add: longest_border_def)
    qed
    moreover have "border p i (at nxt j)" using border_trans [OF b] lb by (simp add: longest_border_def)
    ultimately show ?thesis using inv lb by (auto simp: next_inv_def longest_border_def border_def)
  qed
qed

lemma next_KMP_loop_spec:
  assumes "next_inv p nxt i j"
  shows "\<exists>t. next_KMP_loop p i j nxt = Some t \<and> length t = length p + 1 \<and> table_upto p (int (length p)) t"
  using assms
proof (induction "nat (2 * (int (length p) - i) + j + 1)" arbitrary: i j nxt rule: less_induct)
  case less
  have j: "-1 \<le> j" "j < int (length p) \<or> j = -1" "0 \<le> i" "i \<le> int (length p)" "length nxt = length p + 1"
    using less.prems by (auto simp: next_inv_def border_def)
  show ?case
  proof (cases "i < int (length p)")
    case False
    then have "i = int (length p)" using j by simp
    then show ?thesis using less.prems by (subst next_KMP_loop.simps) (simp add: next_inv_def)
  next
    case True
    have ia: "in_array nxt (i + 1)" using j True by (simp add: in_array_def)
    show ?thesis
    proof (cases "j = -1 \<or> at p i = at p j")
      case match: True
      have "next_KMP_loop p i j nxt = next_KMP_loop p (i + 1) (j + 1) (nxt[nat (i + 1) := j + 1])"
      proof (cases "j = -1")
        case jm: True
        then show ?thesis using True ia by (subst next_KMP_loop.simps) simp
      next
        case jm: False
        have "in_array p i" "in_array p j" using j True jm by (auto simp: in_array_def)
        then show ?thesis using True jm match ia by (subst next_KMP_loop.simps) simp
      qed
      moreover have "\<exists>t. next_KMP_loop p (i + 1) (j + 1) (nxt[nat (i + 1) := j + 1]) = Some t \<and> length t = length p + 1 \<and>
          table_upto p (int (length p)) t"
        using next_inv_match [OF less.prems True match] True j by (intro less.hyps) auto
      ultimately show ?thesis by simp
    next
      case mis: False
      have step: "next_inv p nxt i (at nxt j)" "-1 \<le> at nxt j" "at nxt j < j" using next_inv_mismatch [OF less.prems] mis by auto
      have "in_array p i" "in_array p j" "in_array nxt j" using j True mis by (auto simp: in_array_def)
      then have "next_KMP_loop p i j nxt = next_KMP_loop p i (at nxt j) nxt"
        using True mis by (subst next_KMP_loop.simps) simp
      moreover have "\<exists>t. next_KMP_loop p i (at nxt j) nxt = Some t \<and> length t = length p + 1 \<and> table_upto p (int (length p)) t"
        using step True by (intro less.hyps) auto
      ultimately show ?thesis by simp
    qed
  qed
qed

lemma q_next_KMP_spec:
  assumes "length nxt = length p + 1"
  shows "\<exists>t. q_next_KMP p nxt = Some t \<and> length t = length p + 1 \<and> table_upto p (int (length p)) t"
proof -
  have ia: "in_array nxt 0" using assms by (simp add: in_array_def)
  have "next_inv p (nxt[nat 0 := -1]) 0 (-1)"
    using assms at_update [OF ia, of 0 "-1"] by (auto simp: next_inv_def table_upto_def border_def)
  then show ?thesis using next_KMP_loop_spec ia by (simp add: q_next_KMP_def)
qed


section \<open>The search with the table\<close>

definition match_at :: "string \<Rightarrow> string \<Rightarrow> int \<Rightarrow> bool" where
  "match_at s p a \<longleftrightarrow> 0 \<le> a \<and> a + int (length p) \<le> int (length s) \<and>
     (\<forall>x. 0 \<le> x \<and> x < int (length p) \<longrightarrow> at s (a + x) = at p x)"

definition find_inv :: "string \<Rightarrow> string \<Rightarrow> int \<Rightarrow> int \<Rightarrow> int \<Rightarrow> bool" where
  "find_inv s p k P S \<longleftrightarrow> 0 \<le> k \<and> -1 \<le> P \<and> P \<le> int (length p) \<and> k \<le> S - P \<and> k \<le> S \<and> S \<le> int (length s) \<and> (P = -1 \<longrightarrow> S < int (length s)) \<and>
     (\<forall>x. 0 \<le> x \<and> x < P \<longrightarrow> at s (S - P + x) = at p x) \<and> (\<forall>a. k \<le> a \<and> a < S - P \<longrightarrow> \<not> match_at s p a)"

lemma find_inv_match:
  assumes inv: "find_inv s p k P S" and "P < int (length p)" and "S < int (length s)" and "P = -1 \<or> at p P = at s S"
  shows "find_inv s p k (P + 1) (S + 1)"
proof -
  have "at s (S - P + x) = at p x" if "0 \<le> x" "x < P + 1" for x
    using that inv assms(4) by (cases "x = P") (auto simp: find_inv_def)
  then show ?thesis using inv assms by (auto simp: find_inv_def)
qed

lemma find_inv_mismatch:
  assumes inv: "find_inv s p k P S" and P: "0 \<le> P" "P < int (length p)" and S: "S < int (length s)" and ne: "at p P \<noteq> at s S"
    and tab: "table_upto p (int (length p)) nxt"
  shows "find_inv s p k (at nxt P) S \<and> at nxt P < P"
proof -
  define Q where "Q = at nxt P"
  have cur: "at s (S - P + x) = at p x" if "0 \<le> x" "x < P" for x using inv that by (auto simp: find_inv_def)
  have Q: "Q = -1 \<and> P = 0 \<or> 1 \<le> P \<and> longest_border p P Q"
    using tab P by (cases "P = 0") (auto simp: table_upto_def Q_def)
  then have Qb: "-1 \<le> Q" "Q < P" using P by (auto simp: longest_border_def border_def)
  have "\<not> match_at s p a" if a: "k \<le> a" "a < S - Q" for a
  proof (cases "a < S - P")
    case True
    then show ?thesis using inv a by (auto simp: find_inv_def)
  next
    case False
    define l where "l = S - a"
    have l: "Q < l" "l \<le> P" "a = S - l" using False a by (auto simp: l_def)
    show ?thesis
    proof
      assume m: "match_at s p a"
      show False
      proof (cases "l = P")
        case True
        have "at s (a + P) = at p P" using m P by (auto simp: match_at_def)
        then show False using ne l True by simp
      next
        case False
        then have "0 \<le> l" "l < P" using l Qb by auto
        moreover have "at p (P - l + x) = at p x" if x: "0 \<le> x" "x < l" for x
        proof -
          have "at s (a + x) = at p x" using m x l P by (auto simp: match_at_def)
          moreover have "at s (S - P + (P - l + x)) = at p (P - l + x)" by (rule cur) (use x \<open>l < P\<close> in auto)
          ultimately show ?thesis by (simp add: l(3) algebra_simps)
        qed
        ultimately have "border p P l" by (auto simp: border_def)
        then show False using Q l \<open>l < P\<close> \<open>0 \<le> l\<close> by (auto simp: longest_border_def)
      qed
    qed
  qed
  moreover have "at s (S - Q + x) = at p x" if x: "0 \<le> x" "x < Q" for x
  proof -
    have b: "border p P Q" using Q x by (auto simp: longest_border_def)
    have "at s (S - P + (P - Q + x)) = at p (P - Q + x)" by (rule cur) (use x Qb in auto)
    also have "\<dots> = at p x" by (rule borderD [OF b x])
    finally show ?thesis by (simp add: algebra_simps)
  qed
  ultimately show ?thesis using inv P S Qb by (auto simp: find_inv_def Q_def [symmetric])
qed

lemma find_KMP_loop_spec:
  assumes "find_inv s p k P S" and "length nxt = length p + 1" and "table_upto p (int (length p)) nxt"
  shows "\<exists>P' S'. find_KMP_loop s p nxt P S = Some (P', S') \<and> find_inv s p k P' S' \<and> (P' = int (length p) \<or> S' = int (length s))"
  using assms(1)
proof (induction "nat (2 * (int (length s) - S) + P + 1)" arbitrary: P S rule: less_induct)
  case less
  have b: "-1 \<le> P" "P \<le> int (length p)" "S \<le> int (length s)" "0 \<le> S"
    using less.prems by (auto simp: find_inv_def)
  show ?case
  proof (cases "P < int (length p) \<and> S < int (length s)")
    case False
    then show ?thesis using less.prems b by (subst find_KMP_loop.simps) auto
  next
    case True
    show ?thesis
    proof (cases "P = -1 \<or> at p P = at s S")
      case match: True
      have "find_KMP_loop s p nxt P S = find_KMP_loop s p nxt (P + 1) (S + 1)"
      proof (cases "P = -1")
        case jm: True
        then show ?thesis using True by (subst find_KMP_loop.simps) simp
      next
        case jm: False
        have "in_array p P" "in_array s S" using b True jm by (auto simp: in_array_def)
        then show ?thesis using True jm match by (subst find_KMP_loop.simps) simp
      qed
      moreover have "\<exists>P' S'. find_KMP_loop s p nxt (P + 1) (S + 1) = Some (P', S') \<and> find_inv s p k P' S' \<and>
          (P' = int (length p) \<or> S' = int (length s))"
        using find_inv_match [OF less.prems _ _ match] True b by (intro less.hyps) auto
      ultimately show ?thesis by simp
    next
      case mis: False
      have step: "find_inv s p k (at nxt P) S" "at nxt P < P"
        using find_inv_mismatch [OF less.prems _ _ _ _ assms(3)] True mis b by auto
      have "in_array p P" "in_array s S" "in_array nxt P" using b True mis assms(2) by (auto simp: in_array_def)
      then have "find_KMP_loop s p nxt P S = find_KMP_loop s p nxt (at nxt P) S"
        using True mis by (subst find_KMP_loop.simps) simp
      moreover have "-1 \<le> at nxt P" using step by (simp add: find_inv_def)
      moreover have "\<exists>P' S'. find_KMP_loop s p nxt (at nxt P) S = Some (P', S') \<and> find_inv s p k P' S' \<and>
          (P' = int (length p) \<or> S' = int (length s))"
        using step True calculation(2) by (intro less.hyps) auto
      ultimately show ?thesis by simp
    qed
  qed
qed

lemma match_at_drop:
  "match_at src pat (int (k + i)) \<longleftrightarrow> k + i + length pat \<le> length src \<and> take (length pat) (drop i (drop k src)) = pat"
  using occurs_iff [of "k + i" pat src] by (auto simp: match_at_def add.commute)

lemma first_match:
  assumes "match_at src pat (int (k + i))" and "\<And>a. int k \<le> a \<Longrightarrow> a < int (k + i) \<Longrightarrow> \<not> match_at src pat a"
  shows "str_find pat (drop k src) = Some i"
proof (rule str_find_unique)
  have m: "k + i + length pat \<le> length src" "take (length pat) (drop i (drop k src)) = pat" using assms(1) unfolding match_at_drop by auto
  then show "i \<le> length (drop k src)" "take (length pat) (drop i (drop k src)) = pat" by auto
  fix j assume "j < i"
  then show "take (length pat) (drop j (drop k src)) \<noteq> pat"
    using assms(2) [of "int (k + j)"] m unfolding match_at_drop by auto
qed

lemma no_match:
  assumes "\<And>a. int k \<le> a \<Longrightarrow> \<not> match_at src pat a" and "k \<le> length src"
  shows "str_find pat (drop k src) = None"
proof (rule ccontr)
  assume "str_find pat (drop k src) \<noteq> None"
  then obtain i where "str_find pat (drop k src) = Some i" by blast
  from str_find_SomeD [OF this] have "match_at src pat (int (k + i))" unfolding match_at_drop using assms(2) by auto
  then show False using assms(1) [of "int (k + i)"] by simp
qed

lemma q_find_KMP_spec:
  assumes "length nxt = length pat + 1" and "table_upto pat (int (length pat)) nxt" and "k \<le> length src"
  shows "q_find_KMP src pat nxt (int k) = Some (pos_or_minus (map_option ((+) k) (str_find pat (drop k src))))"
proof -
  have "find_inv src pat (int k) 0 (int k)" using assms(3) by (auto simp: find_inv_def)
  then obtain P S where r: "find_KMP_loop src pat nxt 0 (int k) = Some (P, S)" "find_inv src pat (int k) P S"
    "P = int (length pat) \<or> S = int (length src)"
    using find_KMP_loop_spec [OF _ assms(1,2)] by blast
  show ?thesis
  proof (cases "P = int (length pat)")
    case True
    define i where "i = nat (S - P) - k"
    have S: "S - int (length pat) = int (k + i)" using True r(2) by (auto simp: find_inv_def i_def)
    then have "match_at src pat (int (k + i))"
      using True r(2) by (auto simp: find_inv_def match_at_def)
    moreover have "\<not> match_at src pat a" if "int k \<le> a" "a < int (k + i)" for a
      using that True r(2) S by (auto simp: find_inv_def)
    ultimately have "str_find pat (drop k src) = Some i" by (rule first_match)
    then show ?thesis using r(1) True S by (simp add: q_find_KMP_def pos_or_minus_def)
  next
    case False
    have "\<not> match_at src pat a" if "int k \<le> a" for a
    proof (cases "a < S - P")
      case lt: True
      then show ?thesis using that r(2) by (auto simp: find_inv_def)
    next
      case ge: False
      then show ?thesis using False r(2,3) by (auto simp: match_at_def find_inv_def)
    qed
    then have "str_find pat (drop k src) = None" using assms(3) by (rule no_match)
    then show ?thesis using r False by (auto simp: q_find_KMP_def pos_or_minus_def find_inv_def)
  qed
qed

text \<open>C30: With the table that \<open>q_next_KMP\<close> computes for a pattern, in a buffer of one entry more than the pattern, the
  Knuth-Morris-Pratt search returns, for every text and every start, the first occurrence from that start on, or \<open>-1\<close> if there is none. From the
  start of the text it finds what the plain search \<open>q_find\<close> finds.\<close>

theorem q_find_KMP_correct:
  assumes "length buf = length pat + 1" and "k \<le> length src"
  shows "\<exists>nxt. q_next_KMP pat buf = Some nxt \<and>
    q_find_KMP src pat nxt (int k) =
      Some (case str_find pat (drop k src) of None \<Rightarrow> -1 | Some i \<Rightarrow> int (k + i)) \<and>
    q_find_KMP src pat nxt 0 = q_find src pat"
proof -
  obtain nxt where n: "q_next_KMP pat buf = Some nxt" "length nxt = length pat + 1" "table_upto pat (int (length pat)) nxt"
    using q_next_KMP_spec [OF assms(1)] by blast
  show ?thesis
    using n(1) q_find_KMP_spec [OF n(2,3) assms(2)] q_find_KMP_spec [OF n(2,3), of 0 src]
    by (auto simp: pos_or_minus_def q_find_spec split: option.splits)
qed

theorem q_find_KMP_correct_witness:
  "\<exists>nxt. q_next_KMP ''abab'' [0, 0, 0, 0, 0] = Some nxt \<and> q_find_KMP ''cababab'' ''abab'' nxt 2 = Some 3 \<and>
    q_find_KMP ''cababab'' ''abab'' nxt 0 = q_find ''cababab'' ''abab''"
  using q_find_KMP_correct [of "[0, 0, 0, 0, 0]" "''abab''" 2 "''cababab''"] by simp

end
