(* ===== verification/Text_Edit.thy ===== *)
theory Text_Edit
  imports Text_Search
begin

text \<open>
  Replacing, splitting, trimming and the conversions of \<open>include/common/qfunc.h\<close> that work on whole texts. The functions on
  \<open>std::string\<close> are functions on \<^typ>\<open>string\<close>; \<open>std::string::find\<close> is \<open>str_find_from\<close>. The functions on C buffers take the characters of the
  buffer and the size of the destination, and return the error code or the text they wrote.
\<close>

section \<open>Searching from a position\<close>

definition str_find_from :: "string \<Rightarrow> string \<Rightarrow> nat \<Rightarrow> nat option" where
  "str_find_from s pat pos = (if pos \<le> length s then map_option ((+) pos) (str_find pat (drop pos s)) else None)"

text \<open>\<open>find_first_of\<close>: the first position from \<open>pos\<close> on that holds one of the characters.\<close>

definition find_first_of :: "string \<Rightarrow> string \<Rightarrow> nat \<Rightarrow> nat option" where
  "find_first_of s set_of pos =
     (let k = length (takeWhile (\<lambda>c. c \<notin> set set_of) (drop pos s))
      in if pos + k < length s then Some (pos + k) else None)"

text \<open>\<open>q_strstr\<close>: the offset of the first occurrence; an empty text or pattern gives \<open>NULL\<close>.\<close>

function strstr_loop :: "string \<Rightarrow> string \<Rightarrow> nat \<Rightarrow> nat option" where
  "strstr_loop src pat p =
     (if p + length pat \<le> length src then
        (if src ! p = pat ! 0 \<and> take (length pat) (drop p src) = pat then Some p
         else strstr_loop src pat (p + 1))
      else None)"
  by pat_completeness auto
termination by (relation "measure (\<lambda>(src, pat, p). length src + 1 - p)") auto

definition q_strstr :: "string \<Rightarrow> string \<Rightarrow> nat option" where
  "q_strstr src pat = (if src = [] \<or> pat = [] then None else strstr_loop src pat 0)"

declare strstr_loop.simps [simp del]

lemma strstr_loop_find:
  assumes "pat \<noteq> []" and "\<forall>j<p. take (length pat) (drop j src) \<noteq> pat" and "p \<le> length src"
  shows "strstr_loop src pat p = str_find pat src"
  using assms
proof (induction "length src + 1 - p" arbitrary: p rule: less_induct)
  case less
  show ?case
  proof (cases "p + length pat \<le> length src")
    case True
    show ?thesis
    proof (cases "take (length pat) (drop p src) = pat")
      case occ: True
      then have "src ! p = pat ! 0" using True less.prems(1)
        by (metis add.right_neutral add_leE length_greater_0_conv nth_drop nth_take)
      then show ?thesis using occ True str_find_unique [of p src pat] less.prems by (subst strstr_loop.simps) auto
    next
      case occ: False
      have "p < length src" using True less.prems(1) by (cases pat) auto
      then have "strstr_loop src pat (p + 1) = str_find pat src"
        using less.prems occ by (intro less.hyps) (auto simp: less_Suc_eq)
      then show ?thesis using occ True by (subst strstr_loop.simps) auto
    qed
  next
    case False
    have "str_find pat src = None"
    proof (rule ccontr)
      assume "str_find pat src \<noteq> None"
      then obtain r where "str_find pat src = Some r" by blast
      from str_find_SomeD [OF this] show False using less.prems False by (metis add_le_cancel_right leI le_trans)
    qed
    then show ?thesis using False by (subst strstr_loop.simps) simp
  qed
qed

lemma q_strstr_find: "pat \<noteq> [] \<Longrightarrow> q_strstr src pat = str_find pat src"
  using strstr_loop_find [of pat 0 src] by (auto simp: q_strstr_def)


section \<open>Replacing\<close>

text \<open>The reference: every occurrence, from the left, without looking into what has been replaced.\<close>

function replace_all :: "string \<Rightarrow> string \<Rightarrow> string \<Rightarrow> string" where
  "replace_all pat rep s =
     (if pat = [] then s
      else case str_find pat s of
             None \<Rightarrow> s
           | Some i \<Rightarrow> take i s @ rep @ replace_all pat rep (drop (i + length pat) s))"
  by pat_completeness auto
termination
proof (relation "measure (\<lambda>(pat, rep, s). length s)")
  fix pat rep s :: string and i
  assume "pat \<noteq> []" "str_find pat s = Some i"
  then show "((pat, rep, drop (i + length pat) s), pat, rep, s) \<in> measure (\<lambda>(pat, rep, s). length s)"
    using str_find_SomeD [of pat s i] by (cases pat) auto
qed simp

text \<open>The loop \<open>do ... while(p!=NULL)\<close> of \<open>q_strrep\<close>: \<open>rest\<close> is the text from \<open>p1\<close> on, \<open>out\<close> what has been written.\<close>

function strrep_loop :: "string \<Rightarrow> string \<Rightarrow> nat \<Rightarrow> string \<Rightarrow> string \<Rightarrow> int \<times> string" where
  "strrep_loop from_s to_s max_size rest out =
     (case q_strstr rest from_s of
        None \<Rightarrow> if length out + length rest > max_size then (-2, out)
                 else (int (length (out @ rest)), out @ rest)
      | Some i \<Rightarrow> if length out + i + length to_s > max_size then (-2, out)
                  else strrep_loop from_s to_s max_size (drop (i + length from_s) rest) (out @ take i rest @ to_s))"
  by pat_completeness auto
termination
proof (relation "measure (\<lambda>(from_s, to_s, max_size, rest, out). length rest)")
  fix from_s to_s rest out :: string and max_size i
  assume "q_strstr rest from_s = Some i"
  then have "from_s \<noteq> []" "rest \<noteq> []" by (auto simp: q_strstr_def split: if_splits)
  then show "((from_s, to_s, max_size, drop (i + length from_s) rest, out @ take i rest @ to_s), from_s, to_s, max_size, rest, out)
      \<in> measure (\<lambda>(from_s, to_s, max_size, rest, out). length rest)"
    by simp
qed simp

definition q_strrep :: "string \<Rightarrow> string \<Rightarrow> string \<Rightarrow> nat \<Rightarrow> int \<times> string" where
  "q_strrep src from_s to_s max_size =
     (if src = [] \<or> from_s = [] \<or> to_s = [] \<or> max_size = 0 then (-1, [])
      else strrep_loop from_s to_s max_size src [])"

partial_function (option) replace_loop :: "string \<Rightarrow> string \<Rightarrow> string \<Rightarrow> nat \<Rightarrow> string option" where
  "replace_loop search rep s pos =
     (case str_find_from s search pos of
        None \<Rightarrow> Some s
      | Some i \<Rightarrow> replace_loop search rep (take i s @ rep @ drop (i + length search) s) (i + length rep))"

definition q_replace :: "string \<Rightarrow> string \<Rightarrow> string \<Rightarrow> string option" where
  "q_replace ss search rep = replace_loop search rep ss 0"

declare replace_all.simps [simp del] strrep_loop.simps [simp del]
declare replace_loop.simps [code]

lemma replace_loop_spec:
  assumes "search \<noteq> []"
  shows "replace_loop search rep (pre @ rest) (length pre) = Some (pre @ replace_all search rep rest)"
proof (induction "length rest" arbitrary: pre rest rule: less_induct)
  case less
  have f: "str_find_from (pre @ rest) search (length pre) = map_option ((+) (length pre)) (str_find search rest)"
    by (simp add: str_find_from_def)
  show ?case
  proof (cases "str_find search rest")
    case None
    then show ?thesis using assms f by (subst replace_loop.simps) (simp add: replace_all.simps [of search rep rest])
  next
    case (Some i)
    have i: "i + length search \<le> length rest" using str_find_SomeD [OF Some] by blast
    let ?pre = "pre @ take i rest @ rep" and ?rest = "drop (i + length search) rest"
    have "length ?rest < length rest" using i assms by (cases search) auto
    then have "replace_loop search rep (?pre @ ?rest) (length ?pre) = Some (?pre @ replace_all search rep ?rest)"
      by (rule less.hyps)
    moreover have "take (length pre + i) (pre @ rest) @ rep @ drop (length pre + i + length search) (pre @ rest) = ?pre @ ?rest"
      "length pre + i + length rep = length ?pre"
      using i by (simp_all add: min_absorb2)
    ultimately show ?thesis using Some f assms
      by (subst replace_loop.simps) (simp add: replace_all.simps [of search rep rest] add.assoc)
  qed
qed

lemma q_replace_spec: "search \<noteq> [] \<Longrightarrow> q_replace ss search rep = Some (replace_all search rep ss)"
  using replace_loop_spec [of search rep "[]" ss] by (simp add: q_replace_def)

lemma str_find_Nil [simp]: "str_find [] s = Some 0"
  by (cases s) auto

text \<open>Replacing the empty text by the empty text never ends.\<close>

lemma q_replace_empty_stuck: "q_replace ss [] [] = None"
proof -
  have "replace_loop search rep s pos = Some r \<Longrightarrow> \<not> (search = [] \<and> rep = [] \<and> s = ss \<and> pos = 0)" for search rep s pos r
    by (rule replace_loop.raw_induct [where P = "\<lambda>search rep s pos r. \<not> (search = [] \<and> rep = [] \<and> s = ss \<and> pos = 0)"])
      (fastforce simp: str_find_from_def str_find_Nil split: option.splits if_splits)
  then show ?thesis unfolding q_replace_def by (metis option.exhaust)
qed

lemma strrep_loop_spec:
  assumes "from_s \<noteq> []"
  shows "if length out + length (replace_all from_s to_s rest) \<le> max_size
    then strrep_loop from_s to_s max_size rest out =
      (int (length (out @ replace_all from_s to_s rest)), out @ replace_all from_s to_s rest)
    else fst (strrep_loop from_s to_s max_size rest out) = -2"
proof (induction "length rest" arbitrary: rest out rule: less_induct)
  case less
  note f = q_strstr_find [OF assms, of rest]
  show ?case
  proof (cases "str_find from_s rest")
    case None
    then show ?thesis using assms f
      by (subst (1 2) strrep_loop.simps) (simp add: replace_all.simps [of from_s to_s rest])
  next
    case (Some i)
    have i: "i + length from_s \<le> length rest" using str_find_SomeD [OF Some] by blast
    let ?out = "out @ take i rest @ to_s" and ?rest = "drop (i + length from_s) rest"
    have r: "replace_all from_s to_s rest = take i rest @ to_s @ replace_all from_s to_s ?rest"
      using Some assms by (subst replace_all.simps) simp
    have "length ?rest < length rest" using i assms by (cases from_s) auto
    note IH = less.hyps [OF this, of ?out]
    have u: "strrep_loop from_s to_s max_size rest out =
        (if length out + i + length to_s > max_size then (-2, out) else strrep_loop from_s to_s max_size ?rest ?out)"
      using f Some by (subst strrep_loop.simps) simp
    show ?thesis using IH i unfolding u r by (auto simp: min_absorb2 split: if_splits)
  qed
qed

lemma q_strrep_spec:
  assumes "src \<noteq> []" and "from_s \<noteq> []" and "to_s \<noteq> []" and "0 < max_size"
  shows "if length (replace_all from_s to_s src) \<le> max_size
    then q_strrep src from_s to_s max_size = (int (length (replace_all from_s to_s src)), replace_all from_s to_s src)
    else fst (q_strrep src from_s to_s max_size) = -2"
  using strrep_loop_spec [OF assms(2), of "[]" to_s src max_size] assms by (simp add: q_strrep_def)


section \<open>Splitting\<close>

text \<open>
  The text of all the \<open>q_split\<close> functions on \<open>std::string\<close>: \<open>find\<close> is the search they use, \<open>seplen\<close> what they skip behind a
  separator and \<open>more\<close> the value of \<open>extra\<close> after the first piece.
\<close>

partial_function (option) text_split_loop ::
  "(string \<Rightarrow> nat \<Rightarrow> nat option) \<Rightarrow> nat \<Rightarrow> nat \<Rightarrow> string \<Rightarrow> nat \<Rightarrow> nat \<Rightarrow> string list \<Rightarrow> string list option" where
  "text_split_loop find_sep seplen extra1 ss start extra elems =
     (case find_sep ss (start + extra) of
        None \<Rightarrow> Some (elems @ [drop start ss])
      | Some e \<Rightarrow> text_split_loop find_sep seplen extra1 ss (e + seplen) extra1 (elems @ [take (e - start) (drop start ss)]))"

declare text_split_loop.simps [code]

definition q_split_char_into :: "string \<Rightarrow> char \<Rightarrow> string list \<Rightarrow> string list option" where
  "q_split_char_into ss sep elems = text_split_loop (\<lambda>s. find_first_of s [sep]) 1 0 ss 0 0 elems"

definition q_split_char :: "string \<Rightarrow> char \<Rightarrow> string list option" where
  "q_split_char ss sep = text_split_loop (\<lambda>s. find_first_of s [sep]) 1 0 ss 0 0 []"

definition q_split_text_into :: "string \<Rightarrow> string \<Rightarrow> string list \<Rightarrow> string list option" where
  "q_split_text_into ss sep elems =
     text_split_loop (\<lambda>s. str_find_from s sep) (length sep) (if length sep = 0 then 1 else 0) ss 0 0 elems"

definition q_split_text :: "string \<Rightarrow> string \<Rightarrow> string list option" where
  "q_split_text ss sep =
     text_split_loop (\<lambda>s. str_find_from s sep) (length sep) (if length sep = 0 then 1 else 0) ss 0 0 []"

definition q_split_any_into :: "string \<Rightarrow> string \<Rightarrow> string list \<Rightarrow> string list option" where
  "q_split_any_into ss sep elems =
     text_split_loop (\<lambda>s. find_first_of s sep) (if length sep = 0 then 0 else 1) (if length sep = 0 then 1 else 0) ss 0 0 elems"

definition q_split_any :: "string \<Rightarrow> string \<Rightarrow> string list option" where
  "q_split_any ss sep =
     text_split_loop (\<lambda>s. find_first_of s sep) (if length sep = 0 then 0 else 1) (if length sep = 0 then 1 else 0) ss 0 0 []"

text \<open>The positions that \<open>q_split\<close> on a buffer stores; \<open>-1\<close> when the array of positions is full.\<close>

partial_function (option) split_pos_loop :: "string \<Rightarrow> string \<Rightarrow> nat \<Rightarrow> nat \<Rightarrow> nat list \<Rightarrow> (int \<times> nat list) option" where
  "split_pos_loop src sep pos_size p1 pos =
     (if length pos + 2 > pos_size then Some (-1, pos)
      else case q_strstr (drop p1 src) sep of
             Some i \<Rightarrow> split_pos_loop src sep pos_size (p1 + i + length sep) (pos @ [p1, p1 + i])
           | None \<Rightarrow> Some (int (length pos div 2) + 1, pos @ [p1, length src]))"

definition q_split_pos :: "string \<Rightarrow> string \<Rightarrow> nat \<Rightarrow> (int \<times> nat list) option" where
  "q_split_pos src sep pos_size =
     (if src = [] \<or> sep = [] then Some (0, []) else split_pos_loop src sep pos_size 0 [])"

declare split_pos_loop.simps [code]

fun join :: "string \<Rightarrow> string list \<Rightarrow> string" where
  "join sep [] = []"
| "join sep [x] = x"
| "join sep (x # xs) = x @ sep @ join sep xs"

lemma join_Cons: "xs \<noteq> [] \<Longrightarrow> join sep (x # xs) = x @ sep @ join sep xs"
  by (cases xs) auto

text \<open>A search for a separator: what it finds is the first place where one of the separator's texts stands.\<close>

definition finds_sep :: "(string \<Rightarrow> nat \<Rightarrow> nat option) \<Rightarrow> nat \<Rightarrow> (string \<Rightarrow> bool) \<Rightarrow> bool" where
  "finds_sep find_sep n is_sep \<longleftrightarrow> 0 < n \<and> (\<forall>s p. p \<le> length s \<longrightarrow>
     (case find_sep s p of
        None \<Rightarrow> (\<forall>j. p \<le> j \<and> j + n \<le> length s \<longrightarrow> \<not> is_sep (take n (drop j s)))
      | Some e \<Rightarrow> p \<le> e \<and> e + n \<le> length s \<and> is_sep (take n (drop e s)) \<and>
          (\<forall>j. p \<le> j \<and> j < e \<longrightarrow> \<not> is_sep (take n (drop j s)))))"

text \<open>No separator stands inside the piece \<open>x\<close>.\<close>

definition no_sep :: "nat \<Rightarrow> (string \<Rightarrow> bool) \<Rightarrow> string \<Rightarrow> bool" where
  "no_sep n is_sep x \<longleftrightarrow> (\<forall>j. j + n \<le> length x \<longrightarrow> \<not> is_sep (take n (drop j x)))"

lemma finds_sep_text: "sep \<noteq> [] \<Longrightarrow> finds_sep (\<lambda>s. str_find_from s sep) (length sep) (\<lambda>t. t = sep)"
  unfolding finds_sep_def
proof (intro conjI allI impI)
  fix s :: string and p assume p: "p \<le> length s"
  show "case str_find_from s sep p of
      None \<Rightarrow> \<forall>j. p \<le> j \<and> j + length sep \<le> length s \<longrightarrow> \<not> take (length sep) (drop j s) = sep
    | Some e \<Rightarrow> p \<le> e \<and> e + length sep \<le> length s \<and> take (length sep) (drop e s) = sep \<and>
        (\<forall>j. p \<le> j \<and> j < e \<longrightarrow> \<not> take (length sep) (drop j s) = sep)"
  proof (cases "str_find sep (drop p s)")
    case None
    have "take (length sep) (drop j s) \<noteq> sep" if "p \<le> j" "j + length sep \<le> length s" for j
      using str_find_None [OF None, of "j - p"] that by simp
    then show ?thesis using None p by (simp add: str_find_from_def)
  next
    case (Some i)
    note d = str_find_SomeD [OF Some]
    have "take (length sep) (drop j s) \<noteq> sep" if "p \<le> j" "j < p + i" for j
      using d that by (metis (no_types, lifting) drop_drop le_add_diff_inverse2 less_diff_conv2 nat_add_left_cancel_less add.commute)
    then show ?thesis using Some p d by (auto simp: str_find_from_def add.commute)
  qed
qed simp

lemma finds_sep_any:
  "finds_sep (\<lambda>s. find_first_of s chars) 1 (\<lambda>t. t \<noteq> [] \<and> hd t \<in> set chars)"
  unfolding finds_sep_def
proof (intro conjI allI impI)
  fix s :: string and p assume p: "p \<le> length s"
  define k where "k = length (takeWhile (\<lambda>c. c \<notin> set chars) (drop p s))"
  have hd: "hd (take 1 (drop j s)) = s ! j" "take 1 (drop j s) \<noteq> []" if "j < length s" for j
    using that by (simp_all add: hd_drop_conv_nth)
  have before: "s ! j \<notin> set chars" if "p \<le> j" "j < p + k" for j
  proof -
    have "takeWhile (\<lambda>c. c \<notin> set chars) (drop p s) ! (j - p) = drop p s ! (j - p)"
      using that by (intro takeWhile_nth) (simp add: k_def)
    moreover have "takeWhile (\<lambda>c. c \<notin> set chars) (drop p s) ! (j - p) \<in> set (takeWhile (\<lambda>c. c \<notin> set chars) (drop p s))"
      using that by (intro nth_mem) (simp add: k_def)
    ultimately show ?thesis using that p set_takeWhileD by fastforce
  qed
  have kle: "p + k \<le> length s" using p length_takeWhile_le [of "\<lambda>c. c \<notin> set chars" "drop p s"] by (simp add: k_def)
  show "case find_first_of s chars p of
      None \<Rightarrow> \<forall>j. p \<le> j \<and> j + 1 \<le> length s \<longrightarrow> \<not> (take 1 (drop j s) \<noteq> [] \<and> hd (take 1 (drop j s)) \<in> set chars)
    | Some e \<Rightarrow> p \<le> e \<and> e + 1 \<le> length s \<and> (take 1 (drop e s) \<noteq> [] \<and> hd (take 1 (drop e s)) \<in> set chars) \<and>
        (\<forall>j. p \<le> j \<and> j < e \<longrightarrow> \<not> (take 1 (drop j s) \<noteq> [] \<and> hd (take 1 (drop j s)) \<in> set chars))"
  proof (cases "p + k < length s")
    case True
    have "s ! (p + k) \<in> set chars"
      using nth_length_takeWhile [of "\<lambda>c. c \<notin> set chars" "drop p s"] True by (simp add: k_def)
    then show ?thesis using True before hd by (auto simp: find_first_of_def k_def [symmetric] Let_def)
  next
    case False
    then have "p + k = length s" using kle by simp
    then show ?thesis using before hd by (auto simp: find_first_of_def k_def [symmetric] Let_def)
  qed
qed simp

fun interleave :: "string list \<Rightarrow> string list \<Rightarrow> string" where
  "interleave (x # xs) (s # ss) = x @ s @ interleave xs ss"
| "interleave [x] [] = x"
| "interleave _ _ = []"

lemma text_split_loop_spec:
  assumes fs: "finds_sep find_sep n is_sep" and "start \<le> length ss"
  shows "\<exists>ps qs. text_split_loop find_sep n 0 ss start 0 elems = Some (elems @ ps) \<and> length ps = length qs + 1 \<and>
    interleave ps qs = drop start ss \<and> (\<forall>q\<in>set qs. length q = n \<and> is_sep q) \<and> (\<forall>p\<in>set ps. no_sep n is_sep p)"
  using assms(2)
proof (induction "length ss - start" arbitrary: start elems rule: less_induct)
  case less
  have n: "0 < n" using fs by (simp add: finds_sep_def)
  have spec: "case find_sep ss start of
      None \<Rightarrow> \<forall>j. start \<le> j \<and> j + n \<le> length ss \<longrightarrow> \<not> is_sep (take n (drop j ss))
    | Some e \<Rightarrow> start \<le> e \<and> e + n \<le> length ss \<and> is_sep (take n (drop e ss)) \<and>
        (\<forall>j. start \<le> j \<and> j < e \<longrightarrow> \<not> is_sep (take n (drop j ss)))"
    using fs less.prems by (simp add: finds_sep_def)
  show ?case
  proof (cases "find_sep ss start")
    case None
    have "no_sep n is_sep (drop start ss)"
      unfolding no_sep_def
    proof (intro allI impI)
      fix j assume "j + n \<le> length (drop start ss)"
      then have "start \<le> start + j" "start + j + n \<le> length ss" using less.prems by auto
      then show "\<not> is_sep (take n (drop j (drop start ss)))" using spec None by (simp add: add.commute)
    qed
    then show ?thesis using None
      by (subst text_split_loop.simps) (auto intro!: exI [of _ "[drop start ss]"] exI [of _ "[]"])
  next
    case (Some e)
    have e: "start \<le> e" "e + n \<le> length ss" "is_sep (take n (drop e ss))"
      "\<And>j. start \<le> j \<Longrightarrow> j < e \<Longrightarrow> \<not> is_sep (take n (drop j ss))" using spec Some by auto
    have dec: "length ss - (e + n) < length ss - start" using e(1,2) n by linarith
    let ?x = "take (e - start) (drop start ss)"
    obtain ps qs where r: "text_split_loop find_sep n 0 ss (e + n) 0 (elems @ [?x]) = Some ((elems @ [?x]) @ ps)" "length ps = length qs + 1"
      "interleave ps qs = drop (e + n) ss" "\<forall>q\<in>set qs. length q = n \<and> is_sep q" "\<forall>p\<in>set ps. no_sep n is_sep p"
      using less.hyps [OF dec e(2), of "elems @ [?x]"] by blast
    have "no_sep n is_sep ?x"
      unfolding no_sep_def
    proof (intro allI impI)
      fix j assume j: "j + n \<le> length ?x"
      then have "n \<le> e - start - j" using e(1,2) by (auto simp: min_def split: if_splits)
      then have "take n (drop j ?x) = take n (drop (start + j) ss)" by (simp add: drop_take add.commute)
      then show "\<not> is_sep (take n (drop j ?x))" using e(4) [of "start + j"] j n e(1,2) by auto
    qed
    moreover have "interleave (?x # ps) (take n (drop e ss) # qs) = drop start ss"
    proof -
      have "drop start ss = ?x @ drop e ss" using e(1) by (metis append_take_drop_id drop_drop le_add_diff_inverse2)
      also have "drop e ss = take n (drop e ss) @ drop (e + n) ss" using append_take_drop_id [of n "drop e ss"] by (simp add: add.commute)
      finally show ?thesis using r(3) by simp
    qed
    ultimately show ?thesis using Some r e
      by (intro exI [of _ "?x # ps"] exI [of _ "take n (drop e ss) # qs"], subst text_split_loop.simps) auto
  qed
qed

lemma interleave_join: "length ps = length qs + 1 \<Longrightarrow> \<forall>q\<in>set qs. q = sep \<Longrightarrow> interleave ps qs = join sep ps"
proof (induction ps qs rule: interleave.induct)
  case (1 x xs s ss)
  then have "xs \<noteq> []" by auto
  then show ?case using 1 by (simp add: join_Cons)
qed auto

lemma q_split_text_spec:
  assumes "sep \<noteq> []"
  shows "\<exists>ps. q_split_text ss sep = Some ps \<and> join sep ps = ss \<and> (\<forall>p\<in>set ps. str_find sep p = None)"
proof -
  obtain ps qs where r: "q_split_text ss sep = Some ps" "length ps = length qs + 1" "interleave ps qs = ss"
    "\<forall>q\<in>set qs. q = sep" "\<forall>p\<in>set ps. no_sep (length sep) (\<lambda>t. t = sep) p"
    using text_split_loop_spec [OF finds_sep_text [OF assms], of 0 ss "[]"] assms by (auto simp: q_split_text_def)
  have "str_find sep p = None" if "p \<in> set ps" for p
  proof (rule ccontr)
    assume "str_find sep p \<noteq> None"
    then obtain i where "str_find sep p = Some i" by blast
    from str_find_SomeD [OF this] show False using r(5) that by (auto simp: no_sep_def)
  qed
  then show ?thesis using r interleave_join [OF r(2,4)] by auto
qed

lemma q_split_char_spec: "\<exists>ps. q_split_char ss c = Some ps \<and> join [c] ps = ss \<and> (\<forall>p\<in>set ps. c \<notin> set p)"
proof -
  obtain ps qs where r: "q_split_char ss c = Some ps" "length ps = length qs + 1" "interleave ps qs = ss"
    "\<forall>q\<in>set qs. length q = 1 \<and> q \<noteq> [] \<and> hd q \<in> set [c]" "\<forall>p\<in>set ps. no_sep 1 (\<lambda>t. t \<noteq> [] \<and> hd t \<in> set [c]) p"
    using text_split_loop_spec [OF finds_sep_any [of "[c]"], of 0 ss "[]"] by (auto simp: q_split_char_def)
  have "\<forall>q\<in>set qs. q = [c]" using r(4) by (auto simp: length_Suc_conv)
  moreover have "c \<notin> set p" if "p \<in> set ps" for p
  proof
    assume "c \<in> set p"
    then obtain j where j: "j < length p" "p ! j = c" by (auto simp: in_set_conv_nth)
    then show False using r(5) that by (auto simp: no_sep_def hd_drop_conv_nth dest!: bspec spec [of _ j])
  qed
  ultimately show ?thesis using r interleave_join [OF r(2)] by auto
qed


section \<open>Trimming and the small predicates\<close>

definition is_blank :: "char \<Rightarrow> bool" where
  "is_blank c \<longleftrightarrow> c \<in> {CHR 0x20, CHR 0x09, CHR 0x0D, CHR 0x0A, CHR 0x0B, CHR 0x0C}"

definition q_left_trim :: "string \<Rightarrow> string" where
  "q_left_trim ss = dropWhile is_blank ss"

definition q_right_trim :: "string \<Rightarrow> string" where
  "q_right_trim ss = rev (dropWhile is_blank (rev ss))"

definition q_trim :: "string \<Rightarrow> string" where
  "q_trim ss = q_left_trim (q_right_trim ss)"

text \<open>\<open>while((end=ss.find_first_of(spaces, start))!=ss.npos)\<close>; \<open>rest\<close> is the text from \<open>start\<close> on.\<close>

function simplify_loop :: "string \<Rightarrow> string \<Rightarrow> string" where
  "simplify_loop rest s =
     (let w = takeWhile (\<lambda>c. \<not> is_blank c) rest
      in if length w < length rest
         then simplify_loop (drop (length w + 1) rest) (if w \<noteq> [] then s @ w @ [CHR 0x20] else s)
         else if rest \<noteq> [] then s @ rest else s)"
  by pat_completeness auto
termination by (relation "measure (\<lambda>(rest, s). length rest)") auto

definition q_simplify :: "string \<Rightarrow> string" where
  "q_simplify ss = q_trim (simplify_loop ss [])"

definition q_starts_with :: "string \<Rightarrow> string \<Rightarrow> bool" where
  "q_starts_with ss s \<longleftrightarrow> take (length s) ss = s"

definition q_starts_with_char :: "string \<Rightarrow> char \<Rightarrow> bool" where
  "q_starts_with_char ss c \<longleftrightarrow> (if length ss \<noteq> 0 then ss ! 0 = c else False)"

definition q_ends_with :: "string \<Rightarrow> string \<Rightarrow> bool" where
  "q_ends_with ss s \<longleftrightarrow> (if length ss \<ge> length s then drop (length ss - length s) ss = s else False)"

definition q_ends_with_char :: "string \<Rightarrow> char \<Rightarrow> bool" where
  "q_ends_with_char ss c \<longleftrightarrow> (if length ss \<noteq> 0 then ss ! (length ss - 1) = c else False)"

definition q_contains :: "string \<Rightarrow> string \<Rightarrow> bool" where
  "q_contains ss s \<longleftrightarrow> str_find s ss \<noteq> None"

definition q_contains_char :: "string \<Rightarrow> char \<Rightarrow> bool" where
  "q_contains_char ss c \<longleftrightarrow> find_first_of ss [c] 0 \<noteq> None"

text \<open>\<open>tolower\<close> and \<open>toupper\<close> in the C locale, and the functions on buffers, which add or subtract 32 themselves.\<close>

definition shift_char :: "int \<Rightarrow> char \<Rightarrow> char" where
  "shift_char d c = char_of (nat (of_char c + d))"

definition lower_char :: "char \<Rightarrow> char" where
  "lower_char c = (if (of_char c :: nat) \<ge> 65 \<and> (of_char c :: nat) \<le> 90 then shift_char 32 c else c)"

definition upper_char :: "char \<Rightarrow> char" where
  "upper_char c = (if (of_char c :: nat) \<ge> 97 \<and> (of_char c :: nat) \<le> 122 then shift_char (-32) c else c)"

definition q_to_lower :: "string \<Rightarrow> string" where
  "q_to_lower ss = map lower_char ss"

definition q_to_upper :: "string \<Rightarrow> string" where
  "q_to_upper ss = map upper_char ss"

definition q_to_lower_buf :: "string \<Rightarrow> string" where
  "q_to_lower_buf buf = map lower_char (cstr buf) @ drop (length (cstr buf)) buf"

definition q_to_upper_buf :: "string \<Rightarrow> string" where
  "q_to_upper_buf buf = map upper_char (cstr buf) @ drop (length (cstr buf)) buf"

text \<open>
  The overloads on buffers of \<open>q_starts_with\<close> and \<open>q_ends_with\<close> call \<open>memcpy\<close>: they answer false and leave the pattern in the
  text they were asked about.
\<close>

definition q_starts_with_buf :: "string \<Rightarrow> string \<Rightarrow> bool \<times> string" where
  "q_starts_with_buf src pat =
     (if src = [] \<or> pat = [] \<or> length src < length pat then (False, src)
      else (False, overwrite 0 pat src))"

definition q_ends_with_buf :: "string \<Rightarrow> string \<Rightarrow> bool \<times> string" where
  "q_ends_with_buf src pat =
     (if src = [] \<or> pat = [] \<or> length src < length pat then (False, src)
      else (False, overwrite (length src - length pat) pat src))"

text \<open>\<open>q_is_integer\<close> on a text ended by a zero character.\<close>

definition digit_c :: "char \<Rightarrow> bool" where
  "digit_c c \<longleftrightarrow> (of_char c :: nat) \<ge> 48 \<and> (of_char c :: nat) \<le> 57"

definition q_is_integer :: "string \<Rightarrow> bool" where
  "q_is_integer p = (case cstr p of [] \<Rightarrow> False | c # cs \<Rightarrow> list_all digit_c (if c = CHR ''-'' then cs else c # cs))"

text \<open>The digit loops of \<open>q_stoui\<close> and \<open>q_stoull\<close>: the arithmetic wraps at the width of the result.\<close>

fun digits_loop :: "'w::len word \<Rightarrow> string \<Rightarrow> 'w word" where
  "digits_loop n [] = n"
| "digits_loop n (c # cs) = (if digit_c c then digits_loop (10 * n + (of_nat (of_char c) - 48)) cs else n)"

definition q_stoui :: "string \<Rightarrow> 32 word" where
  "q_stoui src = digits_loop 0 src"

definition q_stoull :: "string \<Rightarrow> 64 word" where
  "q_stoull src = digits_loop 0 (take 22 src)"

function palindrome_loop :: "string \<Rightarrow> int \<Rightarrow> int \<Rightarrow> bool" where
  "palindrome_loop s front rear =
     (if front < rear then (if s ! nat front \<noteq> s ! nat rear then False else palindrome_loop s (front + 1) (rear - 1)) else True)"
  by pat_completeness auto
termination by (relation "measure (\<lambda>(s, front, rear). nat (rear - front))") auto

declare palindrome_loop.simps [simp del]

definition q_is_palindrome :: "string \<Rightarrow> bool" where
  "q_is_palindrome s \<longleftrightarrow> (if s = [] then False else palindrome_loop s 0 (int (length s) - 1))"

partial_function (option) substr_all_loop :: "string \<Rightarrow> string \<Rightarrow> string \<Rightarrow> nat \<Rightarrow> string list \<Rightarrow> string list option" where
  "substr_all_loop ss s1 s2 pos elems =
     (case (str_find_from ss s1 pos, str_find_from ss s2 pos) of
        (Some pos1, Some pos2) \<Rightarrow>
          substr_all_loop ss s1 s2 (pos2 + length s2)
                 (elems @ [if pos2 \<ge> pos1 + length s1 then take (pos2 - pos1 - length s1) (drop (pos1 + length s1) ss)
                           else drop (pos1 + length s1) ss])
      | _ \<Rightarrow> Some elems)"

definition q_substr_all :: "string \<Rightarrow> string \<Rightarrow> string \<Rightarrow> string list option" where
  "q_substr_all ss s1 s2 = substr_all_loop ss s1 s2 0 []"

declare substr_all_loop.simps [code] simplify_loop.simps [simp del]

text \<open>The tokenizers trim each piece and keep it when something is left of it.\<close>

definition keep_trimmed :: "string list \<Rightarrow> string \<Rightarrow> string list" where
  "keep_trimmed sents sent = (let t = q_trim sent in if t \<noteq> [] then sents @ [t] else sents)"

function line_tokenize_loop :: "string \<Rightarrow> string list \<Rightarrow> string list" where
  "line_tokenize_loop rest sents =
     (let w = takeWhile (\<lambda>c. c \<notin> {CHR 0x0D, CHR 0x0A}) rest
      in if length w < length rest
         then line_tokenize_loop (drop (length w + 1) rest) (if w \<noteq> [] then keep_trimmed sents w else sents)
         else if rest \<noteq> [] then keep_trimmed sents rest else sents)"
  by pat_completeness auto
termination by (relation "measure (\<lambda>(rest, sents). length rest)") auto

definition q_line_tokenize :: "string \<Rightarrow> string list" where
  "q_line_tokenize ss = line_tokenize_loop ss []"

function sent_tokenize_loop :: "string \<Rightarrow> string list \<Rightarrow> string list" where
  "sent_tokenize_loop rest sents =
     (let w = takeWhile (\<lambda>c. c \<notin> {CHR ''?'', CHR ''!''}) rest
      in if length w < length rest
         then sent_tokenize_loop (drop (length w + 1) rest) (keep_trimmed sents (take (length w + 1) rest))
         else if rest \<noteq> [] then keep_trimmed sents rest else sents)"
  by pat_completeness auto
termination by (relation "measure (\<lambda>(rest, sents). length rest)") auto

text \<open>The full-width stop, question and exclamation marks are three bytes each in the source.\<close>

definition q_sent_tokenize :: "string \<Rightarrow> string list option" where
  "q_sent_tokenize ss = do {
     s1 \<leftarrow> q_replace ss [CHR 0xE3, CHR 0x80, CHR 0x82] ''.'';
     s2 \<leftarrow> q_replace s1 [CHR 0xEF, CHR 0xBC, CHR 0x9F] ''?'';
     s3 \<leftarrow> q_replace s2 [CHR 0xEF, CHR 0xBC, CHR 0x81] ''!'';
     Some (sent_tokenize_loop s3 []) }"

declare line_tokenize_loop.simps [simp del] sent_tokenize_loop.simps [simp del]

definition q_repair_url :: "string \<Rightarrow> string \<Rightarrow> string option" where
  "q_repair_url url host = do {
     s \<leftarrow> q_replace url [CHR 0x5C, CHR ''/''] ''/'';
     Some (if q_starts_with s ''http://'' \<or> q_starts_with s ''https://'' \<or> q_starts_with s ''ftp://'' then s
           else if q_starts_with s ''//'' then ''http:'' @ s
           else if q_starts_with s ''://'' then ''http'' @ s
           else if q_starts_with_char s (CHR ''/'') then host @ s
           else host @ ''/'' @ s) }"


lemma q_trim_no_blank: "q_trim ss = [] \<or> \<not> is_blank (hd (q_trim ss)) \<and> \<not> is_blank (last (q_trim ss))"
proof -
  define r where "r = q_right_trim ss"
  have last: "\<not> is_blank (last r)" if "r \<noteq> []" using that hd_dropWhile [of is_blank "rev ss"] by (simp add: r_def q_right_trim_def last_rev)
  show ?thesis
  proof (cases "dropWhile is_blank r = []")
    case True
    then show ?thesis by (simp add: q_trim_def q_left_trim_def r_def)
  next
    case False
    then have "r \<noteq> []" by auto
    moreover have "last (dropWhile is_blank r) = last r" using False by (metis last_appendR takeWhile_dropWhile_id)
    ultimately show ?thesis using last False hd_dropWhile [OF False] by (simp add: q_trim_def q_left_trim_def r_def)
  qed
qed

lemma line_tokenize_loop_trimmed:
  "\<forall>t\<in>set sents. t \<noteq> [] \<and> (\<exists>u. t = q_trim u) \<Longrightarrow>
   \<forall>t\<in>set (line_tokenize_loop rest sents). t \<noteq> [] \<and> (\<exists>u. t = q_trim u)"
proof (induction rest sents rule: line_tokenize_loop.induct)
  case (1 rest sents)
  have keep: "\<forall>t\<in>set (keep_trimmed sents w). t \<noteq> [] \<and> (\<exists>u. t = q_trim u)" for w
    using 1(2) by (auto simp: keep_trimmed_def Let_def)
  define w where "w = takeWhile (\<lambda>c. c \<notin> {CHR 0x0D, CHR 0x0A}) rest"
  define kept where "kept = (if w \<noteq> [] then keep_trimmed sents w else sents)"
  have kept: "\<forall>t\<in>set kept. t \<noteq> [] \<and> (\<exists>u. t = q_trim u)" unfolding kept_def using keep 1(2) by simp
  have unfolded: "line_tokenize_loop rest sents =
    (if length w < length rest then line_tokenize_loop (drop (length w + 1) rest) kept
     else if rest \<noteq> [] then keep_trimmed sents rest else sents)"
    unfolding w_def kept_def by (subst line_tokenize_loop.simps) (simp only: Let_def)
  show ?case
  proof (cases "length w < length rest")
    case True
    show ?thesis unfolding unfolded using 1(1) [OF w_def True] kept True unfolding kept_def by presburger
  next
    case False
    then show ?thesis unfolding unfolded using keep 1(2) by presburger
  qed
qed

lemma q_line_tokenize_trimmed:
  "t \<in> set (q_line_tokenize ss) \<Longrightarrow> t \<noteq> [] \<and> \<not> is_blank (hd t) \<and> \<not> is_blank (last t)"
  using line_tokenize_loop_trimmed [of "[]" ss] q_trim_no_blank by (fastforce simp: q_line_tokenize_def)

lemma q_starts_with_iff: "q_starts_with ss s \<longleftrightarrow> (\<exists>t. ss = s @ t)"
  unfolding q_starts_with_def by (metis append_eq_conv_conj append_take_drop_id)

lemma q_ends_with_iff: "q_ends_with ss s \<longleftrightarrow> (\<exists>t. ss = t @ s)"
proof
  assume "q_ends_with ss s"
  then have "drop (length ss - length s) ss = s" by (simp add: q_ends_with_def split: if_splits)
  then show "\<exists>t. ss = t @ s" by (metis append_take_drop_id)
qed (auto simp: q_ends_with_def)

lemma q_starts_with_buf_false: "\<not> fst (q_starts_with_buf src pat)"
  by (simp add: q_starts_with_buf_def)

lemma palindrome_loop_iff:
  "front + rear = int (length s) - 1 \<Longrightarrow> 0 \<le> front \<Longrightarrow>
   palindrome_loop s front rear \<longleftrightarrow> (\<forall>i. front \<le> int i \<and> int i \<le> rear \<longrightarrow> s ! i = s ! (length s - 1 - i))"
proof (induction s front rear rule: palindrome_loop.induct)
  case (1 s front rear)
  show ?case
  proof (cases "front < rear")
    case False
    have "i = length s - 1 - i" if "front \<le> int i" "int i \<le> rear" for i using that False 1(2) by linarith
    then show ?thesis using False by (subst palindrome_loop.simps) metis
  next
    case True
    have ends: "length s - 1 - nat front = nat rear" "length s - 1 - nat rear = nat front" using True 1(2,3) by linarith+
    have split: "front \<le> int i \<and> int i \<le> rear \<longleftrightarrow> i = nat front \<or> i = nat rear \<or> front + 1 \<le> int i \<and> int i \<le> rear - 1" for i
      using True 1(3) by linarith
    have ih: "palindrome_loop s (front + 1) (rear - 1) \<longleftrightarrow>
      (\<forall>i. front + 1 \<le> int i \<and> int i \<le> rear - 1 \<longrightarrow> s ! i = s ! (length s - 1 - i))"
      if "s ! nat front = s ! nat rear" using 1(1) [OF True] that 1(2,3) by simp
    show ?thesis
    proof (cases "s ! nat front = s ! nat rear")
      case same: True
      have "palindrome_loop s front rear = palindrome_loop s (front + 1) (rear - 1)" using True same by (subst palindrome_loop.simps) simp
      then show ?thesis unfolding ih [OF same] split using same ends by metis
    next
      case differ: False
      then have "\<not> palindrome_loop s front rear" using True by (subst palindrome_loop.simps) simp
      then show ?thesis unfolding split using differ ends by metis
    qed
  qed
qed

lemma q_is_palindrome_iff: "q_is_palindrome s \<longleftrightarrow> s \<noteq> [] \<and> rev s = s"
proof (cases "s = []")
  case False
  then have "q_is_palindrome s \<longleftrightarrow> (\<forall>i<length s. s ! i = s ! (length s - 1 - i))"
    by (auto simp: q_is_palindrome_def palindrome_loop_iff)
  also have "\<dots> \<longleftrightarrow> (\<forall>i<length s. rev s ! i = s ! i)" by (metis rev_nth diff_Suc_eq_diff_pred)
  also have "\<dots> \<longleftrightarrow> rev s = s" by (simp only: list_eq_iff_nth_eq length_rev simp_thms)
  finally show ?thesis using False by simp
qed (simp add: q_is_palindrome_def)

lemma q_repair_url_absolute:
  assumes "str_find [CHR 0x5C, CHR ''/''] url = None" and "q_starts_with url ''http://'' \<or> q_starts_with url ''https://''"
  shows "q_repair_url url host = Some url"
  using assms by (auto simp: q_repair_url_def q_replace_spec replace_all.simps [of _ _ url])

text \<open>Splitting a text at a separator loses nothing: the pieces joined by the separator are the text again, and the separator
  does not occur in any of them.\<close>

theorem q_split_join:
  assumes "sep \<noteq> []"
  shows "\<exists>ps. q_split_text ss sep = Some ps \<and> join sep ps = ss \<and> (\<forall>p\<in>set ps. \<not> q_contains p sep)"
  using q_split_text_spec [OF assms, of ss] by (auto simp: q_contains_def)

theorem q_split_join_witness:
  "\<exists>ps. q_split_text ''a, b,, c'' '', '' = Some ps \<and> join '', '' ps = ''a, b,, c'' \<and> (\<forall>p\<in>set ps. \<not> q_contains p '', '')"
  by (rule q_split_join) simp

text \<open>\<open>q_strrep\<close> into a buffer and \<open>q_replace\<close> on a \<open>std::string\<close> agree: whenever the result fits into the buffer, \<open>q_strrep\<close> writes the text
  that \<open>q_replace\<close> returns and returns its length; otherwise it returns \<open>-2\<close>.\<close>

theorem q_strrep_q_replace:
  assumes "src \<noteq> []" and "from_s \<noteq> []" and "to_s \<noteq> []" and "0 < max_size"
  shows "\<exists>t. q_replace src from_s to_s = Some t \<and>
    (if length t \<le> max_size then q_strrep src from_s to_s max_size = (int (length t), t)
     else fst (q_strrep src from_s to_s max_size) = -2)"
  using q_strrep_spec [OF assms] q_replace_spec [OF assms(2), of src to_s] by auto

theorem q_strrep_q_replace_witness:
  "\<exists>t. q_replace ''aXbXc'' ''X'' ''yy'' = Some t \<and>
    (if length t \<le> 4 then q_strrep ''aXbXc'' ''X'' ''yy'' 4 = (int (length t), t)
     else fst (q_strrep ''aXbXc'' ''X'' ''yy'' 4) = -2)"
  by (rule q_strrep_q_replace) simp_all

end
