(* ===== verification/Text_Codec.thy ===== *)
theory Text_Codec
  imports Text_Edit
begin

text \<open>
  The codecs and hashes of \<open>include/common/qfunc.h\<close>: URL encoding and decoding, the decoder of \<open>\u\<close> escapes, the base-62
  identifiers and the two Murmur hashes. An encoder or decoder takes the source text and the size of its destination, and returns its
  return value with the text it wrote before the closing zero byte. A write outside the destination is \<^const>\<open>None\<close>.
\<close>

unbundle bit_operations_syntax

section \<open>URL encoding\<close>

definition hex_digit :: "char \<Rightarrow> nat" where
  "hex_digit ch =
     (let n = of_char ch :: nat
      in if n \<ge> 48 \<and> n \<le> 57 then n - 48
         else if n \<ge> 97 \<and> n \<le> 102 then (n - 97) + 10
         else if n \<ge> 65 \<and> n \<le> 70 then (n - 65) + 10
         else 0)"

text \<open>The loop \<open>c<<=4; c|=digit\<close> over two characters, and \<open>(char)(c&0xff)\<close>.\<close>

definition hex_pair :: "char \<Rightarrow> char \<Rightarrow> char" where
  "hex_pair a b = char_of (take_bit 8 (push_bit 4 (push_bit 4 0 OR hex_digit a) OR hex_digit b))"

fun url_decode_loop :: "nat \<Rightarrow> string \<Rightarrow> string \<Rightarrow> string" where
  "url_decode_loop max_size [] out = out"
| "url_decode_loop max_size (ch # rest) out =
     (if \<not> length out < max_size then out
      else if ch = CHR ''+'' then url_decode_loop max_size rest (out @ [CHR 0x20])
      else if ch = CHR ''%'' then
        (case rest of
           a # b # rest' \<Rightarrow> url_decode_loop max_size rest' (out @ [hex_pair a b])
         | _ \<Rightarrow> url_decode_loop max_size rest (out @ [ch]))
      else url_decode_loop max_size rest (out @ [ch]))"

definition q_url_decode :: "string \<Rightarrow> nat \<Rightarrow> int \<times> string" where
  "q_url_decode src max_size =
     (if src = [] \<or> max_size = 0 then (-1, [])
      else let out = url_decode_loop max_size src []
           in if length out = max_size then (-1, out) else (int (length out), out))"

definition url_plain :: "char \<Rightarrow> bool" where
  "url_plain ch \<longleftrightarrow> (let n = of_char ch :: nat
     in n \<ge> 65 \<and> n \<le> 90 \<or> n \<ge> 97 \<and> n \<le> 122 \<or> n \<ge> 48 \<and> n \<le> 57)"

definition upper_hex :: "nat \<Rightarrow> char" where
  "upper_hex d = char_of (if d < 10 then 48 + d else 55 + d)"

text \<open>\<open>sprintf(p, "%%%02X", (uint8_t)ch)\<close>.\<close>

definition percent :: "char \<Rightarrow> string" where
  "percent ch = [CHR ''%'', upper_hex (of_char ch div 16), upper_hex (of_char ch mod 16)]"

fun url_encode_loop :: "nat \<Rightarrow> string \<Rightarrow> string \<Rightarrow> string option" where
  "url_encode_loop max_size [] out = Some out"
| "url_encode_loop max_size (ch # rest) out =
     (if \<not> length out < max_size then Some out
      else if url_plain ch then url_encode_loop max_size rest (out @ [ch])
      else if ch = CHR 0x20 then url_encode_loop max_size rest (out @ ''+'')
      else if ch \<in> {CHR ''.'', CHR ''-'', CHR ''_'', CHR ''*''} then url_encode_loop max_size rest (out @ [ch])
      else if length out + 3 < max_size then url_encode_loop max_size rest (out @ percent ch)
      else None)"

definition q_url_encode :: "string \<Rightarrow> nat \<Rightarrow> int \<times> string" where
  "q_url_encode src max_size =
     (if src = [] \<or> max_size = 0 then (-1, [])
      else case url_encode_loop max_size src [] of
        None \<Rightarrow> (-2, [])
      | Some out \<Rightarrow> if length out = max_size then (-1, out) else (int (length out), out))"

text \<open>\<open>q_unicode_hex_decode\<close> writes the low byte of the escape before the high one; it checks the room for the first only.\<close>

fun unicode_decode_loop :: "nat \<Rightarrow> string \<Rightarrow> string \<Rightarrow> string option" where
  "unicode_decode_loop max_size [] out = Some out"
| "unicode_decode_loop max_size (ch # rest) out =
     (if \<not> length out < max_size then Some out
      else if ch = CHR 0x5C then
        (case rest of
           u # h1 # h2 # l1 # l2 # rest' \<Rightarrow>
             if u = CHR ''u'' then
               if length out + 1 < max_size
               then unicode_decode_loop max_size rest' (out @ [hex_pair l1 l2, hex_pair h1 h2]) else None
             else unicode_decode_loop max_size rest (out @ [ch])
         | _ \<Rightarrow> unicode_decode_loop max_size rest (out @ [ch]))
      else unicode_decode_loop max_size rest (out @ [ch]))"

definition q_unicode_hex_decode :: "string \<Rightarrow> nat \<Rightarrow> (int \<times> string) option" where
  "q_unicode_hex_decode src max_size =
     (if src = [] \<or> max_size = 0 then Some (-1, [])
      else case unicode_decode_loop max_size src [] of
        None \<Rightarrow> None
      | Some out \<Rightarrow> Some (if length out = max_size then (-1, out) else (int (length out), out)))"

definition q_is_url :: "string \<Rightarrow> bool" where
  "q_is_url src \<longleftrightarrow>
     length src \<ge> 7 \<and> q_to_lower (take 7 src) = ''http://'' \<or> length src \<ge> 8 \<and> q_to_lower (take 8 src) = ''https://''"


section \<open>Base-62 identifiers\<close>

definition id62_chars :: string where
  "id62_chars = ''ABCDEFGHIJKLMNOPQRSTUVWXYZabcdefghijklmnopqrstuvwxyz0123456789''"

function id62_loop :: "64 word \<Rightarrow> string \<Rightarrow> string" where
  "id62_loop rest s =
     (if rest = 0 then s else id62_loop (rest div 62) (id62_chars ! unat (rest - (rest div 62) * 62) # s))"
  by pat_completeness auto
termination
proof (relation "measure (\<lambda>(rest, s). unat rest)")
  fix rest :: "64 word" and s :: string
  assume "rest \<noteq> 0"
  then show "((rest div 62, id62_chars ! unat (rest - rest div 62 * 62) # s), rest, s) \<in> measure (\<lambda>(rest, s). unat rest)"
    by (simp add: unat_div unat_gt_0)
qed simp

declare id62_loop.simps [simp del]

definition q_id_to_62string :: "64 word \<Rightarrow> string" where
  "q_id_to_62string value_v = id62_loop value_v []"

fun char_pos :: "string \<Rightarrow> char \<Rightarrow> nat option" where
  "char_pos [] c = None"
| "char_pos (d # ds) c = (if d = c then Some 0 else map_option Suc (char_pos ds c))"

text \<open>The loop of \<open>q_62string_to_id\<close> from the last character to the first; \<^const>\<open>Inl\<close> is the exception.\<close>

fun id62_read :: "string \<Rightarrow> 64 word \<Rightarrow> 64 word \<Rightarrow> string + 64 word" where
  "id62_read [] multiple result = Inr result"
| "id62_read (ch # rest) multiple result =
     (case char_pos id62_chars ch of
        None \<Rightarrow> Inl (''Unknown char: ('' @ [ch] @ '') error!'')
      | Some pos \<Rightarrow> id62_read rest (multiple * 62) (result + of_nat pos * multiple))"

definition q_62string_to_id :: "string \<Rightarrow> string + 64 word" where
  "q_62string_to_id s = id62_read (rev s) 1 0"


section \<open>Murmur hashes\<close>

datatype endian = Little_End | Big_End

text \<open>The value that a load of the bytes at an address gives on a host, and the bytes a store leaves there.\<close>

definition load_word :: "endian \<Rightarrow> bytes \<Rightarrow> 'a::len word" where
  "load_word host bs = (case host of Little_End \<Rightarrow> bytes_word bs | Big_End \<Rightarrow> bytes_word (rev bs))"

definition store16 :: "endian \<Rightarrow> 16 word \<Rightarrow> bytes" where
  "store16 host w = (case host of Little_End \<Rightarrow> le16 w | Big_End \<Rightarrow> rev (le16 w))"

definition q_byte_order :: "endian \<Rightarrow> int" where
  "q_byte_order host =
     (let union_bytes = store16 host 0x0102
      in if union_bytes ! 0 = 1 \<and> union_bytes ! 1 = 2 then 2
         else if union_bytes ! 0 = 2 \<and> union_bytes ! 1 = 1 then 1
         else -1)"

function murmur_blocks :: "endian \<Rightarrow> 32 word \<Rightarrow> bytes \<Rightarrow> 32 word \<times> bytes" where
  "murmur_blocks host h data =
     (if length data \<ge> 4 then
        let m = 0x5bd1e995;
            k = load_word host (take 4 data) * m;
            k = (k XOR drop_bit 24 k) * m
        in murmur_blocks host (h * m XOR k) (drop 4 data)
      else (h, data))"
  by pat_completeness auto
termination by (relation "measure (\<lambda>(host, h, data). length data)") auto

definition murmur_tail :: "32 word \<Rightarrow> bytes \<Rightarrow> 32 word" where
  "murmur_tail h data =
     (let m = 0x5bd1e995;
          h = (if length data \<ge> 3 then h XOR push_bit 16 (ucast (data ! 2)) else h);
          h = (if length data \<ge> 2 then h XOR push_bit 8 (ucast (data ! 1)) else h)
      in if length data \<ge> 1 then (h XOR ucast (data ! 0)) * m else h)"

definition murmurHash :: "endian \<Rightarrow> bytes \<Rightarrow> 32 word" where
  "murmurHash host key =
     (let (h, data) = murmur_blocks host (97 XOR of_nat (length key)) key;
          h = murmur_tail h data;
          h = (h XOR drop_bit 13 h) * 0x5bd1e995
      in h XOR drop_bit 15 h)"

definition murmur64_load :: "endian \<Rightarrow> bytes \<Rightarrow> 64 word" where
  "murmur64_load host data =
     (if q_byte_order host = 1 then load_word host (take 8 data)
      else ucast (data ! 0) OR push_bit 8 (ucast (data ! 1)) OR push_bit 16 (ucast (data ! 2)) OR
           push_bit 24 (ucast (data ! 3)) OR push_bit 32 (ucast (data ! 4)) OR push_bit 40 (ucast (data ! 5)) OR
           push_bit 48 (ucast (data ! 6)) OR push_bit 56 (ucast (data ! 7)))"

function murmur64_blocks :: "endian \<Rightarrow> 64 word \<Rightarrow> bytes \<Rightarrow> 64 word \<times> bytes" where
  "murmur64_blocks host h data =
     (if length data \<ge> 8 then
        let m = 0xc6a4a7935bd1e995;
            k = murmur64_load host data * m;
            k = (k XOR drop_bit 47 k) * m
        in murmur64_blocks host ((h XOR k) * m) (drop 8 data)
      else (h, data))"
  by pat_completeness auto
termination by (relation "measure (\<lambda>(host, h, data). length data)") auto

declare murmur_blocks.simps [simp del] murmur64_blocks.simps [simp del]

definition murmur64_tail :: "64 word \<Rightarrow> bytes \<Rightarrow> 64 word" where
  "murmur64_tail h data =
     (let m = 0xc6a4a7935bd1e995;
          xor_at = (\<lambda>n h. if length data > n then h XOR push_bit (8 * n) (ucast (data ! n)) else h);
          h = xor_at 1 (xor_at 2 (xor_at 3 (xor_at 4 (xor_at 5 (xor_at 6 h)))))
      in if length data \<ge> 1 then (h XOR ucast (data ! 0)) * m else h)"

definition murmurHash64A :: "endian \<Rightarrow> bytes \<Rightarrow> 32 word \<Rightarrow> 64 word" where
  "murmurHash64A host key seed =
     (let m = 0xc6a4a7935bd1e995;
          (h, data) = murmur64_blocks host (ucast seed XOR of_nat (length key) * m) key;
          h = murmur64_tail h data;
          h = (h XOR drop_bit 47 h) * m
      in h XOR drop_bit 47 h)"


section \<open>Encoding and decoding are inverse\<close>

lemma hex_digit_upper_hex: "d < 16 \<Longrightarrow> hex_digit (upper_hex d) = d"
  by (auto simp: hex_digit_def upper_hex_def Let_def)

lemma hex_pair_value: "hex_digit a < 16 \<Longrightarrow> hex_digit b < 16 \<Longrightarrow> hex_pair a b = char_of (16 * hex_digit a + hex_digit b)"
proof -
  assume lt: "hex_digit a < 16" "hex_digit b < 16"
  have "push_bit 4 (hex_digit a) OR hex_digit b = push_bit 4 (hex_digit a) + hex_digit b"
  proof (rule disjunctive_add_eq_or [symmetric], rule bit_eqI)
    fix n
    have "n < 4" if "bit (hex_digit b) n"
    proof (rule ccontr)
      assume "\<not> n < 4"
      then have "hex_digit b < 2 ^ n" using lt(2) power_increasing [of 4 n "2 :: nat"] by simp
      then show False using that by (simp add: bit_iff_odd)
    qed
    then show "bit (push_bit 4 (hex_digit a) AND hex_digit b) n = bit 0 n"
      by (auto simp: bit_and_iff bit_push_bit_iff)
  qed
  then show ?thesis using lt by (simp add: hex_pair_def push_bit_eq_mult take_bit_eq_mod mult.commute)
qed

lemma percent_decoded: "hex_pair (upper_hex (of_char ch div 16)) (upper_hex (of_char ch mod 16)) = ch"
proof -
  have "(of_char ch :: nat) < 256" by simp
  then have "of_char ch div 16 < (16 :: nat)" by (simp only: less_mult_imp_div_less)
  then show ?thesis by (simp add: hex_pair_value hex_digit_upper_hex)
qed

definition url_char :: "char \<Rightarrow> string" where
  "url_char ch =
     (if url_plain ch then [ch] else if ch = CHR 0x20 then ''+''
      else if ch \<in> {CHR ''.'', CHR ''-'', CHR ''_'', CHR ''*''} then [ch] else percent ch)"

lemma length_url_char: "length (url_char ch) \<le> 3"
  by (simp add: url_char_def percent_def)

lemma url_encode_loop_room:
  "length out + 3 * length src < max_size \<Longrightarrow>
   url_encode_loop max_size src out = Some (out @ concat (map url_char src))"
proof (induction src arbitrary: out)
  case (Cons ch rest)
  have "url_encode_loop max_size (ch # rest) out = url_encode_loop max_size rest (out @ url_char ch)"
    using Cons.prems by (auto simp: url_char_def)
  also have "\<dots> = Some ((out @ url_char ch) @ concat (map url_char rest))"
    using Cons.prems length_url_char [of ch] by (intro Cons.IH) simp
  finally show ?case by simp
qed simp

lemma url_plain_not_special: "url_plain ch \<Longrightarrow> ch \<noteq> CHR ''+'' \<and> ch \<noteq> CHR ''%''"
  by (auto simp: url_plain_def)

lemma url_decode_char:
  "length out < max_size \<Longrightarrow> url_decode_loop max_size (url_char ch @ rest) out = url_decode_loop max_size rest (out @ [ch])"
  using url_plain_not_special [of ch] by (auto simp: url_char_def percent_def percent_decoded)

lemma url_decode_loop_room:
  "length out + length src < max_size \<Longrightarrow> url_decode_loop max_size (concat (map url_char src)) out = out @ src"
proof (induction src arbitrary: out)
  case (Cons ch rest)
  have "url_decode_loop max_size (concat (map url_char (ch # rest))) out =
    url_decode_loop max_size (concat (map url_char rest)) (out @ [ch])"
    using Cons.prems by (simp add: url_decode_char)
  then show ?case using Cons.IH [of "out @ [ch]"] Cons.prems by simp
qed simp

lemma concat_url_char_length: "length (concat (map url_char src)) \<le> 3 * length src"
proof (induction src)
  case (Cons ch rest)
  then show ?case using length_url_char [of ch] by simp
qed simp

lemma url_char_not_Nil [simp]: "url_char ch \<noteq> []"
  by (simp add: url_char_def percent_def)

text \<open>C40: URL encoding loses nothing: with room for three characters per byte \<open>q_url_encode\<close> succeeds, and \<open>q_url_decode\<close> of its
  output is the text that was encoded, for every byte value.\<close>

theorem url_round_trip:
  assumes "src \<noteq> []" and "3 * length src < enc_size" and "length src < dec_size"
  shows "\<exists>t. q_url_encode src enc_size = (int (length t), t) \<and> q_url_decode t dec_size = (int (length src), src)"
proof -
  define t where "t = concat (map url_char src)"
  have "length t < enc_size" using concat_url_char_length [of src] assms(2) by (simp add: t_def)
  then have "q_url_encode src enc_size = (int (length t), t)"
    using assms url_encode_loop_room [of "[]" src enc_size] by (simp add: q_url_encode_def t_def)
  moreover have "q_url_decode t dec_size = (int (length src), src)"
    using assms url_decode_loop_room [of "[]" src dec_size] by (cases src) (simp_all add: q_url_decode_def t_def)
  ultimately show ?thesis by blast
qed

theorem url_round_trip_witness:
  "\<exists>t. q_url_encode ''a b%/'' 64 = (int (length t), t) \<and> q_url_decode t 64 = (int (length ''a b%/''), ''a b%/'')"
  by (rule url_round_trip) simp_all


section \<open>Identifiers\<close>

lemma char_pos_id62: "i < 62 \<Longrightarrow> char_pos id62_chars (id62_chars ! i) = Some i"
proof -
  have "list_all (\<lambda>i. char_pos id62_chars (id62_chars ! i) = Some i) [0..<62]" by code_simp
  then show "i < 62 \<Longrightarrow> ?thesis" by (auto simp: list_all_iff)
qed

lemma id62_loop_append: "id62_loop w s = id62_loop w [] @ s"
proof (induction w arbitrary: s rule: measure_induct_rule [of unat])
  case (less w)
  show ?case
  proof (cases "w = 0")
    case False
    define c where "c = id62_chars ! unat (w - (w div 62) * 62)"
    have dec: "unat (w div 62) < unat w" using False by (simp add: unat_div unat_gt_0)
    have step: "id62_loop w s = id62_loop (w div 62) (c # s)" for s
      using False by (subst id62_loop.simps) (simp add: c_def)
    show ?thesis unfolding step using less [OF dec, of "c # s"] less [OF dec, of "[c]"] by simp
  qed (simp add: id62_loop.simps)
qed

lemma div_mult_word: "(w :: 64 word) - (w div 62) * 62 = w mod 62"
  by (simp add: minus_div_mult_eq_mod)

lemma id62_read_loop: "id62_read (rev (id62_loop w [])) multiple result = Inr (result + w * multiple)"
proof (induction w arbitrary: multiple result rule: measure_induct_rule [of unat])
  case (less w)
  show ?case
  proof (cases "w = 0")
    case False
    define d where "d = unat (w mod 62)"
    have dec: "unat (w div 62) < unat w" using False by (simp add: unat_div unat_gt_0)
    have d: "d < 62" by (simp add: d_def unat_mod)
    have "id62_loop w [] = id62_loop (w div 62) [] @ [id62_chars ! d]"
      using False by (subst id62_loop.simps) (simp add: div_mult_word d_def id62_loop_append [of _ "[_]"])
    then have "id62_read (rev (id62_loop w [])) multiple result =
      id62_read (rev (id62_loop (w div 62) [])) (multiple * 62) (result + of_nat d * multiple)"
      by (simp add: char_pos_id62 [OF d])
    also have "\<dots> = Inr (result + of_nat d * multiple + (w div 62) * (multiple * 62))" by (rule less [OF dec])
    also have "of_nat d = w mod 62" by (simp add: d_def)
    also have "result + (w mod 62) * multiple + (w div 62) * (multiple * 62) = result + ((w div 62) * 62 + w mod 62) * multiple"
      by (simp add: algebra_simps)
    also have "(w div 62) * 62 + w mod 62 = w" by (rule div_mult_mod_eq)
    finally show ?thesis .
  qed (simp add: id62_loop.simps)
qed

text \<open>The base-62 name of an identifier reads back as the identifier, for every 64-bit value; no character of it is refused.\<close>

theorem id62_round_trip: "q_62string_to_id (q_id_to_62string v) = Inr v"
  by (simp add: q_62string_to_id_def q_id_to_62string_def id62_read_loop)

lemma id62_refuses:
  assumes "ch \<notin> set id62_chars"
  shows "q_62string_to_id (s @ [ch]) = Inl (''Unknown char: ('' @ [ch] @ '') error!'')"
proof -
  have "char_pos cs ch = None" if "ch \<notin> set cs" for cs using that by (induction cs) auto
  then show ?thesis using assms by (simp add: q_62string_to_id_def)
qed


section \<open>Decoding escapes\<close>

text \<open>An escape in the last place of the destination writes one byte past its end.\<close>

lemma unicode_decode_overflow:
  "q_unicode_hex_decode (replicate n (CHR ''a'') @ [CHR 0x5C, CHR ''u'', h1, h2, l1, l2]) (n + 1) = None"
proof -
  have "unicode_decode_loop (n + 1) (replicate m (CHR ''a'') @ [CHR 0x5C, CHR ''u'', h1, h2, l1, l2]) out = None"
    if "length out + m = n" for m out
    using that by (induction m arbitrary: out) auto
  from this [of "[]" n] show ?thesis by (simp add: q_unicode_hex_decode_def)
qed


section \<open>The hash does not depend on the host\<close>

lemma q_byte_order_Little: "q_byte_order Little_End = 1"
  by (simp add: q_byte_order_def store16_def word_bytes_def upt_rec)

lemma q_byte_order_Big: "q_byte_order Big_End = 2"
  by (simp add: q_byte_order_def store16_def word_bytes_def upt_rec)

lemma take8: "8 \<le> length xs \<Longrightarrow> take 8 xs = [xs ! 0, xs ! 1, xs ! 2, xs ! 3, xs ! 4, xs ! 5, xs ! 6, xs ! 7]"
  by (rule nth_equalityI) (auto simp: less_Suc_eq numeral_eq_Suc)

lemma murmur64_load_host:
  assumes "8 \<le> length data"
  shows "murmur64_load host data = bytes_word (take 8 data)"
proof (cases host)
  case Big_End
  then show ?thesis
    by (simp add: murmur64_load_def q_byte_order_Big take8 [OF assms] push_bit_or or.assoc)
qed (simp add: murmur64_load_def q_byte_order_Little load_word_def)

lemma murmur64_blocks_host: "murmur64_blocks host h data = murmur64_blocks host' h data"
proof (induction host h data rule: murmur64_blocks.induct)
  case (1 host h data)
  show ?case
  proof (cases "8 \<le> length data")
    case True
    then show ?thesis using 1 [OF True refl refl refl]
      by (subst (1 2) murmur64_blocks.simps) (simp add: murmur64_load_host [OF True] Let_def)
  qed (simp add: murmur64_blocks.simps)
qed

text \<open>\<open>murmurHash64A\<close> gives the same hash on little-endian and on big-endian hosts: the branch on \<open>q_byte_order\<close> assembles the
  same 64-bit block from the bytes as the direct load does.\<close>

theorem murmurHash64A_host: "murmurHash64A host key seed = murmurHash64A host' key seed"
  using murmur64_blocks_host [of host _ key host'] by (simp add: murmurHash64A_def)

text \<open>The 32-bit hash loads its blocks directly and does depend on the host.\<close>

lemma murmurHash_depends_on_host: "murmurHash Little_End [1, 2, 3, 4] \<noteq> murmurHash Big_End [1, 2, 3, 4]"
  by code_simp

end
