(* ===== verification/Hash_Table.thy ===== *)
theory Hash_Table
  imports Text_Codec Call_Refinement
begin

text \<open>
  The hash tables of \<open>include/common/qhashmap.h\<close>. \<open>QHashMap\<close> holds a vector of lists of pairs; \<open>QLinearHash\<close> holds an array of chains and a
  position for traversals. A bucket outside the vector, a pointer to a deleted node and an \<open>int32_t\<close> overflow are \<^const>\<open>None\<close>. The memory
  representation of a key is the parameter \<open>repr\<close>. Both classes are shown to be maps in which the first insertion of a key wins.
\<close>

section \<open>QHashMap\<close>

text \<open>\<open>DefaultHash<T_KEY>::hash\<close>, and its specialisation for \<open>std::string\<close>.\<close>

definition DefaultHash :: "endian \<Rightarrow> ('k \<Rightarrow> bytes) \<Rightarrow> 32 word \<Rightarrow> 'k \<Rightarrow> 32 word" where
  "DefaultHash host repr numBuckets key = murmurHash host (repr key) mod numBuckets"

definition DefaultHash_string :: "endian \<Rightarrow> 32 word \<Rightarrow> string \<Rightarrow> 32 word" where
  "DefaultHash_string host numBuckets key = murmurHash host (bytes_of key) mod numBuckets"

record ('k, 'v) hash_map =
  mElems :: "('k \<times> 'v) list list"
  mSize :: "32 word"
  mNumBuckets :: "32 word"
  mHash :: "'k \<Rightarrow> 32 word"

text \<open>The constructor; an assertion that fails ends the process, which is \<^const>\<open>None\<close>.\<close>

definition new_QHashMap :: "32 word \<Rightarrow> ('k \<Rightarrow> 32 word) \<Rightarrow> bool \<Rightarrow> ('k, 'v) hash_map option" where
  "new_QHashMap numBuckets hash alloc_ok =
     (if numBuckets > 0 \<and> alloc_ok
      then Some \<lparr> mElems = replicate (unat numBuckets) [], mSize = 0, mNumBuckets = numBuckets, mHash = hash \<rparr>
      else None)"

fun key_pos :: "'k \<Rightarrow> ('k \<times> 'v) list \<Rightarrow> nat option" where
  "key_pos x [] = None"
| "key_pos x ((k, v) # es) = (if k = x then Some 0 else map_option Suc (key_pos x es))"

text \<open>\<open>findElement\<close>: the bucket, its list, and the position of the key in the list.\<close>

definition findElement :: "('k, 'v) hash_map \<Rightarrow> 'k \<Rightarrow> (nat \<times> ('k \<times> 'v) list \<times> nat option) option" where
  "findElement m x =
     (let bucket = unat (mHash m x)
      in if bucket < length (mElems m) then Some (bucket, mElems m ! bucket, key_pos x (mElems m ! bucket)) else None)"

definition hm_find :: "('k, 'v) hash_map \<Rightarrow> 'k \<Rightarrow> 'v option option" where
  "hm_find m x = do {
     (bucket, es, it) \<leftarrow> findElement m x;
     Some (case it of None \<Rightarrow> None | Some i \<Rightarrow> Some (snd (es ! i))) }"

definition hm_insert :: "('k, 'v) hash_map \<Rightarrow> 'k \<times> 'v \<Rightarrow> ('k, 'v) hash_map option" where
  "hm_insert m x = do {
     (bucket, es, it) \<leftarrow> findElement m (fst x);
     Some (case it of
        Some i \<Rightarrow> m
      | None \<Rightarrow> m\<lparr> mSize := mSize m + 1, mElems := (mElems m)[bucket := es @ [x]] \<rparr>) }"

definition hm_erase :: "('k, 'v) hash_map \<Rightarrow> 'k \<Rightarrow> ('k, 'v) hash_map option" where
  "hm_erase m x = do {
     (bucket, es, it) \<leftarrow> findElement m x;
     Some (case it of
        Some i \<Rightarrow> m\<lparr> mElems := (mElems m)[bucket := take i es @ drop (Suc i) es], mSize := mSize m - 1 \<rparr>
      | None \<Rightarrow> m) }"

definition hm_empty :: "('k, 'v) hash_map \<Rightarrow> bool" where
  "hm_empty m \<longleftrightarrow> mSize m = 0"


section \<open>QLinearHash\<close>

text \<open>
  A node carries the number of its allocation, which stands for its address; \<open>ln_next\<close> is the number of the next allocation. After
  \<open>clear\<close> the array still holds the addresses of the deleted nodes, which is the chain \<open>Freed\<close>.
\<close>

record ('k, 'v) chain_node =
  ln_addr :: nat
  mKey :: 'k
  mValue :: 'v

datatype ('k, 'v) chain = Chain "('k, 'v) chain_node list" | Freed

record ('k, 'v) linear_hash =
  mDivisor :: int
  mBuckets :: int
  mNowSize :: int
  pHashTable :: "('k, 'v) chain list"
  mTravIndex :: int
  pTravPos :: "nat option"
  ln_next :: nat

function is_prime_loop :: "int \<Rightarrow> int \<Rightarrow> bool option" where
  "is_prime_loop num i =
     (if \<not> is_int32 (i * i) then None
      else if i * i \<le> num then (if num mod i = 0 then Some False else is_prime_loop num (i + 1))
      else Some True)"
  by pat_completeness auto
termination
proof (relation "measure (\<lambda>(num, i). nat (num + 1 - i))")
  fix num i :: int
  assume "i * i \<le> num"
  moreover have "i \<le> i * i" by (cases "i \<le> 0") (auto intro: order_trans [of _ 0] simp: mult_le_cancel_left1)
  ultimately show "((num, i + 1), num, i) \<in> measure (\<lambda>(num, i). nat (num + 1 - i))" by simp
qed simp

definition isPrime :: "int \<Rightarrow> bool option" where
  "isPrime num = (if num \<le> 1 then Some False else is_prime_loop num 2)"

function divisor_loop :: "int \<Rightarrow> int option" where
  "divisor_loop temp =
     (case isPrime temp of
        None \<Rightarrow> None
      | Some p \<Rightarrow> if \<not> p \<and> temp > 2 then divisor_loop (temp - 1) else Some temp)"
  by pat_completeness auto
termination by (relation "measure nat") auto

definition getDivisor :: "int \<Rightarrow> int option" where
  "getDivisor m = do { temp \<leftarrow> divisor_loop m; Some (if temp = 2 then m else temp) }"

declare is_prime_loop.simps [simp del] divisor_loop.simps [simp del]

definition new_QLinearHash :: "int \<Rightarrow> bool \<Rightarrow> ('k, 'v) linear_hash option" where
  "new_QLinearHash n alloc_ok =
     (if n > 0 \<and> alloc_ok
      then do {
        divisor \<leftarrow> getDivisor n;
        Some \<lparr> mDivisor = divisor, mBuckets = n, mNowSize = 0, pHashTable = replicate (nat n) (Chain []),
               mTravIndex = 0, pTravPos = None, ln_next = 0 \<rparr> }
      else None)"

definition lh_hash :: "('k, 'v) linear_hash \<Rightarrow> 64 word \<Rightarrow> int" where
  "lh_hash t hashKey = uint hashKey mod mDivisor t"

definition lh_chain :: "('k, 'v) linear_hash \<Rightarrow> int \<Rightarrow> ('k, 'v) chain_node list option" where
  "lh_chain t i = do {
     c \<leftarrow> aget (pHashTable t) i;
     case c of Chain ns \<Rightarrow> Some ns | Freed \<Rightarrow> None }"

text \<open>\<open>while(current&&current->mKey!=key) current=current->link\<close>: the nodes before the key, and those from it on.\<close>

fun chain_seek :: "'k \<Rightarrow> ('k, 'v) chain_node list \<Rightarrow> ('k, 'v) chain_node list \<times> ('k, 'v) chain_node list" where
  "chain_seek key [] = ([], [])"
| "chain_seek key (n # ns) =
     (if mKey n \<noteq> key then (case chain_seek key ns of (before, rest) \<Rightarrow> (n # before, rest)) else ([], n # ns))"

definition lh_search :: "('k, 'v) linear_hash \<Rightarrow> 64 word \<Rightarrow> 'k \<Rightarrow> 'v option option" where
  "lh_search t hashKey key = do {
     ns \<leftarrow> lh_chain t (lh_hash t hashKey);
     Some (case snd (chain_seek key ns) of [] \<Rightarrow> None | n # _ \<Rightarrow> Some (mValue n)) }"

definition lh_push :: "('k, 'v) linear_hash \<Rightarrow> 64 word \<Rightarrow> 'k \<Rightarrow> 'v \<Rightarrow> (bool \<times> ('k, 'v) linear_hash) option" where
  "lh_push t hashKey key val = do {
     let hashVal = lh_hash t hashKey;
     ns \<leftarrow> lh_chain t hashVal;
     case snd (chain_seek key ns) of
       [] \<Rightarrow> do {
         tab \<leftarrow> aset (pHashTable t) hashVal (Chain (\<lparr> ln_addr = ln_next t, mKey = key, mValue = val \<rparr> # ns));
         Some (True, t\<lparr> pHashTable := tab, mNowSize := mNowSize t + 1, ln_next := Suc (ln_next t) \<rparr>) }
     | _ \<Rightarrow> Some (False, t) }"

definition lh_pop :: "('k, 'v) linear_hash \<Rightarrow> 64 word \<Rightarrow> 'k \<Rightarrow> (bool \<times> ('k, 'v) linear_hash) option" where
  "lh_pop t hashKey key = do {
     let hashVal = lh_hash t hashKey;
     ns \<leftarrow> lh_chain t hashVal;
     case chain_seek key ns of
       (before, current # rest) \<Rightarrow> do {
         tab \<leftarrow> aset (pHashTable t) hashVal (Chain (before @ rest));
         Some (True, t\<lparr> pHashTable := tab, mNowSize := mNowSize t - 1 \<rparr>) }
     | _ \<Rightarrow> Some (False, t) }"

definition chain_head :: "('k, 'v) chain_node list \<Rightarrow> nat option" where
  "chain_head ns = (case ns of [] \<Rightarrow> None | n # _ \<Rightarrow> Some (ln_addr n))"

definition prepareTraversal :: "('k, 'v) linear_hash \<Rightarrow> ('k, 'v) linear_hash option" where
  "prepareTraversal t = do {
     ns \<leftarrow> lh_chain t 0;
     Some (t\<lparr> mTravIndex := 0, pTravPos := chain_head ns \<rparr>) }"

text \<open>The loop over the buckets behind \<open>mTravIndex\<close>: the first one with a node, or \<open>mBuckets\<close>.\<close>

function trav_loop :: "('k, 'v) linear_hash \<Rightarrow> int \<Rightarrow> (int \<times> nat option) option" where
  "trav_loop t i =
     (if i < mBuckets t
      then do {
        ns \<leftarrow> lh_chain t i;
        case chain_head ns of None \<Rightarrow> trav_loop t (i + 1) | Some a \<Rightarrow> Some (i, Some a) }
      else Some (i, None))"
  by pat_completeness auto
termination by (relation "measure (\<lambda>(t, i). nat (mBuckets t - i))") auto

fun from_addr :: "nat \<Rightarrow> ('k, 'v) chain_node list \<Rightarrow> ('k, 'v) chain_node list" where
  "from_addr a [] = []"
| "from_addr a (n # ns) = (if ln_addr n = a then n # ns else from_addr a ns)"

definition lh_traverse :: "('k, 'v) linear_hash \<Rightarrow> (('k \<times> 'v) option \<times> ('k, 'v) linear_hash) option" where
  "lh_traverse t = do {
     (i, pos) \<leftarrow> (case pTravPos t of None \<Rightarrow> trav_loop t (mTravIndex t + 1) | Some a \<Rightarrow> Some (mTravIndex t, Some a));
     case pos of
       None \<Rightarrow> (if i = mBuckets t then Some (None, t\<lparr> mTravIndex := i, pTravPos := None \<rparr>) else None)
     | Some a \<Rightarrow> do {
         ns \<leftarrow> lh_chain t i;
         case from_addr a ns of
           [] \<Rightarrow> None
         | n # rest \<Rightarrow> Some (Some (mKey n, mValue n), t\<lparr> mTravIndex := i, pTravPos := chain_head rest \<rparr>) } }"

text \<open>\<open>clear\<close> deletes the nodes of every chain and leaves the array as it is.\<close>

fun clear_chain :: "('k, 'v) chain \<Rightarrow> (int \<times> ('k, 'v) chain) option" where
  "clear_chain (Chain []) = Some (0, Chain [])"
| "clear_chain (Chain (n # ns)) = Some (int (length (n # ns)), Freed)"
| "clear_chain Freed = None"

fun clear_chains :: "('k, 'v) chain list \<Rightarrow> (int \<times> ('k, 'v) chain list) option" where
  "clear_chains [] = Some (0, [])"
| "clear_chains (c # cs) = do {
     (k, c') \<leftarrow> clear_chain c;
     (l, cs') \<leftarrow> clear_chains cs;
     Some (k + l, c' # cs') }"

definition lh_clear :: "('k, 'v) linear_hash \<Rightarrow> ('k, 'v) linear_hash option" where
  "lh_clear t = do {
     (k, tab) \<leftarrow> clear_chains (pHashTable t);
     Some (t\<lparr> pHashTable := tab, mNowSize := mNowSize t - k \<rparr>) }"

declare trav_loop.simps [simp del]


section \<open>Buckets as one map\<close>

text \<open>
  The shared invariant: no key occurs twice in the table, and the pairs of bucket \<open>i\<close> have keys of hash \<open>i\<close>. The table stands for
  the map of all its pairs.
\<close>

definition buckets_ok :: "('k \<Rightarrow> nat) \<Rightarrow> ('k \<times> 'v) list list \<Rightarrow> bool" where
  "buckets_ok h es \<longleftrightarrow> distinct (map fst (concat es)) \<and> (\<forall>i<length es. \<forall>p\<in>set (es ! i). h (fst p) = i)"

definition buckets_map :: "('k \<times> 'v) list list \<Rightarrow> 'k \<rightharpoonup> 'v" where
  "buckets_map es = map_of (concat es)"

lemma concat_split: "b < length es \<Longrightarrow> concat es = concat (take b es) @ es ! b @ concat (drop (Suc b) es)"
  by (metis concat.simps(2) concat_append id_take_nth_drop)

lemma concat_update:
  "b < length es \<Longrightarrow> concat (es[b := e]) = concat (take b es) @ e @ concat (drop (Suc b) es)"
  by (simp add: upd_conv_take_nth_drop)

lemma map_of_mset_eq:
  assumes "distinct (map fst xs)" and "mset xs = mset ys"
  shows "distinct (map fst ys) \<and> map_of xs = map_of ys"
proof -
  have "distinct (map fst ys)" using assms mset_eq_imp_distinct_iff [of "map fst xs" "map fst ys"] by simp
  then show ?thesis using assms mset_eq_setD map_of_inject_set by metis
qed

lemma map_of_bucket:
  assumes "buckets_ok h es" and "h k = b" and "b < length es"
  shows "map_of (es ! b) k = buckets_map es k"
proof -
  have none: "map_of (concat (take b es)) k = None"
  proof (rule ccontr)
    assume "map_of (concat (take b es)) k \<noteq> None"
    then obtain v where "(k, v) \<in> set (concat (take b es))" by (auto dest: map_of_SomeD)
    then obtain e where "e \<in> set (take b es)" "(k, v) \<in> set e" by auto
    then obtain i where "i < b" "(k, v) \<in> set (es ! i)" unfolding in_set_conv_nth [of e] by auto
    then have "h (fst (k, v)) = i" using assms(1,3) unfolding buckets_ok_def by (meson less_trans)
    then show False using assms(2) \<open>i < b\<close> by simp
  qed
  have later: "map_of (concat (drop (Suc b) es)) k = None"
  proof (rule ccontr)
    assume "map_of (concat (drop (Suc b) es)) k \<noteq> None"
    then obtain v where "(k, v) \<in> set (concat (drop (Suc b) es))" by (auto dest: map_of_SomeD)
    then obtain e where "e \<in> set (drop (Suc b) es)" "(k, v) \<in> set e" by auto
    then obtain i where "Suc b + i < length es" "(k, v) \<in> set (es ! (Suc b + i))"
      unfolding in_set_conv_nth [of e] by (auto simp: less_diff_conv add.commute)
    then have "h (fst (k, v)) = Suc b + i" using assms(1) unfolding buckets_ok_def by blast
    then show False using assms(2) by simp
  qed
  show ?thesis using none later by (simp add: buckets_map_def concat_split [OF assms(3)] map_add_def split: option.splits)
qed

lemma buckets_insert:
  assumes "buckets_ok h es" and "b < length es" and "h (fst x) = b" and "buckets_map es (fst x) = None"
    and "mset e = add_mset x (mset (es ! b))"
  shows "buckets_ok h (es[b := e])" and "buckets_map (es[b := e]) = (buckets_map es)(fst x \<mapsto> snd x)"
    and "length (concat (es[b := e])) = Suc (length (concat es))"
proof -
  have m: "mset (concat (es[b := e])) = mset (x # concat es)"
    using assms(2,5) concat_split [OF assms(2)] by (simp add: concat_update)
  have "distinct (map fst (x # concat es))"
    using assms(1,4) by (auto simp: buckets_ok_def buckets_map_def map_of_eq_None_iff)
  from map_of_mset_eq [OF this m [symmetric]]
  have d: "distinct (map fst (concat (es[b := e])))" and mp: "map_of (x # concat es) = map_of (concat (es[b := e]))" by blast+
  have se: "set e = insert x (set (es ! b))" using assms(5) by (metis set_mset_add_mset_insert set_mset_mset)
  show "buckets_ok h (es[b := e])"
    using assms(1,2,3) d se by (auto simp: buckets_ok_def nth_list_update split: if_splits)
  show "buckets_map (es[b := e]) = (buckets_map es)(fst x \<mapsto> snd x)"
    using mp by (cases x) (simp add: buckets_map_def)
  show "length (concat (es[b := e])) = Suc (length (concat es))"
    using m by (metis length_Cons size_mset)
qed

lemma buckets_erase:
  assumes "buckets_ok h es" and "b < length es" and "mset (es ! b) = add_mset x (mset e)"
  shows "buckets_ok h (es[b := e])" and "buckets_map (es[b := e]) = (buckets_map es)(fst x := None)"
    and "length (concat es) = Suc (length (concat (es[b := e])))"
proof -
  have m: "mset (concat es) = mset (x # concat (es[b := e]))"
    using assms(2,3) concat_split [OF assms(2)] by (simp add: concat_update)
  have "distinct (map fst (concat es))" using assms(1) by (simp add: buckets_ok_def)
  from map_of_mset_eq [OF this m]
  have d: "distinct (map fst (x # concat (es[b := e])))" and mp: "map_of (concat es) = map_of (x # concat (es[b := e]))" by blast+
  have se: "set (es ! b) = insert x (set e)" using assms(3) by (metis set_mset_add_mset_insert set_mset_mset)
  show "buckets_ok h (es[b := e])"
    using assms(1,2) d se by (auto simp: buckets_ok_def nth_list_update)
  have "map_of (concat (es[b := e])) (fst x) = None" using d by (auto simp: map_of_eq_None_iff)
  then show "buckets_map (es[b := e]) = (buckets_map es)(fst x := None)"
    using mp by (cases x) (auto simp: buckets_map_def fun_eq_iff)
  show "length (concat es) = Suc (length (concat (es[b := e])))"
    using m by (metis length_Cons size_mset)
qed

lemma buckets_card: "buckets_ok h es \<Longrightarrow> card (dom (buckets_map es)) = length (concat es)"
  by (metis buckets_map_def buckets_ok_def distinct_card dom_map_of_conv_image_fst length_map set_map)

lemma buckets_new: "buckets_ok h (replicate n [])" "buckets_map (replicate n []) = Map.empty"
  by (auto simp: buckets_ok_def buckets_map_def)

text \<open>The calls of a client and what a map answers, in which the first insertion of a key wins; \<open>num\<close> is the type of the size.\<close>

datatype ('k, 'v) dict_call = Find 'k | Insert 'k 'v | Erase 'k | Count

fun dict_step :: "(nat \<Rightarrow> 'n) \<Rightarrow> ('k, 'v) dict_call \<Rightarrow> ('k \<rightharpoonup> 'v) \<Rightarrow> ('v option \<times> 'n) \<times> ('k \<rightharpoonup> 'v)" where
  "dict_step num (Find k) m = ((m k, num 0), m)"
| "dict_step num (Insert k v) m = ((None, num 0), if m k = None then m(k \<mapsto> v) else m)"
| "dict_step num (Erase k) m = ((None, num 0), m(k := None))"
| "dict_step num Count m = ((None, num (card (dom m))), m)"


section \<open>QHashMap is a map\<close>

fun hm_call :: "('k, 'v) dict_call \<Rightarrow> ('k, 'v) hash_map \<Rightarrow> (('v option \<times> 32 word) \<times> ('k, 'v) hash_map) option" where
  "hm_call (Find k) m = do { r \<leftarrow> hm_find m k; Some ((r, 0), m) }"
| "hm_call (Insert k v) m = do { m1 \<leftarrow> hm_insert m (k, v); Some ((None, 0), m1) }"
| "hm_call (Erase k) m = do { m1 \<leftarrow> hm_erase m k; Some ((None, 0), m1) }"
| "hm_call Count m = Some ((None, mSize m), m)"

definition hm_ok :: "('k, 'v) hash_map \<Rightarrow> bool" where
  "hm_ok m \<longleftrightarrow> (\<forall>x. unat (mHash m x) < length (mElems m)) \<and> buckets_ok (\<lambda>k. unat (mHash m k)) (mElems m) \<and>
     mSize m = of_nat (length (concat (mElems m)))"

lemma key_pos_spec:
  "case key_pos x es of
     None \<Rightarrow> map_of es x = None
   | Some i \<Rightarrow> i < length es \<and> fst (es ! i) = x \<and> map_of es x = Some (snd (es ! i))"
  by (induction es) (auto split: option.splits)

lemma take_drop_mset: "i < length es \<Longrightarrow> mset es = add_mset (es ! i) (mset (take i es @ drop (Suc i) es))"
  by (subst id_take_nth_drop [of i]) simp_all

lemma hm_call_refines:
  assumes ok: "hm_ok m"
  shows "\<exists>r m'. hm_call c m = Some (r, m') \<and> hm_ok m' \<and>
    dict_step of_nat c (buckets_map (mElems m)) = (r, buckets_map (mElems m'))"
proof -
  let ?b = "\<lambda>x. unat (mHash m x)"
  have b: "?b x < length (mElems m)" for x using ok by (simp add: hm_ok_def)
  have bo: "buckets_ok ?b (mElems m)" using ok by (simp add: hm_ok_def)
  have look: "map_of (mElems m ! ?b x) x = buckets_map (mElems m) x" for x by (rule map_of_bucket [OF bo refl b])
  have fe: "findElement m x = Some (?b x, mElems m ! ?b x, key_pos x (mElems m ! ?b x))" for x
    using b by (simp add: findElement_def Let_def)
  have kp: "case key_pos x (mElems m ! ?b x) of
     None \<Rightarrow> buckets_map (mElems m) x = None
   | Some i \<Rightarrow> i < length (mElems m ! ?b x) \<and> fst (mElems m ! ?b x ! i) = x \<and>
       buckets_map (mElems m) x = Some (snd (mElems m ! ?b x ! i))" for x
    using key_pos_spec [where x = x and es = "mElems m ! ?b x"] by (simp only: look)
  show ?thesis
  proof (cases c)
    case (Find x)
    then show ?thesis using ok kp [of x] by (auto simp: hm_find_def fe split: option.splits)
  next
    case (Insert k v)
    show ?thesis
    proof (cases "key_pos k (mElems m ! ?b k)")
      case None
      then have "buckets_map (mElems m) (fst (k, v)) = None" using kp [of k] by simp
      note ins = buckets_insert [OF bo b [of k] _ this, of "mElems m ! ?b k @ [(k, v)]"]
      show ?thesis using ins Insert None ok kp [of k] b by (simp add: hm_insert_def fe hm_ok_def)
    next
      case (Some i)
      then show ?thesis using ok Insert kp [of k] by (simp add: hm_insert_def fe)
    qed
  next
    case (Erase k)
    show ?thesis
    proof (cases "key_pos k (mElems m ! ?b k)")
      case None
      then have "buckets_map (mElems m) k = None" using kp [of k] by simp
      then have "(buckets_map (mElems m))(k := None) = buckets_map (mElems m)" by (rule fun_upd_idem)
      then show ?thesis using ok Erase None by (simp add: hm_erase_def fe)
    next
      case (Some i)
      then have i: "i < length (mElems m ! ?b k)" "fst (mElems m ! ?b k ! i) = k" using kp [of k] by auto
      note er = buckets_erase [OF bo b [of k] take_drop_mset [OF i(1)]]
      show ?thesis using er i Erase Some ok b by (simp add: hm_erase_def fe hm_ok_def)
    qed
  next
    case Count
    then show ?thesis using ok buckets_card [OF bo] by (simp add: hm_ok_def)
  qed
qed

interpretation hm_calls: call_refinement hm_call "dict_step of_nat" hm_ok "\<lambda>m. buckets_map (mElems m)"
  by unfold_locales (use hm_call_refines in fastforce)

lemma unat_mod_less: "n > 0 \<Longrightarrow> unat (w mod n) < unat n" for n :: "'w::len word"
  by (simp add: unat_mod unat_gt_0)

lemma new_QHashMap_ok:
  assumes "new_QHashMap n hash True = Some m" and "\<And>x. unat (hash x) < unat n"
  shows "hm_ok m" and "buckets_map (mElems m) = Map.empty"
  using assms by (auto simp: new_QHashMap_def hm_ok_def buckets_new split: if_splits)


section \<open>The divisor of QLinearHash\<close>

definition prime_int :: "int \<Rightarrow> bool" where
  "prime_int n \<longleftrightarrow> 1 < n \<and> (\<forall>d. 1 < d \<and> d < n \<longrightarrow> \<not> d dvd n)"

lemma prime_int_sqrt:
  assumes "1 < n"
  shows "prime_int n \<longleftrightarrow> (\<forall>d. 2 \<le> d \<and> d * d \<le> n \<longrightarrow> \<not> d dvd n)"
proof
  assume p: "prime_int n"
  show "\<forall>d. 2 \<le> d \<and> d * d \<le> n \<longrightarrow> \<not> d dvd n"
  proof (intro allI impI)
    fix d assume d: "2 \<le> d \<and> d * d \<le> n"
    have "2 * d \<le> d * d" using d by (intro mult_right_mono) auto
    then have "d < n" using d by linarith
    then show "\<not> d dvd n" using p d by (simp add: prime_int_def)
  qed
next
  assume small: "\<forall>d. 2 \<le> d \<and> d * d \<le> n \<longrightarrow> \<not> d dvd n"
  have "\<not> d dvd n" if d: "1 < d" "d < n" for d
  proof
    assume "d dvd n"
    then obtain e where e: "n = d * e" by (rule dvdE)
    have e2: "2 \<le> e"
    proof (rule ccontr)
      assume "\<not> 2 \<le> e"
      then have "d * e \<le> d * 1" using d by (intro mult_left_mono) auto
      then show False using d e by simp
    qed
    show False
    proof (cases "d \<le> e")
      case True
      then have "d * d \<le> n" using e d by (simp add: mult_left_mono)
      moreover have "d dvd n" "2 \<le> d" using d e by auto
      ultimately show False using small by blast
    next
      case False
      then have "e * e \<le> d * e" using e2 by (intro mult_right_mono) auto
      then have "e * e \<le> n" using e by simp
      moreover have "e dvd n" using e by simp
      ultimately show False using small e2 by blast
    qed
  qed
  then show "prime_int n" using assms by (simp add: prime_int_def)
qed

lemma is_prime_loop_spec:
  "2 \<le> i \<Longrightarrow> i \<le> 46340 \<Longrightarrow> num < 46340 * 46340 \<Longrightarrow>
   is_prime_loop num i = Some (\<forall>d. i \<le> d \<and> d * d \<le> num \<longrightarrow> \<not> d dvd num)"
proof (induction num i rule: is_prime_loop.induct)
  case (1 num i)
  have "i * i \<le> 46340 * 46340" using 1(2,3) by (intro mult_mono) auto
  moreover have "0 \<le> i * i" by simp
  ultimately have fits: "is_int32 (i * i)" by (simp add: is_int32_def del: zero_le_mult_iff zero_le_square)
  show ?case
  proof (cases "i * i \<le> num")
    case False
    have "\<not> d * d \<le> num" if "i \<le> d" for d
      using False mult_mono [OF that that] 1(2) that by linarith
    then show ?thesis using fits False by (subst is_prime_loop.simps) auto
  next
    case True
    have "i < 46340"
    proof (rule ccontr)
      assume "\<not> i < 46340"
      then have "46340 * 46340 \<le> i * i" by (intro mult_mono) auto
      then show False using True 1(4) by linarith
    qed
    then have ih: "\<not> num mod i = 0 \<Longrightarrow> is_prime_loop num (i + 1) = Some (\<forall>d. i + 1 \<le> d \<and> d * d \<le> num \<longrightarrow> \<not> d dvd num)"
      using 1 fits True by simp
    have split: "i \<le> d \<longleftrightarrow> d = i \<or> i + 1 \<le> d" for d by linarith
    show ?thesis
    proof (cases "num mod i = 0")
      case div: True
      then have "i dvd num" by (simp add: dvd_eq_mod_eq_0)
      then show ?thesis using fits True div by (subst is_prime_loop.simps) auto
    next
      case ndiv: False
      then have "\<not> i dvd num" by (simp add: dvd_eq_mod_eq_0)
      then show ?thesis using fits True ndiv ih unfolding split by (subst is_prime_loop.simps) auto
    qed
  qed
qed

lemma isPrime_spec: "num < 46340 * 46340 \<Longrightarrow> isPrime num = Some (prime_int num)"
  using is_prime_loop_spec [of 2 num] prime_int_sqrt [of num] by (auto simp: isPrime_def prime_int_def)

lemma prime_int_2: "prime_int 2"
  by (auto simp: prime_int_def)

lemma divisor_loop_spec:
  "2 \<le> m \<Longrightarrow> m < 46340 * 46340 \<Longrightarrow>
   \<exists>p. divisor_loop m = Some p \<and> prime_int p \<and> p \<le> m \<and> (\<forall>q. p < q \<and> q \<le> m \<longrightarrow> \<not> prime_int q)"
proof (induction m rule: divisor_loop.induct)
  case (1 m)
  show ?case
  proof (cases "prime_int m")
    case True
    then show ?thesis using 1(3) isPrime_spec [of m] by (subst divisor_loop.simps) auto
  next
    case False
    then have m: "2 < m" using 1(2) prime_int_2 by (cases "m = 2") auto
    have "\<exists>p. divisor_loop (m - 1) = Some p \<and> prime_int p \<and> p \<le> m - 1 \<and> (\<forall>q. p < q \<and> q \<le> m - 1 \<longrightarrow> \<not> prime_int q)"
      using 1(1) [of False] isPrime_spec [of m] 1(3) False m by simp
    then obtain p where p: "divisor_loop (m - 1) = Some p" "prime_int p" "p \<le> m - 1" "\<forall>q. p < q \<and> q \<le> m - 1 \<longrightarrow> \<not> prime_int q"
      by blast
    have "\<forall>q. p < q \<and> q \<le> m \<longrightarrow> \<not> prime_int q"
    proof (intro allI impI)
      fix q assume "p < q \<and> q \<le> m"
      then show "\<not> prime_int q" using p(4) False by (cases "q = m") auto
    qed
    moreover have "divisor_loop m = Some p"
      using p(1) False m isPrime_spec [of m] 1(3) by (subst divisor_loop.simps) simp
    ultimately show ?thesis using p(2,3) by auto
  qed
qed

text \<open>The divisor is the greatest prime that is not above the number of buckets.\<close>

lemma getDivisor_greatest_prime:
  assumes "2 \<le> m" and "m < 46340 * 46340"
  shows "\<exists>p. getDivisor m = Some p \<and> prime_int p \<and> p \<le> m \<and> (\<forall>q. p < q \<and> q \<le> m \<longrightarrow> \<not> prime_int q)"
proof -
  obtain p where p: "divisor_loop m = Some p" "prime_int p" "p \<le> m" "\<forall>q. p < q \<and> q \<le> m \<longrightarrow> \<not> prime_int q"
    using divisor_loop_spec [OF assms] by blast
  have "\<not> d dvd 3" if "1 < d" "d < 3" for d :: int
  proof -
    have "d = 2" using that by simp
    then show ?thesis by simp
  qed
  then have three: "prime_int 3" by (simp add: prime_int_def)
  have "m = 2" if "p = 2"
  proof (rule ccontr)
    assume "m \<noteq> 2"
    then have "p < 3 \<and> 3 \<le> m" using that assms(1) by simp
    then show False using p(4) three by blast
  qed
  then show ?thesis using p by (cases "p = 2") (auto simp: getDivisor_def)
qed


section \<open>QLinearHash is a map\<close>

text \<open>The client passes the hash of the key with the key; \<open>hk\<close> is the function it uses.\<close>

fun lh_call :: "('k \<Rightarrow> 64 word) \<Rightarrow> ('k, 'v) dict_call \<Rightarrow> ('k, 'v) linear_hash \<Rightarrow>
    (('v option \<times> int) \<times> ('k, 'v) linear_hash) option" where
  "lh_call hk (Find k) t = do { r \<leftarrow> lh_search t (hk k) k; Some ((r, 0), t) }"
| "lh_call hk (Insert k v) t = do { (r, t1) \<leftarrow> lh_push t (hk k) k v; Some ((None, 0), t1) }"
| "lh_call hk (Erase k) t = do { (r, t1) \<leftarrow> lh_pop t (hk k) k; Some ((None, 0), t1) }"
| "lh_call hk Count t = Some ((None, mNowSize t), t)"

fun chain_nodes :: "('k, 'v) chain \<Rightarrow> ('k, 'v) chain_node list" where
  "chain_nodes (Chain ns) = ns"
| "chain_nodes Freed = []"

definition node_pair :: "('k, 'v) chain_node \<Rightarrow> 'k \<times> 'v" where
  "node_pair n = (mKey n, mValue n)"

definition lh_pairs :: "('k, 'v) linear_hash \<Rightarrow> ('k \<times> 'v) list list" where
  "lh_pairs t = map (\<lambda>c. map node_pair (chain_nodes c)) (pHashTable t)"

definition lh_ok :: "('k \<Rightarrow> 64 word) \<Rightarrow> ('k, 'v) linear_hash \<Rightarrow> bool" where
  "lh_ok hk t \<longleftrightarrow> 0 < mDivisor t \<and> mDivisor t \<le> mBuckets t \<and> length (pHashTable t) = nat (mBuckets t) \<and>
     Freed \<notin> set (pHashTable t) \<and>
     (\<forall>c\<in>set (pHashTable t). distinct (map ln_addr (chain_nodes c)) \<and> (\<forall>n\<in>set (chain_nodes c). ln_addr n < ln_next t)) \<and>
     buckets_ok (\<lambda>k. nat (lh_hash t (hk k))) (lh_pairs t) \<and> mNowSize t = int (length (concat (lh_pairs t)))"

lemma chain_seek_spec:
  "chain_seek key ns = (bef, rest) \<Longrightarrow> ns = bef @ rest \<and> map_of (map node_pair bef) key = None \<and>
   (rest = [] \<or> mKey (hd rest) = key)"
  by (induction ns arbitrary: bef) (auto simp: node_pair_def split: if_splits prod.splits)

lemma chain_seek_map_of:
  "map_of (map node_pair ns) key = (case snd (chain_seek key ns) of [] \<Rightarrow> None | n # _ \<Rightarrow> Some (mValue n))"
  by (induction ns) (auto simp: node_pair_def split: prod.splits list.splits)

lemma lh_bucket:
  assumes "lh_ok hk t"
  shows "in_array (pHashTable t) (lh_hash t h)" and "nat (lh_hash t h) < length (lh_pairs t)"
    and "lh_chain t (lh_hash t h) = Some (chain_nodes (pHashTable t ! nat (lh_hash t h)))"
    and "lh_pairs t ! nat (lh_hash t h) = map node_pair (chain_nodes (pHashTable t ! nat (lh_hash t h)))"
proof -
  have "0 \<le> lh_hash t h" "lh_hash t h < mDivisor t" using assms by (auto simp: lh_ok_def lh_hash_def)
  then show ia: "in_array (pHashTable t) (lh_hash t h)" and n: "nat (lh_hash t h) < length (lh_pairs t)"
    using assms by (auto simp: lh_ok_def in_array_def lh_pairs_def)
  then have "pHashTable t ! nat (lh_hash t h) \<noteq> Freed"
    using assms by (metis length_map lh_ok_def lh_pairs_def nth_mem)
  then show "lh_chain t (lh_hash t h) = Some (chain_nodes (pHashTable t ! nat (lh_hash t h)))"
    using ia by (cases "pHashTable t ! nat (lh_hash t h)") (simp_all add: lh_chain_def at_def)
  show "lh_pairs t ! nat (lh_hash t h) = map node_pair (chain_nodes (pHashTable t ! nat (lh_hash t h)))"
    using n by (simp add: lh_pairs_def)
qed

lemma lh_pairs_update:
  "lh_pairs (t\<lparr> pHashTable := (pHashTable t)[b := Chain ns], mNowSize := z, ln_next := y \<rparr>) = (lh_pairs t)[b := map node_pair ns]"
  by (simp add: lh_pairs_def map_update)

lemma lh_ok_update:
  assumes "lh_ok hk t" and "b < length (pHashTable t)" and "ln_next t \<le> y"
    and "distinct (map ln_addr ns)" and "\<forall>n\<in>set ns. ln_addr n < y"
    and "buckets_ok (\<lambda>k. nat (lh_hash t (hk k))) ((lh_pairs t)[b := map node_pair ns])"
    and "z = int (length (concat ((lh_pairs t)[b := map node_pair ns])))"
  shows "lh_ok hk (t\<lparr> pHashTable := (pHashTable t)[b := Chain ns], mNowSize := z, ln_next := y \<rparr>)"
proof -
  let ?t = "t\<lparr> pHashTable := (pHashTable t)[b := Chain ns], mNowSize := z, ln_next := y \<rparr>"
  have h: "lh_hash ?t = lh_hash t" by (simp add: fun_eq_iff lh_hash_def)
  have "Freed \<notin> set ((pHashTable t)[b := Chain ns])"
    using assms(1) by (auto simp: lh_ok_def dest: set_update_subset_insert [THEN subsetD])
  moreover have "distinct (map ln_addr (chain_nodes c)) \<and> (\<forall>n\<in>set (chain_nodes c). ln_addr n < y)"
    if "c \<in> set ((pHashTable t)[b := Chain ns])" for c
    using set_update_subset_insert [THEN subsetD, OF that] assms(1,3-5) by (fastforce simp: lh_ok_def)
  ultimately show ?thesis using assms unfolding lh_ok_def h lh_pairs_update by simp
qed

lemma lh_call_refines:
  assumes ok: "lh_ok hk t"
  shows "\<exists>r t'. lh_call hk c t = Some (r, t') \<and> lh_ok hk t' \<and>
    dict_step int c (buckets_map (lh_pairs t)) = (r, buckets_map (lh_pairs t'))"
proof -
  define b where "b k = nat (lh_hash t (hk k))" for k
  define ns where "ns k = chain_nodes (pHashTable t ! b k)" for k
  note bk = lh_bucket [OF ok, of "hk _", folded b_def, folded ns_def]
  have bo: "buckets_ok b (lh_pairs t)" using ok by (simp add: lh_ok_def b_def [abs_def])
  have look: "map_of (map node_pair (ns k)) k = buckets_map (lh_pairs t) k" for k
    using map_of_bucket [OF bo refl bk(2), of k] bk(4) [of k] by simp
  have ad: "distinct (map ln_addr (ns k))" "\<forall>n\<in>set (ns k). ln_addr n < ln_next t" for k
    using ok bk(2) [of k] by (auto simp: lh_ok_def ns_def lh_pairs_def)
  have len: "b k < length (pHashTable t)" for k using bk(2) [of k] by (simp add: lh_pairs_def)
  have set_b: "aset (pHashTable t) (lh_hash t (hk k)) (Chain x) = Some ((pHashTable t)[b k := Chain x])" for k x
    using bk(1) [of k] by (simp add: b_def)
  show ?thesis
  proof (cases c)
    case (Find k)
    then show ?thesis using ok look [of k] bk(3) [of k] chain_seek_map_of [of "ns k" k] by (simp add: lh_search_def)
  next
    case (Insert k v)
    show ?thesis
    proof (cases "snd (chain_seek k (ns k))")
      case Nil
      define new where "new = \<lparr> ln_addr = ln_next t, mKey = k, mValue = v \<rparr>"
      have none: "buckets_map (lh_pairs t) (fst (k, v)) = None" using look [of k] Nil by (simp add: chain_seek_map_of)
      have ms: "mset (map node_pair (new # ns k)) = add_mset (k, v) (mset (lh_pairs t ! b k))"
        using bk(4) [of k] by (simp add: new_def node_pair_def)
      note ins = buckets_insert [OF bo bk(2) _ none ms]
      let ?t = "t\<lparr> pHashTable := (pHashTable t)[b k := Chain (new # ns k)], mNowSize := mNowSize t + 1, ln_next := Suc (ln_next t) \<rparr>"
      have "lh_ok hk ?t"
      proof (rule lh_ok_update [OF ok len])
        show "mNowSize t + 1 = int (length (concat ((lh_pairs t)[b k := map node_pair (new # ns k)])))"
          using ins(3) ok by (simp add: lh_ok_def)
        show "distinct (map ln_addr (new # ns k))" using ad [of k] by (auto simp: new_def)
      qed (use ins(1) ad [of k] in \<open>auto simp: new_def b_def [abs_def]\<close>)
      moreover have "lh_push t (hk k) k v = Some (True, ?t)"
        using Nil bk(3) [of k] set_b [of k] by (simp add: lh_push_def Let_def new_def)
      moreover have "buckets_map (lh_pairs ?t) = (buckets_map (lh_pairs t))(k \<mapsto> v)"
        unfolding lh_pairs_update using ins(2) by simp
      ultimately show ?thesis using Insert none by auto
    next
      case (Cons n rest)
      then have "buckets_map (lh_pairs t) k \<noteq> None" using look [of k, symmetric] by (simp add: chain_seek_map_of)
      then show ?thesis using ok Insert Cons bk(3) [of k] by (auto simp: lh_push_def Let_def)
    qed
  next
    case (Erase k)
    obtain bef rest where sk: "chain_seek k (ns k) = (bef, rest)" by fastforce
    show ?thesis
    proof (cases rest)
      case Nil
      then have "buckets_map (lh_pairs t) k = None" using look [of k] sk by (simp add: chain_seek_map_of)
      then have "(buckets_map (lh_pairs t))(k := None) = buckets_map (lh_pairs t)" by (rule fun_upd_idem)
      then show ?thesis using ok Erase sk Nil bk(3) [of k] by (simp add: lh_pop_def Let_def)
    next
      case (Cons n rest')
      have s: "ns k = bef @ n # rest'" "mKey n = k" using chain_seek_spec [OF sk] Cons by auto
      have ms: "mset (lh_pairs t ! b k) = add_mset (node_pair n) (mset (map node_pair (bef @ rest')))"
        using bk(4) [of k] s by simp
      note er = buckets_erase [OF bo bk(2) ms]
      let ?t = "t\<lparr> pHashTable := (pHashTable t)[b k := Chain (bef @ rest')], mNowSize := mNowSize t - 1, ln_next := ln_next t \<rparr>"
      have "lh_ok hk ?t"
      proof (rule lh_ok_update [OF ok len])
        show "mNowSize t - 1 = int (length (concat ((lh_pairs t)[b k := map node_pair (bef @ rest')])))"
          using er(3) ok by (simp add: lh_ok_def)
      qed (use er(1) ad [of k] s in \<open>auto simp: b_def [abs_def]\<close>)
      moreover have "lh_pop t (hk k) k = Some (True, ?t)"
        using sk Cons bk(3) [of k] set_b [of k] by (simp add: lh_pop_def Let_def)
      moreover have "buckets_map (lh_pairs ?t) = (buckets_map (lh_pairs t))(k := None)"
        unfolding lh_pairs_update using er(2) s(2) by (simp add: node_pair_def)
      ultimately show ?thesis using Erase by auto
    qed
  next
    case Count
    then show ?thesis using ok buckets_card [OF bo] by (simp add: lh_ok_def)
  qed
qed

interpretation lh_calls: call_refinement "lh_call hk" "dict_step int" "lh_ok hk" "\<lambda>t. buckets_map (lh_pairs t)" for hk
  by unfold_locales (rule lh_call_refines)

lemma new_QLinearHash_ok:
  assumes "1 \<le> n" and "n < 46340 * 46340"
  shows "\<exists>t. new_QLinearHash n True = Some t \<and> lh_ok hk t \<and> buckets_map (lh_pairs t) = Map.empty \<and> mBuckets t = n"
proof -
  obtain p where p: "getDivisor n = Some p" "0 < p" "p \<le> n"
  proof (cases "n = 1")
    case True
    then show ?thesis using that [of 1] by (simp add: getDivisor_def divisor_loop.simps isPrime_def)
  next
    case False
    then show ?thesis using getDivisor_greatest_prime [of n] assms that by (auto simp: prime_int_def)
  qed
  then show ?thesis using assms(1) by (simp add: new_QLinearHash_def lh_ok_def lh_pairs_def buckets_new)
qed


section \<open>Traversal\<close>

definition lh_after :: "('k, 'v) linear_hash \<Rightarrow> int \<Rightarrow> ('k, 'v) chain_node list" where
  "lh_after t i = concat (map chain_nodes (drop (nat i) (pHashTable t)))"

definition lh_rest :: "('k, 'v) linear_hash \<Rightarrow> ('k, 'v) chain_node list" where
  "lh_rest t = (case pTravPos t of None \<Rightarrow> [] | Some a \<Rightarrow> from_addr a (chain_nodes (pHashTable t ! nat (mTravIndex t)))) @
     lh_after t (mTravIndex t + 1)"

definition trav_ok :: "('k, 'v) linear_hash \<Rightarrow> bool" where
  "trav_ok t \<longleftrightarrow> 0 \<le> mTravIndex t \<and> mTravIndex t < mBuckets t \<and>
     (\<forall>a. pTravPos t = Some a \<longrightarrow> from_addr a (chain_nodes (pHashTable t ! nat (mTravIndex t))) \<noteq> [])"

lemma from_addr_split: "from_addr a ns = n # rest \<Longrightarrow> \<exists>bef. ns = bef @ n # rest \<and> ln_addr n = a"
proof (induction ns)
  case (Cons m ms)
  show ?case
  proof (cases "ln_addr m = a")
    case True
    then show ?thesis using Cons.prems by (intro exI [of _ "[]"]) simp
  next
    case False
    then obtain bef where "ms = bef @ n # rest" "ln_addr n = a" using Cons by auto
    then show ?thesis by (intro exI [of _ "m # bef"]) simp
  qed
qed simp

lemma from_addr_suffix:
  "distinct (map ln_addr (bef @ rest)) \<Longrightarrow> chain_head rest = Some a \<Longrightarrow> from_addr a (bef @ rest) = rest"
  by (induction bef) (auto simp: chain_head_def split: list.splits)

lemma chain_head_Nil [simp]: "chain_head [] = None"
  by (simp add: chain_head_def)

lemma chain_head_None: "chain_head ns = None \<longleftrightarrow> ns = []"
  by (simp add: chain_head_def split: list.splits)

lemma lh_chain_at:
  assumes "lh_ok hk t" and "0 \<le> i" and "i < mBuckets t"
  shows "lh_chain t i = Some (chain_nodes (pHashTable t ! nat i))"
proof -
  have i: "nat i < length (pHashTable t)" using assms by (simp add: lh_ok_def nat_less_eq_zless)
  have "pHashTable t ! nat i \<noteq> Freed"
  proof
    assume "pHashTable t ! nat i = Freed"
    then have "Freed \<in> set (pHashTable t)" using nth_mem [OF i] by simp
    then show False using assms(1) by (simp add: lh_ok_def)
  qed
  then show ?thesis using i assms(2) by (cases "pHashTable t ! nat i") (auto simp: lh_chain_def at_def aget_def in_array_def)
qed

lemma lh_after_Cons:
  assumes "0 \<le> i" and "nat i < length (pHashTable t)"
  shows "lh_after t i = chain_nodes (pHashTable t ! nat i) @ lh_after t (i + 1)"
proof -
  have "nat (i + 1) = Suc (nat i)" using assms(1) by simp
  then show ?thesis using Cons_nth_drop_Suc [OF assms(2), symmetric] by (simp add: lh_after_def)
qed

lemma trav_loop_spec:
  assumes "lh_ok hk t" and "0 \<le> i" and "i \<le> mBuckets t"
  shows "case lh_after t i of
      [] \<Rightarrow> trav_loop t i = Some (mBuckets t, None)
    | n # ns \<Rightarrow> \<exists>j tl. trav_loop t i = Some (j, Some (ln_addr n)) \<and> i \<le> j \<and> j < mBuckets t \<and>
        chain_nodes (pHashTable t ! nat j) = n # tl \<and> ns = tl @ lh_after t (j + 1)"
  using assms
proof (induction t i rule: trav_loop.induct)
  case (1 t i)
  have len: "length (pHashTable t) = nat (mBuckets t)" using 1(2) by (simp add: lh_ok_def)
  show ?case
  proof (cases "i < mBuckets t")
    case False
    then show ?thesis using 1(4) len by (subst trav_loop.simps) (auto simp: lh_after_def)
  next
    case True
    let ?ns = "chain_nodes (pHashTable t ! nat i)"
    have dr: "lh_after t i = ?ns @ lh_after t (i + 1)"
      using True 1(3) len by (subst lh_after_Cons) auto
    have ch: "lh_chain t i = Some ?ns" by (rule lh_chain_at [OF 1(2,3) True])
    show ?thesis
    proof (cases ?ns)
      case Nil
      then have skip: "trav_loop t i = trav_loop t (i + 1)"
        using True ch by (subst trav_loop.simps) (simp add: chain_head_def)
      have same: "lh_after t i = lh_after t (i + 1)"
        unfolding dr using Nil by simp
      note ih = 1(1) [OF True ch _ 1(2)]
      show ?thesis
      proof (cases "lh_after t (i + 1)")
        case empty: Nil
        then have "trav_loop t (i + 1) = Some (mBuckets t, None)" using ih 1(3) True Nil by (simp add: chain_head_def)
        then show ?thesis using skip same empty by simp
      next
        case (Cons n ns)
        then obtain j tl where "trav_loop t (i + 1) = Some (j, Some (ln_addr n))" "i + 1 \<le> j" "j < mBuckets t"
          "chain_nodes (pHashTable t ! nat j) = n # tl" "ns = tl @ lh_after t (j + 1)"
          using ih 1(3) True Nil by (auto simp: chain_head_def)
        then have "trav_loop t i = Some (j, Some (ln_addr n)) \<and> i \<le> j \<and> j < mBuckets t \<and>
            chain_nodes (pHashTable t ! nat j) = n # tl \<and> ns = tl @ lh_after t (j + 1)"
          using skip by simp
        then show ?thesis unfolding same Cons list.case by blast
      qed
    next
      case (Cons n tl)
      then have "trav_loop t i = Some (i, Some (ln_addr n))"
        using True ch by (subst trav_loop.simps) (simp add: chain_head_def)
      then show ?thesis unfolding dr using Cons True 1(3) by auto
    qed
  qed
qed

lemma lh_ok_trav [simp]: "lh_ok hk (t\<lparr> mTravIndex := i, pTravPos := p \<rparr>) = lh_ok hk t"
  by (simp add: lh_ok_def lh_hash_def lh_pairs_def)

lemma lh_after_trav [simp]: "lh_after (t\<lparr> mTravIndex := i, pTravPos := p \<rparr>) = lh_after t"
  by (simp add: fun_eq_iff lh_after_def)

text \<open>The traversal stands before the node \<open>n\<close> of bucket \<open>i\<close>.\<close>

lemma lh_traverse_node:
  assumes ok: "lh_ok hk t" and i: "0 \<le> i" "i < mBuckets t" and fr: "from_addr a (chain_nodes (pHashTable t ! nat i)) = n # tail"
    and start: "(case pTravPos t of None \<Rightarrow> trav_loop t (mTravIndex t + 1) | Some a \<Rightarrow> Some (mTravIndex t, Some a)) = Some (i, Some a)"
  shows "\<exists>t'. lh_traverse t = Some (Some (node_pair n), t') \<and> lh_rest t' = tail @ lh_after t (i + 1) \<and> trav_ok t' \<and> lh_ok hk t'"
proof -
  let ?t = "t\<lparr> mTravIndex := i, pTravPos := chain_head tail \<rparr>"
  let ?ns = "chain_nodes (pHashTable t ! nat i)"
  obtain bef where ns: "?ns = (bef @ [n]) @ tail" using from_addr_split [OF fr] by auto
  have "nat i < length (pHashTable t)" using ok i by (simp add: lh_ok_def nat_less_eq_zless)
  then have "distinct (map ln_addr ?ns)" using ok nth_mem by (auto simp: lh_ok_def)
  then have next_pos: "from_addr b ?ns = tail" if "chain_head tail = Some b" for b
    unfolding ns by (rule from_addr_suffix [OF _ that])
  have "lh_traverse t = Some (Some (node_pair n), ?t)"
    using start fr lh_chain_at [OF ok i] by (simp add: lh_traverse_def node_pair_def)
  moreover have "lh_rest ?t = tail @ lh_after t (i + 1)"
    using next_pos by (cases "chain_head tail") (simp_all add: lh_rest_def chain_head_None)
  moreover have "trav_ok ?t" using i next_pos by (auto simp: trav_ok_def chain_head_def split: list.splits)
  ultimately show ?thesis using ok by auto
qed

lemma lh_traverse_step:
  assumes ok: "lh_ok hk t" and tr: "trav_ok t"
  shows "case lh_rest t of
      [] \<Rightarrow> \<exists>t'. lh_traverse t = Some (None, t')
    | n # ns \<Rightarrow> \<exists>t'. lh_traverse t = Some (Some (node_pair n), t') \<and> lh_rest t' = ns \<and> trav_ok t' \<and> lh_ok hk t'"
proof (cases "pTravPos t")
  case None
  then have r: "lh_rest t = lh_after t (mTravIndex t + 1)" by (simp add: lh_rest_def)
  have i: "0 \<le> mTravIndex t + 1" "mTravIndex t + 1 \<le> mBuckets t" using tr by (auto simp: trav_ok_def)
  show ?thesis
  proof (cases "lh_rest t")
    case Nil
    then show ?thesis using trav_loop_spec [OF ok i] None r by (simp add: lh_traverse_def)
  next
    case (Cons n ns)
    then obtain j tail where j: "trav_loop t (mTravIndex t + 1) = Some (j, Some (ln_addr n))" "mTravIndex t + 1 \<le> j" "j < mBuckets t"
      "chain_nodes (pHashTable t ! nat j) = n # tail" "ns = tail @ lh_after t (j + 1)"
      using trav_loop_spec [OF ok i] r by auto
    have "0 \<le> j" using j(2) i(1) by linarith
    from lh_traverse_node [OF ok this j(3), of "ln_addr n" n tail] show ?thesis using None j Cons by simp
  qed
next
  case (Some a)
  have i: "0 \<le> mTravIndex t" "mTravIndex t < mBuckets t" using tr by (auto simp: trav_ok_def)
  obtain n tail where fr: "from_addr a (chain_nodes (pHashTable t ! nat (mTravIndex t))) = n # tail"
    using tr Some by (cases "from_addr a (chain_nodes (pHashTable t ! nat (mTravIndex t)))") (auto simp: trav_ok_def)
  have "lh_rest t = n # tail @ lh_after t (mTravIndex t + 1)" using Some fr by (simp add: lh_rest_def)
  then show ?thesis using lh_traverse_node [OF ok i fr] Some by simp
qed

text \<open>A client that traverses the whole table: \<open>while(traverse(key, value)==0) ...\<close>.\<close>

partial_function (option) lh_collect :: "('k, 'v) linear_hash \<Rightarrow> ('k \<times> 'v) list option" where
  "lh_collect t = do {
     (r, t1) \<leftarrow> lh_traverse t;
     case r of None \<Rightarrow> Some [] | Some p \<Rightarrow> do { ps \<leftarrow> lh_collect t1; Some (p # ps) } }"

lemma lh_collect_rest: "lh_ok hk t \<Longrightarrow> trav_ok t \<Longrightarrow> lh_collect t = Some (map node_pair (lh_rest t))"
proof (induction "lh_rest t" arbitrary: t)
  case Nil
  then obtain t' where "lh_traverse t = Some (None, t')" using lh_traverse_step [OF Nil(2,3)] by auto
  then show ?case using Nil(1) [symmetric] by (subst lh_collect.simps) simp
next
  case (Cons n ns)
  then obtain t' where t': "lh_traverse t = Some (Some (node_pair n), t')" "lh_rest t' = ns" "trav_ok t'" "lh_ok hk t'"
    using lh_traverse_step [OF Cons(3,4)] Cons(2) [symmetric] by auto
  then have "lh_collect t' = Some (map node_pair ns)" using Cons(1) [of t'] by simp
  then show ?case using t'(1) Cons(2) [symmetric] by (subst lh_collect.simps) simp
qed

lemma lh_traversal:
  assumes "lh_ok hk t"
  shows "\<exists>t1. prepareTraversal t = Some t1 \<and> lh_collect t1 = Some (concat (lh_pairs t))"
proof -
  have z: "0 < mBuckets t" "0 < length (pHashTable t)" using assms by (auto simp: lh_ok_def)
  let ?ns = "chain_nodes (pHashTable t ! 0)"
  let ?t = "t\<lparr> mTravIndex := 0, pTravPos := chain_head ?ns \<rparr>"
  have "distinct (map ln_addr ?ns)" using assms nth_mem [OF z(2)] by (auto simp: lh_ok_def)
  then have f: "from_addr a ?ns = ?ns" if "chain_head ?ns = Some a" for a using from_addr_suffix [of "[]" ?ns a] that by simp
  have "lh_rest ?t = ?ns @ lh_after t 1" using f by (cases "chain_head ?ns") (simp_all add: lh_rest_def chain_head_None)
  also have "\<dots> = lh_after t 0" using lh_after_Cons [of 0 t] z(2) by simp
  finally have "map node_pair (lh_rest ?t) = concat (lh_pairs t)"
    by (simp add: lh_after_def lh_pairs_def map_concat comp_def)
  moreover have "trav_ok ?t" using z f by (auto simp: trav_ok_def chain_head_def split: list.splits)
  moreover have "prepareTraversal t = Some ?t" using lh_chain_at [OF assms, of 0] z by (simp add: prepareTraversal_def)
  ultimately show ?thesis using lh_collect_rest [of hk ?t] assms by simp
qed


section \<open>Properties\<close>

text \<open>C35: Every sequence of calls on a fresh \<open>QHashMap\<close>, whatever the keys and however they collide, is answered as by a map in which
  the first insertion of a key wins; the size is the number of keys modulo \<open>2^32\<close>. The table stays well formed: each key is in the
  bucket of its hash and in no other place.\<close>

theorem QHashMap_is_map:
  assumes "0 < n"
  shows "\<exists>m0 rs m. new_QHashMap n (DefaultHash host repr n) True = Some m0 \<and> run_calls hm_call cs m0 = Some (rs, m) \<and> hm_ok m \<and>
    run_calls (\<lambda>c a. Some (dict_step of_nat c a)) cs Map.empty = Some (rs, buckets_map (mElems m))"
proof -
  obtain m0 :: "('a, 'b) hash_map" where m0: "new_QHashMap n (DefaultHash host repr n) True = Some m0"
    using assms by (auto simp: new_QHashMap_def)
  have "unat (DefaultHash host repr n x) < unat n" for x using assms by (simp add: DefaultHash_def unat_mod_less)
  from new_QHashMap_ok [OF m0 this] show ?thesis using m0 hm_calls.runs [of m0 cs] by auto
qed

theorem QHashMap_is_map_witness:
  "\<exists>m0 rs m. new_QHashMap 251 (DefaultHash Little_End bytes_of 251) True = Some m0 \<and>
    run_calls hm_call [Insert ''a'' (1 :: nat), Insert ''a'' 2, Find ''a'', Count] m0 = Some (rs, m) \<and> hm_ok m \<and>
    rs = [(None, 0), (None, 0), (Some 1, 0), (None, 1)]"
  using QHashMap_is_map [of 251 Little_End bytes_of "[Insert ''a'' (1 :: nat), Insert ''a'' 2, Find ''a'', Count]"] by auto



text \<open>After \<open>clear\<close> the array still points to the deleted nodes: the next search for a key that was there uses freed memory.\<close>

lemma clear_leaves_dangling:
  assumes "lh_ok hk t" and "buckets_map (lh_pairs t) k \<noteq> None" and "lh_clear t = Some t'"
  shows "lh_search t' (hk k) k = None"
proof -
  have cl: "clear_chains cs = Some (n, cs') \<Longrightarrow> length cs' = length cs \<and> (\<forall>i<length cs. chain_nodes (cs ! i) \<noteq> [] \<longrightarrow> cs' ! i = Freed)"
    for cs n and cs' :: "('a, 'b) chain list"
  proof (induction cs arbitrary: n cs')
    case (Cons c cs)
    obtain l c' m ds where s: "clear_chain c = Some (l, c')" "clear_chains cs = Some (m, ds)" "cs' = c' # ds"
      using Cons.prems by (auto simp: bind_eq_Some_conv)
    have "chain_nodes c \<noteq> [] \<Longrightarrow> c' = Freed" using s(1) by (cases c rule: clear_chain.cases) auto
    then show ?case using Cons.IH [OF s(2)] s(3) by (auto simp: less_Suc_eq_0_disj)
  qed simp
  obtain z tab where tab: "clear_chains (pHashTable t) = Some (z, tab)" "t' = t\<lparr> pHashTable := tab, mNowSize := mNowSize t - z \<rparr>"
    using assms(3) by (auto simp: lh_clear_def bind_eq_Some_conv)
  note bk = lh_bucket [OF assms(1), of "hk k"]
  have "map_of (lh_pairs t ! nat (lh_hash t (hk k))) k \<noteq> None"
    using map_of_bucket [of "\<lambda>k. nat (lh_hash t (hk k))" "lh_pairs t" k, OF _ refl bk(2)] assms(1,2) by (simp add: lh_ok_def)
  then have "chain_nodes (pHashTable t ! nat (lh_hash t (hk k))) \<noteq> []" unfolding bk(4) by auto
  then have "tab ! nat (lh_hash t (hk k)) = Freed" "length tab = length (pHashTable t)"
    using cl [OF tab(1)] bk(1) by (auto simp: in_array_def)
  moreover have "lh_hash t' (hk k) = lh_hash t (hk k)" by (simp add: tab(2) lh_hash_def)
  ultimately show ?thesis using bk(1) by (simp add: lh_search_def lh_chain_def tab(2) aget_def in_array_def at_def)
qed

end
