(* ===== verification/Base64_Codec.thy ===== *)
theory Base64_Codec
  imports Idfs_Prelude "HOL-Library.Monad_Syntax"
begin

text \<open>
  The base64 encoder and decoder of \<open>include/common/base64.c\<close>. The C functions jump into a loop at the step at which the last block
  ended; a step is a case of the recursions below. Plain text is a list of bytes, code is a text. A table index outside its table and the use of
  an unset cell are \<^const>\<open>None\<close>.
\<close>

unbundle bit_operations_syntax

section \<open>The encoder\<close>

datatype base64_encodestep = step_A | step_B | step_C

record base64_encodestate =
  enc_step :: base64_encodestep
  enc_result :: byte
  enc_stepcount :: int

definition base64_init_encodestate :: base64_encodestate where
  "base64_init_encodestate = \<lparr> enc_step = step_A, enc_result = 0, enc_stepcount = 0 \<rparr>"

definition encoding :: string where
  "encoding = ''ABCDEFGHIJKLMNOPQRSTUVWXYZabcdefghijklmnopqrstuvwxyz0123456789+/''"

text \<open>The argument is a \<open>char\<close>, which is signed.\<close>

definition base64_encode_value :: "byte \<Rightarrow> char option" where
  "base64_encode_value value_in =
     (if sint value_in > 63 then Some (CHR ''='')
      else if sint value_in < 0 then None
      else Some (encoding ! unat value_in))"

fun encode_loop :: "base64_encodestep \<Rightarrow> byte \<Rightarrow> int \<Rightarrow> bytes \<Rightarrow> (string \<times> base64_encodestate) option" where
  "encode_loop st result cnt [] = Some ([], \<lparr> enc_step = st, enc_result = result, enc_stepcount = cnt \<rparr>)"
| "encode_loop step_A result cnt (fragment # rest) = do {
     c \<leftarrow> base64_encode_value (drop_bit 2 (fragment AND 0xfc));
     (s, st) \<leftarrow> encode_loop step_B (push_bit 4 (fragment AND 0x03)) cnt rest;
     Some (c # s, st) }"
| "encode_loop step_B result cnt (fragment # rest) = do {
     c \<leftarrow> base64_encode_value (result OR drop_bit 4 (fragment AND 0xf0));
     (s, st) \<leftarrow> encode_loop step_C (push_bit 2 (fragment AND 0x0f)) cnt rest;
     Some (c # s, st) }"
| "encode_loop step_C result cnt (fragment # rest) = do {
     c \<leftarrow> base64_encode_value (result OR drop_bit 6 (fragment AND 0xc0));
     d \<leftarrow> base64_encode_value (fragment AND 0x3f);
     let nl = (cnt + 1 = 72 div 4);
     (s, st) \<leftarrow> encode_loop step_A (fragment AND 0x3f) (if nl then 0 else cnt + 1) rest;
     Some (c # d # (if nl then [CHR 0x0A] else []) @ s, st) }"

definition base64_encode_block :: "bytes \<Rightarrow> base64_encodestate \<Rightarrow> (string \<times> base64_encodestate) option" where
  "base64_encode_block plaintext_in state_in =
     encode_loop (enc_step state_in) (enc_result state_in) (enc_stepcount state_in) plaintext_in"

definition base64_encode_blockend :: "base64_encodestate \<Rightarrow> string option" where
  "base64_encode_blockend state_in =
     (case enc_step state_in of
        step_B \<Rightarrow> do { c \<leftarrow> base64_encode_value (enc_result state_in); Some (c # ''=='' @ [CHR 0x0A]) }
      | step_C \<Rightarrow> do { c \<leftarrow> base64_encode_value (enc_result state_in); Some (c # ''='' @ [CHR 0x0A]) }
      | step_A \<Rightarrow> Some [CHR 0x0A])"

text \<open>The last newline is overwritten by the closing zero byte.\<close>

definition base64_encode :: "bytes \<Rightarrow> (int \<times> string) option" where
  "base64_encode plaintext_in =
     (if plaintext_in = [] then Some (-1, [])
      else do {
        (s, st) \<leftarrow> base64_encode_block plaintext_in base64_init_encodestate;
        e \<leftarrow> base64_encode_blockend st;
        Some (int (length s) + int (length e) - 1, s @ butlast e) })"


section \<open>The decoder\<close>

datatype base64_decodestep = step_a | step_b | step_c | step_d

record base64_decodestate =
  dec_step :: base64_decodestep
  dec_plainchar :: "byte option"

definition decoding :: "int list" where
  "decoding =
     [62, -1, -1, -1, 63, 52, 53, 54, 55, 56,
      57, 58, 59, 60, 61, -1, -1, -1, -2, -1,
      -1, -1,  0,  1,  2,  3,  4,  5,  6,  7,
       8,  9, 10, 11, 12, 13, 14, 15, 16, 17,
      18, 19, 20, 21, 22, 23, 24, 25, -1, -1,
      -1, -1, -1, -1, 26, 27, 28, 29, 30, 31,
      32, 33, 34, 35, 36, 37, 38, 39, 40, 41,
      42, 43, 44, 45, 46, 47, 48, 49, 50, 51]"

text \<open>\<open>value_in -= 43\<close> wraps at the width of a \<open>char\<close>.\<close>

definition base64_decode_value :: "char \<Rightarrow> int" where
  "base64_decode_value value_in =
     (let v = sint (byte_of value_in - 43)
      in if v < 0 \<or> v \<ge> int (length decoding) then -1 else decoding ! nat v)"

definition base64_init_decodestate :: base64_decodestate where
  "base64_init_decodestate = \<lparr> dec_step = step_a, dec_plainchar = Some 0 \<rparr>"

text \<open>
  \<open>cell\<close> is the byte that \<open>plainchar\<close> points to; behind the last byte that was written it has no value. A character with a negative
  code is skipped.
\<close>

fun decode_loop :: "base64_decodestep \<Rightarrow> byte option \<Rightarrow> string \<Rightarrow> (bytes \<times> base64_decodestate) option" where
  "decode_loop st cell [] = Some ([], \<lparr> dec_step = st, dec_plainchar = cell \<rparr>)"
| "decode_loop st cell (ch # rest) =
     (let code = base64_decode_value ch; fragment = word_of_int code :: byte
      in if code < 0 then decode_loop st cell rest
         else case st of
           step_a \<Rightarrow> decode_loop step_b (Some (push_bit 2 (fragment AND 0x3f))) rest
         | step_b \<Rightarrow> do {
             p \<leftarrow> cell;
             (s, st') \<leftarrow> decode_loop step_c (Some (push_bit 4 (fragment AND 0x0f))) rest;
             Some ((p OR drop_bit 4 (fragment AND 0x30)) # s, st') }
         | step_c \<Rightarrow> do {
             p \<leftarrow> cell;
             (s, st') \<leftarrow> decode_loop step_d (Some (push_bit 6 (fragment AND 0x03))) rest;
             Some ((p OR drop_bit 2 (fragment AND 0x3c)) # s, st') }
         | step_d \<Rightarrow> do {
             p \<leftarrow> cell;
             (s, st') \<leftarrow> decode_loop step_a None rest;
             Some ((p OR (fragment AND 0x3f)) # s, st') })"

definition base64_decode_block :: "string \<Rightarrow> base64_decodestate \<Rightarrow> (bytes \<times> base64_decodestate) option" where
  "base64_decode_block code_in state_in = decode_loop (dec_step state_in) (dec_plainchar state_in) code_in"

definition base64_decode :: "string \<Rightarrow> (int \<times> bytes) option" where
  "base64_decode code_in =
     (if code_in = [] then Some (-1, [])
      else do {
        (s, st) \<leftarrow> base64_decode_block code_in base64_init_decodestate;
        Some (int (length s), s) })"


section \<open>Blocks\<close>

text \<open>A text encoded in blocks has the code of the whole text.\<close>

lemma encode_loop_append:
  "encode_loop st r cnt (xs @ ys) = do {
     (s, e) \<leftarrow> encode_loop st r cnt xs;
     (s', e') \<leftarrow> encode_loop (enc_step e) (enc_result e) (enc_stepcount e) ys;
     Some (s @ s', e') }"
proof (induction xs arbitrary: st r cnt)
  case (Cons x xs)
  show ?case by (cases st) (simp_all add: Let_def Cons.IH case_prod_unfold Option.bind_assoc)
qed simp

lemma base64_encode_block_append:
  "base64_encode_block (xs @ ys) st = do {
     (s, st1) \<leftarrow> base64_encode_block xs st;
     (s', st2) \<leftarrow> base64_encode_block ys st1;
     Some (s @ s', st2) }"
  by (simp add: base64_encode_block_def encode_loop_append)


section \<open>Round trip\<close>

text \<open>The character of a value below 64, and that the decoder gives the value back.\<close>

lemma encode_value_decoded:
  assumes "n < 64"
  shows "base64_encode_value (of_nat n) = Some (encoding ! n)" and "base64_decode_value (encoding ! n) = int n"
proof -
  have all: "list_all (\<lambda>n. base64_encode_value (of_nat n) = Some (encoding ! n) \<and> base64_decode_value (encoding ! n) = int n) [0..<64]"
    by code_simp
  then show "base64_encode_value (of_nat n) = Some (encoding ! n)" and "base64_decode_value (encoding ! n) = int n"
    using assms by (auto simp: list_all_iff)
qed

lemma byte_eqI:
  fixes a b :: byte
  assumes "bit a 0 = bit b 0" "bit a 1 = bit b 1" "bit a 2 = bit b 2" "bit a 3 = bit b 3"
    "bit a 4 = bit b 4" "bit a 5 = bit b 5" "bit a 6 = bit b 6" "bit a 7 = bit b 7"
  shows "a = b"
proof (rule bit_word_eqI)
  fix n assume "n < LENGTH(8)"
  then have "n = 0 \<or> n = 1 \<or> n = 2 \<or> n = 3 \<or> n = 4 \<or> n = 5 \<or> n = 6 \<or> n = 7" by auto
  then show "bit a n = bit b n" using assms by auto
qed

lemmas bits = bit_and_iff bit_or_iff bit_push_bit_iff bit_drop_bit_eq comp_def

lemma six_bits:
  fixes v :: byte
  assumes "\<not> bit v 6" and "\<not> bit v 7"
  shows "\<exists>c. base64_encode_value v = Some c \<and> base64_decode_value c = int (unat v)"
proof -
  have "take_bit 6 v = v" by (rule byte_eqI) (use assms in \<open>simp_all add: bit_take_bit_iff\<close>)
  then have "unat v = take_bit 6 (unat v)" by (metis unsigned_take_bit_eq)
  also have "\<dots> < 2 ^ 6" by (rule take_bit_nat_less_exp)
  finally have "unat v < 64" by simp
  then show ?thesis using encode_value_decoded [of "unat v"] by auto
qed

definition encode_full :: "base64_encodestep \<Rightarrow> byte \<Rightarrow> int \<Rightarrow> bytes \<Rightarrow> string option" where
  "encode_full st r cnt xs = do {
     (s, e) \<leftarrow> encode_loop st r cnt xs;
     t \<leftarrow> base64_encode_blockend e;
     Some (s @ butlast t) }"

lemma encode_full_Nil:
  "encode_full step_A r cnt [] = Some []"
  "encode_full step_B r cnt [] = do { c \<leftarrow> base64_encode_value r; Some (c # ''=='') }"
  "encode_full step_C r cnt [] = do { c \<leftarrow> base64_encode_value r; Some (c # ''='') }"
  by (simp_all add: encode_full_def base64_encode_blockend_def Option.bind_assoc)

lemma encode_full_Cons:
  "encode_full step_A r cnt (f # xs) = do {
     c \<leftarrow> base64_encode_value (drop_bit 2 (f AND 0xfc));
     s \<leftarrow> encode_full step_B (push_bit 4 (f AND 0x03)) cnt xs;
     Some (c # s) }"
  "encode_full step_B r cnt (f # xs) = do {
     c \<leftarrow> base64_encode_value (r OR drop_bit 4 (f AND 0xf0));
     s \<leftarrow> encode_full step_C (push_bit 2 (f AND 0x0f)) cnt xs;
     Some (c # s) }"
  "encode_full step_C r cnt (f # xs) = do {
     c \<leftarrow> base64_encode_value (r OR drop_bit 6 (f AND 0xc0));
     d \<leftarrow> base64_encode_value (f AND 0x3f);
     s \<leftarrow> encode_full step_A (f AND 0x3f) (if cnt + 1 = 72 div 4 then 0 else cnt + 1) xs;
     Some (c # d # (if cnt + 1 = 72 div 4 then [CHR 0x0A] else []) @ s) }"
  by (simp_all add: encode_full_def Let_def case_prod_unfold Option.bind_assoc)

lemma decode_skipped: "base64_decode_value (CHR ''='') < 0" "base64_decode_value (CHR 0x0A) < 0"
  by code_simp+

text \<open>What the decoder computes from the values that the encoder emits.\<close>

lemma decoded_bits:
  "push_bit 2 (drop_bit 2 (f AND 0xfc) AND 0x3f) = f AND 0xfc"
  "(f AND 0xfc) OR drop_bit 4 ((push_bit 4 (f AND 0x03) OR drop_bit 4 (g AND 0xf0)) AND 0x30) = f"
  "push_bit 4 ((push_bit 4 (f AND 0x03) OR drop_bit 4 (g AND 0xf0)) AND 0x0f) = g AND 0xf0"
  "(f AND 0xf0) OR drop_bit 2 ((push_bit 2 (f AND 0x0f) OR drop_bit 6 (g AND 0xc0)) AND 0x3c) = f"
  "push_bit 6 ((push_bit 2 (f AND 0x0f) OR drop_bit 6 (g AND 0xc0)) AND 0x03) OR ((g AND 0x3f) AND 0x3f) = g"
  "(f AND 0xfc) OR drop_bit 4 (push_bit 4 (f AND 0x03) AND 0x30) = f"
  "(f AND 0xf0) OR drop_bit 2 (push_bit 2 (f AND 0x0f) AND 0x3c) = f"
  for f g :: byte
  by - (rule byte_eqI; (simp add: bits; fail)?; (simp add: bits; simp add: numeral_2_eq_2 numeral_3_eq_3; fail)?)+

lemma six_bit_values:
  "\<not> bit (drop_bit 2 (f AND 0xfc)) 6" "\<not> bit (drop_bit 2 (f AND 0xfc)) 7"
  "\<not> bit (push_bit 4 (f AND 0x03) OR drop_bit 4 (g AND 0xf0)) 6" "\<not> bit (push_bit 4 (f AND 0x03) OR drop_bit 4 (g AND 0xf0)) 7"
  "\<not> bit (push_bit 2 (f AND 0x0f) OR drop_bit 6 (g AND 0xc0)) 6" "\<not> bit (push_bit 2 (f AND 0x0f) OR drop_bit 6 (g AND 0xc0)) 7"
  "\<not> bit (g AND 0x3f) 6" "\<not> bit (g AND 0x3f) 7"
  "\<not> bit (push_bit 4 (f AND 0x03)) 6" "\<not> bit (push_bit 4 (f AND 0x03)) 7"
  "\<not> bit (push_bit 2 (f AND 0x0f)) 6" "\<not> bit (push_bit 2 (f AND 0x0f)) 7"
  for f g :: byte
  by (simp_all add: bits bit_imp_le_length)

lemmas six = six_bits [OF six_bit_values(1,2)] six_bits [OF six_bit_values(3,4)] six_bits [OF six_bit_values(5,6)]
  six_bits [OF six_bit_values(7,8)] six_bits [OF six_bit_values(9,10)] six_bits [OF six_bit_values(11,12)]

lemma decode_char:
  assumes "base64_decode_value c = int (unat v)"
  shows "decode_loop step_a cell (c # s) = decode_loop step_b (Some (push_bit 2 (v AND 0x3f))) s"
    and "decode_loop step_b (Some p) (c # s) = do {
      (bs, st') \<leftarrow> decode_loop step_c (Some (push_bit 4 (v AND 0x0f))) s; Some ((p OR drop_bit 4 (v AND 0x30)) # bs, st') }"
    and "decode_loop step_c (Some p) (c # s) = do {
      (bs, st') \<leftarrow> decode_loop step_d (Some (push_bit 6 (v AND 0x03))) s; Some ((p OR drop_bit 2 (v AND 0x3c)) # bs, st') }"
    and "decode_loop step_d (Some p) (c # s) = do {
      (bs, st') \<leftarrow> decode_loop step_a None s; Some ((p OR (v AND 0x3f)) # bs, st') }"
  using assms by (simp_all add: Let_def)

lemma decode_skip:
  "decode_loop st cell (CHR ''='' # s) = decode_loop st cell s" "decode_loop st cell (CHR 0x0A # s) = decode_loop st cell s"
  using decode_skipped by (simp_all add: Let_def)

lemmas decode_simps = decode_skip decode_loop.simps(1) bind.bind_lunit prod.case decoded_bits append.simps

text \<open>
  The decoder is one character behind: when the encoder has taken the byte \<open>f\<close> and is at \<open>step_B\<close> or \<open>step_C\<close>, the decoder holds the upper bits
  of \<open>f\<close> in its cell.
\<close>

lemma decode_encode_full:
  "(\<exists>s. encode_full step_A r cnt xs = Some s \<and> (\<forall>cell. \<exists>st. decode_loop step_a cell s = Some (xs, st))) \<and>
   (\<exists>s. encode_full step_B (push_bit 4 (f AND 0x03)) cnt xs = Some s \<and> (\<exists>st. decode_loop step_b (Some (f AND 0xfc)) s = Some (f # xs, st))) \<and>
   (\<exists>s. encode_full step_C (push_bit 2 (f AND 0x0f)) cnt xs = Some s \<and> (\<exists>st. decode_loop step_c (Some (f AND 0xf0)) s = Some (f # xs, st)))"
proof (induction xs arbitrary: r cnt f)
  case Nil
  obtain c d where "base64_encode_value (push_bit 4 (f AND 0x03)) = Some c" "base64_decode_value c = int (unat (push_bit 4 (f AND 0x03)))"
    "base64_encode_value (push_bit 2 (f AND 0x0f)) = Some d" "base64_decode_value d = int (unat (push_bit 2 (f AND 0x0f)))"
    using six(5,6) by blast
  note cd = this
  have "\<exists>st. decode_loop step_b (Some (f AND 0xfc)) (c # ''=='') = Some ([f], st)"
    unfolding decode_char(2) [OF cd(2)] decode_simps by blast
  moreover have "\<exists>st. decode_loop step_c (Some (f AND 0xf0)) (d # ''='') = Some ([f], st)"
    unfolding decode_char(3) [OF cd(4)] decode_simps by blast
  ultimately show ?case unfolding encode_full_Nil cd(1,3) bind.bind_lunit by simp
next
  case (Cons g xs)
  obtain c where c: "base64_encode_value (drop_bit 2 (g AND 0xfc)) = Some c" "base64_decode_value c = int (unat (drop_bit 2 (g AND 0xfc)))"
    using six(1) by blast
  obtain s where s: "encode_full step_B (push_bit 4 (g AND 0x03)) cnt xs = Some s" "\<exists>st. decode_loop step_b (Some (g AND 0xfc)) s = Some (g # xs, st)"
    using Cons.IH by blast
  let ?v = "push_bit 4 (f AND 0x03) OR drop_bit 4 (g AND 0xf0)"
  obtain d where d: "base64_encode_value ?v = Some d" "base64_decode_value d = int (unat ?v)" using six(2) by blast
  obtain t where t: "encode_full step_C (push_bit 2 (g AND 0x0f)) cnt xs = Some t" "\<exists>st. decode_loop step_c (Some (g AND 0xf0)) t = Some (g # xs, st)"
    using Cons.IH by blast
  let ?w = "push_bit 2 (f AND 0x0f) OR drop_bit 6 (g AND 0xc0)"
  obtain e where e: "base64_encode_value ?w = Some e" "base64_decode_value e = int (unat ?w)" using six(3) by blast
  obtain h where h: "base64_encode_value (g AND 0x3f) = Some h" "base64_decode_value h = int (unat (g AND 0x3f))" using six(4) by blast
  let ?cnt = "if cnt + 1 = 72 div 4 then 0 else cnt + 1"
  let ?nl = "if cnt + 1 = 72 div 4 then [CHR 0x0A] else []"
  obtain u where u: "encode_full step_A (g AND 0x3f) ?cnt xs = Some u" "\<forall>cell. \<exists>st. decode_loop step_a cell u = Some (xs, st)"
    using Cons.IH by blast
  have "\<exists>st. decode_loop step_a cell (c # s) = Some (g # xs, st)" for cell
    unfolding decode_char(1) [OF c(2)] decode_simps using s(2) .
  then have A: "\<exists>s. encode_full step_A r cnt (g # xs) = Some s \<and> (\<forall>cell. \<exists>st. decode_loop step_a cell s = Some (g # xs, st))"
    unfolding encode_full_Cons c(1) s(1) bind.bind_lunit by blast
  obtain st1 where st1: "decode_loop step_c (Some (g AND 0xf0)) t = Some (g # xs, st1)" using t(2) by blast
  have "\<exists>st. decode_loop step_b (Some (f AND 0xfc)) (d # t) = Some (f # g # xs, st)"
    unfolding decode_char(2) [OF d(2)] decode_simps st1 by blast
  then have B: "\<exists>s. encode_full step_B (push_bit 4 (f AND 0x03)) cnt (g # xs) = Some s \<and>
      (\<exists>st. decode_loop step_b (Some (f AND 0xfc)) s = Some (f # g # xs, st))"
    unfolding encode_full_Cons d(1) t(1) bind.bind_lunit by blast
  obtain st2 where st2: "decode_loop step_a None u = Some (xs, st2)" using u(2) by blast
  have nl: "decode_loop step_a None (?nl @ u) = Some (xs, st2)"
    using st2 by (cases "cnt + 1 = 72 div 4") (simp_all only: simp_thms if_True if_False decode_simps)
  have "\<exists>st. decode_loop step_c (Some (f AND 0xf0)) (e # h # ?nl @ u) = Some (f # g # xs, st)"
    unfolding decode_char(3) [OF e(2)] decode_char(4) [OF h(2)] nl bind.bind_lunit prod.case decoded_bits by blast
  then have C: "\<exists>s. encode_full step_C (push_bit 2 (f AND 0x0f)) cnt (g # xs) = Some s \<and>
      (\<exists>st. decode_loop step_c (Some (f AND 0xf0)) s = Some (f # g # xs, st))"
    unfolding encode_full_Cons e(1) h(1) u(1) bind.bind_lunit by blast
  show ?case using A B C by blast
qed



end
