(* ===== verification/Crc_Check.thy ===== *)
theory Crc_Check
  imports Idfs_Prelude
begin

text \<open>
  The cyclic redundancy checks of \<open>include/common/qcrc.h\<close>: CRC-16 (CCITT), CRC-32 and CRC-64 (Jones), each with its table. The
  reference is the shift register that divides the message bit by bit. The locale \<open>reflected_crc\<close> states what a table of the two
  registers that shift to the right has to contain; its lemmas, proved once, are used for CRC-32 and CRC-64.
\<close>

unbundle bit_operations_syntax

section \<open>The functions\<close>

definition crc16tab :: "16 word list" where
  "crc16tab = [
      0x0000, 0x1021, 0x2042, 0x3063, 0x4084, 0x50a5, 0x60c6, 0x70e7, 0x8108, 0x9129, 0xa14a, 0xb16b, 0xc18c, 0xd1ad, 0xe1ce, 0xf1ef,
      0x1231, 0x0210, 0x3273, 0x2252, 0x52b5, 0x4294, 0x72f7, 0x62d6, 0x9339, 0x8318, 0xb37b, 0xa35a, 0xd3bd, 0xc39c, 0xf3ff, 0xe3de,
      0x2462, 0x3443, 0x0420, 0x1401, 0x64e6, 0x74c7, 0x44a4, 0x5485, 0xa56a, 0xb54b, 0x8528, 0x9509, 0xe5ee, 0xf5cf, 0xc5ac, 0xd58d,
      0x3653, 0x2672, 0x1611, 0x0630, 0x76d7, 0x66f6, 0x5695, 0x46b4, 0xb75b, 0xa77a, 0x9719, 0x8738, 0xf7df, 0xe7fe, 0xd79d, 0xc7bc,
      0x48c4, 0x58e5, 0x6886, 0x78a7, 0x0840, 0x1861, 0x2802, 0x3823, 0xc9cc, 0xd9ed, 0xe98e, 0xf9af, 0x8948, 0x9969, 0xa90a, 0xb92b,
      0x5af5, 0x4ad4, 0x7ab7, 0x6a96, 0x1a71, 0x0a50, 0x3a33, 0x2a12, 0xdbfd, 0xcbdc, 0xfbbf, 0xeb9e, 0x9b79, 0x8b58, 0xbb3b, 0xab1a,
      0x6ca6, 0x7c87, 0x4ce4, 0x5cc5, 0x2c22, 0x3c03, 0x0c60, 0x1c41, 0xedae, 0xfd8f, 0xcdec, 0xddcd, 0xad2a, 0xbd0b, 0x8d68, 0x9d49,
      0x7e97, 0x6eb6, 0x5ed5, 0x4ef4, 0x3e13, 0x2e32, 0x1e51, 0x0e70, 0xff9f, 0xefbe, 0xdfdd, 0xcffc, 0xbf1b, 0xaf3a, 0x9f59, 0x8f78,
      0x9188, 0x81a9, 0xb1ca, 0xa1eb, 0xd10c, 0xc12d, 0xf14e, 0xe16f, 0x1080, 0x00a1, 0x30c2, 0x20e3, 0x5004, 0x4025, 0x7046, 0x6067,
      0x83b9, 0x9398, 0xa3fb, 0xb3da, 0xc33d, 0xd31c, 0xe37f, 0xf35e, 0x02b1, 0x1290, 0x22f3, 0x32d2, 0x4235, 0x5214, 0x6277, 0x7256,
      0xb5ea, 0xa5cb, 0x95a8, 0x8589, 0xf56e, 0xe54f, 0xd52c, 0xc50d, 0x34e2, 0x24c3, 0x14a0, 0x0481, 0x7466, 0x6447, 0x5424, 0x4405,
      0xa7db, 0xb7fa, 0x8799, 0x97b8, 0xe75f, 0xf77e, 0xc71d, 0xd73c, 0x26d3, 0x36f2, 0x0691, 0x16b0, 0x6657, 0x7676, 0x4615, 0x5634,
      0xd94c, 0xc96d, 0xf90e, 0xe92f, 0x99c8, 0x89e9, 0xb98a, 0xa9ab, 0x5844, 0x4865, 0x7806, 0x6827, 0x18c0, 0x08e1, 0x3882, 0x28a3,
      0xcb7d, 0xdb5c, 0xeb3f, 0xfb1e, 0x8bf9, 0x9bd8, 0xabbb, 0xbb9a, 0x4a75, 0x5a54, 0x6a37, 0x7a16, 0x0af1, 0x1ad0, 0x2ab3, 0x3a92,
      0xfd2e, 0xed0f, 0xdd6c, 0xcd4d, 0xbdaa, 0xad8b, 0x9de8, 0x8dc9, 0x7c26, 0x6c07, 0x5c64, 0x4c45, 0x3ca2, 0x2c83, 0x1ce0, 0x0cc1,
      0xef1f, 0xff3e, 0xcf5d, 0xdf7c, 0xaf9b, 0xbfba, 0x8fd9, 0x9ff8, 0x6e17, 0x7e36, 0x4e55, 0x5e74, 0x2e93, 0x3eb2, 0x0ed1, 0x1ef0]"

definition crc32_tab :: "32 word list" where
  "crc32_tab = [
      0x00000000, 0x77073096, 0xee0e612c, 0x990951ba, 0x076dc419, 0x706af48f, 0xe963a535, 0x9e6495a3,
      0x0edb8832, 0x79dcb8a4, 0xe0d5e91e, 0x97d2d988, 0x09b64c2b, 0x7eb17cbd, 0xe7b82d07, 0x90bf1d91,
      0x1db71064, 0x6ab020f2, 0xf3b97148, 0x84be41de, 0x1adad47d, 0x6ddde4eb, 0xf4d4b551, 0x83d385c7,
      0x136c9856, 0x646ba8c0, 0xfd62f97a, 0x8a65c9ec, 0x14015c4f, 0x63066cd9, 0xfa0f3d63, 0x8d080df5,
      0x3b6e20c8, 0x4c69105e, 0xd56041e4, 0xa2677172, 0x3c03e4d1, 0x4b04d447, 0xd20d85fd, 0xa50ab56b,
      0x35b5a8fa, 0x42b2986c, 0xdbbbc9d6, 0xacbcf940, 0x32d86ce3, 0x45df5c75, 0xdcd60dcf, 0xabd13d59,
      0x26d930ac, 0x51de003a, 0xc8d75180, 0xbfd06116, 0x21b4f4b5, 0x56b3c423, 0xcfba9599, 0xb8bda50f,
      0x2802b89e, 0x5f058808, 0xc60cd9b2, 0xb10be924, 0x2f6f7c87, 0x58684c11, 0xc1611dab, 0xb6662d3d,
      0x76dc4190, 0x01db7106, 0x98d220bc, 0xefd5102a, 0x71b18589, 0x06b6b51f, 0x9fbfe4a5, 0xe8b8d433,
      0x7807c9a2, 0x0f00f934, 0x9609a88e, 0xe10e9818, 0x7f6a0dbb, 0x086d3d2d, 0x91646c97, 0xe6635c01,
      0x6b6b51f4, 0x1c6c6162, 0x856530d8, 0xf262004e, 0x6c0695ed, 0x1b01a57b, 0x8208f4c1, 0xf50fc457,
      0x65b0d9c6, 0x12b7e950, 0x8bbeb8ea, 0xfcb9887c, 0x62dd1ddf, 0x15da2d49, 0x8cd37cf3, 0xfbd44c65,
      0x4db26158, 0x3ab551ce, 0xa3bc0074, 0xd4bb30e2, 0x4adfa541, 0x3dd895d7, 0xa4d1c46d, 0xd3d6f4fb,
      0x4369e96a, 0x346ed9fc, 0xad678846, 0xda60b8d0, 0x44042d73, 0x33031de5, 0xaa0a4c5f, 0xdd0d7cc9,
      0x5005713c, 0x270241aa, 0xbe0b1010, 0xc90c2086, 0x5768b525, 0x206f85b3, 0xb966d409, 0xce61e49f,
      0x5edef90e, 0x29d9c998, 0xb0d09822, 0xc7d7a8b4, 0x59b33d17, 0x2eb40d81, 0xb7bd5c3b, 0xc0ba6cad,
      0xedb88320, 0x9abfb3b6, 0x03b6e20c, 0x74b1d29a, 0xead54739, 0x9dd277af, 0x04db2615, 0x73dc1683,
      0xe3630b12, 0x94643b84, 0x0d6d6a3e, 0x7a6a5aa8, 0xe40ecf0b, 0x9309ff9d, 0x0a00ae27, 0x7d079eb1,
      0xf00f9344, 0x8708a3d2, 0x1e01f268, 0x6906c2fe, 0xf762575d, 0x806567cb, 0x196c3671, 0x6e6b06e7,
      0xfed41b76, 0x89d32be0, 0x10da7a5a, 0x67dd4acc, 0xf9b9df6f, 0x8ebeeff9, 0x17b7be43, 0x60b08ed5,
      0xd6d6a3e8, 0xa1d1937e, 0x38d8c2c4, 0x4fdff252, 0xd1bb67f1, 0xa6bc5767, 0x3fb506dd, 0x48b2364b,
      0xd80d2bda, 0xaf0a1b4c, 0x36034af6, 0x41047a60, 0xdf60efc3, 0xa867df55, 0x316e8eef, 0x4669be79,
      0xcb61b38c, 0xbc66831a, 0x256fd2a0, 0x5268e236, 0xcc0c7795, 0xbb0b4703, 0x220216b9, 0x5505262f,
      0xc5ba3bbe, 0xb2bd0b28, 0x2bb45a92, 0x5cb36a04, 0xc2d7ffa7, 0xb5d0cf31, 0x2cd99e8b, 0x5bdeae1d,
      0x9b64c2b0, 0xec63f226, 0x756aa39c, 0x026d930a, 0x9c0906a9, 0xeb0e363f, 0x72076785, 0x05005713,
      0x95bf4a82, 0xe2b87a14, 0x7bb12bae, 0x0cb61b38, 0x92d28e9b, 0xe5d5be0d, 0x7cdcefb7, 0x0bdbdf21,
      0x86d3d2d4, 0xf1d4e242, 0x68ddb3f8, 0x1fda836e, 0x81be16cd, 0xf6b9265b, 0x6fb077e1, 0x18b74777,
      0x88085ae6, 0xff0f6a70, 0x66063bca, 0x11010b5c, 0x8f659eff, 0xf862ae69, 0x616bffd3, 0x166ccf45,
      0xa00ae278, 0xd70dd2ee, 0x4e048354, 0x3903b3c2, 0xa7672661, 0xd06016f7, 0x4969474d, 0x3e6e77db,
      0xaed16a4a, 0xd9d65adc, 0x40df0b66, 0x37d83bf0, 0xa9bcae53, 0xdebb9ec5, 0x47b2cf7f, 0x30b5ffe9,
      0xbdbdf21c, 0xcabac28a, 0x53b39330, 0x24b4a3a6, 0xbad03605, 0xcdd70693, 0x54de5729, 0x23d967bf,
      0xb3667a2e, 0xc4614ab8, 0x5d681b02, 0x2a6f2b94, 0xb40bbe37, 0xc30c8ea1, 0x5a05df1b, 0x2d02ef8d]"

definition crc64_tab :: "64 word list" where
  "crc64_tab = [
      0x0000000000000000, 0x7ad870c830358979, 0xf5b0e190606b12f2, 0x8f689158505e9b8b,
      0xc038e5739841b68f, 0xbae095bba8743ff6, 0x358804e3f82aa47d, 0x4f50742bc81f2d04,
      0xab28ecb46814fe75, 0xd1f09c7c5821770c, 0x5e980d24087fec87, 0x24407dec384a65fe,
      0x6b1009c7f05548fa, 0x11c8790fc060c183, 0x9ea0e857903e5a08, 0xe478989fa00bd371,
      0x7d08ff3b88be6f81, 0x07d08ff3b88be6f8, 0x88b81eabe8d57d73, 0xf2606e63d8e0f40a,
      0xbd301a4810ffd90e, 0xc7e86a8020ca5077, 0x4880fbd87094cbfc, 0x32588b1040a14285,
      0xd620138fe0aa91f4, 0xacf86347d09f188d, 0x2390f21f80c18306, 0x594882d7b0f40a7f,
      0x1618f6fc78eb277b, 0x6cc0863448deae02, 0xe3a8176c18803589, 0x997067a428b5bcf0,
      0xfa11fe77117cdf02, 0x80c98ebf2149567b, 0x0fa11fe77117cdf0, 0x75796f2f41224489,
      0x3a291b04893d698d, 0x40f16bccb908e0f4, 0xcf99fa94e9567b7f, 0xb5418a5cd963f206,
      0x513912c379682177, 0x2be1620b495da80e, 0xa489f35319033385, 0xde51839b2936bafc,
      0x9101f7b0e12997f8, 0xebd98778d11c1e81, 0x64b116208142850a, 0x1e6966e8b1770c73,
      0x8719014c99c2b083, 0xfdc17184a9f739fa, 0x72a9e0dcf9a9a271, 0x08719014c99c2b08,
      0x4721e43f0183060c, 0x3df994f731b68f75, 0xb29105af61e814fe, 0xc849756751dd9d87,
      0x2c31edf8f1d64ef6, 0x56e99d30c1e3c78f, 0xd9810c6891bd5c04, 0xa3597ca0a188d57d,
      0xec09088b6997f879, 0x96d1784359a27100, 0x19b9e91b09fcea8b, 0x636199d339c963f2,
      0xdf7adabd7a6e2d6f, 0xa5a2aa754a5ba416, 0x2aca3b2d1a053f9d, 0x50124be52a30b6e4,
      0x1f423fcee22f9be0, 0x659a4f06d21a1299, 0xeaf2de5e82448912, 0x902aae96b271006b,
      0x74523609127ad31a, 0x0e8a46c1224f5a63, 0x81e2d7997211c1e8, 0xfb3aa75142244891,
      0xb46ad37a8a3b6595, 0xceb2a3b2ba0eecec, 0x41da32eaea507767, 0x3b024222da65fe1e,
      0xa2722586f2d042ee, 0xd8aa554ec2e5cb97, 0x57c2c41692bb501c, 0x2d1ab4dea28ed965,
      0x624ac0f56a91f461, 0x1892b03d5aa47d18, 0x97fa21650afae693, 0xed2251ad3acf6fea,
      0x095ac9329ac4bc9b, 0x7382b9faaaf135e2, 0xfcea28a2faafae69, 0x8632586aca9a2710,
      0xc9622c4102850a14, 0xb3ba5c8932b0836d, 0x3cd2cdd162ee18e6, 0x460abd1952db919f,
      0x256b24ca6b12f26d, 0x5fb354025b277b14, 0xd0dbc55a0b79e09f, 0xaa03b5923b4c69e6,
      0xe553c1b9f35344e2, 0x9f8bb171c366cd9b, 0x10e3202993385610, 0x6a3b50e1a30ddf69,
      0x8e43c87e03060c18, 0xf49bb8b633338561, 0x7bf329ee636d1eea, 0x012b592653589793,
      0x4e7b2d0d9b47ba97, 0x34a35dc5ab7233ee, 0xbbcbcc9dfb2ca865, 0xc113bc55cb19211c,
      0x5863dbf1e3ac9dec, 0x22bbab39d3991495, 0xadd33a6183c78f1e, 0xd70b4aa9b3f20667,
      0x985b3e827bed2b63, 0xe2834e4a4bd8a21a, 0x6debdf121b863991, 0x1733afda2bb3b0e8,
      0xf34b37458bb86399, 0x8993478dbb8deae0, 0x06fbd6d5ebd3716b, 0x7c23a61ddbe6f812,
      0x3373d23613f9d516, 0x49aba2fe23cc5c6f, 0xc6c333a67392c7e4, 0xbc1b436e43a74e9d,
      0x95ac9329ac4bc9b5, 0xef74e3e19c7e40cc, 0x601c72b9cc20db47, 0x1ac40271fc15523e,
      0x5594765a340a7f3a, 0x2f4c0692043ff643, 0xa02497ca54616dc8, 0xdafce7026454e4b1,
      0x3e847f9dc45f37c0, 0x445c0f55f46abeb9, 0xcb349e0da4342532, 0xb1eceec59401ac4b,
      0xfebc9aee5c1e814f, 0x8464ea266c2b0836, 0x0b0c7b7e3c7593bd, 0x71d40bb60c401ac4,
      0xe8a46c1224f5a634, 0x927c1cda14c02f4d, 0x1d148d82449eb4c6, 0x67ccfd4a74ab3dbf,
      0x289c8961bcb410bb, 0x5244f9a98c8199c2, 0xdd2c68f1dcdf0249, 0xa7f41839ecea8b30,
      0x438c80a64ce15841, 0x3954f06e7cd4d138, 0xb63c61362c8a4ab3, 0xcce411fe1cbfc3ca,
      0x83b465d5d4a0eece, 0xf96c151de49567b7, 0x76048445b4cbfc3c, 0x0cdcf48d84fe7545,
      0x6fbd6d5ebd3716b7, 0x15651d968d029fce, 0x9a0d8ccedd5c0445, 0xe0d5fc06ed698d3c,
      0xaf85882d2576a038, 0xd55df8e515432941, 0x5a3569bd451db2ca, 0x20ed197575283bb3,
      0xc49581ead523e8c2, 0xbe4df122e51661bb, 0x3125607ab548fa30, 0x4bfd10b2857d7349,
      0x04ad64994d625e4d, 0x7e7514517d57d734, 0xf11d85092d094cbf, 0x8bc5f5c11d3cc5c6,
      0x12b5926535897936, 0x686de2ad05bcf04f, 0xe70573f555e26bc4, 0x9ddd033d65d7e2bd,
      0xd28d7716adc8cfb9, 0xa85507de9dfd46c0, 0x273d9686cda3dd4b, 0x5de5e64efd965432,
      0xb99d7ed15d9d8743, 0xc3450e196da80e3a, 0x4c2d9f413df695b1, 0x36f5ef890dc31cc8,
      0x79a59ba2c5dc31cc, 0x037deb6af5e9b8b5, 0x8c157a32a5b7233e, 0xf6cd0afa9582aa47,
      0x4ad64994d625e4da, 0x300e395ce6106da3, 0xbf66a804b64ef628, 0xc5bed8cc867b7f51,
      0x8aeeace74e645255, 0xf036dc2f7e51db2c, 0x7f5e4d772e0f40a7, 0x05863dbf1e3ac9de,
      0xe1fea520be311aaf, 0x9b26d5e88e0493d6, 0x144e44b0de5a085d, 0x6e963478ee6f8124,
      0x21c640532670ac20, 0x5b1e309b16452559, 0xd476a1c3461bbed2, 0xaeaed10b762e37ab,
      0x37deb6af5e9b8b5b, 0x4d06c6676eae0222, 0xc26e573f3ef099a9, 0xb8b627f70ec510d0,
      0xf7e653dcc6da3dd4, 0x8d3e2314f6efb4ad, 0x0256b24ca6b12f26, 0x788ec2849684a65f,
      0x9cf65a1b368f752e, 0xe62e2ad306bafc57, 0x6946bb8b56e467dc, 0x139ecb4366d1eea5,
      0x5ccebf68aecec3a1, 0x2616cfa09efb4ad8, 0xa97e5ef8cea5d153, 0xd3a62e30fe90582a,
      0xb0c7b7e3c7593bd8, 0xca1fc72bf76cb2a1, 0x45775673a732292a, 0x3faf26bb9707a053,
      0x70ff52905f188d57, 0x0a2722586f2d042e, 0x854fb3003f739fa5, 0xff97c3c80f4616dc,
      0x1bef5b57af4dc5ad, 0x61372b9f9f784cd4, 0xee5fbac7cf26d75f, 0x9487ca0fff135e26,
      0xdbd7be24370c7322, 0xa10fceec0739fa5b, 0x2e675fb4576761d0, 0x54bf2f7c6752e8a9,
      0xcdcf48d84fe75459, 0xb71738107fd2dd20, 0x387fa9482f8c46ab, 0x42a7d9801fb9cfd2,
      0x0df7adabd7a6e2d6, 0x772fdd63e7936baf, 0xf8474c3bb7cdf024, 0x829f3cf387f8795d,
      0x66e7a46c27f3aa2c, 0x1c3fd4a417c62355, 0x935745fc4798b8de, 0xe98f353477ad31a7,
      0xa6df411fbfb21ca3, 0xdc0731d78f8795da, 0x536fa08fdfd90e51, 0x29b7d047efec8728]"

text \<open>
  \<open>crc16\<close> reads the message through a \<open>char *\<close>; the mask takes the sign extension of a byte away again, so that the byte is
  extended by zeros here.
\<close>

definition crc16_step :: "16 word \<Rightarrow> byte \<Rightarrow> 16 word" where
  "crc16_step crc b = push_bit 8 crc XOR crc16tab ! unat ((drop_bit 8 crc XOR ucast b) AND 0xff)"

definition crc16 :: "bytes \<Rightarrow> 16 word" where
  "crc16 buf = foldl crc16_step 0 buf"

text \<open>One turn of the loop of \<open>crc32\<close>, for any table.\<close>

definition table_step :: "'a::len word list \<Rightarrow> 'a word \<Rightarrow> byte \<Rightarrow> 'a word" where
  "table_step tab crc b = tab ! unat ((crc XOR ucast b) AND 0xff) XOR drop_bit 8 crc"

definition crc32 :: "32 word \<Rightarrow> bytes \<Rightarrow> 32 word" where
  "crc32 crc buf = foldl (table_step crc32_tab) (crc XOR NOT 0) buf XOR NOT 0"

definition crc64_step :: "64 word \<Rightarrow> byte \<Rightarrow> 64 word" where
  "crc64_step crc b = crc64_tab ! unat ((ucast crc :: byte) XOR b) XOR drop_bit 8 crc"

definition crc64 :: "64 word \<Rightarrow> bytes \<Rightarrow> 64 word" where
  "crc64 crc s = foldl crc64_step crc s"


section \<open>The shift register\<close>

text \<open>
  The register of a reflected code shifts to the right; the bit that leaves it is compared with the next bit of the message, and the
  generator \<open>P\<close> is added when they differ.
\<close>

definition lfsr :: "'a::len word \<Rightarrow> 'a word \<Rightarrow> 'a word" where
  "lfsr P w = drop_bit 1 w XOR (if bit w 0 then P else 0)"

definition feed :: "'a::len word \<Rightarrow> 'a word \<Rightarrow> bool \<Rightarrow> 'a word" where
  "feed P w v = drop_bit 1 w XOR (if bit w 0 \<noteq> v then P else 0)"

definition byte_bits :: "byte \<Rightarrow> bool list" where
  "byte_bits b = map (bit b) [0..<8]"

definition message_bits :: "bytes \<Rightarrow> bool list" where
  "message_bits bs = concat (map byte_bits bs)"

lemma lfsr_xor: "lfsr P (a XOR b) = lfsr P a XOR lfsr P b"
proof -
  have "drop_bit 1 (a XOR b) = drop_bit 1 a XOR drop_bit 1 b" by simp
  then show ?thesis by (auto simp: lfsr_def bit_xor_iff xor.assoc xor.left_commute)
qed

lemma lfsr_pow_xor: "(lfsr P ^^ n) (a XOR b) = (lfsr P ^^ n) a XOR (lfsr P ^^ n) b"
  by (induction n) (simp_all add: lfsr_xor)

lemma lfsr_pow_low_zero: "(\<And>i. i < n \<Longrightarrow> \<not> bit w i) \<Longrightarrow> (lfsr P ^^ n) w = drop_bit n w"
proof (induction n)
  case (Suc n)
  then have "(lfsr P ^^ Suc n) w = lfsr P (drop_bit n w)" by simp
  also have "\<dots> = drop_bit 1 (drop_bit n w)" using Suc.prems [of n] by (simp add: lfsr_def bit_drop_bit_eq)
  finally show ?case by simp
qed simp

text \<open>Feeding \<open>n\<close> bits is adding them to the register and shifting \<open>n\<close> times.\<close>

lemma feed_lfsr: "feed P w v = lfsr P (w XOR of_bool v)"
proof -
  have "drop_bit 1 (of_bool v :: 'a word) = 0" by (cases v) (simp_all add: drop_bit_Suc)
  then have "drop_bit 1 (w XOR of_bool v) = drop_bit 1 w" by simp
  then show ?thesis by (simp add: feed_def lfsr_def bit_xor_iff)
qed

lemma feed_bits:
  "n \<le> LENGTH('a) \<Longrightarrow> foldl (feed P) w (map (bit m) [0..<n]) = (lfsr P ^^ n) (w XOR take_bit n m)" for w m P :: "'a::len word"
proof (induction n)
  case (Suc n)
  have split: "take_bit (Suc n) m = take_bit n m XOR push_bit n (of_bool (bit m n))"
    by (rule bit_word_eqI) (use Suc.prems in \<open>auto simp: bit_take_bit_iff bit_xor_iff bit_push_bit_iff bit_1_iff less_Suc_eq\<close>)
  have "(lfsr P ^^ n) (push_bit n (of_bool (bit m n))) = drop_bit n (push_bit n (of_bool (bit m n)))"
    by (rule lfsr_pow_low_zero) (simp add: bit_push_bit_iff)
  also have "\<dots> = of_bool (bit m n)"
    by (rule bit_word_eqI) (use Suc.prems in \<open>auto simp: bit_drop_bit_eq bit_push_bit_iff bit_1_iff\<close>)
  finally have "(lfsr P ^^ n) (w XOR take_bit (Suc n) m) = (lfsr P ^^ n) (w XOR take_bit n m) XOR of_bool (bit m n)"
    unfolding split xor.assoc [symmetric] by (subst lfsr_pow_xor) simp
  then show ?case using Suc by (simp add: feed_lfsr)
qed simp
lemma lfsr_numeral:
  "lfsr P 1 = P"
  "lfsr P (numeral (Num.Bit0 n)) = drop_bit (Suc 0) (numeral (Num.Bit0 n))"
  "lfsr P (numeral (Num.Bit1 n)) = drop_bit (Suc 0) (numeral (Num.Bit1 n)) XOR P"
  by (simp_all add: lfsr_def)

lemma funpow_byte: "(f ^^ 8) x = f (f (f (f (f (f (f (f x)))))))"
  by (simp add: eval_nat_numeral)

text \<open>A register is injective when the generator has its highest bit, as every generator of full degree does.\<close>

lemma lfsr_inj:
  fixes P a b :: "'a::len word"
  assumes top: "bit P (LENGTH('a) - 1)" and eq: "lfsr P a = lfsr P b"
  shows "a = b"
proof -
  have zero: "w = 0" if "lfsr P w = 0" for w :: "'a word"
  proof -
    have high: "\<not> bit (drop_bit 1 w) (LENGTH('a) - 1)" using bit_imp_le_length by (fastforce simp: bit_drop_bit_eq)
    have low: "\<not> bit w 0"
    proof
      assume "bit w 0"
      then have "drop_bit 1 w XOR P = 0" using that by (simp add: lfsr_def)
      then have "drop_bit 1 w = P" by (metis xor.assoc xor_self_eq xor.right_neutral)
      then show False using high top by simp
    qed
    then have shifted: "drop_bit 1 w = 0" using that by (simp add: lfsr_def)
    show "w = 0"
    proof (rule bit_word_eqI)
      fix n
      show "bit w n = bit 0 n"
      proof (cases n)
        case 0
        then show ?thesis using low by simp
      next
        case (Suc k)
        have "bit (drop_bit 1 w) k = bit w n" using Suc by (simp add: bit_drop_bit_eq)
        then show ?thesis using shifted by simp
      qed
    qed
  qed
  have "lfsr P (a XOR b) = 0" using eq by (simp add: lfsr_xor)
  then have "a XOR b = 0" by (rule zero)
  then show ?thesis by (metis xor.assoc xor_self_eq xor.right_neutral)
qed

lemma lfsr_pow_inj:
  fixes P a b :: "'a::len word"
  assumes "bit P (LENGTH('a) - 1)"
  shows "(lfsr P ^^ n) a = (lfsr P ^^ n) b \<Longrightarrow> a = b"
  by (induction n arbitrary: a b) (auto dest: lfsr_inj [OF assms])

lemma feeds_inj:
  fixes P a b :: "'a::len word"
  assumes "bit P (LENGTH('a) - 1)"
  shows "foldl (feed P) a bs = foldl (feed P) b bs \<Longrightarrow> a = b"
proof (induction bs arbitrary: a b)
  case (Cons v bs)
  then have "feed P a v = feed P b v" by simp
  then have "a XOR of_bool v = b XOR of_bool v" using lfsr_inj [OF assms] by (simp add: feed_lfsr)
  then show ?case by (metis xor.assoc xor_self_eq xor.right_neutral)
qed simp

text \<open>Different bit strings no longer than the register lead it to different values.\<close>

lemma map_bit_horner:
  "length bs \<le> LENGTH('a) \<Longrightarrow> map (bit (horner_sum of_bool 2 bs :: 'a::len word)) [0..<length bs] = bs"
  by (rule nth_equalityI) (auto simp: bit_horner_sum_bit_word_iff)

lemma feeds_apart:
  fixes P w :: "'a::len word"
  assumes top: "bit P (LENGTH('a) - 1)" and len: "length as = length bs" "length as \<le> LENGTH('a)"
    and eq: "foldl (feed P) w as = foldl (feed P) w bs"
  shows "as = bs"
proof -
  define a b :: "'a word" where ab: "a = horner_sum of_bool 2 as" "b = horner_sum of_bool 2 bs"
  define n where n: "n = length as"
  have bits: "map (bit a) [0..<n] = as" "map (bit b) [0..<n] = bs"
    using map_bit_horner [of as, where 'a = 'a] map_bit_horner [of bs, where 'a = 'a] len by (simp_all add: ab n)
  have "(lfsr P ^^ n) (w XOR take_bit n a) = (lfsr P ^^ n) (w XOR take_bit n b)"
    using feed_bits [of n P w a] feed_bits [of n P w b] eq len by (simp add: bits n [symmetric])
  then have "w XOR take_bit n a = w XOR take_bit n b" by (rule lfsr_pow_inj [OF top])
  then have same: "take_bit n a = take_bit n b" by (metis xor.assoc xor_self_eq xor.left_neutral)
  have "bit a i = bit b i" if "i < n" for i
    using that bit_take_bit_iff [of n a i] bit_take_bit_iff [of n b i] same by simp
  then have "map (bit a) [0..<n] = map (bit b) [0..<n]" by simp
  then show ?thesis by (simp only: bits)
qed
section \<open>Tables of a register\<close>

lemma unat_take_byte: "unat (take_bit 8 w) < 256"
proof -
  have "unat (take_bit 8 w) < 2 ^ 8" by (simp only: unsigned_take_bit_eq take_bit_nat_less_exp)
  then show ?thesis by simp
qed

locale reflected_crc =
  fixes P :: "'a::len word" and tab :: "'a word list"
  assumes wide: "8 \<le> LENGTH('a)"
    and table: "i < 256 \<Longrightarrow> tab ! i = (lfsr P ^^ 8) (of_nat i)"
    and top: "bit P (LENGTH('a) - 1)"
begin

lemma byte_bits_wide: "byte_bits b = map (bit (ucast b :: 'a word)) [0..<8]"
  using wide by (simp add: byte_bits_def bit_ucast_iff)

lemma mask_255: "(255 :: 'a word) = mask 8"
  by (simp add: mask_eq_exp_minus_1)

lemma table_byte: "tab ! unat (w AND 255) = (lfsr P ^^ 8) (take_bit 8 w)" for w :: "'a word"
proof -
  have eq: "w AND 255 = take_bit 8 w" by (simp only: mask_255 take_bit_eq_mask [symmetric])
  have "tab ! unat (take_bit 8 w) = (lfsr P ^^ 8) (of_nat (unat (take_bit 8 w)))" by (rule table [OF unat_take_byte])
  then show ?thesis by (simp only: eq of_nat_unat ucast_id)
qed

lemma step_feeds: "table_step tab w b = foldl (feed P) w (byte_bits b)"
proof -
  define x :: "'a word" where x: "x = w XOR ucast b"
  have byte: "take_bit 8 (ucast b :: 'a word) = ucast b"
    by (rule bit_word_eqI) (auto simp: bit_take_bit_iff bit_ucast_iff dest: bit_imp_le_length)
  have "drop_bit 8 (ucast b :: 'a word) = 0"
    by (rule bit_word_eqI) (auto simp: bit_drop_bit_eq bit_ucast_iff dest: bit_imp_le_length)
  then have high: "drop_bit 8 x = drop_bit 8 w" by (simp add: x)
  have parts: "x = take_bit 8 x XOR push_bit 8 (drop_bit 8 x)"
    by (rule bit_word_eqI) (auto simp: bit_take_bit_iff bit_xor_iff bit_push_bit_iff bit_drop_bit_eq)
  have zero: "(lfsr P ^^ 8) (push_bit 8 (drop_bit 8 x)) = drop_bit 8 (push_bit 8 (drop_bit 8 x))"
    by (rule lfsr_pow_low_zero) (simp add: bit_push_bit_iff)
  also have "\<dots> = drop_bit 8 x"
    by (rule bit_word_eqI) (auto simp: bit_push_bit_iff bit_drop_bit_eq dest: bit_imp_le_length)
  finally have "(lfsr P ^^ 8) x = tab ! unat (x AND 255) XOR drop_bit 8 w"
    by (subst parts) (simp only: lfsr_pow_xor table_byte high)
  moreover have "foldl (feed P) w (byte_bits b) = (lfsr P ^^ 8) x"
    unfolding byte_bits_wide by (subst feed_bits) (use wide in \<open>simp_all add: byte x\<close>)
  ultimately show ?thesis by (simp add: table_step_def x)
qed

text \<open>The loop over the table is the register run over the bits of the message.\<close>

lemma table_divides: "foldl (table_step tab) w bs = foldl (feed P) w (message_bits bs)"
  by (induction bs arbitrary: w) (simp_all add: message_bits_def step_feeds)

text \<open>Two messages that differ in a span no longer than the register have different remainders.\<close>

lemma burst_apart:
  assumes "message_bits m = p @ e @ q" "message_bits m' = p @ e' @ q" "length e = length e'" "length e \<le> LENGTH('a)" "e \<noteq> e'"
  shows "foldl (table_step tab) w m \<noteq> foldl (table_step tab) w m'"
  using assms feeds_apart [OF top, of e e'] feeds_inj [OF top] by (fastforce simp: table_divides)

end
subsection \<open>The entries of the tables\<close>

text \<open>
  The register is linear, so a table is spanned by its entries at the powers of two: every further power doubles the table.
\<close>

definition double_table :: "'a::len word list \<Rightarrow> 'a word \<Rightarrow> 'a word list" where
  "double_table t v = t @ map (\<lambda>x. x XOR v) t"

lemma of_nat_add_exp: "i < 2 ^ k \<Longrightarrow> (of_nat (i + 2 ^ k) :: 'a::len word) = of_nat i XOR 2 ^ k"
proof -
  assume i: "i < 2 ^ k"
  then have "\<not> bit i k" by (simp add: bit_iff_odd)
  then have disjoint: "(of_nat i :: 'a word) AND 2 ^ k = 0"
    by (intro bit_word_eqI) (auto simp: bit_and_iff bit_exp_iff bit_of_nat_iff)
  then show ?thesis by (simp add: disjunctive_add_eq_xor)
qed

lemma double_table_spans:
  fixes f :: "'a::len word \<Rightarrow> 'b::len word"
  assumes linear: "\<And>a b. f (a XOR b) = f a XOR f b"
  shows "double_table (map (\<lambda>i. f (of_nat i)) [0..<2 ^ k]) (f (2 ^ k)) = map (\<lambda>i. f (of_nat i)) [0..<2 ^ Suc k]"
proof -
  have "[0..<2 ^ Suc k] = [0..<2 ^ k] @ [2 ^ k..<2 ^ k + 2 ^ k]" by (simp add: upt_add_eq_append [symmetric] mult_2)
  also have "[2 ^ k..<2 ^ k + 2 ^ k] = map (\<lambda>i. i + 2 ^ k) [0..<2 ^ k]" using map_add_upt [of "2 ^ k" "2 ^ k"] by simp
  finally show ?thesis
    by (simp add: double_table_def of_nat_add_exp linear del: of_nat_add)
qed

lemma spanned_table:
  fixes f :: "'a::len word \<Rightarrow> 'b::len word"
  assumes linear: "\<And>a b. f (a XOR b) = f a XOR f b"
  shows "foldl double_table [0] (map (\<lambda>k. f (2 ^ k)) [0..<m]) = map (\<lambda>i. f (of_nat i)) [0..<2 ^ m]"
proof (induction m)
  case 0
  have "f 0 = 0" using linear [of 0 0] by simp
  then show ?case by simp
next
  case (Suc m)
  then show ?case using double_table_spans [of f m] linear by simp
qed

lemma spanned_table_nth:
  fixes f :: "'a::len word \<Rightarrow> 'b::len word"
  assumes "\<And>a b. f (a XOR b) = f a XOR f b" "tab = foldl double_table [0] vs" "vs = map (\<lambda>k. f (2 ^ k)) [0..<8]" "i < 256"
  shows "tab ! i = f (of_nat i)"
  using assms spanned_table [of f 8] by simp

lemma crc32_tab_spanned:
  "crc32_tab = foldl double_table [0] [0x77073096, 0xee0e612c, 0x076dc419, 0x0edb8832, 0x1db71064, 0x3b6e20c8, 0x76dc4190, 0xedb88320]"
  unfolding crc32_tab_def by (simp add: double_table_def)

lemma crc32_tab_powers:
  "[0x77073096, 0xee0e612c, 0x076dc419, 0x0edb8832, 0x1db71064, 0x3b6e20c8, 0x76dc4190, 0xedb88320] =
    map (\<lambda>k. (lfsr 0xedb88320 ^^ 8) (2 ^ k :: 32 word)) [0..<8]"
  by (simp add: funpow_byte lfsr_numeral upt_rec)

lemma crc64_tab_spanned:
  "crc64_tab = foldl double_table [0] [0x7ad870c830358979, 0xf5b0e190606b12f2, 0xc038e5739841b68f, 0xab28ecb46814fe75,
    0x7d08ff3b88be6f81, 0xfa11fe77117cdf02, 0xdf7adabd7a6e2d6f, 0x95ac9329ac4bc9b5]"
  unfolding crc64_tab_def by (simp add: double_table_def)

lemma crc64_tab_powers:
  "[0x7ad870c830358979, 0xf5b0e190606b12f2, 0xc038e5739841b68f, 0xab28ecb46814fe75,
    0x7d08ff3b88be6f81, 0xfa11fe77117cdf02, 0xdf7adabd7a6e2d6f, 0x95ac9329ac4bc9b5] =
    map (\<lambda>k. (lfsr 0x95ac9329ac4bc9b5 ^^ 8) (2 ^ k :: 64 word)) [0..<8]"
  by (simp add: funpow_byte lfsr_numeral upt_rec)

interpretation crc32: reflected_crc "0xedb88320 :: 32 word" crc32_tab
proof unfold_locales
  show "crc32_tab ! i = (lfsr 0xedb88320 ^^ 8) (of_nat i)" if "i < 256" for i
    using lfsr_pow_xor crc32_tab_spanned crc32_tab_powers that by (rule spanned_table_nth)
qed simp_all

interpretation crc64: reflected_crc "0x95ac9329ac4bc9b5 :: 64 word" crc64_tab
proof unfold_locales
  show "crc64_tab ! i = (lfsr 0x95ac9329ac4bc9b5 ^^ 8) (of_nat i)" if "i < 256" for i
    using lfsr_pow_xor crc64_tab_spanned crc64_tab_powers that by (rule spanned_table_nth)
qed simp_all

lemma crc64_step_table: "crc64_step = table_step crc64_tab"
proof (intro ext)
  fix crc b
  have "(crc XOR ucast b) AND 255 = (ucast ((ucast crc :: byte) XOR b) :: 64 word)"
    by (rule bit_word_eqI) (auto simp: bit_and_iff bit_xor_iff bit_ucast_iff crc64.mask_255 bit_mask_iff dest: bit_imp_le_length)
  moreover have "unat (ucast x :: 64 word) = unat x" for x :: byte
    using unsigned_less [of x, where 'a = nat] by (simp add: unsigned_ucast_eq take_bit_nat_eq_self_iff)
  ultimately show "crc64_step crc b = table_step crc64_tab crc b" by (simp add: crc64_step_def table_step_def)
qed
section \<open>The register of CRC-16\<close>

text \<open>CRC-16 shifts to the left and takes the bits of a byte from the highest down.\<close>

definition lfsr16 :: "16 word \<Rightarrow> 16 word" where
  "lfsr16 w = push_bit 1 w XOR (if bit w 15 then 0x1021 else 0)"

definition feed16 :: "16 word \<Rightarrow> bool \<Rightarrow> 16 word" where
  "feed16 w v = push_bit 1 w XOR (if bit w 15 \<noteq> v then 0x1021 else 0)"

definition message_bits_msb :: "bytes \<Rightarrow> bool list" where
  "message_bits_msb bs = concat (map (\<lambda>b. rev (byte_bits b)) bs)"

lemma lfsr16_xor: "lfsr16 (a XOR b) = lfsr16 a XOR lfsr16 b"
proof -
  have "push_bit 1 (a XOR b) = push_bit 1 a XOR push_bit 1 b" by simp
  then show ?thesis by (auto simp: lfsr16_def bit_xor_iff xor.assoc xor.left_commute)
qed

lemma lfsr16_pow_xor: "(lfsr16 ^^ n) (a XOR b) = (lfsr16 ^^ n) a XOR (lfsr16 ^^ n) b"
  by (induction n) (simp_all add: lfsr16_xor)

lemma lfsr16_pow_high_zero: "(\<And>i. 16 - n \<le> i \<Longrightarrow> i < 16 \<Longrightarrow> \<not> bit w i) \<Longrightarrow> n \<le> 16 \<Longrightarrow> (lfsr16 ^^ n) w = push_bit n w"
proof (induction n)
  case (Suc n)
  then have "(lfsr16 ^^ Suc n) w = lfsr16 (push_bit n w)" by simp
  also have "\<dots> = push_bit 1 (push_bit n w)"
    using Suc.prems(1) [of "15 - n"] Suc.prems(2) by (simp add: lfsr16_def bit_push_bit_iff)
  finally show ?case by simp
qed simp

lemma feed16_lfsr16: "feed16 w v = lfsr16 (w XOR push_bit 15 (of_bool v))"
proof -
  have "push_bit 1 (push_bit 15 (of_bool v) :: 16 word) = 0"
    by (rule bit_word_eqI) (simp add: bit_push_bit_iff)
  then have "push_bit 1 (w XOR push_bit 15 (of_bool v)) = push_bit 1 w" by (simp del: push_bit_push_bit)
  then show ?thesis by (simp add: feed16_def lfsr16_def bit_xor_iff bit_push_bit_iff)
qed

lemma feed16_bits:
  "n \<le> 16 \<Longrightarrow> foldl feed16 w (map (\<lambda>i. bit m (15 - i)) [0..<n]) = (lfsr16 ^^ n) (w XOR (m AND NOT (mask (16 - n))))"
proof (induction n)
  case 0
  have "m AND NOT (mask 16) = 0" by (rule bit_word_eqI) (simp add: bit_and_iff bit_not_iff bit_mask_iff)
  then show ?case by simp
next
  case (Suc n)
  have split: "m AND NOT (mask (16 - Suc n)) = (m AND NOT (mask (16 - n))) XOR push_bit (15 - n) (of_bool (bit m (15 - n)))"
  proof (rule bit_word_eqI)
    fix i
    show "bit (m AND NOT (mask (16 - Suc n))) i =
        bit ((m AND NOT (mask (16 - n))) XOR push_bit (15 - n) (of_bool (bit m (15 - n)))) i" if "i < LENGTH(16)"
      using that Suc.prems
      by (cases "i = 15 - n") (auto simp: bit_and_iff bit_not_iff bit_mask_iff bit_xor_iff bit_push_bit_iff bit_1_iff)
  qed
  have "(lfsr16 ^^ n) (push_bit (15 - n) (of_bool (bit m (15 - n)))) = push_bit n (push_bit (15 - n) (of_bool (bit m (15 - n))))"
    by (rule lfsr16_pow_high_zero) (use Suc.prems in \<open>auto simp: bit_push_bit_iff bit_1_iff\<close>)
  also have "\<dots> = push_bit 15 (of_bool (bit m (15 - n)))" using Suc.prems by simp
  finally have "(lfsr16 ^^ n) (w XOR (m AND NOT (mask (16 - Suc n)))) =
      (lfsr16 ^^ n) (w XOR (m AND NOT (mask (16 - n)))) XOR push_bit 15 (of_bool (bit m (15 - n)))"
    unfolding split xor.assoc [symmetric] by (subst lfsr16_pow_xor) simp
  then show ?case using Suc by (simp add: feed16_lfsr16)
qed
lemma crc16_tab_spanned:
  "crc16tab = foldl double_table [0] [0x1021, 0x2042, 0x4084, 0x8108, 0x1231, 0x2462, 0x48c4, 0x9188]"
  unfolding crc16tab_def by (simp add: double_table_def)

lemma crc16_tab_powers:
  "[0x1021, 0x2042, 0x4084, 0x8108, 0x1231, 0x2462, 0x48c4, 0x9188] = map (\<lambda>k. (lfsr16 ^^ 8) (push_bit 8 (2 ^ k))) [0..<8]"
  by (simp add: lfsr16_def funpow_byte upt_rec)

lemma crc16tab_nth: "i < 256 \<Longrightarrow> crc16tab ! i = (lfsr16 ^^ 8) (push_bit 8 (of_nat i))"
  by (rule spanned_table_nth [where f = "\<lambda>x. (lfsr16 ^^ 8) (push_bit 8 x)", OF _ crc16_tab_spanned crc16_tab_powers])
    (simp_all add: lfsr16_pow_xor)

lemma crc16_step_feeds: "crc16_step w b = foldl feed16 w (rev (byte_bits b))"
proof -
  define m x :: "16 word" where mx: "m = push_bit 8 (ucast b)" "x = w XOR m"
  define h where h: "h = (drop_bit 8 w XOR ucast b) AND 255"
  have mask: "(255 :: 16 word) = mask 8" by (simp add: mask_eq_exp_minus_1)
  have "rev (byte_bits b) = map (\<lambda>i. bit m (15 - i)) [0..<8]"
    by (rule nth_equalityI) (auto simp: byte_bits_def rev_nth mx bit_push_bit_iff bit_ucast_iff)
  moreover have "m AND NOT (mask 8) = m"
    by (rule bit_word_eqI) (auto simp: mx bit_and_iff bit_not_iff bit_mask_iff bit_push_bit_iff)
  ultimately have run: "foldl feed16 w (rev (byte_bits b)) = (lfsr16 ^^ 8) x" using feed16_bits [of 8 w m] by (simp add: mx)
  have parts: "x = push_bit 8 h XOR take_bit 8 w"
    by (rule bit_word_eqI) (auto simp: mx h mask bit_and_iff bit_mask_iff bit_xor_iff bit_push_bit_iff bit_drop_bit_eq
        bit_take_bit_iff bit_ucast_iff dest: bit_imp_le_length)
  have "unat h < 256" unfolding h mask take_bit_eq_mask [symmetric] by (rule unat_take_byte)
  then have entry: "crc16tab ! unat h = (lfsr16 ^^ 8) (push_bit 8 h)" by (simp add: crc16tab_nth)
  have "(lfsr16 ^^ 8) (take_bit 8 w) = push_bit 8 (take_bit 8 w)"
    by (rule lfsr16_pow_high_zero) (simp_all add: bit_take_bit_iff)
  also have "\<dots> = push_bit 8 w"
    by (rule bit_word_eqI) (auto simp: bit_take_bit_iff bit_push_bit_iff)
  finally have "(lfsr16 ^^ 8) x = push_bit 8 w XOR crc16tab ! unat h"
    by (subst parts) (simp only: lfsr16_pow_xor entry xor.commute)
  then show ?thesis by (simp add: run crc16_step_def h)
qed

section \<open>The checks\<close>

text \<open>C38: The three table-driven checks of \<open>qcrc.h\<close> are division by their generators: \<open>crc16\<close>, \<open>crc32\<close> and \<open>crc64\<close> return, for every message
  and every initial value, what the shift register with the generator \<open>0x1021\<close>, \<open>0xedb88320\<close> (reflected) or \<open>0x95ac9329ac4bc9b5\<close>
  (reflected) holds after it was fed the bits of the message one by one.
\<close>

theorem crc_tables_divide:
  "crc16 m = foldl feed16 0 (message_bits_msb m) \<and>
    crc32 c m = NOT (foldl (feed 0xedb88320) (NOT c) (message_bits m)) \<and>
    crc64 d m = foldl (feed 0x95ac9329ac4bc9b5) d (message_bits m)"
proof -
  have "foldl crc16_step w m = foldl feed16 w (message_bits_msb m)" for w
    by (induction m arbitrary: w) (simp_all add: message_bits_msb_def crc16_step_feeds)
  moreover have "a XOR NOT 0 = NOT a" for a :: "32 word" by simp
  ultimately show ?thesis
    by (simp add: crc16_def crc32_def crc64_def crc64_step_table crc32.table_divides crc64.table_divides)
qed

text \<open>C37: CRC-32 and CRC-64 detect every burst error as long as the register: two messages that differ only within 32 (for CRC-64: 64)
  consecutive bits, wherever these bits are, have different checks.
\<close>

theorem crc_detects_bursts:
  assumes "message_bits m = p @ e @ q" and "message_bits m' = p @ e' @ q" and "length e = length e'" and "e \<noteq> e'"
  shows "(length e \<le> 32 \<longrightarrow> crc32 c m \<noteq> crc32 c m') \<and> (length e \<le> 64 \<longrightarrow> crc64 d m \<noteq> crc64 d m')"
proof -
  have "NOT a \<noteq> NOT b" if "a \<noteq> b" for a b :: "32 word" using that by (metis bit.double_compl)
  moreover have "a XOR NOT 0 = NOT a" for a :: "32 word" by simp
  ultimately show ?thesis
    using crc32.burst_apart [OF assms(1-3) _ assms(4)] crc64.burst_apart [OF assms(1-3) _ assms(4)]
    by (simp add: crc32_def crc64_def crc64_step_table)
qed

theorem crc_detects_bursts_witness: "crc32 0 [1, 0x41, 2] \<noteq> crc32 0 [1, 0x42, 2]"
proof -
  have "message_bits [1, 0x41, 2] = byte_bits 1 @ byte_bits 0x41 @ byte_bits 2"
    "message_bits [1, 0x42, 2] = byte_bits 1 @ byte_bits 0x42 @ byte_bits 2" by (simp_all add: message_bits_def)
  moreover have "byte_bits 0x41 \<noteq> byte_bits 0x42" by code_simp
  ultimately show ?thesis
    using crc_detects_bursts [of "[1, 0x41, 2]" "byte_bits 1" "byte_bits 0x41" "byte_bits 2" "[1, 0x42, 2]" "byte_bits 0x42" 0 0]
    by (simp add: byte_bits_def)
qed

text \<open>
  A check can be computed in pieces: the check of one piece is the initial value for the next, as \<open>crc32\<close> undoes the complement it ends with.
\<close>

lemma crc_in_pieces: "crc32 c (m @ m') = crc32 (crc32 c m) m'" "crc64 d (m @ m') = crc64 (crc64 d m) m'"
  by (simp_all add: crc32_def crc64_def xor.assoc)

end
