(* ===== verification/Red_Black.thy ===== *)
theory Red_Black
  imports Call_Refinement
begin

text \<open>
  The red-black tree of \<open>include/common/qredblacktree.h\<close>. The nodes live in a store that maps addresses to nodes; every
  function reads and writes fields of the store in the order in which the C++ code does, through parent, left and right pointers and one
  shared leaf. A call is \<^const>\<open>None\<close> when it dereferences an address without a node or when a loop never ends.

  \<open>LeftRotate\<close> and \<open>RightRotate\<close> are mirror images, as are the two halves of the loop of \<open>InsertFixup\<close>. They are written
  once, over the side on which the code works; the halves of \<open>DeleteFixup\<close> differ and the place is marked.
\<close>

section \<open>The class\<close>

datatype node_color = RED | BLACK

record ('k, 'v) rb_node =
  rcolor :: node_color
  rkey :: 'k
  rvalue :: 'v
  rcount :: int
  rparent :: nat
  rleft :: nat
  rright :: nat

record ('k, 'v) rb_tree =
  cells :: "nat \<rightharpoonup> ('k, 'v) rb_node"
  m_root :: nat
  m_leaf :: nat
  node_num :: int

datatype side = Lft | Rgt

fun opp :: "side \<Rightarrow> side" where
  "opp Lft = Rgt"
| "opp Rgt = Lft"

fun child :: "side \<Rightarrow> ('k, 'v) rb_node \<Rightarrow> nat" where
  "child Lft n = rleft n"
| "child Rgt n = rright n"

fun set_child :: "side \<Rightarrow> nat \<Rightarrow> ('k, 'v) rb_node \<Rightarrow> ('k, 'v) rb_node" where
  "set_child Lft a n = n\<lparr>rleft := a\<rparr>"
| "set_child Rgt a n = n\<lparr>rright := a\<rparr>"

text \<open>An assignment to fields of the node at an address, and the reading of single fields.\<close>

definition modify :: "nat \<Rightarrow> (('k, 'v) rb_node \<Rightarrow> ('k, 'v) rb_node) \<Rightarrow> ('k, 'v) rb_tree \<Rightarrow> ('k, 'v) rb_tree option" where
  "modify a f t = do { n \<leftarrow> cells t a; Some (t\<lparr>cells := (cells t)(a \<mapsto> f n)\<rparr>) }"

definition set_color :: "nat \<Rightarrow> node_color \<Rightarrow> ('k, 'v) rb_tree \<Rightarrow> ('k, 'v) rb_tree option" where
  "set_color a c t = modify a (\<lambda>n. n\<lparr>rcolor := c\<rparr>) t"

definition color_at :: "('k, 'v) rb_tree \<Rightarrow> nat \<Rightarrow> node_color option" where
  "color_at t a = do { n \<leftarrow> cells t a; Some (rcolor n) }"

definition parent_at :: "('k, 'v) rb_tree \<Rightarrow> nat \<Rightarrow> nat option" where
  "parent_at t a = do { n \<leftarrow> cells t a; Some (rparent n) }"

definition child_at :: "side \<Rightarrow> ('k, 'v) rb_tree \<Rightarrow> nat \<Rightarrow> nat option" where
  "child_at d t a = do { n \<leftarrow> cells t a; Some (child d n) }"

text \<open>
  The constructor. \<open>mem\<close> is what the allocation returns: an address and the contents of the memory there, or nothing. The default
  constructor of a node sets the colour, the count and the pointers; key and value stay as they are.
\<close>

definition new_QRedBlackTree :: "(nat \<times> ('k, 'v) rb_node) option \<Rightarrow> ('k, 'v) rb_tree option" where
  "new_QRedBlackTree mem = do {
     (a, junk) \<leftarrow> mem;
     let n = junk\<lparr>rcolor := BLACK, rcount := 1, rparent := a, rleft := a, rright := a\<rparr>;
     Some \<lparr>cells = [a \<mapsto> n], m_root = a, m_leaf = a, node_num = 0\<rparr> }"

text \<open>
  The link from above to a subtree, in the rotations and in \<open>remove\<close>: the root of the tree or a field of the parent, of which the left one is tested.
\<close>

definition relink :: "nat \<Rightarrow> nat \<Rightarrow> nat \<Rightarrow> ('k, 'v) rb_tree \<Rightarrow> ('k, 'v) rb_tree option" where
  "relink p old new t = (if p = m_leaf t then Some (t\<lparr>m_root := new\<rparr>)
     else do {
       l \<leftarrow> child_at Lft t p;
       if old = l then modify p (\<lambda>n. n\<lparr>rleft := new\<rparr>) t else modify p (\<lambda>n. n\<lparr>rright := new\<rparr>) t })"

text \<open>\<open>LeftRotate\<close> for the side \<^const>\<open>Lft\<close>, \<open>RightRotate\<close> for the side \<^const>\<open>Rgt\<close>.\<close>

definition rotate_node :: "side \<Rightarrow> ('k, 'v) rb_tree \<Rightarrow> nat \<Rightarrow> ('k, 'v) rb_tree option" where
  "rotate_node d t sub_root = do {
     temp \<leftarrow> child_at (opp d) t sub_root;
     inner \<leftarrow> child_at d t temp;
     t \<leftarrow> modify sub_root (set_child (opp d) inner) t;
     t \<leftarrow> (if inner \<noteq> m_leaf t then modify inner (\<lambda>n. n\<lparr>rparent := sub_root\<rparr>) t else Some t);
     p \<leftarrow> parent_at t sub_root;
     t \<leftarrow> modify temp (\<lambda>n. n\<lparr>rparent := p\<rparr>) t;
     p \<leftarrow> parent_at t sub_root;
     t \<leftarrow> relink p sub_root temp t;
     t \<leftarrow> modify temp (set_child d sub_root) t;
     modify sub_root (\<lambda>n. n\<lparr>rparent := temp\<rparr>) t }"

definition LeftRotate :: "('k, 'v) rb_tree \<Rightarrow> nat \<Rightarrow> ('k, 'v) rb_tree option" where
  "LeftRotate t sub_root = rotate_node Lft t sub_root"

definition RightRotate :: "('k, 'v) rb_tree \<Rightarrow> nat \<Rightarrow> ('k, 'v) rb_tree option" where
  "RightRotate t sub_root = rotate_node Rgt t sub_root"

text \<open>The loop of \<open>InsertFixup\<close>; \<open>d\<close> is the side of the parent below the grandparent.\<close>

partial_function (option) insert_fixup_loop :: "('k, 'v) rb_tree \<Rightarrow> nat \<Rightarrow> ('k, 'v) rb_tree option" where
  "insert_fixup_loop t node = do {
     p \<leftarrow> parent_at t node;
     c \<leftarrow> color_at t p;
     if c \<noteq> RED then Some t
     else do {
       g \<leftarrow> parent_at t p;
       l \<leftarrow> child_at Lft t g;
       let d = (if p = l then Lft else Rgt);
       uncle \<leftarrow> child_at (opp d) t g;
       cu \<leftarrow> color_at t uncle;
       if cu = RED then do {
         t \<leftarrow> set_color p BLACK t;
         t \<leftarrow> set_color uncle BLACK t;
         node \<leftarrow> parent_at t uncle;
         t \<leftarrow> set_color node RED t;
         insert_fixup_loop t node }
       else do {
         i \<leftarrow> child_at (opp d) t p;
         (t, node) \<leftarrow> (if node = i then do { t \<leftarrow> rotate_node d t p; Some (t, p) } else Some (t, node));
         p \<leftarrow> parent_at t node;
         t \<leftarrow> set_color p BLACK t;
         g \<leftarrow> parent_at t p;
         t \<leftarrow> set_color g RED t;
         rotate_node (opp d) t g } } }"

definition InsertFixup :: "('k, 'v) rb_tree \<Rightarrow> nat \<Rightarrow> ('k, 'v) rb_tree option" where
  "InsertFixup t node = do { t \<leftarrow> insert_fixup_loop t node; set_color (m_root t) BLACK t }"
text \<open>The search of a key from a node: the node with the key, or the node below which the key belongs.\<close>

partial_function (option) seek_loop :: "('k::linorder, 'v) rb_tree \<Rightarrow> 'k \<Rightarrow> nat \<Rightarrow> nat \<Rightarrow> (nat + nat) option" where
  "seek_loop t key cur_node pre_node =
     (if cur_node = m_leaf t then Some (Inr pre_node)
      else do {
        n \<leftarrow> cells t cur_node;
        if rkey n = key then Some (Inl cur_node)
        else if key < rkey n then seek_loop t key (rleft n) cur_node
        else seek_loop t key (rright n) cur_node })"

definition MAX_TREE_SIZE :: int where
  "MAX_TREE_SIZE = 400000"

text \<open>
  The statements of \<open>insert\<close> that make a node and hang it into the tree. The constructor of a node with a key and a value means to call the
  default constructor, but the statement \<open>RBNode();\<close> only makes a temporary: the other fields keep what the memory contains.
  The code sets all of them afterwards but the count.
\<close>

definition attach_node :: "('k::linorder, 'v) rb_tree \<Rightarrow> nat \<Rightarrow> nat \<Rightarrow> ('k, 'v) rb_node \<Rightarrow> 'k \<Rightarrow> 'v \<Rightarrow> ('k, 'v) rb_tree option" where
  "attach_node t pre new junk key val = do {
     let t = t\<lparr>cells := (cells t)(new \<mapsto> junk\<lparr>rkey := key, rvalue := val\<rparr>)\<rparr>;
     t \<leftarrow> modify new (\<lambda>n. n\<lparr>rparent := pre\<rparr>) t;
     t \<leftarrow> (if pre = m_leaf t then Some (t\<lparr>m_root := new\<rparr>)
          else do {
            n \<leftarrow> cells t pre;
            if key < rkey n then modify pre (\<lambda>n. n\<lparr>rleft := new\<rparr>) t else modify pre (\<lambda>n. n\<lparr>rright := new\<rparr>) t });
     modify new (\<lambda>n. n\<lparr>rleft := m_leaf t, rright := m_leaf t, rcolor := RED\<rparr>) t }"

text \<open>\<open>insert\<close>. A count that leaves the range of \<open>int32_t\<close> is undefined.\<close>

definition rb_insert :: "('k::linorder, 'v) rb_tree \<Rightarrow> 'k \<Rightarrow> 'v \<Rightarrow> bool \<Rightarrow> bool \<Rightarrow> (nat \<times> ('k, 'v) rb_node) option \<Rightarrow>
    (int \<times> ('k, 'v) rb_tree) option" where
  "rb_insert t key val cover_flag count_flag mem =
     (if node_num t > MAX_TREE_SIZE then Some (-10, t)
      else do {
        place \<leftarrow> seek_loop t key (m_root t) (m_leaf t);
        case place of
          Inl cur \<Rightarrow> do {
            n \<leftarrow> cells t cur;
            t \<leftarrow> (if cover_flag then modify cur (\<lambda>n. n\<lparr>rvalue := val\<rparr>) t
                 else if count_flag then (if is_int32 (rcount n + 1) then modify cur (\<lambda>n. n\<lparr>rcount := rcount n + 1\<rparr>) t else None)
                 else Some t);
            Some (1, t) }
        | Inr pre \<Rightarrow>
            (case mem of
               None \<Rightarrow> Some (-1, t)
             | Some (new, junk) \<Rightarrow> do {
                 t \<leftarrow> attach_node t pre new junk key val;
                 t \<leftarrow> InsertFixup t new;
                 Some (0, t\<lparr>node_num := node_num t + 1\<rparr>) }) })"

definition rb_search :: "('k::linorder, 'v) rb_tree \<Rightarrow> 'k \<Rightarrow> (int \<times> 'v option) option" where
  "rb_search t key = do {
     place \<leftarrow> seek_loop t key (m_root t) (m_leaf t);
     case place of
       Inl a \<Rightarrow> do { n \<leftarrow> cells t a; Some (0, Some (rvalue n)) }
     | Inr _ \<Rightarrow> Some (-1, None) }"

definition rb_size :: "('k, 'v) rb_tree \<Rightarrow> int" where
  "rb_size t = node_num t"

text \<open>
  \<open>DeleteFixup\<close>; \<open>d\<close> is the side of the node below its parent. The half for \<^const>\<open>Rgt\<close> has comparisons
  \<open>brother->color==BLACK;\<close> where the half for \<^const>\<open>Lft\<close> has assignments; they change nothing. The parts of a turn are: a red
  brother is rotated away; then the colour is handed to the parent, or, with a red child of the brother, the tree is repaired by one or two
  rotations and the loop goes on at the root, where it ends.
\<close>

definition red_brother :: "side \<Rightarrow> ('k, 'v) rb_tree \<Rightarrow> nat \<Rightarrow> nat \<Rightarrow> (('k, 'v) rb_tree \<times> nat) option" where
  "red_brother d t node brother = do {
     t \<leftarrow> (if d = Lft then set_color brother BLACK t else Some t);
     p \<leftarrow> parent_at t node;
     t \<leftarrow> set_color p RED t;
     p \<leftarrow> parent_at t node;
     t \<leftarrow> rotate_node d t p;
     p \<leftarrow> parent_at t node;
     b \<leftarrow> child_at (opp d) t p;
     Some (t, b) }"

definition inner_nephew :: "side \<Rightarrow> ('k, 'v) rb_tree \<Rightarrow> nat \<Rightarrow> nat \<Rightarrow> (('k, 'v) rb_tree \<times> nat) option" where
  "inner_nephew d t node brother = do {
     t \<leftarrow> (if d = Lft then do {
         t \<leftarrow> set_color brother RED t;
         inner \<leftarrow> child_at d t brother;
         set_color inner BLACK t } else Some t);
     t \<leftarrow> rotate_node (opp d) t brother;
     p \<leftarrow> parent_at t node;
     b \<leftarrow> child_at (opp d) t p;
     Some (t, b) }"

definition last_rotation :: "side \<Rightarrow> ('k, 'v) rb_tree \<Rightarrow> nat \<Rightarrow> ('k, 'v) rb_tree option" where
  "last_rotation d t brother = do {
     p \<leftarrow> parent_at t brother;
     c \<leftarrow> color_at t p;
     t \<leftarrow> set_color brother c t;
     p \<leftarrow> parent_at t brother;
     t \<leftarrow> set_color p BLACK t;
     outer \<leftarrow> child_at (opp d) t brother;
     t \<leftarrow> set_color outer BLACK t;
     p \<leftarrow> parent_at t brother;
     rotate_node d t p }"

definition black_brother :: "side \<Rightarrow> ('k, 'v) rb_tree \<Rightarrow> nat \<Rightarrow> nat \<Rightarrow> (('k, 'v) rb_tree \<times> nat) option" where
  "black_brother d t node brother = do {
     bl \<leftarrow> child_at Lft t brother;
     cl \<leftarrow> color_at t bl;
     br \<leftarrow> child_at Rgt t brother;
     cr \<leftarrow> color_at t br;
     if cl = BLACK \<and> cr = BLACK then do {
       t \<leftarrow> set_color brother RED t;
       node \<leftarrow> parent_at t node;
       Some (t, node) }
     else do {
       outer \<leftarrow> child_at (opp d) t brother;
       co \<leftarrow> color_at t outer;
       (t, brother) \<leftarrow> (if co = BLACK then inner_nephew d t node brother else Some (t, brother));
       t \<leftarrow> last_rotation d t brother;
       Some (t, m_root t) } }"

partial_function (option) delete_fixup_loop :: "('k, 'v) rb_tree \<Rightarrow> nat \<Rightarrow> (('k, 'v) rb_tree \<times> nat) option" where
  "delete_fixup_loop t node = do {
     c \<leftarrow> color_at t node;
     if \<not> (node \<noteq> m_root t \<and> c = BLACK) then Some (t, node)
     else do {
       p \<leftarrow> parent_at t node;
       l \<leftarrow> child_at Lft t p;
       let d = (if node = l then Lft else Rgt);
       brother \<leftarrow> child_at (opp d) t p;
       cb \<leftarrow> color_at t brother;
       (t, brother) \<leftarrow> (if cb = RED then red_brother d t node brother else Some (t, brother));
       (t, node) \<leftarrow> black_brother d t node brother;
       delete_fixup_loop t node } }"

definition DeleteFixup :: "('k, 'v) rb_tree \<Rightarrow> nat \<Rightarrow> ('k, 'v) rb_tree option" where
  "DeleteFixup t node = do { (t, node) \<leftarrow> delete_fixup_loop t node; set_color node BLACK t }"

text \<open>The leftmost node from a node on.\<close>

partial_function (option) leftmost_loop :: "('k, 'v) rb_tree \<Rightarrow> nat \<Rightarrow> nat option" where
  "leftmost_loop t a = do { l \<leftarrow> child_at Lft t a; if l \<noteq> m_leaf t then leftmost_loop t l else Some a }"

definition unlink_node :: "('k, 'v) rb_tree \<Rightarrow> nat \<Rightarrow> (('k, 'v) rb_tree \<times> nat \<times> nat) option" where
  "unlink_node t node = do {
     l \<leftarrow> child_at Lft t node;
     r \<leftarrow> child_at Rgt t node;
     del \<leftarrow> (if l = m_leaf t \<or> r = m_leaf t then Some node else leftmost_loop t r);
     dl \<leftarrow> child_at Lft t del;
     cur \<leftarrow> (if dl \<noteq> m_leaf t then Some dl else child_at Rgt t del);
     p \<leftarrow> parent_at t del;
     t \<leftarrow> modify cur (\<lambda>n. n\<lparr>rparent := p\<rparr>) t;
     p \<leftarrow> parent_at t del;
     t \<leftarrow> relink p del cur t;
     Some (t, del, cur) }"

text \<open>The part of \<open>remove\<close> after the search.\<close>

definition remove_at :: "('k, 'v) rb_tree \<Rightarrow> nat \<Rightarrow> (int \<times> ('k, 'v) rb_tree) option" where
  "remove_at t node = do {
     (t, del, cur) \<leftarrow> unlink_node t node;
     dn \<leftarrow> cells t del;
     t \<leftarrow> (if del \<noteq> node then modify node (\<lambda>n. n\<lparr>rkey := rkey dn, rvalue := rvalue dn\<rparr>) t else Some t);
     c \<leftarrow> color_at t del;
     t \<leftarrow> (if c = BLACK then DeleteFixup t cur else Some t);
     Some (0, t\<lparr>cells := (cells t)(del := None), node_num := node_num t - 1\<rparr>) }"

definition rb_remove :: "('k::linorder, 'v) rb_tree \<Rightarrow> 'k \<Rightarrow> bool \<Rightarrow> (int \<times> ('k, 'v) rb_tree) option" where
  "rb_remove t key count_flag = do {
     place \<leftarrow> seek_loop t key (m_root t) (m_leaf t);
     case place of
       Inr _ \<Rightarrow> Some (1, t)
     | Inl node \<Rightarrow> do {
         n \<leftarrow> cells t node;
         t \<leftarrow> (if count_flag then (if is_int32 (rcount n - 1) then modify node (\<lambda>n. n\<lparr>rcount := rcount n - 1\<rparr>) t else None) else Some t);
         n \<leftarrow> cells t node;
         if count_flag \<and> rcount n > 0 then Some (2, t)
         else remove_at t node } }"

text \<open>Counting, printing the black height at every leaf, and freeing the nodes.\<close>

partial_function (option) GetTreeSize :: "('k, 'v) rb_tree \<Rightarrow> nat \<Rightarrow> int \<Rightarrow> int option" where
  "GetTreeSize t node tree_size =
     (if node = m_leaf t then Some tree_size
      else do {
        l \<leftarrow> child_at Lft t node;
        k \<leftarrow> GetTreeSize t l (tree_size + 1);
        r \<leftarrow> child_at Rgt t node;
        GetTreeSize t r k })"

partial_function (option) OutputHeight :: "('k, 'v) rb_tree \<Rightarrow> nat \<Rightarrow> int \<Rightarrow> int list option" where
  "OutputHeight t root height =
     (if root = m_leaf t then Some [height]
      else do {
        n \<leftarrow> cells t root;
        hs \<leftarrow> OutputHeight t (rleft n) (height + (if rcolor n = BLACK then 1 else 0));
        hs' \<leftarrow> OutputHeight t (rright n) (height + (if rcolor n = BLACK then 1 else 0));
        Some (hs @ hs') })"

partial_function (option) destroy_nodes :: "('k, 'v) rb_tree \<Rightarrow> nat \<Rightarrow> ('k, 'v) rb_tree option" where
  "destroy_nodes t root = do {
     l \<leftarrow> child_at Lft t root;
     t \<leftarrow> (if l \<noteq> m_leaf t then destroy_nodes t l else Some t);
     r \<leftarrow> child_at Rgt t root;
     t \<leftarrow> (if r \<noteq> m_leaf t then destroy_nodes t r else Some t);
     _ \<leftarrow> cells t root;
     Some (t\<lparr>cells := (cells t)(root := None)\<rparr>) }"

definition Destroy :: "('k, 'v) rb_tree \<Rightarrow> (int \<times> ('k, 'v) rb_tree) option" where
  "Destroy t =
     (if m_root t = m_leaf t then Some (1, t)
      else do { t \<leftarrow> destroy_nodes t (m_root t); Some (0, t\<lparr>m_root := m_leaf t\<rparr>) })"
section \<open>Trees in the store\<close>

text \<open>The tree a store represents: every node with its address, its colour and its contents (key, value, count).\<close>

datatype ('k, 'v) shape = Tip | Bin nat node_color "'k \<times> 'v \<times> int" "('k, 'v) shape" "('k, 'v) shape"

definition mk_node :: "node_color \<Rightarrow> 'k \<times> 'v \<times> int \<Rightarrow> nat \<Rightarrow> nat \<Rightarrow> nat \<Rightarrow> ('k, 'v) rb_node" where
  "mk_node c x p l r = \<lparr>rcolor = c, rkey = fst x, rvalue = fst (snd x), rcount = snd (snd x), rparent = p, rleft = l, rright = r\<rparr>"

lemma mk_node_simps [simp]:
  "rcolor (mk_node c x p l r) = c" "rkey (mk_node c x p l r) = fst x" "rvalue (mk_node c x p l r) = fst (snd x)"
  "rcount (mk_node c x p l r) = snd (snd x)" "rparent (mk_node c x p l r) = p" "rleft (mk_node c x p l r) = l" "rright (mk_node c x p l r) = r"
  "(mk_node c x p l r)\<lparr>rcolor := c'\<rparr> = mk_node c' x p l r" "(mk_node c x p l r)\<lparr>rparent := q\<rparr> = mk_node c x q l r"
  "(mk_node c x p l r)\<lparr>rleft := a\<rparr> = mk_node c x p a r" "(mk_node c x p l r)\<lparr>rright := a\<rparr> = mk_node c x p l a"
  by (simp_all add: mk_node_def)

fun addr :: "nat \<Rightarrow> ('k, 'v) shape \<Rightarrow> nat" where
  "addr lf Tip = lf"
| "addr lf (Bin a c x l r) = a"

fun addrs :: "('k, 'v) shape \<Rightarrow> nat list" where
  "addrs Tip = []"
| "addrs (Bin a c x l r) = a # addrs l @ addrs r"

fun rep :: "(nat \<rightharpoonup> ('k, 'v) rb_node) \<Rightarrow> nat \<Rightarrow> nat \<Rightarrow> ('k, 'v) shape \<Rightarrow> bool" where
  "rep h lf p Tip \<longleftrightarrow> True"
| "rep h lf p (Bin a c x l r) \<longleftrightarrow> a \<noteq> lf \<and> h a = Some (mk_node c x p (addr lf l) (addr lf r)) \<and> rep h lf a l \<and> rep h lf a r"

text \<open>A context is a tree with a hole, the list of the frames from the hole to the root.\<close>

datatype ('k, 'v) frame = Frame (fside: side) (faddr: nat) (fcolor: node_color) "'k \<times> 'v \<times> int" "('k, 'v) shape"

fun bin :: "side \<Rightarrow> nat \<Rightarrow> node_color \<Rightarrow> 'k \<times> 'v \<times> int \<Rightarrow> ('k, 'v) shape \<Rightarrow> ('k, 'v) shape \<Rightarrow> ('k, 'v) shape" where
  "bin Lft a c x s u = Bin a c x s u"
| "bin Rgt a c x s u = Bin a c x u s"

fun plug :: "('k, 'v) frame list \<Rightarrow> ('k, 'v) shape \<Rightarrow> ('k, 'v) shape" where
  "plug [] s = s"
| "plug (Frame d a c x u # fs) s = plug fs (bin d a c x s u)"

fun top_addr :: "nat \<Rightarrow> ('k, 'v) frame list \<Rightarrow> nat" where
  "top_addr lf [] = lf"
| "top_addr lf (f # fs) = faddr f"

fun ctx_rep :: "(nat \<rightharpoonup> ('k, 'v) rb_node) \<Rightarrow> nat \<Rightarrow> ('k, 'v) frame list \<Rightarrow> nat \<Rightarrow> bool" where
  "ctx_rep h lf [] b \<longleftrightarrow> True"
| "ctx_rep h lf (Frame d a c x u # fs) b \<longleftrightarrow> a \<noteq> lf \<and>
     h a = Some (if d = Lft then mk_node c x (top_addr lf fs) b (addr lf u) else mk_node c x (top_addr lf fs) (addr lf u) b) \<and>
     rep h lf a u \<and> ctx_rep h lf fs a"

fun ctx_addrs :: "('k, 'v) frame list \<Rightarrow> nat list" where
  "ctx_addrs [] = []"
| "ctx_addrs (Frame d a c x u # fs) = a # addrs u @ ctx_addrs fs"

fun ctx_root :: "nat \<Rightarrow> ('k, 'v) frame list \<Rightarrow> nat" where
  "ctx_root b [] = b"
| "ctx_root b (Frame d a c x u # fs) = ctx_root a fs"

lemma rep_plug: "rep h lf lf (plug fs s) \<longleftrightarrow> ctx_rep h lf fs (addr lf s) \<and> rep h lf (top_addr lf fs) s"
proof (induction fs arbitrary: s)
  case (Cons f fs)
  then show ?case by (cases f; cases "fside f") auto
qed simp

lemma addrs_plug: "mset (addrs (plug fs s)) = mset (addrs s) + mset (ctx_addrs fs)"
proof (induction fs arbitrary: s)
  case (Cons f fs)
  then show ?case by (cases f; cases "fside f") auto
qed simp

lemma addr_plug: "addr lf (plug fs s) = ctx_root (addr lf s) fs"
proof (induction fs arbitrary: s)
  case (Cons f fs)
  then show ?case by (cases f; cases "fside f") auto
qed simp

lemma rep_upd [simp]: "a \<notin> set (addrs s) \<Longrightarrow> rep (h(a \<mapsto> n)) lf p s = rep h lf p s"
  by (induction s arbitrary: p) auto

lemma rep_cong: "(\<And>a. a \<in> set (addrs s) \<Longrightarrow> h' a = h a) \<Longrightarrow> rep h' lf p s = rep h lf p s"
  by (induction s arbitrary: p) auto

lemma ctx_rep_upd [simp]: "a \<notin> set (ctx_addrs fs) \<Longrightarrow> ctx_rep (h(a \<mapsto> n)) lf fs b = ctx_rep h lf fs b"
proof (induction fs arbitrary: b)
  case (Cons f fs)
  then show ?case by (cases f) (simp del: fun_upd_apply, simp)
qed simp

lemma rep_leaf: "rep h lf p s \<Longrightarrow> lf \<notin> set (addrs s)"
  by (induction s arbitrary: p) auto

lemma rep_dom: "rep h lf p s \<Longrightarrow> set (addrs s) \<subseteq> dom h"
proof (induction s arbitrary: p)
  case (Bin a c x l r)
  then show ?case using Bin.IH(1) [of a] Bin.IH(2) [of a] by (auto simp: domI)
qed simp

lemma ctx_rep_dom: "ctx_rep h lf fs b \<Longrightarrow> set (ctx_addrs fs) \<subseteq> dom h"
proof (induction fs arbitrary: b)
  case (Cons f fs)
  obtain d a c x u where "f = Frame d a c x u" by (cases f)
  then show ?case using Cons.prems Cons.IH [of a] rep_dom [of h lf a u] by (auto simp: domI)
qed simp

lemma ctx_rep_leaf: "ctx_rep h lf fs b \<Longrightarrow> lf \<notin> set (ctx_addrs fs)"
proof (induction fs arbitrary: b)
  case (Cons f fs)
  then show ?case by (cases f) (auto dest: rep_leaf)
qed simp

definition leaf_ok :: "('k, 'v) rb_tree \<Rightarrow> bool" where
  "leaf_ok t \<longleftrightarrow> (\<exists>n. cells t (m_leaf t) = Some n \<and> rcolor n = BLACK \<and> rleft n = m_leaf t \<and> rright n = m_leaf t)"

definition holds :: "('k, 'v) rb_tree \<Rightarrow> ('k, 'v) frame list \<Rightarrow> ('k, 'v) shape \<Rightarrow> bool" where
  "holds t fs s \<longleftrightarrow> rep (cells t) (m_leaf t) (m_leaf t) (plug fs s) \<and> m_root t = addr (m_leaf t) (plug fs s) \<and>
     distinct (addrs (plug fs s)) \<and> leaf_ok t"

lemma holds_alt:
  "holds t fs s \<longleftrightarrow> ctx_rep (cells t) (m_leaf t) fs (addr (m_leaf t) s) \<and> rep (cells t) (m_leaf t) (top_addr (m_leaf t) fs) s \<and>
     m_root t = ctx_root (addr (m_leaf t) s) fs \<and> distinct (addrs s @ ctx_addrs fs) \<and> leaf_ok t"
proof -
  have "distinct (addrs (plug fs s)) \<longleftrightarrow> distinct (addrs s @ ctx_addrs fs)"
    by (rule mset_eq_imp_distinct_iff) (simp add: addrs_plug)
  then show ?thesis by (auto simp: holds_def rep_plug addr_plug)
qed

lemma holds_up: "holds t (Frame d a c x u # fs) s \<longleftrightarrow> holds t fs (bin d a c x s u)"
  by (simp add: holds_def)
definition kept :: "('k, 'v) rb_tree \<Rightarrow> ('k, 'v) rb_tree \<Rightarrow> bool" where
  "kept t t' \<longleftrightarrow> m_leaf t' = m_leaf t \<and> node_num t' = node_num t \<and> dom (cells t') = dom (cells t) \<and>
     cells t' (m_leaf t) = cells t (m_leaf t)"

lemma kept_refl [simp]: "kept t t"
  by (simp add: kept_def)

lemma kept_trans: "kept t t' \<Longrightarrow> kept t' t'' \<Longrightarrow> kept t t''"
  by (simp add: kept_def)

lemma kept_leaf: "kept t t' \<Longrightarrow> m_leaf t' = m_leaf t"
  by (simp add: kept_def)

lemma holds_cell:
  "holds t fs (Bin a c x l r) \<Longrightarrow> cells t a = Some (mk_node c x (top_addr (m_leaf t) fs) (addr (m_leaf t) l) (addr (m_leaf t) r))"
  "holds t fs (Bin a c x l r) \<Longrightarrow> a \<noteq> m_leaf t"
  by (simp_all add: holds_alt)

lemma holds_leaf_color: "holds t fs s \<Longrightarrow> color_at t (m_leaf t) = Some BLACK"
  by (auto simp: holds_def leaf_ok_def color_at_def)

fun root_color :: "('k, 'v) shape \<Rightarrow> node_color" where
  "root_color Tip = BLACK"
| "root_color (Bin a c x l r) = c"

text \<open>Reading the fields of a node and of the nodes next to it.\<close>

lemma holds_bin:
  assumes "holds t fs (bin d a c x s u)"
  shows "a \<noteq> m_leaf t" "parent_at t a = Some (top_addr (m_leaf t) fs)" "color_at t a = Some c"
    "child_at d t a = Some (addr (m_leaf t) s)" "child_at (opp d) t a = Some (addr (m_leaf t) u)"
  using assms by (cases d; simp add: holds_cell parent_at_def color_at_def child_at_def)+

lemma holds_color: "holds t fs s \<Longrightarrow> color_at t (addr (m_leaf t) s) = Some (root_color s)"
  using holds_leaf_color [of t fs s] by (cases s) (auto simp: holds_cell color_at_def)

lemma holds_sibling: "holds t fs (bin d a c x s u) \<Longrightarrow> holds t (Frame (opp d) a c x s # fs) u"
  by (cases d) (simp_all add: holds_up)

lemma bin_Bin: "bin d a c x s u = (case d of Lft \<Rightarrow> Bin a c x s u | Rgt \<Rightarrow> Bin a c x u s)"
  by (cases d) simp_all

text \<open>Colouring a node and rotating at a node, in any context.\<close>

lemma modify_holds:
  assumes h: "holds t fs (bin d a c x s u)" and f: "\<And>p l r. f (mk_node c x p l r) = mk_node c' x' p l r"
  shows "\<exists>t'. modify a f t = Some t' \<and> holds t' fs (bin d a c' x' s u) \<and> kept t t'"
proof -
  let ?t = "t\<lparr>cells := (cells t)(a \<mapsto> f (the (cells t a)))\<rparr>"
  have "modify a f t = Some ?t" using h by (cases d) (auto simp: modify_def holds_cell)
  moreover have "holds ?t fs (bin d a c' x' s u)" using h by (cases d) (auto simp: holds_alt leaf_ok_def f)
  moreover have "kept t ?t" using h holds_bin(1) [OF h] by (cases d) (auto simp: kept_def holds_cell(1) dom_def)
  ultimately show ?thesis by blast
qed

lemma set_color_holds:
  assumes "holds t fs (bin d a c x s u)"
  shows "\<exists>t'. set_color a c' t = Some t' \<and> holds t' fs (bin d a c' x s u) \<and> kept t t'"
  unfolding set_color_def by (rule modify_holds [OF assms]) simp

text \<open>A subtree that gets another parent and is not changed otherwise.\<close>

lemma rep_rehang:
  assumes "rep h lf p s" and "distinct (addrs s)" and "\<And>z. z \<in> set (addrs s) \<Longrightarrow> z \<noteq> addr lf s \<Longrightarrow> h' z = h z"
    and "s \<noteq> Tip \<Longrightarrow> h' (addr lf s) = Some ((the (h (addr lf s)))\<lparr>rparent := q\<rparr>)"
  shows "rep h' lf q s"
proof (cases s)
  case (Bin r c x l u)
  then have "h' z = h z" if "z \<in> set (addrs l @ addrs u)" for z using that assms(2,3) by auto
  then show ?thesis using assms(1,4) Bin rep_cong [of l h' h] rep_cong [of u h' h] by auto
qed simp

lemma relink_ctx:
  assumes "ctx_rep (cells t) (m_leaf t) fs old" and "distinct (ctx_addrs fs)" and "old \<notin> set (ctx_addrs fs)" and "old \<noteq> m_leaf t"
    and "m_root t = ctx_root old fs"
  shows "\<exists>t'. relink (top_addr (m_leaf t) fs) old new t = Some t' \<and> ctx_rep (cells t') (m_leaf t) fs new \<and> m_root t' = ctx_root new fs \<and>
    m_leaf t' = m_leaf t \<and> node_num t' = node_num t \<and> dom (cells t') = dom (cells t) \<and>
    (\<forall>a. a \<notin> set (ctx_addrs fs) \<longrightarrow> cells t' a = cells t a)"
proof (cases fs)
  case Nil
  then show ?thesis by (simp add: relink_def)
next
  case (Cons f gs)
  obtain d b c x u where f: "f = Frame d b c x u" by (cases f)
  have other: "old \<noteq> addr (m_leaf t) u" using assms Cons f by (cases u) auto
  have b: "b \<noteq> m_leaf t" "b \<notin> set (addrs u)" "b \<notin> set (ctx_addrs gs)" using assms Cons f by auto
  show ?thesis
  proof (cases d)
    case Lft
    then have "cells t b = Some (mk_node c x (top_addr (m_leaf t) gs) old (addr (m_leaf t) u))" using assms(1) Cons f by simp
    then show ?thesis using assms b Cons f Lft by (auto simp: relink_def modify_def child_at_def)
  next
    case Rgt
    then have "cells t b = Some (mk_node c x (top_addr (m_leaf t) gs) (addr (m_leaf t) u) old)" using assms(1) Cons f by simp
    then show ?thesis using assms b other Cons f Rgt by (auto simp: relink_def modify_def child_at_def)
  qed
qed
definition mk_side :: "side \<Rightarrow> node_color \<Rightarrow> 'k \<times> 'v \<times> int \<Rightarrow> nat \<Rightarrow> nat \<Rightarrow> nat \<Rightarrow> ('k, 'v) rb_node" where
  "mk_side d c x p s u = (if d = Lft then mk_node c x p s u else mk_node c x p u s)"

lemma mk_side_simps [simp]:
  "child d (mk_side d c x p s u) = s" "child (opp d) (mk_side d c x p s u) = u" "rparent (mk_side d c x p s u) = p"
  "set_child d a (mk_side d c x p s u) = mk_side d c x p a u" "set_child (opp d) a (mk_side d c x p s u) = mk_side d c x p s a"
  "(mk_side d c x p s u)\<lparr>rparent := q\<rparr> = mk_side d c x q s u"
  by (cases d; simp add: mk_side_def)+

lemma bin_simps [simp]:
  "addr lf (bin d a c x s u) = a" "set (addrs (bin d a c x s u)) = insert a (set (addrs s) \<union> set (addrs u))"
  "root_color (bin d a c x s u) = c"
  by (cases d; auto)+

lemma rep_bin: "rep h lf p (bin d a c x s u) \<longleftrightarrow> a \<noteq> lf \<and> h a = Some (mk_side d c x p (addr lf s) (addr lf u)) \<and> rep h lf a s \<and> rep h lf a u"
  by (cases d) (auto simp: mk_side_def)

lemma distinct_bin: "distinct (addrs (bin d a c x s u)) \<longleftrightarrow> distinct (a # addrs s @ addrs u)"
  by (cases d) auto

lemma rotate_holds:
  assumes "holds t fs (bin d a c x A (bin d b e y B C))"
  shows "\<exists>t'. rotate_node d t a = Some t' \<and> holds t' fs (bin d b e y (bin d a c x A B) C) \<and> kept t t'"
proof -
  let ?lf = "m_leaf t" let ?p = "top_addr ?lf fs"
  note h = assms [unfolded holds_alt rep_bin]
  have cell: "cells t a = Some (mk_side d c x ?p (addr ?lf A) b)" "cells t b = Some (mk_side d e y a (addr ?lf B) (addr ?lf C))"
    using h by auto
  have apart: "a \<noteq> b" "a \<notin> set (addrs A @ addrs B @ addrs C @ ctx_addrs fs)" "b \<notin> set (addrs A @ addrs B @ addrs C @ ctx_addrs fs)"
    "a \<noteq> ?lf" "b \<noteq> ?lf"
    using h by (auto simp: distinct_bin)
  obtain n0 where leaf: "cells t ?lf = Some n0" using h by (auto simp: leaf_ok_def)
  define t1 where t1: "t1 = t\<lparr>cells := (cells t)(a \<mapsto> mk_side d c x ?p (addr ?lf A) (addr ?lf B))\<rparr>"
  define t2 where t2: "t2 = (if B = Tip then t1 else t1\<lparr>cells := (cells t1)(addr ?lf B \<mapsto> (the (cells t (addr ?lf B)))\<lparr>rparent := a\<rparr>)\<rparr>)"
  define t3 where t3: "t3 = t2\<lparr>cells := (cells t2)(b \<mapsto> mk_side d e y ?p (addr ?lf B) (addr ?lf C))\<rparr>"
  have B: "addr ?lf B \<noteq> ?lf \<longleftrightarrow> B \<noteq> Tip" "addr ?lf B \<noteq> a" "addr ?lf B \<noteq> b" "B \<noteq> Tip \<Longrightarrow> addr ?lf B \<in> set (addrs B)"
    "B \<noteq> Tip \<Longrightarrow> \<exists>n. cells t (addr ?lf B) = Some n"
    "B \<noteq> Tip \<Longrightarrow> addr ?lf B \<notin> set (addrs A @ addrs C @ ctx_addrs fs)"
    using h apart by (cases B; auto simp: distinct_bin)+
  have run3: "rotate_node d t a = do {
      t \<leftarrow> relink ?p a b t3;
      t \<leftarrow> modify b (set_child d a) t;
      modify a (\<lambda>n. n\<lparr>rparent := b\<rparr>) t }"
    using B cell apart by (auto simp: rotate_node_def child_at_def parent_at_def modify_def t1 t2 t3)
  have c3: "cells t3 a = Some (mk_side d c x ?p (addr ?lf A) (addr ?lf B))" "cells t3 b = Some (mk_side d e y ?p (addr ?lf B) (addr ?lf C))"
    using B apart by (auto simp: t1 t2 t3)
  have other3: "cells t3 z = cells t z" if "z \<noteq> a" "z \<noteq> b" "z \<noteq> addr ?lf B \<or> B = Tip" for z
    using that by (auto simp: t1 t2 t3)
  have same3: "m_leaf t3 = ?lf" "m_root t3 = m_root t" "node_num t3 = node_num t" "dom (cells t3) = dom (cells t)"
    using B cell by (auto simp: t1 t2 t3)
  have "ctx_rep (cells t3) ?lf fs a" using h B apart by (cases "B = Tip") (auto simp: t1 t2 t3)
  then obtain t4 where t4: "relink ?p a b t3 = Some t4" "ctx_rep (cells t4) ?lf fs b" "m_root t4 = ctx_root b fs" "m_leaf t4 = ?lf"
      "node_num t4 = node_num t" "dom (cells t4) = dom (cells t)" "\<And>z. z \<notin> set (ctx_addrs fs) \<Longrightarrow> cells t4 z = cells t3 z"
    using relink_ctx [of t3 fs a b] h apart same3 by auto
  define t6 where t6: "t6 = t4\<lparr>cells := (cells t4)(b \<mapsto> mk_side d e y ?p a (addr ?lf C), a \<mapsto> mk_side d c x b (addr ?lf A) (addr ?lf B))\<rparr>"
  have c4: "cells t4 a = cells t3 a" "cells t4 b = cells t3 b" using t4(7) apart by auto
  have "rotate_node d t a = Some t6" using run3 t4(1) c3 c4 apart by (simp add: modify_def t6)
  moreover have "?lf \<notin> set (ctx_addrs fs)" using h ctx_rep_leaf by blast
  then have leaf6: "cells t6 ?lf = cells t ?lf" using t4(7) [of ?lf] other3 [of ?lf] apart B(1) by (auto simp: t6)
  moreover have "holds t6 fs (bin d b e y (bin d a c x A B) C)"
  proof -
    have "rep (cells t) ?lf a A" "rep (cells t) ?lf b C" using h by simp_all
    moreover have "cells t3 z = cells t z" if "z \<in> set (addrs A @ addrs C)" for z using that apart B(6) by (intro other3) auto
    ultimately have A3: "rep (cells t3) ?lf a A" "rep (cells t3) ?lf b C" using rep_cong [of _ "cells t3" "cells t"] by auto
    have "cells t3 (addr ?lf B) = Some ((the (cells t (addr ?lf B)))\<lparr>rparent := a\<rparr>)" if "B \<noteq> Tip" using that B(2,3) by (simp add: t1 t2 t3)
    moreover have "cells t3 z = cells t z" if "z \<in> set (addrs B)" "z \<noteq> addr ?lf B" for z using that apart by (intro other3) auto
    ultimately have B3: "rep (cells t3) ?lf a B" using rep_rehang [of "cells t" ?lf b B "cells t3" a] h by (auto simp: distinct_bin)
    have eq: "cells t6 z = cells t3 z" if "z \<in> set (addrs A @ addrs B @ addrs C)" for z
      using that t4(7) [of z] apart h by (auto simp: t6 distinct_bin)
    have "rep (cells t6) ?lf a A" "rep (cells t6) ?lf b C" "rep (cells t6) ?lf a B"
      using A3 B3 eq rep_cong [of _ "cells t6" "cells t3"] by auto
    moreover have "ctx_rep (cells t6) ?lf fs b" using t4(2) apart by (simp add: t6)
    moreover have "leaf_ok t6" using leaf6 h t4(4) by (auto simp: leaf_ok_def t6)
    ultimately show ?thesis using t4 apart h by (auto simp: holds_alt rep_bin t6 distinct_bin)
  qed
  moreover have "kept t t6" using t4 cell leaf6 by (auto simp: kept_def t6)
  ultimately show ?thesis by blast
qed
section \<open>Balance\<close>

lemma not_color [simp]: "c \<noteq> RED \<longleftrightarrow> c = BLACK" "c \<noteq> BLACK \<longleftrightarrow> c = RED"
  by (cases c; simp)+

fun entries :: "('k, 'v) shape \<Rightarrow> ('k \<times> 'v \<times> int) list" where
  "entries Tip = []"
| "entries (Bin a c x l r) = entries l @ x # entries r"

fun black_height :: "('k, 'v) shape \<Rightarrow> nat" where
  "black_height Tip = 0"
| "black_height (Bin a c x l r) = black_height l + (if c = BLACK then 1 else 0)"

text \<open>No red node has a red child, and all paths to a leaf have the same number of black nodes.\<close>

fun balanced :: "('k, 'v) shape \<Rightarrow> bool" where
  "balanced Tip \<longleftrightarrow> True"
| "balanced (Bin a c x l r) \<longleftrightarrow> balanced l \<and> balanced r \<and> black_height l = black_height r \<and>
     (c = RED \<longrightarrow> root_color l = BLACK \<and> root_color r = BLACK)"

definition red_black :: "('k, 'v) shape \<Rightarrow> bool" where
  "red_black s \<longleftrightarrow> balanced s \<and> root_color s = BLACK"

fun ctx_ok :: "nat \<Rightarrow> ('k, 'v) frame list \<Rightarrow> bool" where
  "ctx_ok n [] \<longleftrightarrow> True"
| "ctx_ok n (Frame d a c x u # fs) \<longleftrightarrow> balanced u \<and> black_height u = n \<and>
     (c = RED \<longrightarrow> root_color u = BLACK \<and> fs \<noteq> [] \<and> fcolor (hd fs) = BLACK) \<and> ctx_ok (n + (if c = BLACK then 1 else 0)) fs"

definition hole_color :: "('k, 'v) frame list \<Rightarrow> node_color" where
  "hole_color fs = (case fs of [] \<Rightarrow> RED | f # _ \<Rightarrow> fcolor f)"

lemma balanced_bin [simp]:
  "balanced (bin d a c x s u) \<longleftrightarrow> balanced s \<and> balanced u \<and> black_height s = black_height u \<and>
     (c = RED \<longrightarrow> root_color s = BLACK \<and> root_color u = BLACK)"
  by (cases d) auto

lemma black_height_bin: "black_height s = black_height u \<Longrightarrow> black_height (bin d a c x s u) = black_height s + (if c = BLACK then 1 else 0)"
  by (cases d) auto

lemma red_black_plug:
  "red_black (plug fs s) \<longleftrightarrow> ctx_ok (black_height s) fs \<and> balanced s \<and> (hole_color fs = RED \<longrightarrow> root_color s = BLACK)"
proof (induction fs arbitrary: s)
  case (Cons f fs)
  obtain d a c x u where f: "f = Frame d a c x u" by (cases f)
  show ?case
  proof (cases "black_height s = black_height u")
    case True
    then show ?thesis using Cons by (cases fs) (auto simp: f black_height_bin hole_color_def)
  next
    case False
    then show ?thesis using Cons by (auto simp: f)
  qed
qed (simp add: red_black_def hole_color_def)

lemma balanced_plug:
  assumes "ctx_ok (black_height s) fs" and "balanced s" and "fs \<noteq> [] \<Longrightarrow> hole_color fs = RED \<Longrightarrow> root_color s = BLACK"
  shows "balanced (plug fs s)"
proof (cases fs)
  case (Cons f gs)
  then have "red_black (plug fs s)" using assms by (simp add: red_black_plug)
  then show ?thesis by (simp add: red_black_def)
qed (use assms in simp)

lemma entries_plug: "entries s = entries s' \<Longrightarrow> entries (plug fs s) = entries (plug fs s')"
proof (induction fs arbitrary: s s')
  case (Cons f fs)
  obtain d a c x u where "f = Frame d a c x u" by (cases f)
  then show ?case using Cons by (cases d) simp_all
qed simp
section \<open>Insertion keeps the balance\<close>

lemma bin_opp [simp]: "bin (opp d) a c x s u = bin d a c x u s"
  by (cases d) simp_all

lemma opp_opp [simp]: "opp (opp d) = d"
  by (cases d) simp_all

lemma opp_neq [simp]: "opp d \<noteq> d" "d \<noteq> opp d"
  by (cases d; simp)+

lemma side_neq: "d \<noteq> e \<longleftrightarrow> e = opp d"
  by (cases d; cases e) simp_all

lemma bin_entries [simp]: "entries (bin Lft a c x s u) = entries s @ x # entries u" "entries (bin Rgt a c x s u) = entries u @ x # entries s"
  by simp_all

lemma shape_bin: "s \<noteq> Tip \<Longrightarrow> \<exists>n c z A B. s = bin d n c z A B"
  by (cases s) (simp, metis (full_types) bin.simps side.exhaust)

lemma addr_in: "s \<noteq> Tip \<Longrightarrow> addr lf s \<in> set (addrs s)"
  by (cases s) simp_all

lemma holds_apart: "holds t fs (bin d a c x s u) \<Longrightarrow> s \<noteq> Tip \<Longrightarrow> addr (m_leaf t) s \<noteq> addr (m_leaf t) u"
proof -
  assume h: "holds t fs (bin d a c x s u)" and s: "s \<noteq> Tip"
  then have "addr (m_leaf t) s \<noteq> m_leaf t" by (cases s; cases d) (auto simp: holds_alt)
  moreover have "set (addrs s) \<inter> set (addrs u) = {}" using h by (auto simp: holds_alt distinct_bin)
  ultimately show ?thesis using s addr_in [of s] by (cases u) auto
qed

lemma which_side:
  assumes "holds t fs (bin d a c x s u)" and "s \<noteq> Tip"
  shows "\<exists>l. child_at Lft t a = Some l \<and> (if addr (m_leaf t) s = l then Lft else Rgt) = d"
  using holds_bin [OF assms(1)] holds_apart [OF assms] by (cases d) auto

lemma recolor_rotate:
  assumes "holds t fs (bin d g c' y (bin d p c x S U) V)"
  shows "\<exists>t'. (do { t \<leftarrow> set_color p BLACK t; g \<leftarrow> parent_at t p; t \<leftarrow> set_color g RED t; rotate_node (opp d) t g }) = Some t' \<and>
    holds t' fs (bin d p BLACK x S (bin d g RED y U V)) \<and> kept t t'"
proof -
  obtain t1 where t1: "set_color p BLACK t = Some t1" "holds t1 (Frame d g c' y V # fs) (bin d p BLACK x S U)" "kept t t1"
    using set_color_holds [of t "Frame d g c' y V # fs" d p c x S U BLACK] assms by (auto simp: holds_up)
  obtain t2 where t2: "set_color g RED t1 = Some t2" "holds t2 fs (bin d g RED y (bin d p BLACK x S U) V)" "kept t1 t2"
    using set_color_holds [of t1 fs d g c' y _ _ RED] t1(2) by (auto simp: holds_up)
  obtain t3 where "rotate_node (opp d) t2 g = Some t3" "holds t3 fs (bin d p BLACK x S (bin d g RED y U V))" "kept t2 t3"
    using rotate_holds [of t2 fs "opp d" g RED y V p BLACK x U S] t2(2) by auto
  then show ?thesis using t1 t2 holds_bin(2) [OF t1(2)] by (auto intro: kept_trans)
qed

lemma insert_fixup_uncle:
  assumes "holds t fs (bin d g BLACK y (bin e p RED x s U) V)" and "root_color V = RED" and u: "u = addr (m_leaf t) V"
  shows "\<exists>t' V'. (do { t \<leftarrow> set_color p BLACK t; t \<leftarrow> set_color u BLACK t; n \<leftarrow> parent_at t u;
      t \<leftarrow> set_color n RED t; insert_fixup_loop t n }) = insert_fixup_loop t' g \<and>
    holds t' fs (bin d g RED y (bin e p BLACK x s U) V') \<and> kept t t' \<and> entries V' = entries V \<and> root_color V' = BLACK \<and>
    (balanced V \<longrightarrow> balanced V' \<and> black_height V' = Suc (black_height V))"
proof -
  obtain q z l r where V: "V = Bin q RED z l r" using assms(2) by (cases V) auto
  obtain t1 where t1: "set_color p BLACK t = Some t1" "holds t1 (Frame d g BLACK y V # fs) (bin e p BLACK x s U)" "kept t t1"
    using set_color_holds [of t "Frame d g BLACK y V # fs" e p RED x s U BLACK] assms by (auto simp: holds_up)
  have up: "holds t1 (Frame (opp d) g BLACK y (bin e p BLACK x s U) # fs) (bin Lft q RED z l r)"
    using t1(2) V by (simp add: holds_up)
  obtain t2 where t2: "set_color q BLACK t1 = Some t2"
      "holds t2 (Frame (opp d) g BLACK y (bin e p BLACK x s U) # fs) (bin Lft q BLACK z l r)" "kept t1 t2"
    using set_color_holds [OF up] by blast
  obtain t3 where t3: "set_color g RED t2 = Some t3" "holds t3 fs (bin d g RED y (bin e p BLACK x s U) (Bin q BLACK z l r))" "kept t2 t3"
    using set_color_holds [of t2 fs d g BLACK y "bin e p BLACK x s U" "Bin q BLACK z l r" RED] t2(2) by (auto simp: holds_up)
  have "balanced V \<longrightarrow> balanced (Bin q BLACK z l r) \<and> black_height (Bin q BLACK z l r) = Suc (black_height V)" using V by simp
  then show ?thesis using t1 t2 t3 holds_bin(2) [OF t2(2)] V u
    by (intro exI [of _ t3] exI [of _ "Bin q BLACK z l r"]) (auto intro: kept_trans)
qed
text \<open>The turn of the loop that ends it: the uncle is black. An inner node is first rotated to the outside.\<close>

lemma insert_fixup_rotate:
  assumes h: "holds t fs (bin d g c y (bin e p RED x s U) V)" and s: "s \<noteq> Tip"
  shows "\<exists>t' s'. (do {
      i \<leftarrow> child_at (opp d) t p;
      (t, node) \<leftarrow> (if addr (m_leaf t) s = i then do { t \<leftarrow> rotate_node d t p; Some (t, p) } else Some (t, addr (m_leaf t) s));
      p \<leftarrow> parent_at t node;
      t \<leftarrow> set_color p BLACK t;
      g \<leftarrow> parent_at t p;
      t \<leftarrow> set_color g RED t;
      rotate_node (opp d) t g }) = Some t' \<and> holds t' fs s' \<and> kept t t' \<and> entries s' = entries (bin d g c y (bin e p RED x s U) V) \<and>
    (balanced s \<and> balanced U \<and> balanced V \<and> root_color s = RED \<and> root_color U = BLACK \<and> root_color V = BLACK \<and>
      black_height s = black_height U \<and> black_height V = black_height U \<longrightarrow>
      balanced s' \<and> root_color s' = BLACK \<and> black_height s' = Suc (black_height U))"
proof (cases "e = d")
  case True
  have p: "holds t (Frame d g c y V # fs) (bin d p RED x s U)" using h True by (simp add: holds_up)
  have "child_at (opp d) t p = Some (addr (m_leaf t) U)" "addr (m_leaf t) s \<noteq> addr (m_leaf t) U"
    using holds_bin(5) [OF p] holds_apart [OF p s] by auto
  moreover have "parent_at t (addr (m_leaf t) s) = Some p"
    using holds_bin(2) [of t "Frame d p RED x U # Frame d g c y V # fs" Lft] p s by (cases s) (auto simp: holds_up)
  moreover obtain t' where "(do { t \<leftarrow> set_color p BLACK t; g \<leftarrow> parent_at t p; t \<leftarrow> set_color g RED t; rotate_node (opp d) t g }) = Some t'"
      "holds t' fs (bin d p BLACK x s (bin d g RED y U V))" "kept t t'"
    using recolor_rotate [OF h [unfolded True]] by blast
  moreover have "entries (bin d p BLACK x s (bin d g RED y U V)) = entries (bin d g c y (bin e p RED x s U) V)"
    using True by (cases d) simp_all
  ultimately show ?thesis using True
    by (intro exI [of _ t'] exI [of _ "bin d p BLACK x s (bin d g RED y U V)"]) (auto simp: black_height_bin)
next
  case False
  then have e: "e = opp d" by (simp add: side_neq)
  obtain n cn z A B where sb: "s = bin d n cn z A B" using shape_bin [OF s, of d] by blast
  have p: "holds t (Frame d g c y V # fs) (bin d p RED x U (bin d n cn z A B))" using h e sb by (simp add: holds_up)
  have i: "child_at (opp d) t p = Some n" using holds_bin(5) [OF p] by simp
  obtain t1 where t1: "rotate_node d t p = Some t1" "holds t1 (Frame d g c y V # fs) (bin d n cn z (bin d p RED x U A) B)" "kept t t1"
    using rotate_holds [OF p] by blast
  have "parent_at t1 p = Some n" using holds_bin(2) [of t1 "Frame d n cn z B # Frame d g c y V # fs" d p] t1(2) by (auto simp: holds_up)
  moreover obtain t' where "(do { t \<leftarrow> set_color n BLACK t1; g \<leftarrow> parent_at t n; t \<leftarrow> set_color g RED t; rotate_node (opp d) t g }) = Some t'"
      "holds t' fs (bin d n BLACK z (bin d p RED x U A) (bin d g RED y B V))" "kept t1 t'"
    using recolor_rotate [of t1 fs d g c y n cn z "bin d p RED x U A" B V] t1(2) by (auto simp: holds_up)
  moreover have "entries (bin d n BLACK z (bin d p RED x U A) (bin d g RED y B V)) = entries (bin d g c y (bin e p RED x s U) V)"
    using e sb by (cases d) simp_all
  ultimately show ?thesis using t1 i sb
    by (intro exI [of _ t'] exI [of _ "bin d n BLACK z (bin d p RED x U A) (bin d g RED y B V)"])
      (auto simp: black_height_bin intro: kept_trans)
qed

lemma insert_fixup_turn:
  assumes h: "holds t fs (bin d g c y (bin e p RED x s U) V)" and n: "n = addr (m_leaf t) s" "s \<noteq> Tip" and u: "u = addr (m_leaf t) V"
  shows "insert_fixup_loop t n = (if root_color V = RED then do {
      t \<leftarrow> set_color p BLACK t;
      t \<leftarrow> set_color u BLACK t;
      node \<leftarrow> parent_at t u;
      t \<leftarrow> set_color node RED t;
      insert_fixup_loop t node }
    else do {
      i \<leftarrow> child_at (opp d) t p;
      (t, node) \<leftarrow> (if n = i then do { t \<leftarrow> rotate_node d t p; Some (t, p) } else Some (t, n));
      p \<leftarrow> parent_at t node;
      t \<leftarrow> set_color p BLACK t;
      g \<leftarrow> parent_at t p;
      t \<leftarrow> set_color g RED t;
      rotate_node (opp d) t g })"
proof -
  have hp: "holds t (Frame d g c y V # fs) (bin e p RED x s U)" using h by (simp add: holds_up)
  have "parent_at t n = Some p"
    using holds_bin(2) [of t "Frame e p RED x U # Frame d g c y V # fs" Lft] hp n by (cases s) (auto simp: holds_up)
  moreover obtain l where "child_at Lft t g = Some l" "(if p = l then Lft else Rgt) = d"
    using which_side [OF h] by (cases e) auto
  moreover have "color_at t p = Some RED" "parent_at t p = Some g" "child_at (opp d) t g = Some u" "color_at t u = Some (root_color V)"
    using holds_bin [OF hp] holds_bin [OF h] holds_color [OF holds_sibling [OF h]] by (simp_all add: u)
  ultimately show ?thesis by (subst insert_fixup_loop.simps) (cases "p = l"; simp cong: if_cong)
qed

lemma insert_fixup_balances:
  assumes "holds t fs s" and "root_color s = RED" and "balanced s" and "ctx_ok (black_height s) fs"
  shows "\<exists>t' s'. insert_fixup_loop t (addr (m_leaf t) s) = Some t' \<and> holds t' [] s' \<and> kept t t' \<and> balanced s' \<and>
    entries s' = entries (plug fs s)"
  using assms
proof (induction "length fs" arbitrary: t fs s rule: less_induct)
  case less
  obtain n z A B where s: "s = Bin n RED z A B" using less.prems(2) by (cases s) auto
  have self: "parent_at t n = Some (top_addr (m_leaf t) fs)" using holds_cell(1) [of t fs n] less.prems(1) s by (simp add: parent_at_def)
  show ?case
  proof (cases fs)
    case Nil
    then have "insert_fixup_loop t n = Some t"
      using self holds_leaf_color [OF less.prems(1)] by (subst insert_fixup_loop.simps) simp
    then show ?thesis using Nil s less.prems by auto
  next
    case (Cons f gs)
    obtain e p c1 x U where f: "f = Frame e p c1 x U" by (cases f)
    have hp: "holds t gs (bin e p c1 x s U)" using less.prems(1) Cons f by (simp add: holds_up)
    show ?thesis
    proof (cases c1)
      case BLACK
      then have "insert_fixup_loop t n = Some t" using self Cons f holds_bin(3) [OF hp] by (subst insert_fixup_loop.simps) simp
      moreover have "balanced (plug fs s)" using balanced_plug [of s fs] less.prems BLACK Cons f by (simp add: hole_color_def)
      ultimately show ?thesis using s less.prems(1) by (auto simp: holds_def)
    next
      case RED
      then obtain d g y V hs where gs: "gs = Frame d g BLACK y V # hs"
        using less.prems(4) Cons f by (cases gs; cases "hd gs") auto
      have hg: "holds t hs (bin d g BLACK y (bin e p RED x s U) V)" using hp RED gs by (simp add: holds_up)
      define u where u: "u = addr (m_leaf t) V"
      have n: "n = addr (m_leaf t) s" "s \<noteq> Tip" using s by simp_all
      note loop = insert_fixup_turn [OF hg n u]
      have ctx: "balanced U" "black_height U = black_height s" "root_color U = BLACK" "balanced V" "black_height V = black_height s"
          "ctx_ok (Suc (black_height s)) hs"
        using less.prems(4) Cons f gs RED by auto
      show ?thesis
      proof (cases "root_color V = RED")
        case True
        obtain t' V' where t': "insert_fixup_loop t n = insert_fixup_loop t' g"
            "holds t' hs (bin d g RED y (bin e p BLACK x s U) V')" "kept t t'" "entries V' = entries V" "root_color V' = BLACK"
            "balanced V \<longrightarrow> balanced V' \<and> black_height V' = Suc (black_height V)"
          using insert_fixup_uncle [OF hg True u] loop True by auto
        have "black_height (bin d g RED y (bin e p BLACK x s U) V') = Suc (black_height s)"
          using t'(6) ctx by (simp add: black_height_bin)
        moreover have "entries (plug hs (bin d g RED y (bin e p BLACK x s U) V')) = entries (plug fs s)"
          unfolding Cons f gs plug.simps by (rule entries_plug) (use t'(4) in \<open>cases d; cases e; simp\<close>)
        ultimately show ?thesis
          using less.hyps [OF _ t'(2)] t' ctx less.prems Cons gs s by (auto simp: black_height_bin intro: kept_trans)
      next
        case False
        obtain t' s' where t': "insert_fixup_loop t n = Some t'" "holds t' hs s'" "kept t t'"
            "entries s' = entries (bin d g BLACK y (bin e p RED x s U) V)" "balanced s'" "root_color s' = BLACK" "black_height s' = Suc (black_height U)"
          using insert_fixup_rotate [OF hg n(2), folded n(1)] loop False ctx less.prems(2,3) by auto
        have "balanced (plug hs s')" using balanced_plug [of s' hs] t' ctx by simp
        moreover have "entries (plug hs s') = entries (plug fs s)" using entries_plug [OF t'(4)] Cons f gs RED by simp
        moreover have "holds t' [] (plug hs s')" using t'(2) by (simp add: holds_def)
        ultimately show ?thesis using t'(1,3) n by auto
      qed
    qed
  qed
qed
section \<open>Searching\<close>

definition keys_of :: "('k, 'v) shape \<Rightarrow> 'k list" where
  "keys_of s = map fst (entries s)"

fun before :: "('k, 'v) frame list \<Rightarrow> ('k \<times> 'v \<times> int) list" where
  "before [] = []"
| "before (Frame d a c x u # fs) = before fs @ (if d = Lft then [] else entries u @ [x])"

fun after :: "('k, 'v) frame list \<Rightarrow> ('k \<times> 'v \<times> int) list" where
  "after [] = []"
| "after (Frame d a c x u # fs) = (if d = Lft then x # entries u else []) @ after fs"

lemma entries_split: "entries (plug fs s) = before fs @ entries s @ after fs"
proof (induction fs arbitrary: s)
  case (Cons f fs)
  obtain d a c x u where "f = Frame d a c x u" by (cases f)
  then show ?case using Cons by (cases d) simp_all
qed simp

text \<open>The search walks to the subtree that has the key at its root, or to the leaf where the key belongs.\<close>

fun root_is :: "'k \<Rightarrow> ('k, 'v) shape \<Rightarrow> bool" where
  "root_is k Tip \<longleftrightarrow> True"
| "root_is k (Bin a c x l r) \<longleftrightarrow> fst x = k"

fun seek_result :: "nat \<Rightarrow> ('k, 'v) frame list \<Rightarrow> ('k, 'v) shape \<Rightarrow> nat + nat" where
  "seek_result lf fs Tip = Inr (top_addr lf fs)"
| "seek_result lf fs (Bin a c x l r) = Inl a"

lemma seek_loop_holds:
  assumes "holds t fs s" and "sorted_wrt (<) (keys_of (plug fs s))"
    and "\<forall>x\<in>set (before fs). fst x < k" and "\<forall>x\<in>set (after fs). k < fst x"
  shows "\<exists>fs' s'. plug fs' s' = plug fs s \<and> (\<forall>x\<in>set (before fs'). fst x < k) \<and> (\<forall>x\<in>set (after fs'). k < fst x) \<and>
    root_is k s' \<and> seek_loop t k (addr (m_leaf t) s) (top_addr (m_leaf t) fs) = Some (seek_result (m_leaf t) fs' s')"
  using assms
proof (induction s arbitrary: fs)
  case Tip
  then show ?case by (intro exI [of _ fs] exI [of _ Tip]) (simp add: seek_loop.simps)
next
  case (Bin a c x l r)
  have cell: "cells t a = Some (mk_node c x (top_addr (m_leaf t) fs) (addr (m_leaf t) l) (addr (m_leaf t) r))" "a \<noteq> m_leaf t"
    using holds_cell [OF Bin.prems(1)] by auto
  have sorted: "\<forall>y\<in>set (entries l). fst y < fst x" "\<forall>y\<in>set (entries r). fst x < fst y"
    using Bin.prems(2) by (auto simp: keys_of_def entries_split sorted_wrt_append)
  show ?case
  proof (cases "fst x = k")
    case True
    then show ?thesis using Bin.prems cell by (intro exI [of _ fs] exI [of _ "Bin a c x l r"]) (simp add: seek_loop.simps)
  next
    case False
    define d where "d = (if k < fst x then Lft else Rgt)"
    define s' where "s' = (if k < fst x then l else r)"
    define u where "u = (if k < fst x then r else l)"
    note defs = d_def s'_def u_def
    have b: "bin d a c x s' u = Bin a c x l r" by (simp add: defs)
    have run: "seek_loop t k a (top_addr (m_leaf t) fs) = seek_loop t k (addr (m_leaf t) s') a"
      using cell False by (subst seek_loop.simps) (simp add: defs)
    have "holds t (Frame d a c x u # fs) s'" "sorted_wrt (<) (keys_of (plug (Frame d a c x u # fs) s'))"
      using Bin.prems(1,2) b by (simp_all add: holds_up)
    moreover have "\<forall>y\<in>set (before (Frame d a c x u # fs)). fst y < k" "\<forall>y\<in>set (after (Frame d a c x u # fs)). k < fst y"
      using Bin.prems(3,4) sorted False by (auto simp: defs dest: less_trans)
    ultimately show ?thesis using Bin.IH(1) [of "Frame d a c x u # fs"] Bin.IH(2) [of "Frame d a c x u # fs"] run b
      by (cases "k < fst x") (simp_all add: defs)
  qed
qed
section \<open>Inserting\<close>

lemma attach_holds:
  assumes h: "holds t fs Tip" and fresh: "new \<notin> dom (cells t)"
    and key: "\<forall>x\<in>set (before fs). fst x < key" "\<forall>x\<in>set (after fs). key < fst x"
  shows "\<exists>t'. attach_node t (top_addr (m_leaf t) fs) new junk key val = Some t' \<and>
    holds t' fs (Bin new RED (key, val, rcount junk) Tip Tip) \<and> m_leaf t' = m_leaf t \<and> node_num t' = node_num t \<and>
    dom (cells t') = insert new (dom (cells t))"
proof -
  let ?lf = "m_leaf t" let ?x = "(key, val, rcount junk)"
  have leaf: "new \<noteq> ?lf" using h fresh by (auto simp: holds_alt leaf_ok_def)
  have node: "junk\<lparr>rkey := key, rvalue := val, rparent := p, rleft := ?lf, rright := ?lf, rcolor := RED\<rparr> = mk_node RED ?x p ?lf ?lf" for p
    by (simp add: mk_node_def)
  show ?thesis
  proof (cases fs)
    case Nil
    then show ?thesis using h leaf by (auto simp: attach_node_def modify_def holds_alt leaf_ok_def mk_node_def)
  next
    case (Cons f gs)
    obtain d p c x u where f: "f = Frame d p c x u" by (cases f)
    have p: "cells t p = Some (mk_side d c x (top_addr ?lf gs) ?lf (addr ?lf u))" "p \<noteq> ?lf" "p \<noteq> new"
      using h Cons f fresh by (auto simp: holds_alt mk_side_def)
    have side: "key < fst x \<longleftrightarrow> d = Lft" using key Cons f by (cases d) auto
    define t' where t': "t' = t\<lparr>cells := (cells t)(p \<mapsto> mk_side d c x (top_addr ?lf gs) new (addr ?lf u), new \<mapsto> mk_node RED ?x p ?lf ?lf)\<rparr>"
    have "attach_node t p new junk key val = Some t'"
      using p side by (cases d) (simp_all add: attach_node_def modify_def mk_side_def node t')
    moreover have "new \<notin> set (addrs u @ ctx_addrs gs)" using h Cons f fresh rep_dom ctx_rep_dom by (fastforce simp: holds_alt)
    then have "holds t' fs (Bin new RED ?x Tip Tip)" using h p leaf Cons f by (auto simp: holds_alt leaf_ok_def t' mk_side_def)
    moreover have "dom (cells t') = insert new (dom (cells t))" using p by (auto simp: t')
    ultimately show ?thesis using Cons f by (intro exI [of _ t']) (simp add: t')
  qed
qed
subsection \<open>The map a tree stands for\<close>

definition dict :: "('k \<times> 'v \<times> int) list \<Rightarrow> 'k \<rightharpoonup> 'v" where
  "dict xs = map_of (map (\<lambda>x. (fst x, fst (snd x))) xs)"

definition search_tree :: "('k::linorder, 'v) rb_tree \<Rightarrow> ('k, 'v) shape \<Rightarrow> bool" where
  "search_tree t s \<longleftrightarrow> holds t [] s \<and> sorted_wrt (<) (keys_of s) \<and> node_num t = int (length (entries s))"

definition rb_inv :: "('k::linorder, 'v) rb_tree \<Rightarrow> ('k, 'v) shape \<Rightarrow> bool" where
  "rb_inv t s \<longleftrightarrow> search_tree t s \<and> red_black s"

lemma rb_inv_search: "rb_inv t s \<Longrightarrow> search_tree t s"
  by (simp add: rb_inv_def)

lemma dict_append: "dict (xs @ ys) = dict ys ++ dict xs"
  by (simp add: dict_def)

lemma dict_none: "dict xs k = None \<longleftrightarrow> k \<notin> fst ` set xs"
  by (force simp: dict_def map_of_eq_None_iff)

lemma dict_middle:
  fixes k :: "'k::linorder"
  assumes "\<forall>x\<in>set xs. fst x < k"
  shows "dict (xs @ (k, v, n) # ys) = (dict (xs @ ys))(k \<mapsto> v)"
proof -
  have "dict xs k = None" using assms by (force simp: dict_none)
  moreover have "dict ((k, v, n) # ys) = (dict ys)(k \<mapsto> v)" by (simp add: dict_def)
  ultimately show ?thesis by (simp add: dict_append map_add_upd_left domIff)
qed

lemma dict_gap: "\<forall>x\<in>set xs. fst x < k \<Longrightarrow> \<forall>x\<in>set ys. k < fst x \<Longrightarrow> dict (xs @ ys) k = None" for k :: "'k::linorder"
  by (force simp: dict_none)

text \<open>Where the search ends, the entries are split at the key.\<close>

definition splits :: "'k::linorder \<Rightarrow> ('k, 'v) shape \<Rightarrow> ('k, 'v) frame list \<Rightarrow> ('k, 'v) shape \<Rightarrow> bool" where
  "splits k s fs s' \<longleftrightarrow> plug fs s' = s \<and> (\<forall>x\<in>set (before fs). fst x < k) \<and> (\<forall>x\<in>set (after fs). k < fst x) \<and>
    (case s' of Tip \<Rightarrow> dict (entries s) k = None
     | Bin a c x l r \<Rightarrow> fst x = k \<and> (\<forall>x\<in>set (entries l). fst x < k) \<and> (\<forall>x\<in>set (entries r). k < fst x) \<and>
         dict (entries s) k = Some (fst (snd x)))"

lemma seek_splits:
  assumes inv: "search_tree t s"
  shows "\<exists>fs s'. splits k s fs s' \<and> seek_loop t k (m_root t) (m_leaf t) = Some (seek_result (m_leaf t) fs s') \<and> holds t fs s'"
proof -
  have h: "holds t [] s" "sorted_wrt (<) (keys_of s)" using inv by (auto simp: search_tree_def)
  have root: "m_root t = addr (m_leaf t) s" using h by (simp add: holds_def)
  obtain fs s' where s': "plug fs s' = s" "\<forall>x\<in>set (before fs). fst x < k" "\<forall>x\<in>set (after fs). k < fst x" "root_is k s'"
      "seek_loop t k (m_root t) (m_leaf t) = Some (seek_result (m_leaf t) fs s')"
    using seek_loop_holds [of t "[]" s k] h root by auto
  have "splits k s fs s'"
  proof (cases s')
    case Tip
    then show ?thesis using s' dict_gap [OF s'(2,3)] entries_split [of fs Tip] by (auto simp: splits_def)
  next
    case (Bin a c x l r)
    obtain v n where x: "x = (k, v, n)" using s'(4) Bin by (cases x) auto
    have e: "entries s = (before fs @ entries l) @ (k, v, n) # (entries r @ after fs)" using s'(1) Bin x entries_split [of fs s'] by simp
    then have "\<forall>z\<in>set (before fs @ entries l). fst z < k" "\<forall>z\<in>set (entries r @ after fs). k < fst z"
      using h(2) by (auto simp: keys_of_def sorted_wrt_append)
    then show ?thesis using s' e Bin x dict_middle [of "before fs @ entries l" k v n "entries r @ after fs"] by (simp add: splits_def)
  qed
  moreover have "holds t fs s'" using h(1) s'(1) by (simp add: holds_def)
  ultimately show ?thesis using s'(5) by blast
qed

lemma rb_search_finds:
  assumes "search_tree t s"
  shows "rb_search t k = Some (case dict (entries s) k of None \<Rightarrow> (-1, None) | Some v \<Rightarrow> (0, Some v))"
proof -
  obtain fs s' where "splits k s fs s'" "seek_loop t k (m_root t) (m_leaf t) = Some (seek_result (m_leaf t) fs s')" "holds t fs s'"
    using seek_splits [OF assms, of k] by blast
  then show ?thesis by (cases s') (auto simp: rb_search_def splits_def holds_cell)
qed

subsection \<open>Inserting\<close>

lemma root_color_holds:
  assumes "holds t [] s" and "s \<noteq> Tip" and "balanced s"
  shows "\<exists>t' s'. set_color (m_root t) BLACK t = Some t' \<and> holds t' [] s' \<and> kept t t' \<and> red_black s' \<and> entries s' = entries s"
proof -
  obtain a c x l r where s: "s = bin Lft a c x l r" using shape_bin [OF assms(2), of Lft] by blast
  obtain t' where "set_color a BLACK t = Some t'" "holds t' [] (bin Lft a BLACK x l r)" "kept t t'"
    using set_color_holds assms(1) s by blast
  moreover have "m_root t = a" using assms(1) s by (simp add: holds_def)
  ultimately show ?thesis using assms(3) s by (intro exI [of _ t'] exI [of _ "Bin a BLACK x l r"]) (auto simp: red_black_def)
qed

lemma insert_node:
  assumes inv: "rb_inv t s" and split: "splits k s fs Tip" and h: "holds t fs Tip" and fresh: "new \<notin> dom (cells t)"
  shows "\<exists>t1 t2 s'. attach_node t (top_addr (m_leaf t) fs) new junk k v = Some t1 \<and> InsertFixup t1 new = Some t2 \<and>
    rb_inv (t2\<lparr>node_num := node_num t2 + 1\<rparr>) s' \<and> dict (entries s') = (dict (entries s))(k \<mapsto> v) \<and>
    m_leaf t2 = m_leaf t \<and> dom (cells t2) = insert new (dom (cells t)) \<and> node_num t2 = node_num t"
proof -
  let ?x = "(k, v, rcount junk)" let ?n = "Bin new RED ?x Tip Tip"
  have key: "\<forall>x\<in>set (before fs). fst x < k" "\<forall>x\<in>set (after fs). k < fst x" "plug fs Tip = s" using split by (auto simp: splits_def)
  obtain t1 where t1: "attach_node t (top_addr (m_leaf t) fs) new junk k v = Some t1" "holds t1 fs ?n" "m_leaf t1 = m_leaf t"
      "node_num t1 = node_num t" "dom (cells t1) = insert new (dom (cells t))"
    using attach_holds [OF h fresh key(1,2)] by blast
  have "ctx_ok 0 fs" using inv key(3) red_black_plug [of fs Tip] by (simp add: rb_inv_def search_tree_def)
  then obtain t2 s2 where t2: "insert_fixup_loop t1 new = Some t2" "holds t2 [] s2" "kept t1 t2" "balanced s2" "entries s2 = entries (plug fs ?n)"
    using insert_fixup_balances [OF t1(2)] by auto
  have "s2 \<noteq> Tip" using t2(5) by (auto simp: entries_split)
  then obtain t3 s' where t3: "set_color (m_root t2) BLACK t2 = Some t3" "holds t3 [] s'" "kept t2 t3" "red_black s'" "entries s' = entries s2"
    using root_color_holds [OF t2(2) _ t2(4)] by blast
  have e: "entries s = before fs @ after fs" "entries s' = before fs @ ?x # after fs" using key(3) t2(5) t3(5) entries_split [of fs Tip] by (auto simp: entries_split)
  have "sorted_wrt (<) (keys_of s')" using inv e key(1,2) by (auto simp: rb_inv_def search_tree_def keys_of_def sorted_wrt_append)
  then have "rb_inv (t3\<lparr>node_num := node_num t3 + 1\<rparr>) s'"
    using t3(2-4) t2(3) t1(4) inv e by (simp add: rb_inv_def search_tree_def kept_def holds_def leaf_ok_def)
  moreover have "dict (entries s') = (dict (entries s))(k \<mapsto> v)" using dict_middle [OF key(1)] e by simp
  ultimately show ?thesis using t1 t2 t3 by (intro exI [of _ t1] exI [of _ t3] exI [of _ s']) (simp add: InsertFixup_def kept_def)
qed
lemma cover_value:
  assumes inv: "rb_inv t s" and split: "splits k s fs (Bin a c (k, w, n) l r)" and h: "holds t fs (Bin a c (k, w, n) l r)"
  shows "\<exists>t' s'. modify a (\<lambda>n. n\<lparr>rvalue := v\<rparr>) t = Some t' \<and> rb_inv t' s' \<and> dict (entries s') = (dict (entries s))(k \<mapsto> v) \<and> kept t t'"
proof -
  obtain t' where t': "modify a (\<lambda>n. n\<lparr>rvalue := v\<rparr>) t = Some t'" "holds t' fs (Bin a c (k, v, n) l r)" "kept t t'"
    using modify_holds [of t fs Lft a c "(k, w, n)" l r "\<lambda>n. n\<lparr>rvalue := v\<rparr>" c "(k, v, n)"] h by (auto simp: mk_node_def)
  let ?s = "plug fs (Bin a c (k, v, n) l r)"
  have s: "plug fs (Bin a c (k, w, n) l r) = s" using split by (simp add: splits_def)
  have e: "entries ?s = (before fs @ entries l) @ (k, v, n) # (entries r @ after fs)"
      "entries s = (before fs @ entries l) @ (k, w, n) # (entries r @ after fs)"
    using s entries_split [of fs] by auto
  have lt: "\<forall>x\<in>set (before fs @ entries l). fst x < k" using split by (auto simp: splits_def)
  have "dict (entries ?s) = (dict (entries s))(k \<mapsto> v)" unfolding e dict_middle [OF lt] by simp
  moreover have "red_black ?s" using inv s red_black_plug [of fs "Bin a c (k, v, n) l r"] red_black_plug [of fs "Bin a c (k, w, n) l r"]
    by (cases c) (auto simp: rb_inv_def search_tree_def)
  moreover have "keys_of ?s = keys_of s" "length (entries ?s) = length (entries s)" by (simp_all add: keys_of_def e)
  ultimately have "rb_inv t' ?s" using t'(2,3) inv by (simp add: rb_inv_def search_tree_def kept_def holds_def)
  then show ?thesis using t' \<open>dict (entries ?s) = (dict (entries s))(k \<mapsto> v)\<close> by blast
qed

text \<open>What \<open>insert\<close> answers on a map; \<open>n\<close> is the number of nodes and \<open>got\<close> says whether the allocation of a node succeeds.\<close>

definition ref_insert :: "('k \<rightharpoonup> 'v) \<Rightarrow> int \<Rightarrow> 'k \<Rightarrow> 'v \<Rightarrow> bool \<Rightarrow> bool \<Rightarrow> int \<times> ('k \<rightharpoonup> 'v)" where
  "ref_insert m n k v cover_flag got =
     (if n > MAX_TREE_SIZE then (-10, m)
      else if m k \<noteq> None then (1, if cover_flag then m(k \<mapsto> v) else m)
      else if \<not> got then (-1, m)
      else (0, m(k \<mapsto> v)))"

lemma rb_insert_keeps:
  assumes inv: "rb_inv t s" and fresh: "\<forall>m. mem = Some m \<longrightarrow> fst m \<notin> dom (cells t)"
  shows "\<exists>r t' s'. rb_insert t k v cover False mem = Some (r, t') \<and> rb_inv t' s' \<and>
    ref_insert (dict (entries s)) (node_num t) k v cover (mem \<noteq> None) = (r, dict (entries s')) \<and>
    dom (cells t') = (if r = 0 then insert (fst (the mem)) (dom (cells t)) else dom (cells t))"
proof (cases "node_num t > MAX_TREE_SIZE")
  case True
  then show ?thesis using inv by (intro exI [of _ "-10"] exI [of _ t] exI [of _ s]) (auto simp: rb_insert_def ref_insert_def)
next
  case small: False
  obtain fs s' where s': "splits k s fs s'" "seek_loop t k (m_root t) (m_leaf t) = Some (seek_result (m_leaf t) fs s')" "holds t fs s'"
    using seek_splits [OF rb_inv_search [OF inv], of k] by blast
  show ?thesis
  proof (cases s')
    case Tip
    then have none: "dict (entries s) k = None" using s'(1) by (simp add: splits_def)
    show ?thesis
    proof (cases mem)
      case None
      then show ?thesis using small s' Tip none inv
        by (intro exI [of _ "-1"] exI [of _ t] exI [of _ s]) (auto simp: rb_insert_def ref_insert_def)
    next
      case (Some am)
      obtain a junk where am: "am = (a, junk)" by (cases am)
      then show ?thesis
        using insert_node [OF inv s'(1,3) [unfolded Tip], of a junk v] fresh Some small s' Tip none
        by (fastforce simp: rb_insert_def ref_insert_def)
    qed
  next
    case (Bin a c x l r)
    obtain w n where x: "x = (k, w, n)" using s'(1) Bin by (cases x) (auto simp: splits_def)
    have cell: "\<exists>n. cells t a = Some n" using holds_cell [of t fs a] s'(3) Bin by simp
    have some: "dict (entries s) k = Some w" using s'(1) Bin x by (auto simp: splits_def)
    show ?thesis
    proof (cases cover)
      case False
      then show ?thesis using small s' Bin x some inv cell
        by (intro exI [of _ 1] exI [of _ t] exI [of _ s]) (auto simp: rb_insert_def ref_insert_def)
    next
      case True
      then show ?thesis using cover_value [OF inv s'(1,3) [unfolded Bin x], of v] small s' Bin x some cell
        by (fastforce simp: rb_insert_def ref_insert_def kept_def)
    qed
  qed
qed
section \<open>A tree that grows is a map\<close>

text \<open>
  A client of the tree. The results of the coming allocations are part of its state: addresses with the contents of the memory
  there, or failures.
\<close>

datatype ('k, 'v) rb_call = RInsert 'k 'v bool | RSearch 'k | RSize

type_synonym ('k, 'v) rb_client = "('k, 'v) rb_tree \<times> (nat \<times> ('k, 'v) rb_node) option list"

definition next_mem :: "'m option list \<Rightarrow> 'm option" where
  "next_mem pool = (case pool of [] \<Rightarrow> None | m # _ \<Rightarrow> m)"

fun rb_step :: "('k::linorder, 'v) rb_call \<Rightarrow> ('k, 'v) rb_client \<Rightarrow> ((int \<times> 'v option) \<times> ('k, 'v) rb_client) option" where
  "rb_step (RInsert k v cover) (t, pool) = do {
     (r, t') \<leftarrow> rb_insert t k v cover False (next_mem pool);
     Some ((r, None), (t', if r \<in> {0, -1} then tl pool else pool)) }"
| "rb_step (RSearch k) (t, pool) = do { r \<leftarrow> rb_search t k; Some (r, (t, pool)) }"
| "rb_step RSize (t, pool) = Some ((rb_size t, None), (t, pool))"

text \<open>The same on a map.\<close>

fun rb_ref_step :: "('k, 'v) rb_call \<Rightarrow> ('k \<rightharpoonup> 'v) \<times> bool list \<Rightarrow> (int \<times> 'v option) \<times> ('k \<rightharpoonup> 'v) \<times> bool list" where
  "rb_ref_step (RInsert k v cover) (m, gots) =
     (case ref_insert m (int (card (dom m))) k v cover (gots \<noteq> [] \<and> hd gots) of
        (r, m') \<Rightarrow> ((r, None), (m', if r \<in> {0, -1} then tl gots else gots)))"
| "rb_ref_step (RSearch k) (m, gots) = ((case m k of None \<Rightarrow> (-1, None) | Some v \<Rightarrow> (0, Some v)), (m, gots))"
| "rb_ref_step RSize (m, gots) = ((int (card (dom m)), None), (m, gots))"

fun pool_addrs :: "(nat \<times> ('k, 'v) rb_node) option list \<Rightarrow> nat list" where
  "pool_addrs [] = []"
| "pool_addrs (None # pool) = pool_addrs pool"
| "pool_addrs (Some m # pool) = fst m # pool_addrs pool"

definition client_ok :: "('k::linorder, 'v) rb_client \<Rightarrow> bool" where
  "client_ok c \<longleftrightarrow> (\<exists>s. rb_inv (fst c) s) \<and> distinct (pool_addrs (snd c)) \<and> set (pool_addrs (snd c)) \<inter> dom (cells (fst c)) = {}"

definition tree_dict :: "('k::linorder, 'v) rb_tree \<Rightarrow> 'k \<rightharpoonup> 'v" where
  "tree_dict t k = (case rb_search t k of Some (_, r) \<Rightarrow> r | None \<Rightarrow> None)"

definition client_map :: "('k::linorder, 'v) rb_client \<Rightarrow> ('k \<rightharpoonup> 'v) \<times> bool list" where
  "client_map c = (tree_dict (fst c), map (\<lambda>m. m \<noteq> None) (snd c))"

lemma tree_dict_entries: "search_tree t s \<Longrightarrow> tree_dict t = dict (entries s)"
  by (rule ext) (auto simp: tree_dict_def rb_search_finds split: option.splits)

lemma card_dict: "sorted_wrt (<) (keys_of s) \<Longrightarrow> card (dom (dict (entries s))) = length (entries s)" for s :: "('k::linorder, 'v) shape"
proof -
  assume "sorted_wrt (<) (keys_of s)"
  then have "distinct (map fst (entries s))" by (simp add: keys_of_def strict_sorted_iff)
  moreover have "dom (dict (entries s)) = fst ` set (entries s)" by (auto simp: dict_def dom_map_of_conv_image_fst image_image)
  ultimately show ?thesis using distinct_card [of "map fst (entries s)"] by simp
qed

lemma rb_step_refines:
  assumes ok: "client_ok c"
  shows "\<exists>r c'. rb_step q c = Some (r, c') \<and> client_ok c' \<and> rb_ref_step q (client_map c) = (r, client_map c')"
proof -
  obtain t pool where c: "c = (t, pool)" by (cases c)
  obtain s where s: "rb_inv t s" using ok c by (auto simp: client_ok_def)
  have m: "tree_dict t = dict (entries s)" using tree_dict_entries [OF rb_inv_search [OF s]] .
  have n: "node_num t = int (card (dom (dict (entries s))))" using s by (simp add: rb_inv_def search_tree_def card_dict)
  show ?thesis
  proof (cases q)
    case (RInsert k v cover)
    have fresh: "\<forall>m. next_mem pool = Some m \<longrightarrow> fst m \<notin> dom (cells t)"
      using ok c by (cases pool; cases "hd pool") (auto simp: next_mem_def client_ok_def)
    obtain r t' s' where ins: "rb_insert t k v cover False (next_mem pool) = Some (r, t')" "rb_inv t' s'"
        "ref_insert (dict (entries s)) (node_num t) k v cover (next_mem pool \<noteq> None) = (r, dict (entries s'))"
        "dom (cells t') = (if r = 0 then insert (fst (the (next_mem pool))) (dom (cells t)) else dom (cells t))"
      using rb_insert_keeps [where mem = "next_mem pool" and k = k and v = v and cover = cover, OF s fresh] by (elim exE conjE) (rule that)
    have got: "(map (\<lambda>m. m \<noteq> None) pool \<noteq> [] \<and> hd (map (\<lambda>m. m \<noteq> None) pool)) = (next_mem pool \<noteq> None)"
      by (cases pool) (auto simp: next_mem_def)
    have "client_ok (t', if r \<in> {0, -1} then tl pool else pool)"
    proof -
      have zero: "next_mem pool \<noteq> None" if "r = 0" using that ins(3) by (auto simp: ref_insert_def split: if_splits)
      show ?thesis using ok c ins(2,4) zero by (cases pool; cases "hd pool") (auto simp: client_ok_def next_mem_def split: if_splits)
    qed
    moreover have "rb_ref_step q (client_map c) = ((r, None), client_map (t', if r \<in> {0, -1} then tl pool else pool))"
      using ins(3) c m n got tree_dict_entries [OF rb_inv_search [OF ins(2)]] RInsert by (simp add: client_map_def map_tl)
    ultimately show ?thesis using ins(1) RInsert c by auto
  next
    case (RSearch k)
    then show ?thesis using ok c rb_search_finds [OF rb_inv_search [OF s], of k] m by (auto simp: client_map_def)
  next
    case RSize
    then show ?thesis using ok c m n by (auto simp: client_map_def rb_size_def)
  qed
qed
interpretation rb_calls: call_refinement rb_step rb_ref_step client_ok client_map
  by unfold_locales (rule rb_step_refines)

lemma new_QRedBlackTree_ok:
  "\<exists>t. new_QRedBlackTree (Some (a, junk)) = Some t \<and> rb_inv t Tip \<and> dom (cells t) = {a} \<and> tree_dict t = Map.empty"
proof -
  define t where t: "t = \<lparr>cells = [a \<mapsto> junk\<lparr>rcolor := BLACK, rcount := 1, rparent := a, rleft := a, rright := a\<rparr>],
    m_root = a, m_leaf = a, node_num = 0\<rparr>"
  have "rb_inv t Tip" by (simp add: t rb_inv_def search_tree_def holds_def leaf_ok_def red_black_def keys_of_def)
  moreover from this have "tree_dict t = Map.empty" using tree_dict_entries [OF rb_inv_search, of t Tip] by (simp add: dict_def)
  ultimately show ?thesis by (simp add: new_QRedBlackTree_def t)
qed

text \<open>The height of a tree and the two walks over all nodes.\<close>

fun height :: "('k, 'v) shape \<Rightarrow> nat" where
  "height Tip = 0"
| "height (Bin a c x l r) = Suc (max (height l) (height r))"

lemma height_black: "balanced s \<Longrightarrow> height s \<le> 2 * black_height s + (if root_color s = RED then 1 else 0)"
  by (induction s) (auto split: if_splits)

lemma black_size: "balanced s \<Longrightarrow> 2 ^ black_height s \<le> Suc (length (entries s))"
  by (induction s) auto

lemma height_bound:
  assumes "red_black s"
  shows "2 ^ height s \<le> (length (entries s) + 1) ^ 2"
proof -
  have "height s \<le> 2 * black_height s" using assms height_black [of s] by (simp add: red_black_def)
  then have "(2::nat) ^ height s \<le> 2 ^ (2 * black_height s)" by (intro power_increasing) simp_all
  also have "\<dots> = (2 ^ black_height s) ^ 2" by (simp add: power_mult mult.commute)
  also have "\<dots> \<le> (length (entries s) + 1) ^ 2" using assms black_size [of s] by (intro power_mono) (simp_all add: red_black_def)
  finally show ?thesis .
qed

lemma GetTreeSize_counts: "holds t fs s \<Longrightarrow> GetTreeSize t (addr (m_leaf t) s) k = Some (k + int (length (entries s)))"
proof (induction s arbitrary: fs k)
  case Tip
  then show ?case by (subst GetTreeSize.simps) simp
next
  case (Bin a c x l r)
  have b: "holds t fs (bin Lft a c x l r)" using Bin.prems by simp
  have "holds t (Frame Lft a c x r # fs) l" "holds t (Frame Rgt a c x l # fs) r" using Bin.prems by (simp_all add: holds_up)
  then have "GetTreeSize t (addr (m_leaf t) l) j = Some (j + int (length (entries l)))"
      "GetTreeSize t (addr (m_leaf t) r) j = Some (j + int (length (entries r)))" for j
    using Bin.IH by auto
  then show ?case using holds_bin [OF b] by (subst GetTreeSize.simps) simp
qed

lemma OutputHeight_even:
  "holds t fs s \<Longrightarrow> balanced s \<Longrightarrow>
    OutputHeight t (addr (m_leaf t) s) h = Some (replicate (Suc (length (entries s))) (h + int (black_height s)))"
proof (induction s arbitrary: fs h)
  case Tip
  then show ?case by (subst OutputHeight.simps) simp
next
  case (Bin a c x l r)
  have "holds t (Frame Lft a c x r # fs) l" "holds t (Frame Rgt a c x l # fs) r" using Bin.prems by (simp_all add: holds_up)
  then have "OutputHeight t (addr (m_leaf t) l) j = Some (replicate (Suc (length (entries l))) (j + int (black_height l)))"
      "OutputHeight t (addr (m_leaf t) r) j = Some (replicate (Suc (length (entries r))) (j + int (black_height r)))" for j
    using Bin.IH Bin.prems(2) by auto
  then show ?case using holds_cell [OF Bin.prems(1)] Bin.prems(2)
    by (subst OutputHeight.simps) (simp add: replicate_add [symmetric] replicate_app_Cons_same)
qed
text \<open>C31: A \<open>QRedBlackTree\<close> that is created and then receives any sequence of insertions (covering or not) and searches is a well-formed
  red-black tree, whatever the uninitialised memory contains and whichever allocations fail: the pointers form a search tree,
  no red node has a red child, every path has the same number of black nodes, the counter \<open>node_num\<close> and \<open>GetTreeSize\<close> are the number of
  nodes \<open>n\<close>, \<open>OutputHeight\<close> prints one and the same number at all leaves, and the height is at most \<open>2 log (n + 1)\<close>. The allocator
  returns addresses that are not in use.
\<close>

theorem QRedBlackTree_well_formed:
  assumes "distinct (a # pool_addrs pool)"
  shows "\<exists>t rs t' pool' s. new_QRedBlackTree (Some (a, junk)) = Some t \<and> run_calls rb_step cs (t, pool) = Some (rs, (t', pool')) \<and>
    rb_inv t' s \<and> rb_size t' = int (length (entries s)) \<and> GetTreeSize t' (m_root t') 0 = Some (rb_size t') \<and>
    OutputHeight t' (m_root t') 0 = Some (replicate (length (entries s) + 1) (int (black_height s))) \<and>
    2 ^ height s \<le> (length (entries s) + 1) ^ 2"
proof -
  obtain t where t: "new_QRedBlackTree (Some (a, junk)) = Some t" "rb_inv t Tip" "dom (cells t) = {a}"
    using new_QRedBlackTree_ok [of a junk] by blast
  then have "client_ok (t, pool)" using assms by (auto simp: client_ok_def)
  then obtain rs c where run: "run_calls rb_step cs (t, pool) = Some (rs, c)" "client_ok c" using rb_calls.runs by blast
  then obtain s where s: "rb_inv (fst c) s" by (auto simp: client_ok_def)
  have "holds (fst c) [] s" "red_black s" "rb_size (fst c) = int (length (entries s))" using s by (auto simp: rb_inv_def search_tree_def rb_size_def)
  then show ?thesis
    using t(1) run(1) s GetTreeSize_counts [of "fst c" "[]" s 0] OutputHeight_even [of "fst c" "[]" s 0] height_bound [of s]
    by (cases c) (auto simp: holds_def red_black_def simp del: replicate_Suc)
qed

theorem QRedBlackTree_well_formed_witness:
  "\<exists>t rs t' pool' s. new_QRedBlackTree (Some (0, mk_node RED (0 :: int, 0 :: int, 77) 5 5 5)) = Some t \<and>
    run_calls rb_step [RInsert 1 2 False, RInsert 3 4 False] (t, [Some (1, mk_node RED (0, 0, 9) 8 8 8), None]) = Some (rs, (t', pool')) \<and>
    rb_inv t' s"
  using QRedBlackTree_well_formed [of 0 "[Some (1, mk_node RED (0, 0, 9) 8 8 8), None]"
      "mk_node RED (0 :: int, 0 :: int, 77) 5 5 5" "[RInsert 1 2 False, RInsert 3 4 False]"]
  by auto



end
