(* ===== verification/Red_Black_Remove.thy ===== *)
theory Red_Black_Remove
  imports Red_Black
begin

text \<open>
  Removal from the red-black tree of \<open>include/common/qredblacktree.h\<close>. From a red-black tree \<open>remove\<close> returns, and the map loses
  exactly the key. The colours are not repaired when the loop of \<open>DeleteFixup\<close> meets a red brother on the left, and the last section shows what
  this does to later insertions.
\<close>

section \<open>The steps of DeleteFixup\<close>

text \<open>A place in the tree; when the subtree there is empty, the shared leaf points to the parent.\<close>

definition hole :: "('k, 'v) rb_tree \<Rightarrow> ('k, 'v) frame list \<Rightarrow> ('k, 'v) shape \<Rightarrow> bool" where
  "hole t fs s \<longleftrightarrow> holds t fs s \<and> (s = Tip \<longrightarrow> parent_at t (m_leaf t) = Some (top_addr (m_leaf t) fs))"

definition same_nodes :: "('k, 'v) shape \<Rightarrow> ('k, 'v) shape \<Rightarrow> bool" where
  "same_nodes s s' \<longleftrightarrow> entries s' = entries s \<and> set (addrs s') = set (addrs s)"

fun paint :: "node_color \<Rightarrow> ('k, 'v) shape \<Rightarrow> ('k, 'v) shape" where
  "paint c Tip = Tip"
| "paint c (Bin a c' x l r) = Bin a c x l r"

lemma same_nodes_refl [simp]: "same_nodes s s"
  by (simp add: same_nodes_def)

lemma same_nodes_trans: "same_nodes s s' \<Longrightarrow> same_nodes s' s'' \<Longrightarrow> same_nodes s s''"
  by (simp add: same_nodes_def)

lemma addrs_plug_set: "set (addrs (plug fs s)) = set (addrs s) \<union> set (ctx_addrs fs)"
  using addrs_plug [of fs s] by (metis set_mset_mset set_mset_union)

lemma same_nodes_plug: "same_nodes s s' \<Longrightarrow> same_nodes (plug fs s) (plug fs s')"
  by (simp add: same_nodes_def entries_split addrs_plug_set)

lemma same_nodes_bin: "same_nodes s s' \<Longrightarrow> same_nodes u u' \<Longrightarrow> same_nodes (bin d a c x s u) (bin d a c' x s' u')"
  by (cases d) (simp_all add: same_nodes_def)

lemma same_nodes_rotate: "same_nodes (bin d a c x A (bin d b e y B C)) (bin d b e' y (bin d a c' x A B) C)"
  by (cases d) (auto simp: same_nodes_def)

lemma same_nodes_paint [simp]: "same_nodes s (paint c s)"
  by (cases s) (simp_all add: same_nodes_def)

lemma plug_append: "plug (fs @ gs) s = plug gs (plug fs s)"
proof (induction fs arbitrary: s)
  case (Cons f fs)
  then show ?case by (cases f) simp
qed simp

lemma hole_parent: "hole t fs s \<Longrightarrow> parent_at t (addr (m_leaf t) s) = Some (top_addr (m_leaf t) fs)"
  by (cases s) (auto simp: hole_def holds_cell parent_at_def)

lemma hole_kept: "hole t fs s \<Longrightarrow> holds t' fs' s \<Longrightarrow> kept t t' \<Longrightarrow> top_addr (m_leaf t) fs' = top_addr (m_leaf t) fs \<Longrightarrow> hole t' fs' s"
  by (auto simp: hole_def kept_def parent_at_def)

lemma red_brother_holds:
  assumes h: "hole t (Frame d p c x (bin d b RED y B C) # gs) s"
  shows "\<exists>t'. red_brother d t (addr (m_leaf t) s) b = Some (t', addr (m_leaf t) B) \<and>
    hole t' (Frame d p RED x B # Frame d b (if d = Lft then BLACK else RED) y C # gs) s \<and> kept t t'"
proof -
  let ?n = "addr (m_leaf t) s" let ?cb = "if d = Lft then BLACK else RED"
  have "holds t (Frame (opp d) p c x s # gs) (bin d b RED y B C)" using h by (simp add: hole_def holds_up)
  then obtain t1 where t1: "(if d = Lft then set_color b BLACK t else Some t) = Some t1"
      "holds t1 (Frame (opp d) p c x s # gs) (bin d b ?cb y B C)" "kept t t1"
    using set_color_holds [of t "Frame (opp d) p c x s # gs" d b RED y B C BLACK] by (cases d) auto
  have h1: "hole t1 (Frame d p c x (bin d b ?cb y B C) # gs) s" using hole_kept [OF h _ t1(3)] t1(2) by (simp add: holds_up)
  obtain t2 where t2: "set_color p RED t1 = Some t2" "holds t2 gs (bin d p RED x s (bin d b ?cb y B C))" "kept t1 t2"
    using set_color_holds [of t1 gs d p c x s _ RED] h1 by (auto simp: hole_def holds_up)
  have h2: "hole t2 (Frame d p RED x (bin d b ?cb y B C) # gs) s" using hole_kept [OF h1 _ t2(3)] t2(2) by (simp add: holds_up)
  obtain t3 where t3: "rotate_node d t2 p = Some t3" "holds t3 gs (bin d b ?cb y (bin d p RED x s B) C)" "kept t2 t3"
    using rotate_holds [OF t2(2)] by blast
  have h3: "hole t3 (Frame d p RED x B # Frame d b ?cb y C # gs) s" using hole_kept [OF h2 _ t3(3)] t3(2) by (simp add: holds_up)
  have leaf: "m_leaf t1 = m_leaf t" "m_leaf t2 = m_leaf t" "m_leaf t3 = m_leaf t" using t1(3) t2(3) t3(3) by (simp_all add: kept_def)
  have "child_at (opp d) t3 p = Some (addr (m_leaf t) B)"
    using holds_bin(5) [of t3 "Frame d b ?cb y C # gs" d p RED x s B] t3(2) leaf by (simp add: holds_up)
  then show ?thesis
    using t1 t2 t3 h3 leaf hole_parent [OF h1] hole_parent [OF h2] hole_parent [OF h3]
    by (intro exI [of _ t3]) (auto simp: red_brother_def intro: kept_trans)
qed
lemma inner_nephew_holds:
  assumes h: "hole t (Frame d p c x (bin d b BLACK y (bin d q RED z D E) C) # gs) s"
  shows "\<exists>t' cq cb. inner_nephew d t (addr (m_leaf t) s) b = Some (t', q) \<and>
    hole t' (Frame d p c x (bin d q cq z D (bin d b cb y E C)) # gs) s \<and> kept t t'"
proof -
  let ?fs = "Frame (opp d) p c x s # gs"
  have hb: "holds t ?fs (bin d b BLACK y (bin d q RED z D E) C)" using h by (simp add: hole_def holds_up)
  have "\<exists>t1 cb cq. (if d = Lft then do { t \<leftarrow> set_color b RED t; inner \<leftarrow> child_at d t b; set_color inner BLACK t } else Some t) = Some t1 \<and>
      holds t1 ?fs (bin d b cb y (bin d q cq z D E) C) \<and> kept t t1"
  proof (cases "d = Lft")
    case True
    obtain t1 where t1: "set_color b RED t = Some t1" "holds t1 ?fs (bin d b RED y (bin d q RED z D E) C)" "kept t t1"
      using set_color_holds [OF hb] by blast
    obtain t2 where t2: "set_color q BLACK t1 = Some t2" "holds t2 (Frame d b RED y C # ?fs) (bin d q BLACK z D E)" "kept t1 t2"
      using set_color_holds [of t1 "Frame d b RED y C # ?fs" d q RED z D E BLACK] t1(2) by (auto simp: holds_up)
    then show ?thesis using True t1 holds_bin(4) [OF t1(2)]
      by (intro exI [of _ t2] exI [of _ RED] exI [of _ BLACK]) (auto simp: holds_up intro: kept_trans)
  next
    case False
    then show ?thesis using hb by (intro exI [of _ t] exI [of _ BLACK] exI [of _ RED]) simp
  qed
  then obtain t1 cb cq where t1: "(if d = Lft then do { t \<leftarrow> set_color b RED t; inner \<leftarrow> child_at d t b; set_color inner BLACK t } else Some t) = Some t1"
      "holds t1 ?fs (bin (opp d) b cb y C (bin (opp d) q cq z E D))" "kept t t1"
    by auto
  obtain t2 where t2: "rotate_node (opp d) t1 b = Some t2" "holds t2 ?fs (bin d q cq z D (bin d b cb y E C))" "kept t1 t2"
    using rotate_holds [OF t1(2)] by auto
  have k: "kept t t2" using t1(3) t2(3) by (rule kept_trans)
  have h2: "hole t2 (Frame d p c x (bin d q cq z D (bin d b cb y E C)) # gs) s" using hole_kept [OF h _ k] t2(2) by (simp add: holds_up)
  have "child_at (opp d) t2 p = Some q"
    using holds_bin(5) [of t2 gs d p c x s "bin d q cq z D (bin d b cb y E C)"] t2(2) by (simp add: holds_up)
  then show ?thesis using t1(1) t2(1) k h2 hole_parent [OF h2]
    by (intro exI [of _ t2] exI [of _ cq] exI [of _ cb]) (simp add: inner_nephew_def kept_def)
qed

lemma last_rotation_holds:
  assumes h: "holds t gs (bin d p c x s (bin d b cb y B C))" and C: "C \<noteq> Tip"
  shows "\<exists>t'. last_rotation d t b = Some t' \<and> holds t' gs (bin d b c y (bin d p BLACK x s B) (paint BLACK C)) \<and> kept t t'"
proof -
  let ?fs = "Frame (opp d) p c x s # gs" let ?fs' = "Frame (opp d) p BLACK x s # gs"
  obtain q cq z l r where C: "C = Bin q cq z l r" using C by (cases C) auto
  have hb: "holds t ?fs (bin d b cb y B C)" using h by (simp add: holds_up)
  obtain t1 where t1: "set_color b c t = Some t1" "holds t1 gs (bin d p c x s (bin d b c y B C))" "kept t t1"
    using set_color_holds [OF hb, of c] by (auto simp: holds_up)
  obtain t2 where t2: "set_color p BLACK t1 = Some t2" "holds t2 gs (bin d p BLACK x s (bin d b c y B C))" "kept t1 t2"
    using set_color_holds [OF t1(2)] by blast
  have "holds t2 (Frame (opp d) b c y B # ?fs') (bin Lft q cq z l r)" using t2(2) C by (simp add: holds_up)
  then obtain t3 where t3: "set_color q BLACK t2 = Some t3" "holds t3 gs (bin d p BLACK x s (bin d b c y B (paint BLACK C)))" "kept t2 t3"
    using set_color_holds [of t2 "Frame (opp d) b c y B # ?fs'" Lft q cq z l r BLACK] C by (auto simp: holds_up)
  obtain t4 where t4: "rotate_node d t3 p = Some t4" "holds t4 gs (bin d b c y (bin d p BLACK x s B) (paint BLACK C))" "kept t3 t4"
    using rotate_holds [OF t3(2)] by blast
  have b: "holds t1 ?fs (bin d b c y B C)" "holds t2 ?fs' (bin d b c y B C)" "holds t3 ?fs' (bin d b c y B (paint BLACK C))"
    using t1(2) t2(2) t3(2) by (simp_all add: holds_up)
  have "child_at (opp d) t2 b = Some q" using holds_bin(5) [OF b(2)] C by simp
  then show ?thesis
    using t1 t2 t3 t4 holds_bin(2) [OF hb] holds_bin(3) [OF h] holds_bin(2) [OF b(1)] holds_bin(2) [OF b(2)] holds_bin(2) [OF b(3)]
    by (intro exI [of _ t4]) (auto simp: last_rotation_def intro: kept_trans)
qed
lemma nephew_colors:
  assumes "holds t fs (bin d b c y B C)"
  shows "\<exists>l r cl cr. child_at Lft t b = Some l \<and> color_at t l = Some cl \<and> child_at Rgt t b = Some r \<and> color_at t r = Some cr \<and>
    (cl = BLACK \<and> cr = BLACK \<longleftrightarrow> root_color B = BLACK \<and> root_color C = BLACK)"
  using assms holds_bin(4,5) [OF assms] holds_color [of t "Frame d b c y C # fs" B] holds_color [OF holds_sibling [OF assms]]
  by (cases d) (auto simp: holds_up)

lemma black_brother_holds:
  assumes h: "hole t (Frame d p c x (bin d b BLACK y B C) # gs) s"
  shows "\<exists>t' n s'. black_brother d t (addr (m_leaf t) s) b = Some (t', n) \<and> kept t t' \<and> holds t' gs s' \<and>
    same_nodes (bin d p c x s (bin d b BLACK y B C)) s' \<and>
    (if root_color B = BLACK \<and> root_color C = BLACK then n = p \<and> s' = bin d p c x s (bin d b RED y B C) else n = m_root t')"
proof -
  have hb: "holds t (Frame (opp d) p c x s # gs) (bin d b BLACK y B C)" using h by (simp add: hole_def holds_up)
  obtain l r cl cr where neph: "child_at Lft t b = Some l" "color_at t l = Some cl" "child_at Rgt t b = Some r" "color_at t r = Some cr"
      "cl = BLACK \<and> cr = BLACK \<longleftrightarrow> root_color B = BLACK \<and> root_color C = BLACK"
    using nephew_colors [OF hb] by blast
  have outer: "child_at (opp d) t b = Some (addr (m_leaf t) C)" "color_at t (addr (m_leaf t) C) = Some (root_color C)"
    using holds_bin(5) [OF hb] holds_color [OF holds_sibling [OF hb]] by simp_all
  show ?thesis
  proof (cases "root_color B = BLACK \<and> root_color C = BLACK")
    case True
    obtain t' where t': "set_color b RED t = Some t'" "holds t' gs (bin d p c x s (bin d b RED y B C))" "kept t t'"
      using set_color_holds [OF hb, of RED] by (auto simp: holds_up)
    have "hole t' (Frame d p c x (bin d b RED y B C) # gs) s" using hole_kept [OF h _ t'(3)] t'(2) by (simp add: holds_up)
    then have "parent_at t' (addr (m_leaf t) s) = Some p" using hole_parent t'(3) by (fastforce simp: kept_def)
    then show ?thesis using True t' neph
      by (intro exI [of _ t'] exI [of _ p] exI [of _ "bin d p c x s (bin d b RED y B C)"]) (simp add: black_brother_def same_nodes_bin)
  next
    case False
    have run: "black_brother d t (addr (m_leaf t) s) b = do {
        (t, brother) \<leftarrow> (if root_color C = BLACK then inner_nephew d t (addr (m_leaf t) s) b else Some (t, b));
        t \<leftarrow> last_rotation d t brother;
        Some (t, m_root t) }"
      using neph outer False by (auto simp: black_brother_def)
    show ?thesis
    proof (cases "root_color C = BLACK")
      case True
      then have "B \<noteq> Tip" using False by auto
      then obtain q cq z D E where "B = bin d q cq z D E" using shape_bin by blast
      then have B: "B = bin d q RED z D E" using False True by simp
      obtain t1 cq cb where t1: "inner_nephew d t (addr (m_leaf t) s) b = Some (t1, q)"
          "holds t1 gs (bin d p c x s (bin d q cq z D (bin d b cb y E C)))" "kept t t1"
        using inner_nephew_holds [OF h [unfolded B]] by (auto simp: hole_def holds_up)
      have "bin d b cb y E C \<noteq> Tip" by (cases d) simp_all
      then obtain t2 where t2: "last_rotation d t1 q = Some t2"
          "holds t2 gs (bin d q c z (bin d p BLACK x s D) (paint BLACK (bin d b cb y E C)))" "kept t1 t2"
        using last_rotation_holds [OF t1(2)] by blast
      have "same_nodes (bin d p c x s (bin d b BLACK y B C)) (bin d q c z (bin d p BLACK x s D) (paint BLACK (bin d b cb y E C)))"
        by (cases d) (auto simp: B same_nodes_def)
      then show ?thesis using run True False t1 t2 by (intro exI [of _ t2] exI [of _ "m_root t2"]) (auto intro: kept_trans)
    next
      case red: False
      then have "C \<noteq> Tip" by auto
      then obtain t1 where t1: "last_rotation d t b = Some t1" "holds t1 gs (bin d b c y (bin d p BLACK x s B) (paint BLACK C))" "kept t t1"
        using last_rotation_holds [of t gs d p c x s b BLACK y B C] h by (auto simp: hole_def holds_up)
      have "same_nodes (bin d p c x s (bin d b BLACK y B C)) (bin d b c y (bin d p BLACK x s B) (paint BLACK C))"
        by (rule same_nodes_trans [OF same_nodes_rotate same_nodes_bin [OF same_nodes_refl same_nodes_paint]])
      then show ?thesis using run red t1 by (intro exI [of _ t1] exI [of _ "m_root t1"]) auto
    qed
  qed
qed
section \<open>The loop of DeleteFixup\<close>

lemma loop_at_root: "holds t fs s \<Longrightarrow> delete_fixup_loop t (m_root t) = Some (t, m_root t)"
  using holds_color [of t "[]" "plug fs s"] by (subst delete_fixup_loop.simps) (simp add: holds_def)

lemma root_in: "holds t [] s \<Longrightarrow> m_root t = m_leaf t \<or> m_root t \<in> set (addrs s)"
  by (cases s) (auto simp: holds_def)

lemma balanced_Tip: "black_height u = Suc n \<Longrightarrow> u \<noteq> Tip"
  by auto

lemma ctx_root_in: "fs \<noteq> [] \<Longrightarrow> ctx_root b fs \<in> set (ctx_addrs fs)"
proof (induction fs arbitrary: b)
  case (Cons f fs)
  then show ?case by (cases f; cases "fs = []") auto
qed simp

lemma below_root:
  assumes "holds t fs s" and "fs \<noteq> []"
  shows "addr (m_leaf t) s \<noteq> m_root t"
proof -
  have "m_root t \<in> set (ctx_addrs fs)" using assms ctx_root_in by (simp add: holds_alt)
  moreover have "m_leaf t \<notin> set (ctx_addrs fs)" "set (addrs s) \<inter> set (ctx_addrs fs) = {}" using assms ctx_rep_leaf by (auto simp: holds_alt)
  ultimately show ?thesis using addr_in [of s] by (cases s) auto
qed

lemma delete_fixup_turn:
  assumes h: "hole t (Frame d p c x u # gs) s" and u: "u \<noteq> Tip" and s: "root_color s = BLACK"
  shows "delete_fixup_loop t (addr (m_leaf t) s) = do {
    (t', brother) \<leftarrow> (if root_color u = RED then red_brother d t (addr (m_leaf t) s) (addr (m_leaf t) u) else Some (t, addr (m_leaf t) u));
    (t', node) \<leftarrow> black_brother d t' (addr (m_leaf t) s) brother;
    delete_fixup_loop t' node }"
proof -
  let ?n = "addr (m_leaf t) s"
  have hp: "holds t gs (bin d p c x s u)" and hs: "holds t (Frame d p c x u # gs) s" using h by (simp_all add: hole_def holds_up)
  have reads: "color_at t ?n = Some BLACK" "parent_at t ?n = Some p" "child_at (opp d) t p = Some (addr (m_leaf t) u)"
      "color_at t (addr (m_leaf t) u) = Some (root_color u)"
    using holds_color [OF hs] s hole_parent [OF h] holds_bin(5) [OF hp] holds_color [OF holds_sibling [OF hp]] by simp_all
  have "holds t gs (bin (opp d) p c x u s)" using hp by simp
  then have "addr (m_leaf t) u \<noteq> ?n" using holds_apart u by blast
  then obtain l where "child_at Lft t p = Some l" "(if ?n = l then Lft else Rgt) = d" using holds_bin(4,5) [OF hp] by (cases d) auto
  moreover have "?n \<noteq> m_root t" using below_root [OF hs] by simp
  ultimately show ?thesis using reads by (subst delete_fixup_loop.simps) (cases "?n = l"; simp cong: if_cong)
qed
lemma loop_at_red: "holds t fs s \<Longrightarrow> root_color s = RED \<Longrightarrow> delete_fixup_loop t (addr (m_leaf t) s) = Some (t, addr (m_leaf t) s)"
  using holds_color [of t fs s] by (subst delete_fixup_loop.simps) simp

lemma addr_plug_in: "s \<noteq> Tip \<Longrightarrow> addr lf s \<in> set (addrs (plug fs s))"
  using addr_in [of s lf] by (simp add: addrs_plug_set)

text \<open>A red brother ends the loop: after the rotation the parent is red.\<close>

lemma fixup_red_brother:
  assumes h: "hole t (Frame d p c x (bin d b RED y (bin d e BLACK z D E) C) # gs) s" and s: "root_color s = BLACK"
  shows "\<exists>t' n s'. delete_fixup_loop t (addr (m_leaf t) s) = Some (t', n) \<and> holds t' [] s' \<and> kept t t' \<and>
    same_nodes (plug gs (bin d p c x s (bin d b RED y (bin d e BLACK z D E) C))) s' \<and> (n = m_leaf t \<or> n \<in> set (addrs s'))"
proof -
  let ?B = "bin d e BLACK z D E" let ?f = "Frame d b (if d = Lft then BLACK else RED) y C"
  obtain t1 where t1: "red_brother d t (addr (m_leaf t) s) b = Some (t1, e)" "hole t1 (Frame d p RED x ?B # ?f # gs) s" "kept t t1"
    using red_brother_holds [OF h] by auto
  have leaf: "m_leaf t1 = m_leaf t" using t1(3) by (simp add: kept_def)
  obtain t2 n s2 where t2: "black_brother d t1 (addr (m_leaf t) s) e = Some (t2, n)" "kept t1 t2" "holds t2 (?f # gs) s2"
      "same_nodes (bin d p RED x s ?B) s2"
      "if root_color D = BLACK \<and> root_color E = BLACK then n = p \<and> s2 = bin d p RED x s (bin d e RED z D E) else n = m_root t2"
    using black_brother_holds [OF t1(2)] leaf by auto
  have "delete_fixup_loop t2 n = Some (t2, n)"
    using t2(5) loop_at_red [OF t2(3)] loop_at_root [OF t2(3)] by (auto split: if_splits)
  moreover have "bin d b RED y ?B C \<noteq> Tip" by (cases d) simp_all
  ultimately have run: "delete_fixup_loop t (addr (m_leaf t) s) = Some (t2, n)"
    using delete_fixup_turn [OF h _ s] t1(1) t2(1) by simp
  have tree: "holds t2 [] (plug (?f # gs) s2)" using t2(3) by (simp add: holds_def)
  have "same_nodes (bin d p c x s (bin d b RED y ?B C)) (bin d b (if d = Lft then BLACK else RED) y s2 C)"
    by (rule same_nodes_trans [OF same_nodes_rotate same_nodes_bin [OF t2(4) same_nodes_refl]])
  then have "same_nodes (plug gs (bin d p c x s (bin d b RED y ?B C))) (plug (?f # gs) s2)" using same_nodes_plug by auto
  moreover have "n = m_leaf t \<or> n \<in> set (addrs (plug (?f # gs) s2))"
  proof (cases "root_color D = BLACK \<and> root_color E = BLACK")
    case True
    then have "s2 \<noteq> Tip" "addr (m_leaf t) s2 = n" using t2(5) by (cases d; simp)+
    then show ?thesis using addr_plug_in by blast
  next
    case False
    then show ?thesis using t2(2,5) root_in [OF tree] leaf by (auto simp: kept_def)
  qed
  ultimately show ?thesis using run tree kept_trans [OF t1(3) t2(2)] by blast
qed

lemma delete_fixup_runs:
  assumes "hole t fs s" and "balanced (paint BLACK s)" and "ctx_ok (Suc (black_height s)) fs"
  shows "\<exists>t' n s'. delete_fixup_loop t (addr (m_leaf t) s) = Some (t', n) \<and> holds t' [] s' \<and> kept t t' \<and> same_nodes (plug fs s) s' \<and>
    (n = m_leaf t \<or> n \<in> set (addrs s'))"
  using assms
proof (induction "length fs" arbitrary: t fs s rule: less_induct)
  case less
  have hs: "holds t fs s" "holds t [] (plug fs s)" using less.prems(1) by (simp_all add: hole_def holds_def)
  show ?case
  proof (cases "fs = [] \<or> root_color s = RED")
    case True
    have "addr (m_leaf t) s = m_root t" if "fs = []" using hs(1) that by (simp add: holds_def)
    then have "delete_fixup_loop t (addr (m_leaf t) s) = Some (t, addr (m_leaf t) s)"
      using True loop_at_red [OF hs(1)] loop_at_root [OF hs(1)] by auto
    moreover have "addr (m_leaf t) s = m_leaf t \<or> addr (m_leaf t) s \<in> set (addrs (plug fs s))"
      using addr_plug_in [of s] by (cases s) simp_all
    ultimately show ?thesis using hs(2) kept_refl same_nodes_refl by blast
  next
    case False
    then obtain d p c x u gs where fs: "fs = Frame d p c x u # gs" by (cases fs; cases "hd fs") auto
    have s: "root_color s = BLACK" "balanced s" using False less.prems(2) by (cases s; auto)+
    have u: "balanced u" "black_height u = Suc (black_height s)" "u \<noteq> Tip"
        "ctx_ok (Suc (black_height s) + (if c = BLACK then 1 else 0)) gs"
      using less.prems(3) fs by auto
    obtain b cu y B C where ub: "u = bin d b cu y B C" using shape_bin [OF u(3)] by blast
    note h = less.prems(1) [unfolded fs ub]
    show ?thesis
    proof (cases cu)
      case RED
      have "black_height B = Suc (black_height s)" "root_color B = BLACK" using u RED ub by (auto simp: black_height_bin)
      moreover from this obtain e ce z D E where "B = bin d e ce z D E" using shape_bin [OF balanced_Tip] by blast
      ultimately have "B = bin d e BLACK z D E" by simp
      then show ?thesis using fixup_red_brother [of t d p c x b y e z D E C gs s] h s(1) RED ub fs by auto
    next
      case BLACK
      then have BC: "black_height B = black_height s" "black_height C = black_height s" "balanced B" "balanced C"
        using u ub by (auto simp: black_height_bin)
      obtain t1 n s1 where t1: "black_brother d t (addr (m_leaf t) s) b = Some (t1, n)" "kept t t1" "holds t1 gs s1"
          "same_nodes (bin d p c x s (bin d b BLACK y B C)) s1"
          "if root_color B = BLACK \<and> root_color C = BLACK then n = p \<and> s1 = bin d p c x s (bin d b RED y B C) else n = m_root t1"
        using black_brother_holds [OF h [unfolded BLACK]] by blast
      have run: "delete_fixup_loop t (addr (m_leaf t) s) = delete_fixup_loop t1 n"
        using delete_fixup_turn [OF less.prems(1) [unfolded fs] u(3) s(1)] t1(1) ub BLACK by simp
      have nodes: "same_nodes (plug fs s) (plug gs s1)" using same_nodes_plug [OF t1(4)] fs ub BLACK by simp
      have leaf: "m_leaf t1 = m_leaf t" using t1(2) by (simp add: kept_def)
      show ?thesis
      proof (cases "root_color B = BLACK \<and> root_color C = BLACK")
        case True
        then have s1: "n = p" "s1 = bin d p c x s (bin d b RED y B C)" using t1(5) by simp_all
        have "hole t1 gs s1" using t1(3) s1 by (cases d) (simp_all add: hole_def)
        moreover have "balanced (paint BLACK s1)" using s1 s BC True by (cases d) (simp_all add: black_height_bin)
        moreover have "ctx_ok (Suc (black_height s1)) gs" using u(4) s1 BC by (simp add: black_height_bin)
        ultimately obtain t' n' s' where "delete_fixup_loop t1 (addr (m_leaf t1) s1) = Some (t', n')" "holds t' [] s'" "kept t1 t'"
            "same_nodes (plug gs s1) s'" "n' = m_leaf t1 \<or> n' \<in> set (addrs s')"
          using less.hyps [of gs t1 s1] fs by auto
        then show ?thesis using run s1 nodes t1(2) leaf same_nodes_trans kept_trans by (metis bin_simps(1))
      next
        case False
        have tree: "holds t1 [] (plug gs s1)" using t1(3) by (simp add: holds_def)
        have n: "n = m_root t1" using t1(5) False by simp
        then have "delete_fixup_loop t1 n = Some (t1, n)" using loop_at_root [OF t1(3)] by simp
        then show ?thesis using run nodes t1(2) tree n leaf root_in [OF tree] by auto
      qed
    qed
  qed
qed
text \<open>The last assignment of \<open>DeleteFixup\<close> makes some node black, or the leaf, which is black.\<close>

lemma node_at: "n \<in> set (addrs s) \<Longrightarrow> \<exists>fs c x l r. plug fs (Bin n c x l r) = s"
proof (induction s)
  case (Bin a c x l r)
  consider "n = a" | "n \<in> set (addrs l)" | "n \<in> set (addrs r)" using Bin.prems by auto
  then show ?case
  proof cases
    case 1
    then show ?thesis by (intro exI [of _ "[]"]) simp
  next
    case 2
    then obtain fs c' x' l' r' where "plug fs (Bin n c' x' l' r') = l" using Bin.IH(1) by blast
    then have "plug (fs @ [Frame Lft a c x r]) (Bin n c' x' l' r') = Bin a c x l r" by (simp add: plug_append)
    then show ?thesis by blast
  next
    case 3
    then obtain fs c' x' l' r' where "plug fs (Bin n c' x' l' r') = r" using Bin.IH(2) by blast
    then have "plug (fs @ [Frame Rgt a c x l]) (Bin n c' x' l' r') = Bin a c x l r" by (simp add: plug_append)
    then show ?thesis by blast
  qed
qed simp

lemma set_black_holds:
  assumes h: "holds t [] s" and n: "n = m_leaf t \<or> n \<in> set (addrs s)"
  shows "\<exists>t' s'. set_color n BLACK t = Some t' \<and> holds t' [] s' \<and> same_nodes s s' \<and> kept t t'"
  using n
proof
  assume n: "n = m_leaf t"
  obtain m where m: "cells t (m_leaf t) = Some m" "rcolor m = BLACK" using h by (auto simp: holds_def leaf_ok_def)
  then have "m\<lparr>rcolor := BLACK\<rparr> = m" by (cases m) simp
  then have "set_color n BLACK t = Some t" using m n by (simp add: set_color_def modify_def fun_upd_idem)
  then show ?thesis using h kept_refl same_nodes_refl by blast
next
  assume "n \<in> set (addrs s)"
  then obtain fs c x l r where s: "plug fs (Bin n c x l r) = s" using node_at by blast
  then have "holds t fs (bin Lft n c x l r)" using h by (simp add: holds_def)
  then obtain t' where "set_color n BLACK t = Some t'" "holds t' fs (bin Lft n BLACK x l r)" "kept t t'" using set_color_holds by blast
  moreover have "same_nodes (plug fs (Bin n c x l r)) (plug fs (Bin n BLACK x l r))"
    by (rule same_nodes_plug) (simp add: same_nodes_def)
  ultimately show ?thesis using s by (intro exI [of _ t'] exI [of _ "plug fs (Bin n BLACK x l r)"]) (simp add: holds_def)
qed

lemma DeleteFixup_runs:
  assumes "hole t fs s" and "balanced (paint BLACK s)" and "ctx_ok (Suc (black_height s)) fs"
  shows "\<exists>t' s'. DeleteFixup t (addr (m_leaf t) s) = Some t' \<and> holds t' [] s' \<and> kept t t' \<and> same_nodes (plug fs s) s'"
proof -
  obtain t1 n s1 where t1: "delete_fixup_loop t (addr (m_leaf t) s) = Some (t1, n)" "holds t1 [] s1" "kept t t1" "same_nodes (plug fs s) s1"
      "n = m_leaf t \<or> n \<in> set (addrs s1)"
    using delete_fixup_runs [OF assms] by blast
  then obtain t' s' where "set_color n BLACK t1 = Some t'" "holds t' [] s'" "same_nodes s1 s'" "kept t1 t'"
    using set_black_holds [of t1 s1 n] by (auto simp: kept_def)
  then show ?thesis using t1 same_nodes_trans kept_trans by (intro exI [of _ t'] exI [of _ s']) (auto simp: DeleteFixup_def)
qed
section \<open>Taking a node out\<close>

text \<open>The node that leaves the tree stays in the store until \<open>remove\<close> frees it.\<close>

lemma detach_holds:
  assumes h: "holds t fs (bin d del c x Tip r)"
  shows "\<exists>t1 t2. modify (addr (m_leaf t) r) (\<lambda>n. n\<lparr>rparent := top_addr (m_leaf t) fs\<rparr>) t = Some t1 \<and>
    parent_at t1 del = Some (top_addr (m_leaf t) fs) \<and> relink (top_addr (m_leaf t) fs) del (addr (m_leaf t) r) t1 = Some t2 \<and>
    hole t2 fs r \<and> cells t2 del = cells t del \<and> m_leaf t2 = m_leaf t \<and> node_num t2 = node_num t \<and> dom (cells t2) = dom (cells t)"
proof -
  let ?lf = "m_leaf t" let ?p = "top_addr ?lf fs" let ?cur = "addr ?lf r"
  note hh = h [unfolded holds_alt rep_bin]
  have cell: "cells t del = Some (mk_side d c x ?p ?lf ?cur)" using hh by simp
  have apart: "del \<noteq> ?lf" "del \<notin> set (addrs r)" "del \<notin> set (ctx_addrs fs)" "?lf \<notin> set (ctx_addrs fs)" "?lf \<notin> set (addrs r)"
      "distinct (ctx_addrs fs)" "distinct (addrs r)" "set (addrs r) \<inter> set (ctx_addrs fs) = {}"
    using hh ctx_rep_leaf [of "cells t" ?lf fs del] rep_leaf [of "cells t" ?lf del r] by (auto simp: distinct_bin)
  have cur: "?cur \<noteq> del" "?cur \<notin> set (ctx_addrs fs)" using apart addr_in [of r ?lf] by (cases r; auto)+
  obtain n0 where n0: "cells t ?lf = Some n0" "rcolor n0 = BLACK" "rleft n0 = ?lf" "rright n0 = ?lf" using hh by (auto simp: leaf_ok_def)
  obtain m where m: "cells t ?cur = Some m" using hh n0 by (cases r) auto
  define t1 where t1: "t1 = t\<lparr>cells := (cells t)(?cur \<mapsto> m\<lparr>rparent := ?p\<rparr>)\<rparr>"
  have "ctx_rep (cells t1) ?lf fs del" using hh cur by (simp add: t1)
  then obtain t2 where t2: "relink ?p del ?cur t1 = Some t2" "ctx_rep (cells t2) ?lf fs ?cur" "m_root t2 = ctx_root ?cur fs" "m_leaf t2 = ?lf"
      "node_num t2 = node_num t" "dom (cells t2) = dom (cells t1)" "\<And>z. z \<notin> set (ctx_addrs fs) \<Longrightarrow> cells t2 z = cells t1 z"
    using relink_ctx [of t1 fs del ?cur] hh apart by (auto simp: t1)
  have rep2: "rep (cells t2) ?lf ?p r"
  proof (rule rep_rehang)
    show "rep (cells t) ?lf del r" "distinct (addrs r)" using hh apart by simp_all
    show "cells t2 z = cells t z" if "z \<in> set (addrs r)" "z \<noteq> ?cur" for z using that t2(7) [of z] apart(8) by (auto simp: t1)
    show "cells t2 ?cur = Some ((the (cells t ?cur))\<lparr>rparent := ?p\<rparr>)" using t2(7) [OF cur(2)] m by (simp add: t1)
  qed
  have leaf2: "cells t2 ?lf = Some (if r = Tip then n0\<lparr>rparent := ?p\<rparr> else n0)"
    using t2(7) [OF apart(4)] n0 m apart(5) addr_in [of r ?lf] by (cases "r = Tip") (auto simp: t1)
  have "hole t2 fs r" using t2 rep2 leaf2 n0 apart by (auto simp: hole_def holds_alt leaf_ok_def parent_at_def)
  moreover have "cells t2 del = cells t del" "parent_at t1 del = Some ?p" using t2(7) [OF apart(3)] cur cell by (auto simp: t1 parent_at_def)
  ultimately show ?thesis using t2 m by (intro exI [of _ t1] exI [of _ t2]) (auto simp: modify_def t1)
qed

lemma addr_not_leaf: "holds t fs s \<Longrightarrow> s \<noteq> Tip \<Longrightarrow> addr (m_leaf t) s \<noteq> m_leaf t"
  by (cases s) (simp_all add: holds_cell(2))

lemma leftmost_holds:
  assumes "holds t fs s" and "s \<noteq> Tip"
  shows "\<exists>ls a c x r. leftmost_loop t (addr (m_leaf t) s) = Some a \<and> plug ls (Bin a c x Tip r) = s \<and> before ls = []"
  using assms
proof (induction s arbitrary: fs)
  case (Bin a c x l r)
  have read: "child_at Lft t a = Some (addr (m_leaf t) l)" using holds_bin(4) [of t fs Lft a] Bin.prems(1) by simp
  show ?case
  proof (cases "l = Tip")
    case True
    then have "leftmost_loop t a = Some a" using read by (subst leftmost_loop.simps) simp
    then show ?thesis using True by (intro exI [of _ "[]"]) auto
  next
    case False
    have hl: "holds t (Frame Lft a c x r # fs) l" using Bin.prems(1) by (simp add: holds_up)
    then have "addr (m_leaf t) l \<noteq> m_leaf t" using False by (rule addr_not_leaf)
    then have "leftmost_loop t a = leftmost_loop t (addr (m_leaf t) l)" using read by (subst leftmost_loop.simps) simp
    moreover obtain ls b c' x' r' where "leftmost_loop t (addr (m_leaf t) l) = Some b" "plug ls (Bin b c' x' Tip r') = l" "before ls = []"
      using Bin.IH(1) [OF hl False] by blast
    moreover have "before (ls @ gs) = before gs @ before ls" for gs by (induction ls rule: before.induct) simp_all
    ultimately show ?thesis by (intro exI [of _ "ls @ [Frame Lft a c x r]"] exI [of _ b] exI [of _ c'] exI [of _ x'] exI [of _ r']) (auto simp: plug_append)
  qed
qed simp
lemma unlink_one_child:
  assumes h: "holds t fs (bin d n c x Tip r)"
  shows "\<exists>t'. unlink_node t n = Some (t', n, addr (m_leaf t) r) \<and> hole t' fs r \<and> cells t' n = cells t n \<and> m_leaf t' = m_leaf t \<and>
    node_num t' = node_num t \<and> dom (cells t') = dom (cells t)"
proof -
  let ?p = "top_addr (m_leaf t) fs"
  obtain t1 t2 where t2: "modify (addr (m_leaf t) r) (\<lambda>n. n\<lparr>rparent := ?p\<rparr>) t = Some t1" "parent_at t1 n = Some ?p"
      "relink ?p n (addr (m_leaf t) r) t1 = Some t2" "hole t2 fs r" "cells t2 n = cells t n" "m_leaf t2 = m_leaf t" "node_num t2 = node_num t"
      "dom (cells t2) = dom (cells t)"
    using detach_holds [OF h] by blast
  have "child_at d t n = Some (m_leaf t)" "child_at (opp d) t n = Some (addr (m_leaf t) r)" "parent_at t n = Some ?p"
    using holds_bin [OF h] by simp_all
  then have "unlink_node t n = Some (t2, n, addr (m_leaf t) r)"
    using t2(1-3) by (cases d) (auto simp: unlink_node_def)
  then show ?thesis using t2 by blast
qed

lemma unlink_two_children:
  assumes h: "holds t fs (Bin n c x l r)" and "l \<noteq> Tip" and "r \<noteq> Tip"
  shows "\<exists>t' ls a ca xa ra. plug ls (Bin a ca xa Tip ra) = r \<and> before ls = [] \<and> unlink_node t n = Some (t', a, addr (m_leaf t) ra) \<and>
    hole t' (ls @ Frame Rgt n c x l # fs) ra \<and> cells t' a = cells t a \<and> holds t (ls @ Frame Rgt n c x l # fs) (Bin a ca xa Tip ra) \<and>
    m_leaf t' = m_leaf t \<and> node_num t' = node_num t \<and> dom (cells t') = dom (cells t)"
proof -
  have hr: "holds t (Frame Rgt n c x l # fs) r" and hl: "holds t (Frame Lft n c x r # fs) l" using h by (simp_all add: holds_up)
  obtain ls a ca xa ra where lm: "leftmost_loop t (addr (m_leaf t) r) = Some a" "plug ls (Bin a ca xa Tip ra) = r" "before ls = []"
    using leftmost_holds [OF hr assms(3)] by blast
  let ?fs = "ls @ Frame Rgt n c x l # fs" let ?p = "top_addr (m_leaf t) ?fs"
  have ha: "holds t ?fs (bin Lft a ca xa Tip ra)" using hr lm(2) by (simp add: holds_def plug_append)
  obtain t1 t2 where t2: "modify (addr (m_leaf t) ra) (\<lambda>n. n\<lparr>rparent := ?p\<rparr>) t = Some t1" "parent_at t1 a = Some ?p"
      "relink ?p a (addr (m_leaf t) ra) t1 = Some t2" "hole t2 ?fs ra" "cells t2 a = cells t a" "m_leaf t2 = m_leaf t" "node_num t2 = node_num t"
      "dom (cells t2) = dom (cells t)"
    using detach_holds [OF ha] by blast
  have "addr (m_leaf t) l \<noteq> m_leaf t" "addr (m_leaf t) r \<noteq> m_leaf t" using addr_not_leaf [OF hl] addr_not_leaf [OF hr] assms(2,3) by simp_all
  moreover have "child_at Lft t n = Some (addr (m_leaf t) l)" "child_at Rgt t n = Some (addr (m_leaf t) r)"
    using holds_bin(4,5) [of t fs Lft n c x l r] h by simp_all
  moreover have "child_at Lft t a = Some (m_leaf t)" "child_at Rgt t a = Some (addr (m_leaf t) ra)" "parent_at t a = Some ?p"
    using holds_bin(2,4,5) [OF ha] by simp_all
  ultimately have "unlink_node t n = Some (t2, a, addr (m_leaf t) ra)" using t2(1-3) lm(1) by (simp add: unlink_node_def)
  then show ?thesis using t2 lm ha
    by (intro exI [of _ t2] exI [of _ ls] exI [of _ a] exI [of _ ca] exI [of _ xa] exI [of _ ra]) simp
qed

lemma free_holds:
  assumes "holds t [] s" and "a \<notin> set (addrs s)" and "a \<noteq> m_leaf t"
  shows "holds (t\<lparr>cells := (cells t)(a := None), node_num := n\<rparr>) [] s"
proof -
  have "rep ((cells t)(a := None)) lf p s = rep (cells t) lf p s" for lf p using assms(2) by (intro rep_cong) auto
  then show ?thesis using assms(1,3) by (auto simp: holds_def leaf_ok_def)
qed

text \<open>From the node that was taken out to the end of \<open>remove\<close>.\<close>

lemma fixup_and_free:
  assumes h: "hole t fs r" and ok: "c = BLACK \<longrightarrow> balanced r \<and> ctx_ok (Suc (black_height r)) fs"
    and del: "del \<notin> set (addrs (plug fs r))" "del \<noteq> m_leaf t"
  shows "\<exists>t' s'. (if c = BLACK then DeleteFixup t (addr (m_leaf t) r) else Some t) = Some t' \<and>
    holds (t'\<lparr>cells := (cells t')(del := None), node_num := node_num t' - 1\<rparr>) [] s' \<and> same_nodes (plug fs r) s' \<and> node_num t' = node_num t"
proof -
  have "\<exists>t' s'. (if c = BLACK then DeleteFixup t (addr (m_leaf t) r) else Some t) = Some t' \<and> holds t' [] s' \<and> kept t t' \<and> same_nodes (plug fs r) s'"
  proof (cases c)
    case RED
    then show ?thesis using h by (intro exI [of _ t] exI [of _ "plug fs r"]) (auto simp: hole_def holds_def)
  next
    case BLACK
    then have "balanced (paint BLACK r)" using ok by (cases r) auto
    then show ?thesis using DeleteFixup_runs [OF h] ok BLACK by simp
  qed
  then obtain t' s' where *: "(if c = BLACK then DeleteFixup t (addr (m_leaf t) r) else Some t) = Some t'" "holds t' [] s'" "kept t t'"
      "same_nodes (plug fs r) s'" by blast
  then have "holds (t'\<lparr>cells := (cells t')(del := None), node_num := node_num t' - 1\<rparr>) [] s'"
    using del by (intro free_holds) (auto simp: same_nodes_def kept_def)
  then show ?thesis using * by (auto simp: kept_def)
qed
section \<open>Removing a key\<close>

definition kv :: "'k \<times> 'v \<times> int \<Rightarrow> 'k \<times> 'v" where
  "kv x = (fst x, fst (snd x))"

lemma plug_hole_distinct: "holds t fs (bin d n c x Tip r) \<Longrightarrow> n \<notin> set (addrs (plug fs r))"
  by (auto simp: holds_alt distinct_bin addrs_plug_set)

lemma remove_one_child:
  assumes h: "holds t fs (bin d n c x Tip r)" and rb: "red_black (plug fs (bin d n c x Tip r))"
  shows "\<exists>t' s'. remove_at t n = Some (0, t') \<and> holds t' [] s' \<and> node_num t' = node_num t - 1 \<and> entries s' = before fs @ entries r @ after fs"
proof -
  obtain t1 where t1: "unlink_node t n = Some (t1, n, addr (m_leaf t) r)" "hole t1 fs r" "cells t1 n = cells t n" "m_leaf t1 = m_leaf t"
      "node_num t1 = node_num t"
    using unlink_one_child [OF h] by blast
  have "color_at t1 n = Some c" using t1(3) holds_bin(3) [OF h] by (simp add: color_at_def)
  moreover have ok: "c = BLACK \<longrightarrow> balanced r \<and> ctx_ok (Suc (black_height r)) fs"
    using rb red_black_plug [of fs "bin d n c x Tip r"] by (auto simp: black_height_bin)
  have "n \<noteq> m_leaf t1" using holds_bin(1) [OF h] t1(4) by simp
  then obtain t2 s' where "(if c = BLACK then DeleteFixup t1 (addr (m_leaf t1) r) else Some t1) = Some t2"
      "holds (t2\<lparr>cells := (cells t2)(n := None), node_num := node_num t2 - 1\<rparr>) [] s'" "same_nodes (plug fs r) s'" "node_num t2 = node_num t1"
    using fixup_and_free [OF t1(2) ok plug_hole_distinct [OF h]] by blast
  moreover obtain dn where "cells t1 n = Some dn" using calculation(1) by (cases "cells t1 n") (auto simp: color_at_def)
  ultimately show ?thesis using t1 by (intro exI [of _ "t2\<lparr>cells := (cells t2)(n := None), node_num := node_num t2 - 1\<rparr>"] exI [of _ s'])
    (auto simp: remove_at_def same_nodes_def entries_split)
qed

lemma ctx_ok_payload: "ctx_ok k (ls @ Frame d n c x l # fs) = ctx_ok k (ls @ Frame d n c x' l # fs)"
proof (induction ls arbitrary: k)
  case (Cons f ls)
  then show ?case by (cases f; cases ls) auto
qed simp

lemma top_payload: "top_addr lf (ls @ Frame d n c x l # fs) = top_addr lf (ls @ Frame d n c x' l # fs)"
  by (cases ls) simp_all

lemma after_append: "after (ls @ gs) = after ls @ after gs" "before (ls @ gs) = before gs @ before ls"
  by (induction ls rule: after.induct) simp_all

lemma remove_two_children:
  assumes h: "holds t fs (Bin n c x l r)" and rb: "red_black (plug fs (Bin n c x l r))" and lr: "l \<noteq> Tip" "r \<noteq> Tip"
  shows "\<exists>t' s'. remove_at t n = Some (0, t') \<and> holds t' [] s' \<and> node_num t' = node_num t - 1 \<and>
    map kv (entries s') = map kv (before fs @ entries l @ entries r @ after fs)"
proof -
  obtain t1 ls a ca xa ra where t1: "plug ls (Bin a ca xa Tip ra) = r" "before ls = []" "unlink_node t n = Some (t1, a, addr (m_leaf t) ra)"
      "hole t1 (ls @ Frame Rgt n c x l # fs) ra" "cells t1 a = cells t a" "holds t (ls @ Frame Rgt n c x l # fs) (bin Lft a ca xa Tip ra)"
      "m_leaf t1 = m_leaf t" "node_num t1 = node_num t"
    using unlink_two_children [OF h lr] by auto
  define x' where x': "x' = (fst xa, fst (snd xa), snd (snd x))"
  let ?fs = "ls @ Frame Rgt n c x l # fs" let ?fs' = "ls @ Frame Rgt n c x' l # fs"
  obtain dn where dn: "cells t1 a = Some dn" "rkey dn = fst xa" "rvalue dn = fst (snd xa)" "rcolor dn = ca"
    using t1(5) holds_cell(1) [of t ?fs a] t1(6) by auto
  have "holds t1 fs (bin Rgt n c x (plug ls ra) l)" using t1(4) by (simp add: hole_def holds_def plug_append)
  then obtain t2 where t2: "modify n (\<lambda>n. n\<lparr>rkey := rkey dn, rvalue := rvalue dn\<rparr>) t1 = Some t2" "holds t2 fs (bin Rgt n c x' (plug ls ra) l)" "kept t1 t2"
    using modify_holds [of t1 fs Rgt n c x "plug ls ra" l "\<lambda>n. n\<lparr>rkey := rkey dn, rvalue := rvalue dn\<rparr>" c x'] dn
    by (auto simp: mk_node_def x')
  have "holds t2 ?fs' ra" using t2(2) by (simp add: holds_def plug_append)
  then have h2: "hole t2 ?fs' ra" using hole_kept [OF t1(4) _ t2(3)] top_payload by blast
  have a: "a \<noteq> n" "a \<noteq> m_leaf t" "a \<notin> set (addrs (plug ?fs' ra))"
    using t1(6) plug_hole_distinct [OF t1(6)] holds_bin(1) [OF t1(6)] by (auto simp: addrs_plug_set plug_append)
  have col: "color_at t2 a = Some ca" using t2(1) a(1) dn by (auto simp: modify_def color_at_def split: Option.bind_splits)
  have ok: "ca = BLACK \<longrightarrow> balanced ra \<and> ctx_ok (Suc (black_height ra)) ?fs'"
  proof
    assume "ca = BLACK"
    then show "balanced ra \<and> ctx_ok (Suc (black_height ra)) ?fs'"
      using rb red_black_plug [of ?fs "bin Lft a ca xa Tip ra"] t1(1) ctx_ok_payload [of _ ls Rgt n c x l fs x']
      by (auto simp: plug_append black_height_bin)
  qed
  have leaf: "m_leaf t2 = m_leaf t" "node_num t2 = node_num t" using t1(7,8) t2(3) by (simp_all add: kept_def)
  then have "a \<noteq> m_leaf t2" using a(2) by simp
  then obtain t3 s' where t3: "(if ca = BLACK then DeleteFixup t2 (addr (m_leaf t2) ra) else Some t2) = Some t3"
      "holds (t3\<lparr>cells := (cells t3)(a := None), node_num := node_num t3 - 1\<rparr>) [] s'" "same_nodes (plug ?fs' ra) s'" "node_num t3 = node_num t2"
    using fixup_and_free [OF h2 ok a(3)] by blast
  have "entries r = xa # entries ra @ after ls" using t1(1,2) entries_split [of ls "Bin a ca xa Tip ra"] by simp
  then have "map kv (entries s') = map kv (before fs @ entries l @ entries r @ after fs)"
    using t3(3) t1(2) by (simp add: same_nodes_def entries_split after_append kv_def x')
  then show ?thesis using t1(3) t2(1) t3 a(1) col dn(1) leaf
    by (intro exI [of _ "t3\<lparr>cells := (cells t3)(a := None), node_num := node_num t3 - 1\<rparr>"] exI [of _ s']) (auto simp: remove_at_def)
qed
lemma dict_kv: "dict xs = map_of (map kv xs)"
  by (simp add: dict_def kv_def [abs_def])

lemma remove_at_removes:
  assumes inv: "rb_inv t s" and split: "splits k s fs (Bin n c x l r)" and h: "holds t fs (Bin n c x l r)"
  shows "\<exists>t' s'. remove_at t n = Some (0, t') \<and> search_tree t' s' \<and> dict (entries s') = (dict (entries s))(k := None)"
proof -
  let ?xs = "before fs @ entries l" let ?ys = "entries r @ after fs"
  have s: "plug fs (Bin n c x l r) = s" using split by (simp add: splits_def)
  have rb: "red_black (plug fs (Bin n c x l r))" using inv s by (simp add: rb_inv_def)
  obtain v i where x: "x = (k, v, i)" using split by (cases x) (auto simp: splits_def)
  have e: "entries s = ?xs @ (k, v, i) # ?ys" using s x entries_split [of fs "Bin n c x l r"] by simp
  have lt: "\<forall>y\<in>set ?xs. fst y < k" and gt: "\<forall>y\<in>set ?ys. k < fst y" using split by (auto simp: splits_def)
  have "\<exists>t' s'. remove_at t n = Some (0, t') \<and> holds t' [] s' \<and> node_num t' = node_num t - 1 \<and> map kv (entries s') = map kv (?xs @ ?ys)"
  proof (cases "l = Tip \<or> r = Tip")
    case True
    then consider "l = Tip" | "r = Tip" by blast
    then show ?thesis
    proof cases
      case 1
      then show ?thesis using remove_one_child [of t fs Lft n c x r] h rb by fastforce
    next
      case 2
      then show ?thesis using remove_one_child [of t fs Rgt n c x l] h rb by fastforce
    qed
  next
    case False
    then show ?thesis using remove_two_children [OF h rb] by simp
  qed
  then obtain t' s' where t': "remove_at t n = Some (0, t')" "holds t' [] s'" "node_num t' = node_num t - 1" "map kv (entries s') = map kv (?xs @ ?ys)"
    by blast
  have "map fst (map kv zs) = map fst zs" for zs :: "('a \<times> 'b \<times> int) list" by (simp add: kv_def)
  then have keys: "keys_of s' = map fst ?xs @ map fst ?ys" using t'(4) by (metis keys_of_def map_append)
  have "length (entries s') = length (?xs @ ?ys)" using t'(4) by (metis length_map)
  moreover have "sorted_wrt (<) (keys_of s')" using inv keys by (simp add: rb_inv_def search_tree_def keys_of_def e sorted_wrt_append)
  ultimately have "search_tree t' s'" using t'(2,3) inv e by (simp add: rb_inv_def search_tree_def)
  moreover have "dict (entries s') = (dict (entries s))(k := None)"
    using dict_middle [OF lt, of v i ?ys] dict_gap [OF lt gt] by (simp add: dict_kv t'(4) e fun_upd_idem)
  ultimately show ?thesis using t'(1) by blast
qed

lemma rb_remove_removes:
  assumes inv: "rb_inv t s"
  shows "\<exists>t' s'. rb_remove t k False = Some (if dict (entries s) k = None then 1 else 0, t') \<and> search_tree t' s' \<and>
    dict (entries s') = (dict (entries s))(k := None)"
proof -
  obtain fs s' where s': "splits k s fs s'" "seek_loop t k (m_root t) (m_leaf t) = Some (seek_result (m_leaf t) fs s')" "holds t fs s'"
    using seek_splits [OF rb_inv_search [OF inv], of k] by blast
  show ?thesis
  proof (cases s')
    case Tip
    then have none: "dict (entries s) k = None" using s'(1) by (simp add: splits_def)
    then have "rb_remove t k False = Some (1, t)" using s'(2) Tip by (simp add: rb_remove_def)
    moreover have "(dict (entries s))(k := None) = dict (entries s)" using none by (rule fun_upd_idem)
    ultimately show ?thesis using none rb_inv_search [OF inv] by auto
  next
    case (Bin n c x l r)
    then have "dict (entries s) k \<noteq> None" using s'(1) by (simp add: splits_def)
    moreover have "rb_remove t k False = remove_at t n" using s'(2,3) Bin holds_cell(1) [of t fs n] by (simp add: rb_remove_def)
    ultimately show ?thesis using remove_at_removes [OF inv s'(1,3) [unfolded Bin]] by auto
  qed
qed


section \<open>What a removal can do to later insertions\<close>

text \<open>Trees written down as the list of their nodes; the leaf is at address 0, all counts are 1 and all values 0.\<close>

definition node_of :: "node_color \<Rightarrow> int \<Rightarrow> nat \<Rightarrow> nat \<Rightarrow> nat \<Rightarrow> (int, int) rb_node" where
  "node_of c k p l r = mk_node c (k, 0, 1) p l r"

definition blank :: "(int, int) rb_node" where
  "blank = node_of BLACK 0 0 0 0"

definition tree_of :: "(nat \<times> (int, int) rb_node) list \<Rightarrow> nat \<Rightarrow> int \<Rightarrow> (int, int) rb_tree" where
  "tree_of ns root n = \<lparr>cells = map_of ns, m_root = root, m_leaf = 0, node_num = n\<rparr>"

lemma mk_node_contents [simp]:
  "(mk_node c x p l r)\<lparr>rkey := k\<rparr> = mk_node c (k, snd x) p l r"
  "(mk_node c x p l r)\<lparr>rvalue := v\<rparr> = mk_node c (fst x, v, snd (snd x)) p l r"
  by (simp_all add: mk_node_def)

lemmas tree_eval = tree_of_def node_of_def blank_def rb_insert_def attach_node_def InsertFixup_def set_color_def modify_def color_at_def
  parent_at_def child_at_def rotate_node_def relink_def MAX_TREE_SIZE_def seek_loop.simps insert_fixup_loop.simps

lemma insertions:
  "rb_insert (tree_of [(0, node_of BLACK 0 0 0 0)] 0 0) 9 0 False False (Some (1, blank)) =
    Some (0, tree_of [(0, node_of BLACK 0 0 0 0), (1, node_of BLACK 9 0 0 0)] 1 1)"
  "rb_insert (tree_of [(0, node_of BLACK 0 0 0 0), (1, node_of BLACK 9 0 0 0)] 1 1) 8 0 False False (Some (2, blank)) =
    Some (0, tree_of [(0, node_of BLACK 0 0 0 0), (1, node_of BLACK 9 0 2 0), (2, node_of RED 8 1 0 0)] 1 2)"
  "rb_insert (tree_of [(0, node_of BLACK 0 0 0 0), (1, node_of BLACK 9 0 2 0), (2, node_of RED 8 1 0 0)] 1 2) 3 0 False False (Some (3, blank)) =
    Some (0, tree_of [(0, node_of BLACK 0 0 0 0), (1, node_of RED 9 2 0 0), (2, node_of BLACK 8 0 3 1), (3, node_of RED 3 2 0 0)] 2 3)"
  "rb_insert (tree_of [(0, node_of BLACK 0 0 0 0), (1, node_of RED 9 2 0 0), (2, node_of BLACK 8 0 3 1), (3, node_of RED 3 2 0 0)] 2 3) 5 0 False False (Some (4, blank)) =
    Some (0, tree_of [(0, node_of BLACK 0 0 0 0), (1, node_of BLACK 9 2 0 0), (2, node_of BLACK 8 0 3 1), (3, node_of BLACK 3 2 0 4), (4, node_of RED 5 3 0 0)] 2 4)"
  "rb_insert (tree_of [(0, node_of BLACK 0 0 0 0), (1, node_of BLACK 9 2 0 0), (2, node_of BLACK 8 0 3 1), (3, node_of BLACK 3 2 0 4), (4, node_of RED 5 3 0 0)] 2 4) 7 0 False False (Some (5, blank)) =
    Some (0, tree_of [(0, node_of BLACK 0 0 0 0), (1, node_of BLACK 9 2 0 0), (2, node_of BLACK 8 0 4 1), (3, node_of RED 3 4 0 0), (4, node_of BLACK 5 2 3 5), (5, node_of RED 7 4 0 0)] 2 5)"
  "rb_insert (tree_of [(0, node_of BLACK 0 0 0 0), (1, node_of BLACK 9 2 0 0), (2, node_of BLACK 8 0 4 1), (3, node_of RED 3 4 0 0), (4, node_of BLACK 5 2 3 5), (5, node_of RED 7 4 0 0)] 2 5) 2 0 False False (Some (6, blank)) =
    Some (0, tree_of [(0, node_of BLACK 0 0 0 0), (1, node_of BLACK 9 2 0 0), (2, node_of BLACK 8 0 4 1), (3, node_of BLACK 3 4 6 0), (4, node_of RED 5 2 3 5), (5, node_of BLACK 7 4 0 0), (6, node_of RED 2 3 0 0)] 2 6)"
  "rb_insert (tree_of [(0, node_of BLACK 0 0 0 0), (1, node_of BLACK 9 2 0 0), (2, node_of BLACK 8 0 4 1), (3, node_of BLACK 3 4 6 0), (4, node_of RED 5 2 3 5), (5, node_of BLACK 7 4 0 0), (6, node_of RED 2 3 0 0)] 2 6) 4 0 False False (Some (7, blank)) =
    Some (0, tree_of [(0, node_of BLACK 0 0 0 0), (1, node_of BLACK 9 2 0 0), (2, node_of BLACK 8 0 4 1), (3, node_of BLACK 3 4 6 7), (4, node_of RED 5 2 3 5), (5, node_of BLACK 7 4 0 0), (6, node_of RED 2 3 0 0), (7, node_of RED 4 3 0 0)] 2 7)"
  by (simp_all add: tree_eval fun_eq_iff)
lemma removal:
  "rb_remove (tree_of [(0, node_of BLACK 0 0 0 0), (1, node_of BLACK 9 2 0 0), (2, node_of BLACK 8 0 4 1), (3, node_of BLACK 3 4 6 7), (4, node_of RED 5 2 3 5), (5, node_of BLACK 7 4 0 0), (6, node_of RED 2 3 0 0), (7, node_of RED 4 3 0 0)] 2 7) 8 False =
    Some (0, tree_of [(0, node_of BLACK 0 2 0 0), (2, node_of BLACK 9 4 5 0), (3, node_of BLACK 3 4 6 7), (4, node_of RED 5 0 3 2), (5, node_of RED 7 2 0 0), (6, node_of RED 2 3 0 0), (7, node_of RED 4 3 0 0)] 4 6)"
  by (simp add: tree_eval rb_remove_def remove_at_def unlink_node_def leftmost_loop.simps DeleteFixup_def delete_fixup_loop.simps
      red_brother_def black_brother_def fun_eq_iff)

lemma insertion_after_removal:
  "rb_insert (tree_of [(0, node_of BLACK 0 2 0 0), (2, node_of BLACK 9 4 5 0), (3, node_of BLACK 3 4 6 7), (4, node_of RED 5 0 3 2), (5, node_of RED 7 2 0 0), (6, node_of RED 2 3 0 0), (7, node_of RED 4 3 0 0)] 4 6) 1 0 False False (Some (8, blank)) =
    Some (0, tree_of [(0, node_of RED 0 0 0 0), (2, node_of BLACK 9 4 5 0), (3, node_of BLACK 3 0 6 4), (4, node_of RED 5 3 7 2), (5, node_of RED 7 2 0 0), (6, node_of BLACK 2 3 8 0), (7, node_of BLACK 4 4 0 0), (8, node_of RED 1 6 0 0)] 3 7)"
  by (simp add: tree_eval fun_eq_iff)

text \<open>Once the leaf is red and its own parent, the loop of \<open>InsertFixup\<close> at the leaf comes back to the same state.\<close>

definition stuck :: "('k, 'v) rb_tree \<Rightarrow> nat \<Rightarrow> bool" where
  "stuck t n \<longleftrightarrow> n = m_leaf t \<and> (\<exists>m. cells t n = Some m \<and> rcolor m = RED \<and> rparent m = n \<and> rleft m = n \<and> rright m = n)"

lemma stuck_turn:
  assumes "stuck t n"
  shows "parent_at t n = Some n" "color_at t n = Some RED" "child_at d t n = Some n"
    "\<exists>t' t''. set_color n BLACK t = Some t' \<and> set_color n BLACK t' = Some t' \<and> parent_at t' n = Some n \<and> set_color n RED t' = Some t'' \<and> stuck t'' n"
  using assms by (cases d; auto simp: stuck_def parent_at_def color_at_def child_at_def set_color_def modify_def)+

lemma stuck_never_returns:
  assumes "stuck t n"
  shows "insert_fixup_loop t n = None"
proof -
  have "insert_fixup_loop t n = Some r \<Longrightarrow> \<not> stuck t n" for t :: "('a, 'b) rb_tree" and n r
  proof (rule insert_fixup_loop.raw_induct [where P = "\<lambda>t n r. \<not> stuck t n"])
    fix f :: "('a, 'b) rb_tree \<Rightarrow> nat \<Rightarrow> ('a, 'b) rb_tree option" and t n r
    assume IH: "\<And>t n r. f t n = Some r \<Longrightarrow> \<not> stuck t n"
    assume body: "(do {
       p \<leftarrow> parent_at t n;
       c \<leftarrow> color_at t p;
       if c \<noteq> RED then Some t
       else do {
         g \<leftarrow> parent_at t p;
         l \<leftarrow> child_at Lft t g;
         let d = (if p = l then Lft else Rgt);
         uncle \<leftarrow> child_at (opp d) t g;
         cu \<leftarrow> color_at t uncle;
         if cu = RED then do {
           t \<leftarrow> set_color p BLACK t;
           t \<leftarrow> set_color uncle BLACK t;
           node \<leftarrow> parent_at t uncle;
           t \<leftarrow> set_color node RED t;
           f t node }
         else do {
           i \<leftarrow> child_at (opp d) t p;
           (t, node) \<leftarrow> (if n = i then do { t \<leftarrow> rotate_node d t p; Some (t, p) } else Some (t, n));
           p \<leftarrow> parent_at t node;
           t \<leftarrow> set_color p BLACK t;
           g \<leftarrow> parent_at t p;
           t \<leftarrow> set_color g RED t;
           rotate_node (opp d) t g } } }) = Some r"
    show "\<not> stuck t n"
    proof
      assume stuck: "stuck t n"
      then obtain t' t'' where "set_color n BLACK t = Some t'" "set_color n BLACK t' = Some t'" "parent_at t' n = Some n"
          "set_color n RED t' = Some t''" "stuck t'' n"
        using stuck_turn(4) by blast
      then have "f t'' n = Some r" using body stuck_turn(1-3) [OF stuck] by (simp add: Let_def)
      then show False using IH \<open>stuck t'' n\<close> by blast
    qed
  qed
  then show ?thesis using assms by (cases "insert_fixup_loop t n") auto
qed

lemma last_insertion:
  "rb_insert (tree_of [(0, node_of RED 0 0 0 0), (2, node_of BLACK 9 4 5 0), (3, node_of BLACK 3 0 6 4), (4, node_of RED 5 3 7 2), (5, node_of RED 7 2 0 0), (6, node_of BLACK 2 3 8 0), (7, node_of BLACK 4 4 0 0), (8, node_of RED 1 6 0 0)] 3 7) 6 0 False False (Some (9, blank)) = None"
  by (simp add: tree_eval del: insert_fixup_loop.simps) (subst insert_fixup_loop.simps, simp add: tree_eval stuck_never_returns stuck_def del: insert_fixup_loop.simps)

end
