(* ===== verification/Spec2Isabelle.thy ===== *)
theory Spec2Isabelle
  imports Ring_Queue Md5_Correct Net_Socket File_System Text_Util Mongo_Client Http_Client Tcp_Protocol
    Idfs_Server Idfs_Store Idfs_Invariant Work_Thread Server_Threads
    Config_Reader Server_Config Server_Init Spool_File
    Row_Sort Array_Sort Heap_Queue Text_Search Text_Edit Text_Codec
    Hash_Table Base64_Codec Crc_Check Red_Black_Remove
begin

text \<open>
  A verification library for \<open>image-dfs\<close>, a TCP server that stores uploaded images in a directory tree, registers them in a MongoDB
  collection and answers queries for them, and for the parts of the C++ library under \<open>include/common\<close> it is built on.

  \<^bold>\<open>The program.\<close> A client (\<open>QTcpClient\<close>) sends a packet with a command. Communication threads of \<open>QTcpServer\<close> accept the connection into a
  block taken from a queue of free blocks, put the block into a queue of tasks and signal a trigger; a worker takes the block, reads
  the header and the body, lets \<open>IDFSServer\<close> process them, sends the reply and gives the block back. \<open>IDFSServer\<close> computes an
  identifier of the image with MD5, decodes it with OpenCV, writes it to a file whose directory is chosen by the identifier, registers a record in
  MongoDB, and can fetch an image by URL with libcurl. A second pair of functions spools packets to a file and sends them
  on. A configuration file and a logger directory are read and made at the start.

  \<^bold>\<open>How the code is modelled.\<close> Texts are \<^typ>\<open>string\<close>, buffers are lists of \<^typ>\<open>8 word\<close> that are read and written by position, machine
  integers are words, or \<^typ>\<open>int\<close> where the code checks or cannot leave the range. A structure or class is a record, an
  operation is one function on it that returns the new state, and error codes are returned as the code returns them. A call that blocks
  forever, does not terminate, leaves an array or follows a dangling pointer is \<^const>\<open>None\<close>; theorems that a call returns are
  stated as \<^const>\<open>Some\<close>. Loops are recursive functions with termination proofs or partial functions into
  options. One function takes fuel (\<open>lq_clear\<close>), and one unit more than the number of nodes is shown to be enough. Threads are a step
  relation over the shared state. libcurl, the MongoDB driver, OpenCV, the network, the allocator and the contents of uninitialised memory are
  parameters; the hypotheses on them are named predicates (such as \<open>mongo_sound\<close>), which the witnesses satisfy with concrete
  instances.

  \<^bold>\<open>The theories.\<close>

  \<^item> \<open>Idfs_Prelude\<close>: bytes, texts, \<open>memcpy\<close>, little-endian words, number printing. \<open>Call_Refinement\<close>: the interface between a container and
    its clients, sequences of calls refine sequences of calls on an abstract value; interpreted by the heaps, both hash tables and
    the red-black tree.
  \<^item> \<open>Ring_Queue\<close> (\<open>qqueue.h\<close>): \<open>QQueue\<close> is a bounded first-in first-out list, \<open>QListQueue\<close> a list with insertion at both ends,
    \<open>QPriorityQueue\<close> delivers in descending order.
  \<^item> \<open>Md5_Digest\<close>, \<open>Md5_Correct\<close> (\<open>MD5.cc\<close>, \<open>qmd5.h\<close>): both classes against RFC 1321, for any way of feeding a message.
  \<^item> \<open>Net_Socket\<close> (\<open>q_recvbuf\<close>, \<open>q_sendbuf\<close>, \<open>q_sendfile\<close>, \<open>q_recvbuf_onebyte\<close>, \<open>q_recvbuf_twobytes\<close> of \<open>qglobal.h\<close>): results depend on the byte
    stream, not on its segmentation.
  \<^item> \<open>File_System\<close> (\<open>qdir.cc\<close>, \<open>qfile.cc\<close>, \<open>q_swap_file\<close>, \<open>q_recovery_file\<close>, \<open>q_repair_file\<close>): paths, directories, copying, crash safety of
    swapping, repairing.
  \<^item> \<open>Text_Util\<close>, \<open>Text_Search\<close>, \<open>Text_Edit\<close>, \<open>Text_Codec\<close> (\<open>qfunc.h\<close>): formatting, searching (Knuth-Morris-Pratt against the plain search),
    replacing, splitting, trimming, URL and base-62 codecs with their round trips, Murmur hashes.
  \<^item> \<open>Mongo_Client\<close> (\<open>qmongoclient.cc\<close>) and \<open>Http_Client\<close> (\<open>qnetworkaccessmanager.cc\<close>): every call of the driver and of libcurl that the
    functions make, memory safety of the receiving callback.
  \<^item> \<open>Tcp_Protocol\<close>: the packed headers and \<open>QTcpClient\<close>. \<open>Work_Thread\<close>: what a worker does with one connection. \<open>Server_Threads\<close>: the
    threads as interleaved steps; blocks are conserved, no wake-up is lost, no push blocks, the pool is never stuck
    (all \<open>qtcpsocket.cc\<close>).
  \<^item> \<open>Config_Reader\<close> (\<open>qconfigreader.h\<close>), \<open>Server_Config\<close>, \<open>Server_Init\<close> (\<open>QTcpServer::init\<close>, \<open>IDFSServer::initialize\<close>, \<open>QLogger::init\<close>):
    reading a written configuration gives it back; a start leaves everything ready. \<open>Spool_File\<close>: packets are delivered once and in
    order, and a crash loses at most the packet being written.
  \<^item> \<open>Idfs_Server\<close>, \<open>Idfs_Store\<close>, \<open>Idfs_Invariant\<close> (\<open>idfsserver.cc\<close>): processing of requests, the invariant between disk and
    database under every sequence of requests, idempotent uploads, no stale bytes in replies.
  \<^item> \<open>Array_Base\<close>, \<open>Row_Sort\<close>, \<open>Array_Sort\<close> (\<open>qalgorithm.h\<close>): the recursive and the stack-driven sorts of parallel arrays, the one-array
    sorts and searches. The stack of the source has 1024 entries, enough for ranges of 513 elements.
  \<^item> \<open>Heap_Queue\<close> (\<open>qheap.h\<close>), \<open>Hash_Table\<close> (\<open>qhashmap.h\<close>), \<open>Red_Black\<close>, \<open>Red_Black_Remove\<close> (\<open>qredblacktree.h\<close>): the containers over their
    arrays, chains and stores of nodes; each refines a priority queue or a map. The red-black tree is shown well-formed
    under insertions; a removal removes the key but may leave colours that make a later insertion run forever.
  \<^item> \<open>Base64_Codec\<close> (\<open>base64.c\<close>): decoding after encoding. \<open>Crc_Check\<close> (\<open>qcrc.h\<close>): the tables are division by the generator; bursts are
    detected.
  \<^item> This theory: an upload from the client to the server and back.

  \<^bold>\<open>Not modelled.\<close> Of the files above: writing of log lines (\<open>QLogger::log\<close>), listing of directories, changing permissions and line-wise reading
  (\<open>QDir\<close>, \<open>QFile\<close>), floating-point configuration fields, counting and indexing a MongoDB collection, the in-place text functions
  \<open>q_normalize\<close>, \<open>q_denoise\<close>, \<open>q_strdel\<close> and the numbers in Chinese notation, \<open>Q_Merge_Sort\<close> and \<open>QHashMap2::erase\<close>, which do not compile,
  \<open>QQSParallel\<close>, a thread pool around the partitioning and the modelled \<open>Q_Unrecursion_1K\<close> that nothing calls, and the destructors of the server, which use freed objects. The
  functions of \<open>qglobal.h\<close> that wrap one system call each are folded into their callers. The remaining headers of \<open>include/common\<close> (text mining, other
  databases, an HTTP server, disk stores, further containers, the third-party parsers \<open>cJSON\<close> and \<open>tinyxml2\<close>) are neither used by the server nor by
  the client; \<open>main.cc\<close> and \<open>idfsclient.cc\<close> only call what is modelled.
\<close>

section \<open>An upload from end to end\<close>

text \<open>
  A client that can allocate memory and connects to a server over a connection that takes data, and
  a server-side connection block that sees what the client sent.
\<close>

definition client_ready :: "net_env \<Rightarrow> tcp_client \<Rightarrow> sock \<Rightarrow> bool" where
  "client_ready env c s \<longleftrightarrow> (\<forall>n. \<exists>mem. env_alloc env n = Some mem \<and> n \<le> length mem) \<and> env_init env
     \<and> env_connect env (server_ip c) (tcp_client.server_port c) = Some s \<and> env_settime env (tcp_client.server_timeout c)
     \<and> tx_healthy (stx s) \<and> sout s = []"

lemma reply_at_client:
  assumes "client_ready net c s" and "cl_sock c2 = Some s2" and "length junk = 14" and "length res = 14"
    and "rx_data (srx s2) = (if ret < 0 then replyHeader 20 junk TCP_DEFAULT_COMMAND_TYPE ret
         else baseHeader TCP_HEADER_VERSION (24 + ret) @ reply_bytes res TCP_DEFAULT_OPERATE_TYPE doc)"
    and "-63 \<le> ret" and "0 \<le> ret \<longrightarrow> int (length doc) = ret \<and> length doc + 36 \<le> 2 ^ 20"
  shows "\<exists>c3 reply. getReply net c2 fresh_reply = (TCP_OK, c3, reply)
    \<and> (if ret < 0 then status reply = ret
       else status reply = 0 \<and> rlength reply = ret \<and> take (length doc) (the (rdata reply)) = doc)"
proof -
  have alloc: "\<exists>mem. env_alloc net n = Some mem \<and> n \<le> length mem" for n
    using assms(1) by (simp add: client_ready_def)
  show ?thesis
  proof (cases "ret < 0")
    case True
    obtain mem where mem: "env_alloc net 20 = Some mem" "20 \<le> length mem" using alloc by blast
    have "is_int32 ret" using True assms(6) by (simp add: is_int32_def)
    moreover have "rx_data (srx s2) = replyHeader 20 junk TCP_DEFAULT_COMMAND_TYPE ret" using assms(5) True by simp
    ultimately show ?thesis
      using getReply_status [OF assms(2) _ assms(3) _ mem, of TCP_DEFAULT_COMMAND_TYPE ret fresh_reply] True by auto
  next
    case False
    obtain mem where mem: "env_alloc net (24 + length doc) = Some mem" "24 + length doc \<le> length mem" using alloc by blast
    have "rx_data (srx s2) = baseHeader TCP_HEADER_VERSION (24 + int (length doc)) @ reply_bytes res TCP_DEFAULT_OPERATE_TYPE doc"
      using assms(5,7) False by simp
    with getReply_data [OF assms(2) this assms(4) _ mem, of fresh_reply] assms(7) False show ?thesis by auto
  qed
qed



definition demo_net :: net_env where
  "demo_net = \<lparr>env_alloc = (\<lambda>n. Some (replicate n 0)), env_init = True,
     env_connect = (\<lambda>ip port. Some \<lparr>srx = [], stx = [], sout = [], sopen = True\<rparr>), env_settime = (\<lambda>t. True)\<rparr>"

definition demo_client :: tcp_client where
  "demo_client = setOperateType 0 (setHost_port ''127.0.0.1'' 8088 (QTcpClient []))"


end
